(* ===== verification/Prelude.thy ===== *)
theory Prelude
  imports Main "HOL-Library.Char_ord" "HOL-Library.List_Lexorder"
begin

text \<open>
  The part of Go's language and standard library that several components use, and the generic
  lemmas about it. A Go string is its list of bytes (\<open>string\<close>). The case and space functions are
  exact on ASCII bytes and treat a byte from 128 up as a letter without case: the Unicode case
  folding of \<open>strings.ToLower\<close> and \<open>strings.EqualFold\<close> and the Unicode spaces of
  \<open>strings.TrimSpace\<close> are not modelled. A Go \<open>int\<close> is 64 bits wide: a value is an \<open>int\<close>, a
  parse that leaves the range fails (\<open>atoi\<close>), and an addition that may overflow is wrapped by
  \<open>wrap64\<close>. A Go map that the code only tests for membership is the list of its keys.
\<close>

named_theorems go_eval \<comment> \<open>definitions that evaluate the string and number functions on literals\<close>

section \<open>Bytes\<close>

definition is_space :: "char \<Rightarrow> bool" where
  "is_space c \<longleftrightarrow> c \<in> {CHR 0x09, CHR 0x0A, CHR 0x0B, CHR 0x0C, CHR 0x0D, CHR 0x20}"

definition is_digit :: "char \<Rightarrow> bool" where
  "is_digit c \<longleftrightarrow> 48 \<le> (of_char c :: nat) \<and> of_char c \<le> (57 :: nat)"

definition lower_char :: "char \<Rightarrow> char" where
  "lower_char c = (if 65 \<le> (of_char c :: nat) \<and> of_char c \<le> (90 :: nat)
     then char_of (of_char c + 32 :: nat) else c)"

definition digit_char :: "nat \<Rightarrow> char" where
  "digit_char d = char_of (48 + d)"

definition digit_val :: "char \<Rightarrow> nat" where
  "digit_val c = of_char c - 48"

lemmas is_digit_iff = is_digit_def

lemma of_char_digit: "d < 10 \<Longrightarrow> (of_char (digit_char d) :: nat) = 48 + d"
  by (simp add: digit_char_def)

lemma is_digit_digit_char [simp]: "d < 10 \<Longrightarrow> is_digit (digit_char d)"
  by (simp add: is_digit_iff of_char_digit)

lemma digit_val_digit_char [simp]: "d < 10 \<Longrightarrow> digit_val (digit_char d) = d"
  by (simp add: digit_val_def of_char_digit)

lemma is_digit_not_space: "is_digit c \<Longrightarrow> \<not> is_space c"
  by (auto simp: is_digit_def is_space_def)

lemma lower_digit: "is_digit c \<Longrightarrow> lower_char c = c"
  by (auto simp: is_digit_iff lower_char_def)

lemma lower_char_NUL: "lower_char c = CHR 0x00 \<longleftrightarrow> c = CHR 0x00"
proof
  assume "lower_char c = CHR 0x00"
  then have z: "(of_char (lower_char c) :: nat) = 0" by simp
  show "c = CHR 0x00"
  proof (cases "65 \<le> (of_char c :: nat) \<and> of_char c \<le> (90 :: nat)")
    case True
    then show ?thesis using z by (simp add: lower_char_def)
  next
    case False
    with \<open>lower_char c = CHR 0x00\<close> show ?thesis by (simp add: lower_char_def split: if_splits)
  qed
qed (simp add: lower_char_def)

lemma lower_char_idem [simp]: "lower_char (lower_char c) = lower_char c"
  by (auto simp: lower_char_def)

section \<open>Strings\<close>

definition to_lower :: "string \<Rightarrow> string" where
  "to_lower = map lower_char"

definition trim_left :: "string \<Rightarrow> string" where
  "trim_left s = dropWhile is_space s"

definition trim_right :: "string \<Rightarrow> string" where
  "trim_right s = rev (dropWhile is_space (rev s))"

definition trim_space :: "string \<Rightarrow> string" where
  "trim_space s = trim_right (trim_left s)"

definition equal_fold :: "string \<Rightarrow> string \<Rightarrow> bool" where
  "equal_fold a b \<longleftrightarrow> to_lower a = to_lower b"

fun has_prefix :: "string \<Rightarrow> string \<Rightarrow> bool" where
  "has_prefix [] s = True"
| "has_prefix (p # ps) [] = False"
| "has_prefix (p # ps) (c # cs) = (p = c \<and> has_prefix ps cs)"

definition has_suffix :: "string \<Rightarrow> string \<Rightarrow> bool" where
  "has_suffix p s \<longleftrightarrow> has_prefix (rev p) (rev s)"

definition trim_prefix :: "string \<Rightarrow> string \<Rightarrow> string" where
  "trim_prefix p s = (if has_prefix p s then drop (length p) s else s)"

fun str_index :: "string \<Rightarrow> string \<Rightarrow> nat option" where
  "str_index sub [] = (if sub = [] then Some 0 else None)"
| "str_index sub (c # cs) =
     (if has_prefix sub (c # cs) then Some 0 else map_option Suc (str_index sub cs))"

definition str_contains :: "string \<Rightarrow> string \<Rightarrow> bool" where
  "str_contains sub s \<longleftrightarrow> str_index sub s \<noteq> None"

definition str_cut :: "string \<Rightarrow> string \<Rightarrow> (string \<times> string) option" where
  "str_cut sep s = map_option (\<lambda>i. (take i s, drop (i + length sep) s)) (str_index sep s)"

fun split_on :: "char \<Rightarrow> string \<Rightarrow> string list" where
  "split_on d [] = [[]]"
| "split_on d (c # cs) =
     (if c = d then [] # split_on d cs
      else (case split_on d cs of [] \<Rightarrow> [[c]] | p # ps \<Rightarrow> (c # p) # ps))"

fun str_join :: "string \<Rightarrow> string list \<Rightarrow> string" where
  "str_join sep [] = []"
| "str_join sep [x] = x"
| "str_join sep (x # y # zs) = x @ sep @ str_join sep (y # zs)"

definition NUL :: string where
  "NUL = [CHR 0x00]"  \<comment> \<open>the separator of composite keys\<close>

definition trim_char_right :: "char \<Rightarrow> string \<Rightarrow> string" where
  "trim_char_right c s = rev (dropWhile ((=) c) (rev s))"

definition trim_char :: "char \<Rightarrow> string \<Rightarrow> string" where
  "trim_char c s = trim_char_right c (dropWhile ((=) c) s)"

definition replace_char :: "char \<Rightarrow> char \<Rightarrow> string \<Rightarrow> string" where
  "replace_char a b = map (\<lambda>c. if c = a then b else c)"

lemma has_prefix_append [simp]: "has_prefix p (p @ s)"
  by (induction p) auto

lemma has_prefix_iff: "has_prefix p s \<longleftrightarrow> (\<exists>t. s = p @ t)"
  by (induction p s rule: has_prefix.induct) auto

lemma has_prefix_same [simp]: "has_prefix p p"
  by (simp add: has_prefix_iff)

lemma has_suffix_iff: "has_suffix p s \<longleftrightarrow> (\<exists>t. s = t @ p)"
proof -
  have "(\<exists>t. rev s = rev p @ t) \<longleftrightarrow> (\<exists>t. s = t @ p)"
    by (metis rev_append rev_rev_ident)
  then show ?thesis by (simp add: has_suffix_def has_prefix_iff)
qed

lemma to_lower_simps [simp]:
  "to_lower [] = []" "to_lower (c # cs) = lower_char c # to_lower cs"
  "to_lower (a @ b) = to_lower a @ to_lower b" "length (to_lower a) = length a"
  by (simp_all add: to_lower_def)

lemma to_lower_NUL: "CHR 0x00 \<in> set (to_lower s) \<longleftrightarrow> CHR 0x00 \<in> set s"
proof -
  have "CHR 0x00 \<in> set (to_lower s) \<longleftrightarrow> (\<exists>c \<in> set s. lower_char c = CHR 0x00)"
    unfolding to_lower_def set_map image_iff by metis
  then show ?thesis by (simp add: lower_char_NUL)
qed


lemma to_lower_idem [simp]: "to_lower (to_lower s) = to_lower s"
  by (induction s) auto

lemma equal_fold_refl [simp]: "equal_fold s s"
  by (simp add: equal_fold_def)

lemma equal_fold_sym: "equal_fold a b \<longleftrightarrow> equal_fold b a"
  by (auto simp: equal_fold_def)

lemma equal_fold_trans: "equal_fold a b \<Longrightarrow> equal_fold b c \<Longrightarrow> equal_fold a c"
  by (simp add: equal_fold_def)

lemma trim_space_id:
  assumes "s \<noteq> [] \<Longrightarrow> \<not> is_space (hd s)" and "s \<noteq> [] \<Longrightarrow> \<not> is_space (last s)"
  shows "trim_space s = s"
proof (cases "s = []")
  case True
  then show ?thesis by (simp add: trim_space_def trim_left_def trim_right_def)
next
  case False
  from assms(1) False have "dropWhile is_space s = s" by (cases s) auto
  moreover from assms(2) False have "dropWhile is_space (rev s) = rev s"
    by (cases s rule: rev_cases) auto
  ultimately show ?thesis by (simp add: trim_space_def trim_left_def trim_right_def)
qed

lemma trim_space_empty [simp]: "trim_space [] = []"
  by (simp add: trim_space_id)

lemma trim_space_no_space: "(\<And>c. c \<in> set s \<Longrightarrow> \<not> is_space c) \<Longrightarrow> trim_space s = s"
  by (rule trim_space_id) auto

lemma trim_space_ends:
  assumes "trim_space s \<noteq> []"
  shows "\<not> is_space (hd (trim_space s))" and "\<not> is_space (last (trim_space s))"
proof -
  let ?l = "dropWhile is_space s" and ?r = "trim_space s"
  have r: "?r = rev (dropWhile is_space (rev ?l))"
    by (simp add: trim_space_def trim_left_def trim_right_def)
  with assms have ne: "dropWhile is_space (rev ?l) \<noteq> []" by auto
  have "\<not> is_space (hd (dropWhile is_space (rev ?l)))"
    using ne by (rule hd_dropWhile)
  then show "\<not> is_space (last ?r)" using ne by (simp add: r last_rev)
  obtain t where t: "rev ?l = t @ dropWhile is_space (rev ?l)"
    by (metis takeWhile_dropWhile_id)
  then have "?l = ?r @ rev t" by (metis r rev_append rev_rev_ident)
  with assms have "hd ?l = hd ?r" "?l \<noteq> []" by (metis hd_append2, force)
  with hd_dropWhile [of is_space s] show "\<not> is_space (hd ?r)" by simp
qed

lemma trim_space_idem [simp]: "trim_space (trim_space s) = trim_space s"
  by (rule trim_space_id) (auto dest: trim_space_ends)

lemma length_trim_space: "length (trim_space s) \<le> length s"
proof -
  have "length (dropWhile is_space (rev (dropWhile is_space s))) \<le> length (rev (dropWhile is_space s))"
    by (rule length_dropWhile_le)
  also have "\<dots> \<le> length s" by (simp add: length_dropWhile_le)
  finally show ?thesis by (simp add: trim_space_def trim_left_def trim_right_def)
qed

lemma set_trim_space: "set (trim_space s) \<subseteq> set s"
  by (auto simp: trim_space_def trim_left_def trim_right_def dest!: set_dropWhileD)

lemma has_prefix_length: "has_prefix p s \<Longrightarrow> length p \<le> length s"
  by (auto simp: has_prefix_iff)

lemma str_index_less: "str_index sub s = Some i \<Longrightarrow> i + length sub \<le> length s"
proof (induction sub s arbitrary: i rule: str_index.induct)
  case (1 sub)
  then show ?case by (auto split: if_splits)
next
  case (2 sub c cs)
  then show ?case by (auto split: if_splits dest: has_prefix_length)
qed

lemma str_index_split: "str_index sub s = Some i \<Longrightarrow> s = take i s @ sub @ drop (i + length sub) s"
proof (induction sub s arbitrary: i rule: str_index.induct)
  case (1 sub)
  then show ?case by (auto split: if_splits)
next
  case (2 sub c cs)
  show ?case
  proof (cases "has_prefix sub (c # cs)")
    case True
    with 2 show ?thesis by (auto simp: has_prefix_iff)
  next
    case False
    with 2 show ?thesis by auto
  qed
qed

lemma str_index_char_None: "str_index [d] s = None \<longleftrightarrow> d \<notin> set s"
  by (induction s) auto

lemma str_index_char_first: "d \<notin> set p \<Longrightarrow> str_index [d] (p @ d # q) = Some (length p)"
  by (induction p) auto

lemma str_index_char_Some: "str_index [d] s = Some i \<Longrightarrow> d \<notin> set (take i s)"
  by (induction s arbitrary: i) (auto split: if_splits)

lemma str_cut_char: "d \<notin> set p \<Longrightarrow> str_cut [d] (p @ d # q) = Some (p, q)"
  by (simp add: str_cut_def str_index_char_first)

lemma str_cut_char_None: "str_cut [d] s = None \<longleftrightarrow> d \<notin> set s"
  by (simp add: str_cut_def str_index_char_None)

lemma str_cut_Some: "str_cut sep s = Some (a, b) \<Longrightarrow> s = a @ sep @ b"
  by (auto simp: str_cut_def dest: str_index_split)

lemma split_on_not_Nil [simp]: "split_on d s \<noteq> []"
  by (induction s) (auto split: list.splits)

lemma split_on_no_sep: "d \<notin> set p \<Longrightarrow> split_on d p = [p]"
  by (induction p) auto

lemma split_on_append: "d \<notin> set p \<Longrightarrow> split_on d (p @ d # q) = p # split_on d q"
  by (induction p) (auto split: list.splits)

lemma split_on_join:
  assumes "xs \<noteq> []" and "\<And>x. x \<in> set xs \<Longrightarrow> d \<notin> set x"
  shows "split_on d (str_join [d] xs) = xs"
  using assms
proof (induction "[d]" xs rule: str_join.induct)
  case (2 x)
  then show ?case by (simp add: split_on_no_sep)
next
  case (3 x y zs)
  then show ?case by (simp add: split_on_append)
qed simp

lemma str_join_split: "str_join [d] (split_on d s) = s"
proof (induction s)
  case (Cons c cs)
  obtain p ps where ps: "split_on d cs = p # ps" by (cases "split_on d cs") auto
  with Cons show ?case by (cases ps) auto
qed simp

lemma split_on_pieces: "p \<in> set (split_on d s) \<Longrightarrow> d \<notin> set p"
  by (induction s arbitrary: p) (auto split: list.splits if_splits)

section \<open>Numbers\<close>

definition wrap64 :: "int \<Rightarrow> int" where
  "wrap64 x = (x + 2 ^ 63) mod 2 ^ 64 - 2 ^ 63"

definition in_int64 :: "int \<Rightarrow> bool" where
  "in_int64 x \<longleftrightarrow> - (2 ^ 63) \<le> x \<and> x < 2 ^ 63"

lemma wrap64_id [simp]: "in_int64 x \<Longrightarrow> wrap64 x = x"
  by (simp add: in_int64_def wrap64_def)

lemma in_int64_wrap64 [simp]: "in_int64 (wrap64 x)"
  using pos_mod_bound [of "2 ^ 64" "x + 2 ^ 63"] pos_mod_sign [of "2 ^ 64" "x + 2 ^ 63"]
  by (simp add: in_int64_def wrap64_def del: pos_mod_bound pos_mod_sign)

lemma wrap64_le: "- (2 ^ 63) \<le> x \<Longrightarrow> wrap64 x \<le> x"
  using zmod_le_nonneg_dividend [of "x + 2 ^ 63" "2 ^ 64"] by (simp add: wrap64_def)

fun nat_digits :: "nat \<Rightarrow> string" where
  "nat_digits n = (if n < 10 then [digit_char n] else nat_digits (n div 10) @ [digit_char (n mod 10)])"

declare nat_digits.simps [simp del]

definition itoa :: "int \<Rightarrow> string" where
  "itoa i = (if i < 0 then CHR ''-'' # nat_digits (nat (- i)) else nat_digits (nat i))"

fun parse_nat :: "nat \<Rightarrow> string \<Rightarrow> nat option" where
  "parse_nat acc [] = Some acc"
| "parse_nat acc (c # cs) = (if is_digit c then parse_nat (acc * 10 + digit_val c) cs else None)"

definition atoi :: "string \<Rightarrow> int option" where
  "atoi s =
     (let neg = has_prefix ''-'' s;
          ds = (if has_prefix ''-'' s \<or> has_prefix ''+'' s then tl s else s)
      in if ds = [] then None
         else (case parse_nat 0 ds of
                 None \<Rightarrow> None
               | Some n \<Rightarrow> (let v = (if neg then - int n else int n)
                           in if in_int64 v then Some v else None)))"

lemma parse_nat_append:
  "parse_nat acc (a @ b) = (case parse_nat acc a of None \<Rightarrow> None | Some n \<Rightarrow> parse_nat n b)"
  by (induction a arbitrary: acc) auto

lemma nat_digits_not_Nil [simp]: "nat_digits n \<noteq> []"
  by (subst nat_digits.simps) simp

lemma parse_nat_digits [simp]: "parse_nat 0 (nat_digits n) = Some n"
proof (induction n rule: nat_digits.induct)
  case (1 n)
  then show ?case
    by (cases "n < 10") (simp_all add: nat_digits.simps [of n] parse_nat_append)
qed

lemma set_nat_digits: "c \<in> set (nat_digits n) \<Longrightarrow> is_digit c"
proof (induction n rule: nat_digits.induct)
  case (1 n)
  then show ?case
    by (cases "n < 10") (auto simp: nat_digits.simps [of n])
qed

lemma nat_digits_no_sign: "\<not> has_prefix ''-'' (nat_digits n)" "\<not> has_prefix ''+'' (nat_digits n)"
  using set_nat_digits [of _ n] by (cases "nat_digits n"; force simp: is_digit_def)+

lemma atoi_itoa [simp]: "in_int64 i \<Longrightarrow> atoi (itoa i) = Some i"
  by (cases "i < 0") (auto simp: atoi_def itoa_def nat_digits_no_sign Let_def)

lemma atoi_range: "atoi s = Some i \<Longrightarrow> in_int64 i"
  by (auto simp: atoi_def Let_def split: if_splits option.splits)

lemma itoa_not_Nil [simp]: "itoa i \<noteq> []"
  by (simp add: itoa_def)

lemma set_itoa: "c \<in> set (itoa i) \<Longrightarrow> is_digit c \<or> c = CHR ''-''"
  by (auto simp: itoa_def split: if_splits dest: set_nat_digits)

lemma set_itoa_nonneg: "0 \<le> i \<Longrightarrow> c \<in> set (itoa i) \<Longrightarrow> is_digit c"
  by (auto simp: itoa_def dest: set_nat_digits)

lemma trim_space_itoa [simp]: "trim_space (itoa i) = itoa i"
  by (rule trim_space_no_space) (auto dest!: set_itoa dest: is_digit_not_space simp: is_space_def [of "CHR ''-''"])

lemma to_lower_itoa [simp]: "to_lower (itoa i) = itoa i"
  unfolding to_lower_def
  by (rule map_idI) (auto dest!: set_itoa simp: lower_digit, simp add: lower_char_def)

lemma itoa_inject: "itoa i = itoa j \<Longrightarrow> in_int64 i \<Longrightarrow> in_int64 j \<Longrightarrow> i = j"
  by (metis atoi_itoa option.inject)

section \<open>First occurrences\<close>

text \<open>
  The loops that keep a value when its key was not seen before: \<open>seen\<close> is the list of the keys
  the Go map holds so far.
\<close>

fun first_by :: "('a \<Rightarrow> 'k) \<Rightarrow> 'k list \<Rightarrow> 'a list \<Rightarrow> 'a list" where
  "first_by k seen [] = []"
| "first_by k seen (x # xs) =
     (if k x \<in> set seen then first_by k seen xs else x # first_by k (k x # seen) xs)"

lemma set_first_by_key: "k ` set (first_by k seen xs) = k ` set xs - set seen"
  by (induction k seen xs rule: first_by.induct) auto

lemma set_first_by: "set (first_by k seen xs) \<subseteq> set xs"
  by (induction k seen xs rule: first_by.induct) auto

lemma distinct_first_by: "distinct (map k (first_by k seen xs))"
proof (induction k seen xs rule: first_by.induct)
  case (2 k seen x xs)
  then show ?case using set_first_by_key [of k "k x # seen" xs] by auto
qed simp

lemma first_by_id: "distinct (map k xs) \<Longrightarrow> k ` set xs \<inter> set seen = {} \<Longrightarrow> first_by k seen xs = xs"
  by (induction k seen xs rule: first_by.induct) auto

text \<open>The loops that look for the first element with a property and return its index.\<close>

fun find_index :: "('a \<Rightarrow> bool) \<Rightarrow> 'a list \<Rightarrow> nat option" where
  "find_index P [] = None"
| "find_index P (x # xs) = (if P x then Some 0 else map_option Suc (find_index P xs))"

lemma find_index_Some: "find_index P xs = Some i \<Longrightarrow> i < length xs \<and> P (xs ! i)"
  by (induction xs arbitrary: i) (auto split: if_splits)

lemma find_index_None: "find_index P xs = None \<longleftrightarrow> (\<forall>x \<in> set xs. \<not> P x)"
  by (induction xs) auto

lemma find_Some_mem: "List.find P xs = Some x \<Longrightarrow> x \<in> set xs \<and> P x"
  by (auto simp: find_Some_iff)

section \<open>Stable sorting\<close>

text \<open>\<open>sort.SliceStable\<close> by a key is \<open>sort_key\<close>, which is stable.\<close>

lemma sort_key_id: "sorted (map k xs) \<Longrightarrow> sort_key k xs = xs"
  by (induction xs) (auto simp: insort_is_Cons)

declare
  is_space_def [go_eval] is_digit_def [go_eval] lower_char_def [go_eval] digit_char_def [go_eval]
  digit_val_def [go_eval] trim_left_def [go_eval] trim_right_def [go_eval] trim_space_def [go_eval]
  equal_fold_def [go_eval] has_suffix_def [go_eval] trim_prefix_def [go_eval]
  str_contains_def [go_eval] str_cut_def [go_eval] replace_char_def [go_eval]
  wrap64_def [go_eval] in_int64_def [go_eval] itoa_def [go_eval] atoi_def [go_eval] Let_def [go_eval]

lemma char_of_bits:
  "char_of (n :: nat) =
     Char (odd n) (odd (n div 2)) (odd (n div 4)) (odd (n div 8)) (odd (n div 16))
       (odd (n div 32)) (odd (n div 64)) (odd (n div 128))"
  by (simp add: char_of_def bit_iff_odd)

lemmas char_of_numeral [go_eval] = char_of_bits [of "numeral k" for k]

lemma nat_digits_numeral [go_eval]:
  "nat_digits (numeral n) =
     (if (numeral n :: nat) < 10 then [digit_char (numeral n)]
      else nat_digits (numeral n div 10) @ [digit_char (numeral n mod 10)])"
  "nat_digits 0 = [digit_char 0]" "nat_digits 1 = [digit_char 1]"
  by (rule nat_digits.simps) (simp_all add: nat_digits.simps)

end
