(* ===== verification/Vlan.thy ===== *)
theory Vlan
  imports Prelude
begin

text \<open>
  The VLAN setting of a port group (internal/network/vlan.go): \<open>ParseVLAN\<close> reads the inventory's
  string form, \<open>vlan_string\<close> writes the canonical one, \<open>vlan_carries\<close> says whether a tag passes.
  The lemmas show that the canonical form is parsed back to the same setting, that parsing a trunk
  keeps the set of VLANs it carries while merging its ranges, and that two canonical trunks that
  carry the same VLANs are written alike.
\<close>

section \<open>Data\<close>

datatype vlan_kind = VLANNone | VLANID | VLANTrunk | VLANPrivate

record vlan_range =
  rStart :: int
  rEnd :: int

record vlan =
  vKind :: vlan_kind
  vID :: int
  vRanges :: "vlan_range list"

definition mk_range :: "int \<Rightarrow> int \<Rightarrow> vlan_range" where
  "mk_range a b = \<lparr>rStart = a, rEnd = b\<rparr>"

definition mk_vlan :: "vlan_kind \<Rightarrow> int \<Rightarrow> vlan_range list \<Rightarrow> vlan" where
  "mk_vlan k i rs = \<lparr>vKind = k, vID = i, vRanges = rs\<rparr>"

section \<open>Parsing\<close>

definition vlanID_of :: "int \<Rightarrow> vlan" where
  "vlanID_of i =
     (if i \<le> 0 then mk_vlan VLANNone 0 []
      else if 4095 \<le> i then mk_vlan VLANTrunk 0 [mk_range 0 4094]
      else mk_vlan VLANID i [])"

definition StandardVLAN :: "int \<Rightarrow> vlan" where
  "StandardVLAN i = vlanID_of i"

text \<open>One comma-separated part of a trunk; \<open>None\<close> is the loop's \<open>continue\<close>.\<close>

definition trunk_part :: "string \<Rightarrow> vlan_range option" where
  "trunk_part raw =
     (let part = trim_space raw
      in if part = [] then None
         else (case str_cut ''-'' part of
                 None \<Rightarrow> map_option (\<lambda>n. mk_range n n) (atoi (trim_space part))
               | Some (lo, hi) \<Rightarrow>
                   (case (atoi (trim_space lo), atoi (trim_space hi)) of
                      (Some st, Some en) \<Rightarrow> Some (if en < st then mk_range en st else mk_range st en)
                    | _ \<Rightarrow> None)))"

text \<open>The merging loop: \<open>r\<close> is the last merged range.\<close>

fun merge_ranges :: "vlan_range \<Rightarrow> vlan_range list \<Rightarrow> vlan_range list" where
  "merge_ranges l [] = [l]"
| "merge_ranges l (r # rs) =
     (if rStart r \<le> wrap64 (rEnd l + 1)
      then merge_ranges (l\<lparr>rEnd := max (rEnd l) (rEnd r)\<rparr>) rs
      else l # merge_ranges r rs)"

definition trunk_ranges :: "string \<Rightarrow> vlan_range list" where
  "trunk_ranges s =
     (let rs = List.map_filter trunk_part (split_on (CHR '','') s)
      in if rs = [] then [mk_range 0 4094] else rs)"

definition merge_sorted :: "vlan_range list \<Rightarrow> vlan_range list" where
  "merge_sorted rs = (case sort_key rStart rs of [] \<Rightarrow> [] | l # ls \<Rightarrow> merge_ranges l ls)"

definition trunk :: "string \<Rightarrow> vlan" where
  "trunk s = mk_vlan VLANTrunk 0 (merge_sorted (trunk_ranges s))"

definition ParseVLAN :: "string \<Rightarrow> vlan" where
  "ParseVLAN raw =
     (let s = to_lower (trim_space raw)
      in if s = [] \<or> s = ''none'' then mk_vlan VLANNone 0 []
         else if has_prefix ''pvlan'' s then
           (case atoi (trim_space (trim_prefix ''pvlan'' s)) of
              None \<Rightarrow> mk_vlan VLANNone 0 []
            | Some i \<Rightarrow> mk_vlan VLANPrivate i [])
         else if has_prefix ''trunk'' s then trunk (trim_space (trim_prefix ''trunk'' s))
         else (case atoi s of None \<Rightarrow> trunk s | Some i \<Rightarrow> vlanID_of i))"

section \<open>Printing and membership\<close>

definition range_string :: "vlan_range \<Rightarrow> string" where
  "range_string r =
     (if rStart r = rEnd r then itoa (rStart r) else itoa (rStart r) @ ''-'' @ itoa (rEnd r))"

definition vlan_string :: "vlan \<Rightarrow> string" where
  "vlan_string v =
     (case vKind v of
        VLANID \<Rightarrow> itoa (vID v)
      | VLANPrivate \<Rightarrow> ''pvlan '' @ itoa (vID v)
      | VLANTrunk \<Rightarrow> ''trunk '' @ str_join '','' (map range_string (vRanges v))
      | VLANNone \<Rightarrow> ''none'')"

definition in_range :: "vlan_range \<Rightarrow> int \<Rightarrow> bool" where
  "in_range r i \<longleftrightarrow> rStart r \<le> i \<and> i \<le> rEnd r"

definition vlan_carries :: "vlan \<Rightarrow> int \<Rightarrow> bool" where
  "vlan_carries v i =
     (case vKind v of
        VLANID \<Rightarrow> vID v = i
      | VLANTrunk \<Rightarrow> list_ex (\<lambda>r. in_range r i) (vRanges v)
      | _ \<Rightarrow> False)"

section \<open>Canonical settings\<close>

text \<open>
  The settings \<open>vlan_string\<close> is meant for: a trunk's ranges are non-negative, sorted, and apart by
  at least one VLAN.
\<close>

definition range_ok :: "vlan_range \<Rightarrow> bool" where
  "range_ok r \<longleftrightarrow> rStart r \<le> rEnd r \<and> in_int64 (rStart r) \<and> in_int64 (rEnd r)"

definition separated :: "vlan_range list \<Rightarrow> bool" where
  "separated rs \<longleftrightarrow> sorted_wrt (\<lambda>a b. rEnd a + 1 < rStart b) rs"

definition vlan_canonical :: "vlan \<Rightarrow> bool" where
  "vlan_canonical v =
     (case vKind v of
        VLANNone \<Rightarrow> vID v = 0 \<and> vRanges v = []
      | VLANID \<Rightarrow> 0 < vID v \<and> vID v < 4095 \<and> vRanges v = []
      | VLANPrivate \<Rightarrow> in_int64 (vID v) \<and> vRanges v = []
      | VLANTrunk \<Rightarrow> vID v = 0 \<and> vRanges v \<noteq> [] \<and> separated (vRanges v) \<and>
          list_all (\<lambda>r. range_ok r \<and> 0 \<le> rStart r) (vRanges v))"

lemma mk_simps [simp]:
  "rStart (mk_range a b) = a" "rEnd (mk_range a b) = b"
  "vKind (mk_vlan k i rs) = k" "vID (mk_vlan k i rs) = i" "vRanges (mk_vlan k i rs) = rs"
  by (simp_all add: mk_range_def mk_vlan_def)

lemma mk_range_sel [simp]: "mk_range (rStart r) (rEnd r) = r"
  by (cases r) (simp add: mk_range_def)

lemma mk_vlan_sel: "mk_vlan (vKind v) (vID v) (vRanges v) = v"
  by (cases v) (simp add: mk_vlan_def)

section \<open>Merging keeps the carried VLANs\<close>

lemma merge_ranges_carries:
  assumes "range_ok l" and "\<forall>r \<in> set rs. range_ok r" and "sorted (map rStart (l # rs))"
  shows "(\<exists>r \<in> set (merge_ranges l rs). in_range r i) \<longleftrightarrow> (\<exists>r \<in> set (l # rs). in_range r i)"
  using assms
proof (induction l rs rule: merge_ranges.induct)
  case (2 l r rs)
  show ?case
  proof (cases "rStart r \<le> wrap64 (rEnd l + 1)")
    case True
    let ?l = "l\<lparr>rEnd := max (rEnd l) (rEnd r)\<rparr>"
    have w: "wrap64 (rEnd l + 1) \<le> rEnd l + 1"
      using 2(3) by (intro wrap64_le) (auto simp: range_ok_def in_int64_def)
    have ok: "range_ok ?l" using 2(3,4) by (auto simp: range_ok_def in_int64_def max_def)
    have srt: "sorted (map rStart (?l # rs))" using 2(5) by auto
    have "in_range ?l i \<longleftrightarrow> in_range l i \<or> in_range r i"
      using True w 2(3-5) by (auto simp: in_range_def range_ok_def max_def)
    with 2(1) [OF True ok _ srt] 2(4) True show ?thesis by auto
  next
    case False
    with 2(2) [OF False] 2(4,5) show ?thesis by auto
  qed
qed simp

lemma merge_ranges_ok:
  "range_ok l \<Longrightarrow> \<forall>r \<in> set rs. range_ok r \<Longrightarrow> r \<in> set (merge_ranges l rs) \<Longrightarrow> range_ok r"
proof (induction l rs arbitrary: r rule: merge_ranges.induct)
  case (2 l r' rs)
  have "range_ok (l\<lparr>rEnd := max (rEnd l) (rEnd r')\<rparr>)"
    using 2(3,4) by (auto simp: range_ok_def in_int64_def max_def)
  with 2 show ?case by (auto split: if_splits)
qed simp

lemma hd_merge_ranges: "merge_ranges l rs \<noteq> [] \<and> rStart (hd (merge_ranges l rs)) = rStart l"
  by (induction l rs rule: merge_ranges.induct) auto

lemma merge_ranges_start:
  "sorted (map rStart (l # rs)) \<Longrightarrow> r \<in> set (merge_ranges l rs) \<Longrightarrow> rStart l \<le> rStart r"
  by (induction l rs arbitrary: r rule: merge_ranges.induct) (fastforce split: if_splits)+

lemma merge_ranges_separated:
  assumes "range_ok l" and "\<forall>r \<in> set rs. range_ok r" and "sorted (map rStart (l # rs))"
    and "\<forall>r \<in> set (merge_ranges l rs). rEnd r < 2 ^ 63 - 1"
  shows "separated (merge_ranges l rs)"
  using assms
proof (induction l rs rule: merge_ranges.induct)
  case (2 l r rs)
  show ?case
  proof (cases "rStart r \<le> wrap64 (rEnd l + 1)")
    case True
    have "range_ok (l\<lparr>rEnd := max (rEnd l) (rEnd r)\<rparr>)"
      using 2(3,4) by (auto simp: range_ok_def in_int64_def max_def)
    with 2 True show ?thesis by simp
  next
    case False
    have sep: "separated (merge_ranges r rs)" using 2(2) [OF False] 2(4-6) False by simp
    have "in_int64 (rEnd l + 1)" using 2(3,6) False by (auto simp: range_ok_def in_int64_def)
    with False have "rEnd l + 1 < rStart r" by simp
    moreover have "\<And>q. q \<in> set (merge_ranges r rs) \<Longrightarrow> rStart r \<le> rStart q"
      using merge_ranges_start [of r rs] 2(5) by simp
    ultimately show ?thesis using sep False by (force simp: separated_def)
  qed
qed (simp add: separated_def)

lemma merge_sorted_cases:
  assumes "rs \<noteq> []"
  obtains l ls where "sort_key rStart rs = l # ls" and "set (l # ls) = set rs"
    and "sorted (map rStart (l # ls))" and "merge_sorted rs = merge_ranges l ls"
proof -
  obtain l ls where "sort_key rStart rs = l # ls"
    using assms by (metis length_0_conv length_sort neq_Nil_conv)
  moreover from this have "set (l # ls) = set rs" by (metis set_sort)
  moreover have "sorted (map rStart (l # ls))" by (metis calculation(1) sorted_sort_key)
  ultimately show thesis using that by (simp add: merge_sorted_def)
qed

lemma merge_sorted_carries:
  "\<forall>r \<in> set rs. range_ok r \<Longrightarrow>
   (\<exists>r \<in> set (merge_sorted rs). in_range r i) \<longleftrightarrow> (\<exists>r \<in> set rs. in_range r i)"
proof (cases "rs = []")
  case True
  then show ?thesis by (simp add: merge_sorted_def)
next
  case False
  assume ok: "\<forall>r \<in> set rs. range_ok r"
  from False show ?thesis
  proof (rule merge_sorted_cases)
    fix l ls assume "set (l # ls) = set rs" "sorted (map rStart (l # ls))"
      "merge_sorted rs = merge_ranges l ls"
    moreover from this(1) ok have "range_ok l" "\<forall>r \<in> set ls. range_ok r" by auto
    ultimately show ?thesis using merge_ranges_carries [of l ls i] by metis
  qed
qed

lemma merge_sorted_separated:
  assumes "\<forall>r \<in> set rs. range_ok r" and "\<forall>r \<in> set (merge_sorted rs). rEnd r < 2 ^ 63 - 1"
  shows "separated (merge_sorted rs)"
proof (cases "rs = []")
  case True
  then show ?thesis by (simp add: merge_sorted_def separated_def)
next
  case False
  then show ?thesis
  proof (rule merge_sorted_cases)
    fix l ls assume s: "set (l # ls) = set rs" "sorted (map rStart (l # ls))"
      "merge_sorted rs = merge_ranges l ls"
    with assms(1) have "range_ok l" "\<forall>r \<in> set ls. range_ok r" by auto
    with merge_ranges_separated [of l ls] s assms(2) show ?thesis by simp
  qed
qed

lemma trunk_part_ok: "trunk_part p = Some r \<Longrightarrow> range_ok r"
  by (auto simp: trunk_part_def Let_def range_ok_def split: if_splits option.splits dest!: atoi_range)

lemma trunk_ranges_ok: "r \<in> set (trunk_ranges s) \<Longrightarrow> range_ok r"
  by (auto simp: trunk_ranges_def Let_def List.map_filter_def range_ok_def in_int64_def
      split: if_splits dest: trunk_part_ok) (auto simp: range_ok_def in_int64_def dest: trunk_part_ok)

lemma trunk_ranges_not_Nil: "trunk_ranges s \<noteq> []"
  by (simp add: trunk_ranges_def Let_def)

section \<open>Parsing the canonical form\<close>

lemma range_string_chars: "0 \<le> rStart r \<Longrightarrow> 0 \<le> rEnd r \<Longrightarrow> c \<in> set (range_string r) \<Longrightarrow> is_digit c \<or> c = CHR ''-''"
  by (auto simp: range_string_def split: if_splits dest: set_itoa)

lemma range_string_not_Nil [simp]: "range_string r \<noteq> []"
  by (simp add: range_string_def)

lemma minus_not_space: "\<not> is_space CHR ''-''"
  by (simp add: is_space_def)

lemma digit_facts:
  "is_digit c \<Longrightarrow> c \<noteq> CHR ''-''" "is_digit c \<Longrightarrow> c \<noteq> CHR '',''"
  by (auto simp: is_digit_def)

lemma trunk_part_range_string:
  assumes "range_ok r" and "0 \<le> rStart r"
  shows "trunk_part (range_string r) = Some r"
proof -
  have nn: "0 \<le> rEnd r" and b: "in_int64 (rStart r)" "in_int64 (rEnd r)"
    using assms by (auto simp: range_ok_def)
  have nospace: "trim_space (range_string r) = range_string r"
    using range_string_chars [OF assms(2) nn]
    by (metis trim_space_no_space is_digit_not_space minus_not_space)
  have nd: "CHR ''-'' \<notin> set (itoa (rStart r))"
    using set_itoa_nonneg [OF assms(2)] digit_facts(1) by blast
  show ?thesis
  proof (cases "rStart r = rEnd r")
    case True
    then have "range_string r = itoa (rStart r)" by (simp add: range_string_def)
    moreover have "mk_range (rStart r) (rStart r) = r" by (metis True mk_range_sel)
    ultimately show ?thesis using nospace nd b
      by (simp add: trunk_part_def Let_def str_cut_char_None [THEN iffD2])
  next
    case False
    then have "range_string r = itoa (rStart r) @ CHR ''-'' # itoa (rEnd r)"
      by (simp add: range_string_def)
    with nospace nd b False assms show ?thesis
      by (simp add: trunk_part_def Let_def str_cut_char range_ok_def)
  qed
qed

lemma trunk_ranges_string:
  assumes "rs \<noteq> []" and "\<forall>r \<in> set rs. range_ok r \<and> 0 \<le> rStart r"
  shows "trunk_ranges (str_join '','' (map range_string rs)) = rs"
proof -
  have "CHR '','' \<notin> set x" if x: "x \<in> set (map range_string rs)" for x
  proof
    assume "CHR '','' \<in> set x"
    moreover obtain r where "r \<in> set rs" "x = range_string r" using x by auto
    moreover have "0 \<le> rEnd r" using \<open>r \<in> set rs\<close> assms(2) by (auto simp: range_ok_def)
    ultimately show False
      using range_string_chars [of r "CHR '',''"] assms(2) by (auto simp: is_digit_def)
  qed
  then have "split_on (CHR '','') (str_join '','' (map range_string rs)) = map range_string rs"
    using assms(1) by (intro split_on_join) auto
  moreover have "List.map_filter trunk_part (map range_string rs) = rs"
    using assms(2) by (induction rs) (auto simp: trunk_part_range_string List.map_filter_simps)
  ultimately show ?thesis using assms(1) by (simp add: trunk_ranges_def)
qed

lemma separated_sorted: "separated rs \<Longrightarrow> \<forall>r \<in> set rs. range_ok r \<Longrightarrow> sorted (map rStart rs)"
  by (induction rs) (fastforce simp: separated_def range_ok_def)+

lemma merge_ranges_separated_id:
  "separated (l # rs) \<Longrightarrow> \<forall>r \<in> set (l # rs). range_ok r \<Longrightarrow> merge_ranges l rs = l # rs"
proof (induction l rs rule: merge_ranges.induct)
  case (2 l r rs)
  have "rEnd l + 1 < rStart r" "range_ok l" "range_ok r" using 2(3,4) by (auto simp: separated_def)
  moreover from this have "in_int64 (rEnd l + 1)" by (auto simp: range_ok_def in_int64_def)
  ultimately have "\<not> rStart r \<le> wrap64 (rEnd l + 1)" by simp
  with 2 show ?case by (auto simp: separated_def)
qed simp

lemma merge_sorted_id:
  assumes "separated rs" and "\<forall>r \<in> set rs. range_ok r"
  shows "merge_sorted rs = rs"
  using assms sort_key_id [OF separated_sorted [OF assms]]
  by (cases rs) (simp_all add: merge_sorted_def merge_ranges_separated_id)

lemma str_join_digits:
  assumes "c \<in> set (str_join '','' (map range_string rs))"
    and "\<forall>r \<in> set rs. range_ok r \<and> 0 \<le> rStart r"
  shows "\<not> is_space c \<and> lower_char c = c"
proof -
  have "is_digit c \<or> c = CHR ''-'' \<or> c = CHR '',''"
    using assms
  proof (induction "'',''" "map range_string rs" arbitrary: rs rule: str_join.induct)
    case (2 x)
    then obtain r where "rs = [r]" "x = range_string r" by auto
    with 2 show ?case by (auto simp: range_ok_def dest: range_string_chars [rotated 2])
  next
    case (3 x y zs)
    then obtain r rs' where r: "rs = r # rs'" "x = range_string r" "map range_string rs' = y # zs"
      by auto
    have "0 \<le> rStart r" "0 \<le> rEnd r" using 3(4) r by (auto simp: range_ok_def)
    with 3(3) r range_string_chars [of r c] 3(1) [of rs'] 3(4) show ?case
      by (auto simp: 3(2) [symmetric])
  qed simp
  then show ?thesis
    by (auto dest: is_digit_not_space lower_digit simp: is_space_def lower_char_def)
qed

lemma trunk_string_parse:
  assumes "rs \<noteq> []" and "separated rs" and "\<forall>r \<in> set rs. range_ok r \<and> 0 \<le> rStart r"
  shows "ParseVLAN (''trunk '' @ str_join '','' (map range_string rs)) = mk_vlan VLANTrunk 0 rs"
proof -
  let ?j = "str_join '','' (map range_string rs)"
  have c: "\<not> is_space c \<and> lower_char c = c" if "c \<in> set ?j" for c
    using str_join_digits [OF that assms(3)] .
  have jne: "?j \<noteq> []" using assms(1) by (cases rs rule: list.exhaust, simp, cases "tl rs") auto
  have t: "trim_space (''trunk '' @ ?j) = ''trunk '' @ ?j"
    using jne c last_in_set [OF jne] by (intro trim_space_id) (auto simp: is_space_def)
  have l: "to_lower (''trunk '' @ ?j) = ''trunk '' @ ?j"
    unfolding to_lower_def using c by (intro map_idI) (auto simp: lower_char_def [of "CHR '' ''"] 
        lower_char_def [of "CHR ''t''"] lower_char_def [of "CHR ''r''"] lower_char_def [of "CHR ''u''"]
        lower_char_def [of "CHR ''n''"] lower_char_def [of "CHR ''k''"])
  have j: "trim_space (CHR '' '' # ?j) = ?j"
  proof -
    have "trim_left (CHR '' '' # ?j) = trim_left ?j" by (simp add: trim_left_def is_space_def)
    then have "trim_space (CHR '' '' # ?j) = trim_space ?j" by (simp add: trim_space_def)
    with c show ?thesis by (simp add: trim_space_no_space)
  qed
  have "merge_sorted (trunk_ranges ?j) = rs"
    using trunk_ranges_string [OF assms(1,3)] merge_sorted_id [OF assms(2)] assms(3) by simp
  then show ?thesis using t l j by (simp add: ParseVLAN_def Let_def trim_prefix_def trunk_def)
qed

lemma private_string_parse:
  assumes "in_int64 i"
  shows "ParseVLAN (''pvlan '' @ itoa i) = mk_vlan VLANPrivate i []"
proof -
  have c: "\<not> is_space c" if "c \<in> set (itoa i)" for c
    using set_itoa [OF that] minus_not_space is_digit_not_space by auto
  have t: "trim_space (''pvlan '' @ itoa i) = ''pvlan '' @ itoa i"
    using c last_in_set [OF itoa_not_Nil [of i]] by (intro trim_space_id) (auto simp: is_space_def)
  have l: "to_lower (''pvlan '' @ itoa i) = ''pvlan '' @ itoa i"
    by (simp add: lower_char_def)
  have "trim_space (CHR '' '' # itoa i) = itoa i"
    using trim_space_itoa [of i] by (simp add: trim_space_def trim_left_def is_space_def)
  with t l assms show ?thesis by (simp add: ParseVLAN_def Let_def trim_prefix_def)
qed

lemma id_string_parse:
  assumes "0 < i" and "i < 4095"
  shows "ParseVLAN (itoa i) = mk_vlan VLANID i []"
proof -
  have "in_int64 i" using assms by (simp add: in_int64_def)
  moreover have "is_digit (hd (itoa i))" using assms set_itoa_nonneg [of i] by simp
  then have "itoa i \<noteq> ''none''" "\<not> has_prefix ''pvlan'' (itoa i)" "\<not> has_prefix ''trunk'' (itoa i)"
    by (cases "itoa i"; force simp: is_digit_def)+
  ultimately show ?thesis using assms by (simp add: ParseVLAN_def Let_def vlanID_of_def)
qed

lemma canonical_parse:
  assumes "vlan_canonical v"
  shows "ParseVLAN (vlan_string v) = v"
proof (cases "vKind v")
  case VLANNone
  have "trim_space ''none'' = ''none''" "to_lower ''none'' = ''none''"
    by (simp_all add: trim_space_id is_space_def lower_char_def)
  then have "ParseVLAN ''none'' = mk_vlan VLANNone 0 []" by (simp add: ParseVLAN_def)
  with assms VLANNone show ?thesis
    using mk_vlan_sel [of v] by (simp add: vlan_canonical_def vlan_string_def)
next
  case VLANID
  with assms show ?thesis
    using mk_vlan_sel [of v] by (simp add: vlan_canonical_def vlan_string_def id_string_parse)
next
  case VLANTrunk
  with assms show ?thesis
    using mk_vlan_sel [of v] trunk_string_parse [of "vRanges v"]
    by (simp add: vlan_canonical_def vlan_string_def list_all_iff)
next
  case VLANPrivate
  with assms show ?thesis
    using mk_vlan_sel [of v] private_string_parse [of "vID v"]
    by (simp add: vlan_canonical_def vlan_string_def)
qed

section \<open>Two canonical trunks with the same VLANs\<close>

lemma separated_first:
  assumes "separated (r # rs)" and "\<forall>q \<in> set (r # rs). range_ok q" and "in_range q i" "q \<in> set (r # rs)"
  shows "rStart r \<le> i"
  using assms by (fastforce simp: separated_def range_ok_def in_range_def)

lemma separated_gap:
  assumes "separated (r # rs)" and "\<forall>q \<in> set (r # rs). range_ok q"
  shows "\<not> (\<exists>q \<in> set (r # rs). in_range q (rEnd r + 1))"
  using assms by (fastforce simp: separated_def range_ok_def in_range_def)

definition carried :: "vlan_range list \<Rightarrow> int set" where
  "carried rs = {i. \<exists>r \<in> set rs. in_range r i}"

lemma carried_simps [simp]:
  "carried [] = {}" "carried (r # rs) = {rStart r..rEnd r} \<union> carried rs"
  by (auto simp: carried_def in_range_def)

lemma separated_tail: "separated (r # rs) \<Longrightarrow> \<forall>q \<in> set (r # rs). range_ok q \<Longrightarrow> i \<in> carried rs \<Longrightarrow> rEnd r + 1 < i"
  by (fastforce simp: separated_def range_ok_def in_range_def carried_def)

lemma carried_unique:
  assumes "separated rs" "\<forall>r \<in> set rs. range_ok r" "separated qs" "\<forall>q \<in> set qs. range_ok q"
    and "carried rs = carried qs"
  shows "rs = qs"
  using assms
proof (induction rs arbitrary: qs)
  case Nil
  then show ?case by (cases qs) (auto simp: range_ok_def)
next
  case (Cons r rs)
  have ok_r: "rStart r \<le> rEnd r" using Cons.prems(2) by (auto simp: range_ok_def)
  have tail_r: "rEnd r + 1 < i" if "i \<in> carried rs" for i
    using separated_tail [OF Cons.prems(1,2) that] .
  from Cons.prems(5) ok_r obtain q qs' where qs: "qs = q # qs'" by (cases qs) auto
  have ok_q: "rStart q \<le> rEnd q" using Cons.prems(4) qs by (auto simp: range_ok_def)
  have tail_q: "rEnd q + 1 < i" if "i \<in> carried qs'" for i
    using separated_tail that Cons.prems(3,4) qs by blast
  have eq: "{rStart r..rEnd r} \<union> carried rs = {rStart q..rEnd q} \<union> carried qs'"
    using Cons.prems(5) qs by simp
  have "rStart r \<in> {rStart q..rEnd q} \<union> carried qs'" "rStart q \<in> {rStart r..rEnd r} \<union> carried rs"
    using eq ok_r ok_q by (metis UnI1 atLeastAtMost_iff order_refl)+
  with ok_r ok_q tail_r tail_q have s: "rStart r = rStart q"
    by (smt (verit) Un_iff atLeastAtMost_iff)
  have "rEnd r + 1 \<notin> {rStart q..rEnd q} \<union> carried qs'" "rEnd q + 1 \<notin> {rStart r..rEnd r} \<union> carried rs"
    using eq tail_r tail_q by (smt (verit) Un_iff atLeastAtMost_iff)+
  with ok_r ok_q s have e: "rEnd r = rEnd q" by auto
  have "carried rs = carried qs'"
    using eq s e tail_r tail_q by (smt (verit) Un_iff atLeastAtMost_iff set_eqI)
  then have "rs = qs'"
    using Cons.IH [of qs'] Cons.prems(1-4) qs by (auto simp: separated_def)
  with s e qs show ?case by (simp add: vlan_range.equality)
qed

lemma vlan_carries_trunk:
  "vKind v = VLANTrunk \<Longrightarrow> vlan_carries v i \<longleftrightarrow> i \<in> carried (vRanges v)"
  by (simp add: vlan_carries_def carried_def list_ex_iff)

lemma ParseVLAN_canonical:
  assumes "list_all (\<lambda>r. 0 \<le> rStart r \<and> rEnd r < 2 ^ 63 - 1) (vRanges (ParseVLAN s))"
  shows "vlan_canonical (ParseVLAN s)"
proof -
  have tr: "vlan_canonical (trunk t)"
    if "list_all (\<lambda>r. 0 \<le> rStart r \<and> rEnd r < 2 ^ 63 - 1) (vRanges (trunk t))" for t
  proof -
    have ok: "\<forall>r \<in> set (trunk_ranges t). range_ok r" using trunk_ranges_ok by blast
    obtain l ls where l: "set (l # ls) = set (trunk_ranges t)"
      and m: "merge_sorted (trunk_ranges t) = merge_ranges l ls"
      using merge_sorted_cases [OF trunk_ranges_not_Nil] by metis
    have "range_ok l" "\<forall>r \<in> set ls. range_ok r" using l ok by auto
    then have "\<forall>r \<in> set (merge_ranges l ls). range_ok r" using merge_ranges_ok by blast
    moreover have "separated (merge_sorted (trunk_ranges t))"
      using merge_sorted_separated [OF ok] that by (simp add: trunk_def list_all_iff)
    ultimately show ?thesis using that hd_merge_ranges [of l ls] m
      by (simp add: vlan_canonical_def trunk_def list_all_iff)
  qed
  have "vlan_canonical (vlanID_of i)" for i
    by (simp add: vlanID_of_def vlan_canonical_def separated_def range_ok_def in_int64_def)
  with tr assms show ?thesis
    by (auto simp: ParseVLAN_def Let_def vlan_canonical_def [of "mk_vlan _ _ _"] split: option.splits
        dest: atoi_range)
qed

lemmas vlan_eval = ParseVLAN_def trunk_def trunk_ranges_def merge_sorted_def List.map_filter_def
  trunk_part_def vlanID_of_def vlan_string_def range_string_def vlan_canonical_def separated_def
  range_ok_def

section \<open>Properties\<close>

text \<open>
  C40: The canonical form is read back exactly: parsing the string written for a canonical setting
  gives the setting again.
\<close>

theorem vlan_roundtrip:
  assumes "vlan_canonical v"
  shows "ParseVLAN (vlan_string v) = v"
  using assms by (rule canonical_parse)

theorem vlan_roundtrip_witness:
  "ParseVLAN (vlan_string (mk_vlan VLANTrunk 0 [mk_range 100 200, mk_range 300 300]))
     = mk_vlan VLANTrunk 0 [mk_range 100 200, mk_range 300 300]"
  by (rule vlan_roundtrip) (simp add: vlan_canonical_def separated_def range_ok_def in_int64_def)

text \<open>
  Writing a parsed setting and parsing it again changes nothing, whatever the inventory's
  string was, as long as no trunk range starts below zero or ends at the largest 64-bit integer.
\<close>

theorem vlan_normal_form:
  assumes "list_all (\<lambda>r. 0 \<le> rStart r \<and> rEnd r < 2 ^ 63 - 1) (vRanges (ParseVLAN s))"
  shows "vlan_canonical (ParseVLAN s) \<and> ParseVLAN (vlan_string (ParseVLAN s)) = ParseVLAN s"
  using ParseVLAN_canonical [OF assms] canonical_parse by simp

theorem vlan_normal_form_witness:
  "vlan_canonical (ParseVLAN '' Trunk 300,100-150,140-200'') \<and>
   ParseVLAN (vlan_string (ParseVLAN '' Trunk 300,100-150,140-200'')) = ParseVLAN '' Trunk 300,100-150,140-200''"
  by (rule vlan_normal_form) (simp add: vlan_eval go_eval)

text \<open>
  Sorting and merging a trunk's ranges neither adds nor drops a VLAN: the parsed trunk carries
  a tag exactly when one of the ranges listed in the text contains it.
\<close>

theorem trunk_carries_listed:
  "vlan_carries (trunk s) i \<longleftrightarrow> (\<exists>r. r \<in> set (trunk_ranges s) \<and> in_range r i)"
proof -
  have "\<forall>r \<in> set (trunk_ranges s). range_ok r" using trunk_ranges_ok by blast
  from merge_sorted_carries [OF this, of i] show ?thesis
    by (auto simp: vlan_carries_def trunk_def list_ex_iff)
qed

text \<open>
  Settings that mean the same thing are written alike: two canonical trunks that carry the same
  VLANs have the same string.
\<close>

theorem same_vlans_same_string:
  assumes "vlan_canonical v" and "vlan_canonical w"
    and "vKind v = VLANTrunk" and "vKind w = VLANTrunk"
    and "\<And>i. vlan_carries v i = vlan_carries w i"
  shows "vlan_string v = vlan_string w"
proof -
  have "carried (vRanges v) = carried (vRanges w)"
    using assms(3-5) by (auto simp: vlan_carries_trunk)
  then have "vRanges v = vRanges w"
    using assms(1-4) by (intro carried_unique) (auto simp: vlan_canonical_def list_all_iff)
  with assms(3,4) show ?thesis by (simp add: vlan_string_def)
qed

theorem same_vlans_same_string_witness:
  "vlan_string (ParseVLAN ''4095'') = vlan_string (ParseVLAN ''trunk 2000-4094,0-1999'')"
proof (rule same_vlans_same_string)
  have eq: "ParseVLAN ''trunk 2000-4094,0-1999'' = ParseVLAN ''4095''"
    by (simp add: vlan_eval go_eval)
  have c: "vlan_canonical (ParseVLAN ''4095'')" and k: "vKind (ParseVLAN ''4095'') = VLANTrunk"
    by (simp_all add: vlan_eval go_eval)
  show "vlan_canonical (ParseVLAN ''4095'')" "vlan_canonical (ParseVLAN ''trunk 2000-4094,0-1999'')"
    "vKind (ParseVLAN ''4095'') = VLANTrunk" "vKind (ParseVLAN ''trunk 2000-4094,0-1999'') = VLANTrunk"
    "\<And>i. vlan_carries (ParseVLAN ''4095'') i = vlan_carries (ParseVLAN ''trunk 2000-4094,0-1999'') i"
    using c k by (simp_all add: eq)
qed

text \<open>
  The canonical form of a trunk with a negative bound is not read back: the range from -3 to 5
  is written \<open>trunk -3-5\<close>, which parses as the trunk of every VLAN.
\<close>

theorem negative_trunk_misread:
  "vlan_string (ParseVLAN ''trunk 5--3'') = ''trunk -3-5'' \<and>
   vlan_string (ParseVLAN ''trunk -3-5'') = ''trunk 0-4094''"
  by (simp add: vlan_eval go_eval)

end
