(* ===== verification/Credentials.thy ===== *)
theory Credentials
  imports Prelude
begin

text \<open>
  References to secrets and the providers that resolve them (internal/credentials). A \<open>Provider\<close>
  is a record of functions over the state of the world it reads and writes; the \<open>Resolver\<close>
  dispatches on the scheme of a reference and \<open>Resolve\<close> adds the fall-back to the prompt. The
  operating system is a \<open>world\<close>: environment, files, helper programs, the standard input (not a
  terminal) and the secret store, whose operations (package go-keyring) are the parameter
  \<open>keyring_ops\<close>. The locale \<open>secret_store\<close> is the contract its clients rely on; the in-memory
  provider, a keyring that keeps its documented laws, and a resolver over either keep it.
\<close>

section \<open>References\<close>

record cref =
  rScheme :: string
  rValue :: string

definition mk_ref :: "string \<Rightarrow> string \<Rightarrow> cref" where
  "mk_ref s v = \<lparr>rScheme = s, rValue = v\<rparr>"

lemma mk_ref_sel [simp]: "rScheme (mk_ref s v) = s" "rValue (mk_ref s v) = v" "mk_ref (rScheme r) (rValue r) = r"
  by (simp_all add: mk_ref_def)

record credential =
  crUsername :: string
  crPassword :: string

definition of_password :: "string \<Rightarrow> credential" where
  "of_password p = \<lparr>crUsername = [], crPassword = p\<rparr>"

abbreviation "SchemeKeyring \<equiv> ''keyring''"
abbreviation "SchemePrompt \<equiv> ''prompt''"
abbreviation "SchemeEnv \<equiv> ''env''"
abbreviation "SchemeFile \<equiv> ''file''"
abbreviation "SchemeExec \<equiv> ''exec''"

definition NonInteractive :: "cref \<Rightarrow> bool" where
  "NonInteractive r \<longleftrightarrow> rScheme r \<in> {SchemeEnv, SchemeFile, SchemeExec}"

datatype ref_error = RefNeedsValue string string | RefUnknownScheme string string

definition ParseRef :: "string \<Rightarrow> ref_error + cref" where
  "ParseRef raw =
     (let s = trim_space raw
      in if s = [] then Inr (mk_ref [] [])
         else
           (let (scheme0, value) = (case str_cut '':'' s of None \<Rightarrow> (s, []) | Some p \<Rightarrow> p);
                scheme = trim_space scheme0
            in if scheme \<in> {SchemeKeyring, SchemeEnv, SchemeFile, SchemeExec} then
                 (if trim_space value = [] then Inl (RefNeedsValue s scheme)
                  else Inr (mk_ref scheme (trim_space value)))
               else if scheme = SchemePrompt then Inr (mk_ref scheme (trim_space value))
               else Inl (RefUnknownScheme s scheme)))"

definition ref_is_zero :: "cref \<Rightarrow> bool" where
  "ref_is_zero r \<longleftrightarrow> rScheme r = []"

definition WithDefaultLabel :: "cref \<Rightarrow> string \<Rightarrow> cref" where
  "WithDefaultLabel r label =
     (if rScheme r = SchemePrompt \<and> rValue r = [] then r\<lparr>rValue := label\<rparr> else r)"

definition ref_string :: "cref \<Rightarrow> string" where
  "ref_string r =
     (if rScheme r = [] then []
      else if rValue r = [] then rScheme r
      else rScheme r @ '':'' @ rValue r)"

text \<open>\<open>UnmarshalText\<close> leaves the reference alone when the text does not parse.\<close>

definition UnmarshalText :: "cref \<Rightarrow> string \<Rightarrow> ref_error option \<times> cref" where
  "UnmarshalText r b = (case ParseRef b of Inl e \<Rightarrow> (Some e, r) | Inr r' \<Rightarrow> (None, r'))"

section \<open>Errors and providers\<close>

datatype cred_error =
    ENotFound cref
  | EUnsupported string
  | EKeyring cref
  | ESource cref string
  | EReadInput
  | ENoPrompt
  | ENoProvider string
  | ECouldNotAsk cred_error cred_error

text \<open>\<open>errors.Is(err, ErrNotFound)\<close>: of a joined message only the first error is wrapped.\<close>

fun is_not_found :: "cred_error \<Rightarrow> bool" where
  "is_not_found (ENotFound r) = True"
| "is_not_found (ECouldNotAsk e p) = is_not_found e"
| "is_not_found _ = False"

record 's provider =
  pScheme :: string
  pGet :: "string \<Rightarrow> cref \<Rightarrow> 's \<Rightarrow> (cred_error + credential) \<times> 's"
  pStore :: "cref \<Rightarrow> credential \<Rightarrow> 's \<Rightarrow> cred_error option \<times> 's"
  pDelete :: "cref \<Rightarrow> 's \<Rightarrow> cred_error option \<times> 's"
  pProbe :: "('s \<Rightarrow> cred_error option) option"

text \<open>
  The first argument of \<open>pGet\<close> is the label that \<open>WithLabel\<close> attaches to the call's context, empty
  when there is none.
\<close>

section \<open>The resolver\<close>

record 's resolver =
  rsProviders :: "string \<rightharpoonup> 's provider"
  rsDefault :: "'s provider option"
  rsPrimed :: "cref \<rightharpoonup> credential"

definition register :: "'s provider \<Rightarrow> 's resolver \<Rightarrow> 's resolver" where
  "register p r = r\<lparr>rsProviders := (rsProviders r)(pScheme p \<mapsto> p),
     rsDefault := (if pScheme p = SchemePrompt \<and> rsDefault r = None then Some p else rsDefault r)\<rparr>"

definition NewResolver :: "'s provider list \<Rightarrow> 's resolver" where
  "NewResolver ps =
     fold register ps \<lparr>rsProviders = Map.empty, rsDefault = None, rsPrimed = Map.empty\<rparr>"

definition SetProvider :: "'s provider \<Rightarrow> 's resolver \<Rightarrow> 's resolver" where
  "SetProvider p r = r\<lparr>rsProviders := (rsProviders r)(pScheme p \<mapsto> p),
     rsDefault := (if pScheme p = SchemePrompt then Some p else rsDefault r)\<rparr>"

definition CheckAvailable :: "'s resolver \<Rightarrow> string \<Rightarrow> 's \<Rightarrow> cred_error option" where
  "CheckAvailable r scheme s =
     (case rsProviders r scheme of
        None \<Rightarrow> Some (ENoProvider scheme)
      | Some p \<Rightarrow> (case pProbe p of None \<Rightarrow> None | Some probe \<Rightarrow> probe s))"

definition Prime :: "cref \<Rightarrow> credential \<Rightarrow> 's resolver \<Rightarrow> 's resolver" where
  "Prime ref c r = r\<lparr>rsPrimed := (rsPrimed r)(ref \<mapsto> c)\<rparr>"

definition resolver_lookup :: "'s resolver \<Rightarrow> cref \<Rightarrow> cred_error + 's provider" where
  "resolver_lookup r ref =
     (if ref_is_zero ref then (case rsDefault r of None \<Rightarrow> Inl ENoPrompt | Some p \<Rightarrow> Inr p)
      else (case rsProviders r (rScheme ref) of
              None \<Rightarrow> Inl (ENoProvider (rScheme ref)) | Some p \<Rightarrow> Inr p))"

definition resolver_Get ::
  "'s resolver \<Rightarrow> string \<Rightarrow> cref \<Rightarrow> 's \<Rightarrow> (cred_error + credential) \<times> 's" where
  "resolver_Get r label ref s =
     (case rsPrimed r ref of
        Some c \<Rightarrow> (Inr c, s)
      | None \<Rightarrow> (case resolver_lookup r ref of Inl e \<Rightarrow> (Inl e, s) | Inr p \<Rightarrow> pGet p label ref s))"

definition resolver_Store ::
  "'s resolver \<Rightarrow> cref \<Rightarrow> credential \<Rightarrow> 's \<Rightarrow> cred_error option \<times> 's" where
  "resolver_Store r ref c s =
     (case resolver_lookup r ref of Inl e \<Rightarrow> (Some e, s) | Inr p \<Rightarrow> pStore p ref c s)"

definition resolver_Delete :: "'s resolver \<Rightarrow> cref \<Rightarrow> 's \<Rightarrow> cred_error option \<times> 's" where
  "resolver_Delete r ref s =
     (case resolver_lookup r ref of Inl e \<Rightarrow> (Some e, s) | Inr p \<Rightarrow> pDelete p ref s)"

text \<open>The second component of a success says that the credential came from the prompt.\<close>

definition Resolve ::
  "'s resolver \<Rightarrow> cref \<Rightarrow> string \<Rightarrow> 's \<Rightarrow> (cred_error + credential \<times> bool) \<times> 's" where
  "Resolve r ref label s =
     (case resolver_Get r label ref s of
        (Inr c, s') \<Rightarrow> (Inr (c, False), s')
      | (Inl err, s') \<Rightarrow>
          if NonInteractive ref then (Inl err, s')
          else if rScheme ref \<noteq> SchemeKeyring \<and> \<not> is_not_found err then (Inl err, s')
          else (case rsProviders r SchemePrompt of
                  None \<Rightarrow> (Inl err, s')
                | Some p \<Rightarrow>
                    (case pGet p [] (mk_ref SchemePrompt label) s' of
                       (Inl perr, s'') \<Rightarrow> (Inl (ECouldNotAsk err perr), s'')
                     | (Inr c, s'') \<Rightarrow> (Inr (c, True), s''))))"

section \<open>The in-memory provider\<close>

definition static_Get ::
  "string \<Rightarrow> cref \<Rightarrow> (string \<rightharpoonup> credential) \<Rightarrow> (cred_error + credential) \<times> (string \<rightharpoonup> credential)" where
  "static_Get label ref m = ((case m (rValue ref) of None \<Rightarrow> Inl (ENotFound ref) | Some c \<Rightarrow> Inr c), m)"

definition static_Store ::
  "cref \<Rightarrow> credential \<Rightarrow> (string \<rightharpoonup> credential) \<Rightarrow> cred_error option \<times> (string \<rightharpoonup> credential)" where
  "static_Store ref c m = (None, m(rValue ref \<mapsto> c))"

definition static_Delete ::
  "cref \<Rightarrow> (string \<rightharpoonup> credential) \<Rightarrow> cred_error option \<times> (string \<rightharpoonup> credential)" where
  "static_Delete ref m = (None, m(rValue ref := None))"

definition static_provider :: "string \<Rightarrow> (string \<rightharpoonup> credential) provider" where
  "static_provider scheme = \<lparr>pScheme = scheme, pGet = static_Get, pStore = static_Store,
     pDelete = static_Delete, pProbe = None\<rparr>"

section \<open>The operating system's sources\<close>

datatype file_read = FileMissing | FileUnreadable | FileBytes string

datatype exec_run =
    NoProgram
  | Unfinished
  | ExecFailed string string  \<comment> \<open>standard error, the error's own text\<close>
  | ExecOutput string

record 'r world =
  wEnv :: "string \<rightharpoonup> string"
  wFile :: "string \<Rightarrow> file_read"
  wExec :: "string \<Rightarrow> string \<Rightarrow> string \<Rightarrow> exec_run"  \<comment> \<open>program, label, reference\<close>
  wInput :: string
  wRing :: 'r

definition maxSecretBytes :: nat where
  "maxSecretBytes = 65536"

definition trim_suffix_char :: "char \<Rightarrow> string \<Rightarrow> string" where
  "trim_suffix_char c s = (if s \<noteq> [] \<and> last s = c then butlast s else s)"

definition trimSecret :: "string \<Rightarrow> string" where
  "trimSecret s = trim_suffix_char CHR 0x0D (trim_suffix_char CHR 0x0A s)"

definition firstLine :: "string \<Rightarrow> string" where
  "firstLine s =
     (case filter (\<lambda>l. l \<noteq> []) (map trim_space (split_on CHR 0x0A s)) of
        [] \<Rightarrow> []
      | l # _ \<Rightarrow> if 200 < length l then take 200 l @ [CHR 0xE2, CHR 0x80, CHR 0xA6] else l)"

text \<open>\<open>filepath.Base\<close> of a program path on a Unix system.\<close>

definition path_base :: "string \<Rightarrow> string" where
  "path_base p =
     (let q = rev (dropWhile (\<lambda>c. c = CHR ''/'') (rev p))
      in if p = [] then ''.'' else if q = [] then ''/'' else last (split_on CHR ''/'' q))"

definition read_only :: "string \<Rightarrow> cref \<Rightarrow> 's \<Rightarrow> cred_error option \<times> 's" where
  "read_only scheme ref s = (Some (EUnsupported scheme), s)"

definition env_Get :: "string \<Rightarrow> cref \<Rightarrow> 'r world \<Rightarrow> (cred_error + credential) \<times> 'r world" where
  "env_Get label ref w =
     ((case wEnv w (rValue ref) of
         None \<Rightarrow> Inl (ESource ref (rValue ref @ '' is not set''))
       | Some secret \<Rightarrow> if secret = [] then Inl (ESource ref (rValue ref @ '' is empty''))
           else Inr (of_password secret)), w)"

definition file_Get :: "string \<Rightarrow> cref \<Rightarrow> 'r world \<Rightarrow> (cred_error + credential) \<times> 'r world" where
  "file_Get label ref w =
     ((let name = ''password file '' @ rValue ref
       in case wFile w (rValue ref) of
            FileMissing \<Rightarrow> Inl (ESource ref (name @ '' does not exist''))
          | FileUnreadable \<Rightarrow> Inl (ESource ref (name @ '' cannot be read''))
          | FileBytes b \<Rightarrow>
              if maxSecretBytes < length b then Inl (ESource ref (name @ '' is not a password''))
              else if trimSecret b = [] then Inl (ESource ref (name @ '' is empty''))
              else Inr (of_password (trimSecret b))), w)"

definition exec_Get :: "string \<Rightarrow> cref \<Rightarrow> 'r world \<Rightarrow> (cred_error + credential) \<times> 'r world" where
  "exec_Get label ref w =
     ((let program = trim_space (rValue ref); name = ''password helper '' @ path_base program
       in case wExec w program label (ref_string ref) of
            NoProgram \<Rightarrow> Inl (ESource ref (name @ '' not found''))
          | Unfinished \<Rightarrow> Inl (ESource ref (name @ '' did not finish''))
          | ExecFailed stderr err \<Rightarrow>
              (let msg = firstLine stderr
               in if msg \<noteq> [] then Inl (ESource ref (name @ '' failed: '' @ msg))
                  else Inl (ESource ref (name @ '' failed ('' @ err @ '')'')))
          | ExecOutput out \<Rightarrow>
              if maxSecretBytes < length out
              then Inl (ESource ref (name @ '' printed something that is not a password''))
              else if trimSecret out = [] then Inl (ESource ref (name @ '' printed nothing''))
              else Inr (of_password (trimSecret out))), w)"

text \<open>\<open>ReadSecret\<close> on a standard input that is not a terminal: one line of it is consumed.\<close>

definition is_newline :: "char \<Rightarrow> bool" where
  "is_newline c \<longleftrightarrow> c = CHR 0x0A"

definition ReadSecret :: "'r world \<Rightarrow> (cred_error + string) \<times> 'r world" where
  "ReadSecret w =
     (if wInput w = [] then (Inl EReadInput, w)
      else (let line = takeWhile (\<lambda>c. \<not> is_newline c) (wInput w);
                rest = drop 1 (dropWhile (\<lambda>c. \<not> is_newline c) (wInput w))
            in (Inr (rev (dropWhile (\<lambda>c. c = CHR 0x0D \<or> is_newline c) (rev line))), w\<lparr>wInput := rest\<rparr>)))"

definition prompt_Get :: "string \<Rightarrow> cref \<Rightarrow> 'r world \<Rightarrow> (cred_error + credential) \<times> 'r world" where
  "prompt_Get label ref w =
     (case ReadSecret w of
        (Inl e, w') \<Rightarrow> (Inl e, w')
      | (Inr secret, w') \<Rightarrow> (Inr (of_password secret), w'))"

datatype ring_error = RingNotFound | RingOther

record 'r keyring_ops =
  kGet :: "string \<Rightarrow> string \<Rightarrow> 'r \<Rightarrow> ring_error + string"
  kSet :: "string \<Rightarrow> string \<Rightarrow> string \<Rightarrow> 'r \<Rightarrow> ring_error option \<times> 'r"
  kDelete :: "string \<Rightarrow> string \<Rightarrow> 'r \<Rightarrow> ring_error option \<times> 'r"

definition KeyringService :: string where
  "KeyringService = ''vsfleet''"

definition keyring_Get ::
  "'r keyring_ops \<Rightarrow> string \<Rightarrow> cref \<Rightarrow> 'r world \<Rightarrow> (cred_error + credential) \<times> 'r world" where
  "keyring_Get ops label ref w =
     ((case kGet ops KeyringService (rValue ref) (wRing w) of
         Inl RingNotFound \<Rightarrow> Inl (ENotFound ref)
       | Inl RingOther \<Rightarrow> Inl (EKeyring ref)
       | Inr secret \<Rightarrow> Inr (of_password secret)), w)"

definition keyring_Store ::
  "'r keyring_ops \<Rightarrow> cref \<Rightarrow> credential \<Rightarrow> 'r world \<Rightarrow> cred_error option \<times> 'r world" where
  "keyring_Store ops ref c w =
     (case kSet ops KeyringService (rValue ref) (crPassword c) (wRing w) of
        (e, ring) \<Rightarrow> (map_option (\<lambda>_. EKeyring ref) e, w\<lparr>wRing := ring\<rparr>))"

definition keyring_Delete ::
  "'r keyring_ops \<Rightarrow> cref \<Rightarrow> 'r world \<Rightarrow> cred_error option \<times> 'r world" where
  "keyring_Delete ops ref w =
     (case kDelete ops KeyringService (rValue ref) (wRing w) of
        (None, ring) \<Rightarrow> (None, w\<lparr>wRing := ring\<rparr>)
      | (Some RingNotFound, ring) \<Rightarrow> (Some (ENotFound ref), w\<lparr>wRing := ring\<rparr>)
      | (Some RingOther, ring) \<Rightarrow> (Some (EKeyring ref), w\<lparr>wRing := ring\<rparr>))"

text \<open>The probe looks a key up; a store that does not answer in time counts as \<open>RingOther\<close>.\<close>

definition keyringProbeKey :: string where
  "keyringProbeKey = ''vsfleet-keyring-probe''"

definition keyring_Probe :: "'r keyring_ops \<Rightarrow> 'r world \<Rightarrow> cred_error option" where
  "keyring_Probe ops w =
     (if kGet ops KeyringService keyringProbeKey (wRing w) = Inl RingOther
      then Some (EKeyring (mk_ref SchemeKeyring keyringProbeKey)) else None)"

definition env_provider :: "'r world provider" where
  "env_provider = \<lparr>pScheme = SchemeEnv, pGet = env_Get, pStore = (\<lambda>r c. read_only SchemeEnv r),
     pDelete = read_only SchemeEnv, pProbe = None\<rparr>"

definition file_provider :: "'r world provider" where
  "file_provider = \<lparr>pScheme = SchemeFile, pGet = file_Get, pStore = (\<lambda>r c. read_only SchemeFile r),
     pDelete = read_only SchemeFile, pProbe = None\<rparr>"

definition exec_provider :: "'r world provider" where
  "exec_provider = \<lparr>pScheme = SchemeExec, pGet = exec_Get, pStore = (\<lambda>r c. read_only SchemeExec r),
     pDelete = read_only SchemeExec, pProbe = None\<rparr>"

definition prompt_provider :: "'r world provider" where
  "prompt_provider = \<lparr>pScheme = SchemePrompt, pGet = prompt_Get, pStore = (\<lambda>r c. read_only SchemePrompt r),
     pDelete = read_only SchemePrompt, pProbe = None\<rparr>"

definition keyring_provider :: "'r keyring_ops \<Rightarrow> 'r world provider" where
  "keyring_provider ops = \<lparr>pScheme = SchemeKeyring, pGet = keyring_Get ops, pStore = keyring_Store ops,
     pDelete = keyring_Delete ops, pProbe = Some (keyring_Probe ops)\<rparr>"

text \<open>The resolver the command line builds: keyring, environment, files, helpers and the prompt.\<close>

definition std_resolver :: "'r keyring_ops \<Rightarrow> 'r world resolver" where
  "std_resolver ops =
     NewResolver [keyring_provider ops, env_provider, file_provider, exec_provider, prompt_provider]"

section \<open>The contract of a secret store\<close>

text \<open>
  What a client of a provider relies on for the references of one scheme: reading changes nothing, a
  stored password is read back, a deleted one is not found, other keys are left alone, and a failed
  write changes nothing.
\<close>

locale secret_store =
  fixes scheme :: string
    and get :: "cref \<Rightarrow> 's \<Rightarrow> (cred_error + credential) \<times> 's"
    and put :: "cref \<Rightarrow> credential \<Rightarrow> 's \<Rightarrow> cred_error option \<times> 's"
    and del :: "cref \<Rightarrow> 's \<Rightarrow> cred_error option \<times> 's"
  assumes get_pure: "rScheme r = scheme \<Longrightarrow> snd (get r s) = s"
    and put_get: "rScheme r = scheme \<Longrightarrow> put r c s = (None, s') \<Longrightarrow>
      \<exists>c'. fst (get r s') = Inr c' \<and> crPassword c' = crPassword c"
    and put_other: "rScheme r = scheme \<Longrightarrow> rScheme q = scheme \<Longrightarrow> rValue q \<noteq> rValue r \<Longrightarrow>
      fst (get q (snd (put r c s))) = fst (get q s)"
    and put_failed: "rScheme r = scheme \<Longrightarrow> rScheme q = scheme \<Longrightarrow> put r c s = (Some e, s') \<Longrightarrow>
      fst (get q s') = fst (get q s)"
    and del_get: "rScheme r = scheme \<Longrightarrow> del r s = (None, s') \<Longrightarrow>
      \<exists>e. fst (get r s') = Inl e \<and> is_not_found e"
    and del_absent: "rScheme r = scheme \<Longrightarrow> del r s = (Some e, s') \<Longrightarrow> is_not_found e \<Longrightarrow>
      \<exists>e'. fst (get r s') = Inl e' \<and> is_not_found e'"
    and del_other: "rScheme r = scheme \<Longrightarrow> rScheme q = scheme \<Longrightarrow> rValue q \<noteq> rValue r \<Longrightarrow>
      fst (get q (snd (del r s))) = fst (get q s)"
begin

definition absent :: "cref \<Rightarrow> 's \<Rightarrow> bool" where
  "absent r s \<longleftrightarrow> (\<exists>e. fst (get r s) = Inl e \<and> is_not_found e)"

lemma del_absent_after:
  assumes "rScheme r = scheme" and "case fst (del r s) of None \<Rightarrow> True | Some e \<Rightarrow> is_not_found e"
  shows "absent r (snd (del r s))"
  using assms del_get [of r s] del_absent [of r s]
  by (cases "del r s"; cases "fst (del r s)") (auto simp: absent_def)

lemma del_keeps_absent:
  assumes "rScheme r = scheme" "rScheme q = scheme" "absent q s"
    and "case fst (del r s) of None \<Rightarrow> True | Some e \<Rightarrow> is_not_found e"
  shows "absent q (snd (del r s))"
proof (cases "rValue q = rValue r")
  case True
  then have "q = r" using assms by simp
  then show ?thesis using assms del_absent_after by simp
next
  case False
  then show ?thesis using assms del_other [of r q s] by (simp add: absent_def)
qed

end

text \<open>The in-memory provider keeps the contract, for every scheme.\<close>

interpretation static: secret_store sch "static_Get lbl" static_Store static_Delete for sch lbl
  by unfold_locales (auto simp: static_Get_def static_Store_def static_Delete_def split: option.splits)

text \<open>
  The documented behaviour of go-keyring: a value that was set is read back, a deleted one is not
  found, other keys are not touched, a failed write leaves the store unchanged.
\<close>

definition keyring_laws :: "'r keyring_ops \<Rightarrow> bool" where
  "keyring_laws ops \<longleftrightarrow>
     (\<forall>svc k k' v s s' e.
        (kSet ops svc k v s = (None, s') \<longrightarrow> kGet ops svc k s' = Inr v) \<and>
        (k' \<noteq> k \<longrightarrow> kGet ops svc k' (snd (kSet ops svc k v s)) = kGet ops svc k' s) \<and>
        (kSet ops svc k v s = (Some e, s') \<longrightarrow> kGet ops svc k' s' = kGet ops svc k' s) \<and>
        (kDelete ops svc k s = (None, s') \<longrightarrow> kGet ops svc k s' = Inl RingNotFound) \<and>
        (kDelete ops svc k s = (Some RingNotFound, s') \<longrightarrow> kGet ops svc k s' = Inl RingNotFound) \<and>
        (k' \<noteq> k \<longrightarrow> kGet ops svc k' (snd (kDelete ops svc k s)) = kGet ops svc k' s))"

lemma keyring_lawsD:
  assumes "keyring_laws ops"
  shows "kSet ops svc k v s = (None, s') \<Longrightarrow> kGet ops svc k s' = Inr v"
    and "k' \<noteq> k \<Longrightarrow> kGet ops svc k' (snd (kSet ops svc k v s)) = kGet ops svc k' s"
    and "kSet ops svc k v s = (Some e, s') \<Longrightarrow> kGet ops svc k' s' = kGet ops svc k' s"
    and "kDelete ops svc k s = (None, s') \<Longrightarrow> kGet ops svc k s' = Inl RingNotFound"
    and "kDelete ops svc k s = (Some RingNotFound, s') \<Longrightarrow> kGet ops svc k s' = Inl RingNotFound"
    and "k' \<noteq> k \<Longrightarrow> kGet ops svc k' (snd (kDelete ops svc k s)) = kGet ops svc k' s"
  using assms unfolding keyring_laws_def by blast+

lemma keyring_secret_store:
  assumes "keyring_laws ops"
  shows "secret_store SchemeKeyring (keyring_Get ops lbl) (keyring_Store ops) (keyring_Delete ops)"
proof unfold_locales
  fix r q :: cref and c :: credential and s s' :: "'a world" and e
  note laws = keyring_lawsD [OF assms]
  show "snd (keyring_Get ops lbl r s) = s" by (simp add: keyring_Get_def)
  show "keyring_Store ops r c s = (None, s') \<Longrightarrow>
      \<exists>c'. fst (keyring_Get ops lbl r s') = Inr c' \<and> crPassword c' = crPassword c"
    by (auto simp: keyring_Store_def keyring_Get_def of_password_def split: prod.splits dest!: laws(1))
  show "rValue q \<noteq> rValue r \<Longrightarrow>
      fst (keyring_Get ops lbl q (snd (keyring_Store ops r c s))) = fst (keyring_Get ops lbl q s)"
    using laws(2) [of "rValue q" "rValue r" KeyringService "crPassword c" "wRing s"]
    by (auto simp: keyring_Store_def keyring_Get_def split: prod.splits)
  show "keyring_Store ops r c s = (Some e, s') \<Longrightarrow>
      fst (keyring_Get ops lbl q s') = fst (keyring_Get ops lbl q s)"
    by (auto simp: keyring_Store_def keyring_Get_def split: prod.splits dest!: laws(3) [of _ _ _ _ _ _ "rValue q"])
  show "keyring_Delete ops r s = (None, s') \<Longrightarrow>
      \<exists>e. fst (keyring_Get ops lbl r s') = Inl e \<and> is_not_found e"
    by (auto simp: keyring_Delete_def keyring_Get_def split: prod.splits option.splits ring_error.splits
        dest!: laws(4))
  show "keyring_Delete ops r s = (Some e, s') \<Longrightarrow> is_not_found e \<Longrightarrow>
      \<exists>e'. fst (keyring_Get ops lbl r s') = Inl e' \<and> is_not_found e'"
    by (auto simp: keyring_Delete_def keyring_Get_def split: prod.splits option.splits ring_error.splits
        dest!: laws(5))
  show "rValue q \<noteq> rValue r \<Longrightarrow>
      fst (keyring_Get ops lbl q (snd (keyring_Delete ops r s))) = fst (keyring_Get ops lbl q s)"
    using laws(6) [of "rValue q" "rValue r" KeyringService "wRing s"]
    by (auto simp: keyring_Delete_def keyring_Get_def split: prod.splits option.splits ring_error.splits)
qed

text \<open>A resolver keeps the contract for a scheme whose provider keeps it, while nothing is primed.\<close>

lemma resolver_secret_store:
  fixes p :: "'s provider" and r :: "'s resolver"
  assumes "secret_store sch (pGet p lbl) (pStore p) (pDelete p)"
    and "rsProviders r sch = Some p" and "sch \<noteq> []" and "rsPrimed r = Map.empty"
  shows "secret_store sch (resolver_Get r lbl) (resolver_Store r) (resolver_Delete r)"
proof -
  have eqs: "rScheme q = sch \<Longrightarrow> resolver_Get r lbl q s = pGet p lbl q s"
    "rScheme q = sch \<Longrightarrow> resolver_Store r q c s = pStore p q c s"
    "rScheme q = sch \<Longrightarrow> resolver_Delete r q s = pDelete p q s" for q c s
    using assms(2-4)
    by (auto simp: resolver_Get_def resolver_Store_def resolver_Delete_def resolver_lookup_def ref_is_zero_def)
  note laws = secret_store.get_pure [OF assms(1)] secret_store.put_get [OF assms(1)]
    secret_store.put_other [OF assms(1)] secret_store.put_failed [OF assms(1)]
    secret_store.del_get [OF assms(1)] secret_store.del_absent [OF assms(1)]
    secret_store.del_other [OF assms(1)]
  show ?thesis
  proof unfold_locales
    fix q q' :: cref and c :: credential and s s' :: 's and e
    assume q: "rScheme q = sch"
    show "snd (resolver_Get r lbl q s) = s" using q by (simp add: eqs laws(1))
    show "resolver_Store r q c s = (None, s') \<Longrightarrow>
        \<exists>c'. fst (resolver_Get r lbl q s') = Inr c' \<and> crPassword c' = crPassword c"
      using q laws(2) [OF q] by (simp add: eqs)
    show "rScheme q' = sch \<Longrightarrow> rValue q' \<noteq> rValue q \<Longrightarrow>
        fst (resolver_Get r lbl q' (snd (resolver_Store r q c s))) = fst (resolver_Get r lbl q' s)"
      using q laws(3) [OF q] by (simp add: eqs)
    show "rScheme q' = sch \<Longrightarrow> resolver_Store r q c s = (Some e, s') \<Longrightarrow>
        fst (resolver_Get r lbl q' s') = fst (resolver_Get r lbl q' s)"
      using q laws(4) [OF q] by (simp add: eqs)
    show "resolver_Delete r q s = (None, s') \<Longrightarrow>
        \<exists>e. fst (resolver_Get r lbl q s') = Inl e \<and> is_not_found e"
      using q laws(5) [OF q] by (simp add: eqs)
    show "resolver_Delete r q s = (Some e, s') \<Longrightarrow> is_not_found e \<Longrightarrow>
        \<exists>e'. fst (resolver_Get r lbl q s') = Inl e' \<and> is_not_found e'"
      using q laws(6) [OF q] by (simp add: eqs)
    show "rScheme q' = sch \<Longrightarrow> rValue q' \<noteq> rValue q \<Longrightarrow>
        fst (resolver_Get r lbl q' (snd (resolver_Delete r q s))) = fst (resolver_Get r lbl q' s)"
      using q laws(7) [OF q] by (simp add: eqs)
  qed
qed

lemma std_resolver_store:
  assumes "keyring_laws ops"
  shows "secret_store SchemeKeyring (resolver_Get (std_resolver ops) lbl) (resolver_Store (std_resolver ops))
    (resolver_Delete (std_resolver ops))"
  by (rule resolver_secret_store [where p = "keyring_provider ops"])
    (simp_all add: keyring_secret_store [OF assms] keyring_provider_def std_resolver_def NewResolver_def
      register_def env_provider_def file_provider_def exec_provider_def prompt_provider_def)

section \<open>Properties\<close>

lemma std_lookup:
  "rsProviders (std_resolver ops) SchemeEnv = Some env_provider"
  "rsProviders (std_resolver ops) SchemeFile = Some file_provider"
  "rsProviders (std_resolver ops) SchemeExec = Some exec_provider"
  "rsProviders (std_resolver ops) SchemePrompt = Some prompt_provider"
  "rsProviders (std_resolver ops) SchemeKeyring = Some (keyring_provider ops)"
  "rsDefault (std_resolver ops) = Some prompt_provider" "rsPrimed (std_resolver ops) = Map.empty"
  by (simp_all add: keyring_provider_def std_resolver_def NewResolver_def register_def env_provider_def
      file_provider_def exec_provider_def prompt_provider_def)

lemma ParseRef_cases:
  assumes "ParseRef s = Inr r"
  shows "r = mk_ref [] [] \<or>
    rScheme r \<in> {SchemeKeyring, SchemePrompt, SchemeEnv, SchemeFile, SchemeExec} \<and>
    trim_space (rValue r) = rValue r \<and> (rScheme r \<noteq> SchemePrompt \<longrightarrow> rValue r \<noteq> [])"
proof -
  have "trim_space SchemePrompt = SchemePrompt"
    by (rule trim_space_no_space) (auto simp: is_space_def)
  then show ?thesis
    using assms by (auto simp: ParseRef_def Let_def mk_ref_def split: if_splits option.splits prod.splits)
qed

lemma ParseRef_ref_string:
  assumes "sch \<in> {SchemeKeyring, SchemePrompt, SchemeEnv, SchemeFile, SchemeExec}"
    and "trim_space v = v" and "sch \<noteq> SchemePrompt \<longrightarrow> v \<noteq> []"
  shows "ParseRef (ref_string (mk_ref sch v)) = Inr (mk_ref sch v)"
proof -
  have sch: "trim_space sch = sch" "CHR '':'' \<notin> set sch" "sch \<noteq> []" "\<not> is_space (hd sch)"
    using assms(1) by (auto intro!: trim_space_no_space simp: is_space_def)
  show ?thesis
  proof (cases "v = []")
    case True
    with assms sch show ?thesis
      by (auto simp: ParseRef_def Let_def ref_string_def mk_ref_def str_cut_char_None [THEN iffD2])
  next
    case False
    have "\<not> is_space (last v)" using trim_space_ends(2) [of v] assms(2) False by simp
    then have "trim_space (sch @ CHR '':'' # v) = sch @ CHR '':'' # v"
      using sch False by (intro trim_space_id) auto
    with assms sch False show ?thesis
      by (auto simp: ParseRef_def Let_def ref_string_def mk_ref_def str_cut_char)
  qed
qed

text \<open>
  A credential reference written to the configuration file is read back unchanged: the text of
  every reference that parsing can produce parses to that reference.
\<close>

theorem ref_roundtrip:
  assumes "ParseRef s = Inr r"
  shows "UnmarshalText r0 (ref_string r) = (None, r)"
proof -
  have "ParseRef (ref_string r) = Inr r"
  proof (cases "r = mk_ref [] []")
    case True
    then show ?thesis by (simp add: ParseRef_def Let_def ref_string_def mk_ref_def)
  next
    case False
    moreover have "mk_ref (rScheme r) (rValue r) = r" by (simp add: mk_ref_def)
    ultimately show ?thesis
      using ParseRef_cases [OF assms] ParseRef_ref_string [of "rScheme r" "rValue r"] by auto
  qed
  then show ?thesis by (simp add: UnmarshalText_def)
qed

theorem ref_roundtrip_witness:
  "UnmarshalText (mk_ref [] []) (ref_string (mk_ref SchemeFile ''/run/a:b'')) = (None, mk_ref SchemeFile ''/run/a:b'')"
  by (rule ref_roundtrip [of "'' file : /run/a:b ''"]) (simp add: ParseRef_def mk_ref_def go_eval)

text \<open>
  An unattended run never eats its standard input: resolving an env, file or exec reference
  with the program's resolver leaves the input untouched and never reports a prompted secret,
  whether it succeeds or fails.
\<close>

theorem noninteractive_never_prompts:
  assumes "NonInteractive ref"
  shows "case Resolve (std_resolver ops) ref label w of
    (res, w') \<Rightarrow> w' = w \<and> (case res of Inr (c, prompted) \<Rightarrow> \<not> prompted | Inl e \<Rightarrow> True)"
proof -
  have "snd (resolver_Get (std_resolver ops) label ref w) = w"
    using assms
    by (auto simp: NonInteractive_def resolver_Get_def resolver_lookup_def ref_is_zero_def std_lookup
        env_provider_def file_provider_def exec_provider_def env_Get_def file_Get_def exec_Get_def)
  then show ?thesis using assms
    by (auto simp: Resolve_def split: prod.splits sum.splits)
qed

definition no_ring :: "unit keyring_ops" where
  "no_ring = \<lparr>kGet = (\<lambda>_ _ _. Inl RingOther), kSet = (\<lambda>_ _ _ s. (Some RingOther, s)),
     kDelete = (\<lambda>_ _ s. (Some RingOther, s))\<rparr>"

definition empty_world :: "'r \<Rightarrow> 'r world" where
  "empty_world r = \<lparr>wEnv = Map.empty, wFile = (\<lambda>_. FileMissing), wExec = (\<lambda>_ _ _. NoProgram),
     wInput = ''piped data'', wRing = r\<rparr>"

theorem noninteractive_never_prompts_witness:
  "snd (Resolve (std_resolver no_ring) (mk_ref SchemeEnv ''TYPO'') ''prod'' (empty_world ())) = empty_world ()"
  using noninteractive_never_prompts [where ref = "mk_ref SchemeEnv ''TYPO''" and
      ops = no_ring and label = "''prod''" and w = "empty_world ()"]
  by (simp add: NonInteractive_def mk_ref_def split: prod.splits)

text \<open>
  What is stored is what is used: after a successful store under a keyring reference the
  program's resolver hands the same password back, from the store and not from the prompt, given a
  secret store that keeps its documented laws.
\<close>

theorem stored_password_resolves:
  assumes "keyring_laws ops" and "rScheme ref = SchemeKeyring"
    and "resolver_Store (std_resolver ops) ref c w = (None, w')"
  shows "\<exists>c'. Resolve (std_resolver ops) ref label w' = (Inr (c', False), w') \<and>
    crPassword c' = crPassword c"
proof -
  note laws = std_resolver_store [OF assms(1), of label]
  obtain c' where c': "fst (resolver_Get (std_resolver ops) label ref w') = Inr c'"
    "crPassword c' = crPassword c"
    using secret_store.put_get [OF laws assms(2,3)] by blast
  moreover have "snd (resolver_Get (std_resolver ops) label ref w') = w'"
    using secret_store.get_pure [OF laws assms(2)] .
  ultimately show ?thesis by (auto simp: Resolve_def split: prod.splits)
qed

text \<open>A secret store kept in a map, to apply the property to.\<close>

definition map_ring :: "(string \<times> string \<rightharpoonup> string) keyring_ops" where
  "map_ring = \<lparr>kGet = (\<lambda>svc k m. case m (svc, k) of None \<Rightarrow> Inl RingNotFound | Some v \<Rightarrow> Inr v),
     kSet = (\<lambda>svc k v m. (None, m((svc, k) \<mapsto> v))),
     kDelete = (\<lambda>svc k m. if m (svc, k) = None then (Some RingNotFound, m) else (None, m((svc, k) := None)))\<rparr>"

lemma map_ring_laws: "keyring_laws map_ring"
  by (auto simp: keyring_laws_def map_ring_def split: option.splits if_splits)

theorem stored_password_resolves_witness:
  "\<exists>c'. Resolve (std_resolver map_ring) (mk_ref SchemeKeyring ''prod'') ''prod''
     (empty_world [(KeyringService, ''prod'') \<mapsto> ''s3cret''])
     = (Inr (c', False), empty_world [(KeyringService, ''prod'') \<mapsto> ''s3cret'']) \<and>
     crPassword c' = crPassword (of_password ''s3cret'')"
  by (rule stored_password_resolves [OF map_ring_laws, where w = "empty_world Map.empty"])
    (simp_all add: mk_ref_def resolver_Store_def resolver_lookup_def ref_is_zero_def std_lookup
      keyring_provider_def keyring_Store_def map_ring_def empty_world_def of_password_def)

text \<open>
  A secret's last carriage return is dropped even where no newline follows it, so a password
  that ends in one is altered although only a trailing newline is meant to go.
\<close>

theorem trimSecret_bare_return:
  "trimSecret (p @ [CHR 0x0D]) = p \<and> trimSecret (p @ [CHR 0x0D, CHR 0x0A]) = p"
  by (simp add: trimSecret_def trim_suffix_char_def butlast_append)

end
