(* ===== verification/Net.thy ===== *)
theory Net
  imports Prelude
begin

text \<open>
  The functions of Go's \<open>net\<close> and \<open>net/url\<close> packages that the configuration uses, on byte
  strings: \<open>net.SplitHostPort\<close>, \<open>net.JoinHostPort\<close>, \<open>url.Parse\<close>, \<open>URL.Hostname\<close>, \<open>URL.Port\<close> and
  \<open>URL.String\<close>. Errors are \<open>None\<close>: no caller looks into them. The user information of a URL is
  checked and dropped, because \<open>Context.URL\<close> clears it.
\<close>

section \<open>Host and port\<close>

fun last_index :: "char \<Rightarrow> string \<Rightarrow> nat option" where
  "last_index d [] = None"
| "last_index d (c # cs) =
     (case last_index d cs of Some i \<Rightarrow> Some (Suc i) | None \<Rightarrow> if c = d then Some 0 else None)"

definition SplitHostPort :: "string \<Rightarrow> (string \<times> string) option" where
  "SplitHostPort s =
     (case last_index CHR '':'' s of
        None \<Rightarrow> None
      | Some i \<Rightarrow>
          if has_prefix ''['' s then
            (case str_index '']'' s of
               None \<Rightarrow> None
             | Some e \<Rightarrow>
                 if e + 1 = i \<and> CHR ''['' \<notin> set (drop 1 s) \<and> CHR '']'' \<notin> set (drop (e + 1) s)
                 then Some (drop 1 (take e s), drop (i + 1) s) else None)
          else if CHR '':'' \<in> set (take i s) \<or> CHR ''['' \<in> set s \<or> CHR '']'' \<in> set s then None
          else Some (take i s, drop (i + 1) s))"

definition JoinHostPort :: "string \<Rightarrow> string \<Rightarrow> string" where
  "JoinHostPort host port =
     (if CHR '':'' \<in> set host then ''['' @ host @ '']:'' @ port else host @ '':'' @ port)"

section \<open>Escaping\<close>

datatype url_part = InPath | InHost | InZone | InUser | InFragment

definition is_alpha :: "char \<Rightarrow> bool" where
  "is_alpha c \<longleftrightarrow> (let n = of_char c :: nat in (97 \<le> n \<and> n \<le> 122) \<or> (65 \<le> n \<and> n \<le> 90))"

definition hex_val :: "char \<Rightarrow> nat option" where
  "hex_val c =
     (let n = of_char c :: nat
      in if 48 \<le> n \<and> n \<le> 57 then Some (n - 48)
         else if 97 \<le> n \<and> n \<le> 102 then Some (n - 87)
         else if 65 \<le> n \<and> n \<le> 70 then Some (n - 55) else None)"

definition hex_digit :: "nat \<Rightarrow> char" where
  "hex_digit n = char_of (if n < 10 then 48 + n else 55 + n)"

definition should_escape :: "url_part \<Rightarrow> char \<Rightarrow> bool" where
  "should_escape m c =
     (if is_alpha c \<or> is_digit c \<or> c \<in> set ''-_.~'' then False
      else if m \<in> {InHost, InZone} \<and> c \<in> set (''!$&()*+,;=:[]<>'' @ [CHR 0x27, CHR 0x22]) then False
      else if c \<in> set ''$&+,/:;=?@'' then
        (case m of InPath \<Rightarrow> c = CHR ''?''
         | InUser \<Rightarrow> c \<in> set ''@/?:''
         | InFragment \<Rightarrow> False
         | _ \<Rightarrow> True)
      else if m = InFragment \<and> c \<in> set ''!()*'' then False
      else True)"

fun url_unescape :: "url_part \<Rightarrow> string \<Rightarrow> string option" where
  "url_unescape m [] = Some []"
| "url_unescape m (c # cs) =
     (if c = CHR ''%'' then
        (case cs of
           a # b # rest \<Rightarrow>
             (case (hex_val a, hex_val b) of
                (Some h, Some l) \<Rightarrow>
                  if m = InHost \<and> h < 8 \<and> \<not> (h = 2 \<and> l = 5) then None
                  else if m = InZone \<and> \<not> (h = 2 \<and> l = 5) \<and> char_of (16 * h + l) \<noteq> CHR '' '' \<and>
                    should_escape InHost (char_of (16 * h + l)) then None
                  else map_option ((#) (char_of (16 * h + l))) (url_unescape m rest)
              | _ \<Rightarrow> None)
         | _ \<Rightarrow> None)
      else if m \<in> {InHost, InZone} \<and> (of_char c :: nat) < 128 \<and> should_escape m c then None
      else map_option ((#) c) (url_unescape m cs))"

definition escape :: "url_part \<Rightarrow> string \<Rightarrow> string" where
  "escape m s = concat (map (\<lambda>c. if should_escape m c
     then [CHR ''%'', hex_digit (of_char c div 16), hex_digit (of_char c mod 16)] else [c]) s)"

section \<open>URLs\<close>

record url =
  uScheme :: string
  uHost :: string
  uPath :: string
  uRawPath :: string
  uForceQuery :: bool
  uRawQuery :: string
  uFragment :: string

text \<open>\<open>None\<close> is an error, \<open>Some ([], s)\<close> a string without a scheme.\<close>

fun scheme_loop :: "string \<Rightarrow> string \<Rightarrow> string \<Rightarrow> (string \<times> string) option" where
  "scheme_loop whole acc [] = Some ([], whole)"
| "scheme_loop whole acc (c # cs) =
     (if is_alpha c then scheme_loop whole (acc @ [c]) cs
      else if is_digit c \<or> c \<in> set ''+-.'' then
        (if acc = [] then Some ([], whole) else scheme_loop whole (acc @ [c]) cs)
      else if c = CHR '':'' then (if acc = [] then None else Some (acc, cs))
      else Some ([], whole))"

definition get_scheme :: "string \<Rightarrow> (string \<times> string) option" where
  "get_scheme s = scheme_loop s [] s"

definition valid_optional_port :: "string \<Rightarrow> bool" where
  "valid_optional_port s \<longleftrightarrow> s = [] \<or> (hd s = CHR '':'' \<and> list_all is_digit (tl s))"

definition parse_host :: "string \<Rightarrow> string option" where
  "parse_host h =
     (if has_prefix ''['' h then
        (case last_index CHR '']'' h of
           None \<Rightarrow> None
         | Some i \<Rightarrow>
             if \<not> valid_optional_port (drop (i + 1) h) then None
             else (case str_index ''%25'' (take i h) of
                     None \<Rightarrow> url_unescape InHost h
                   | Some z \<Rightarrow>
                       (case (url_unescape InHost (take z h), url_unescape InZone (drop z (take i h)),
                              url_unescape InHost (drop i h)) of
                          (Some a, Some b, Some c) \<Rightarrow> Some (a @ b @ c)
                        | _ \<Rightarrow> None)))
      else (case last_index CHR '':'' h of
              None \<Rightarrow> url_unescape InHost h
            | Some i \<Rightarrow> if valid_optional_port (drop i h) then url_unescape InHost h else None))"

definition valid_userinfo :: "string \<Rightarrow> bool" where
  "valid_userinfo s \<longleftrightarrow>
     list_all (\<lambda>c. is_alpha c \<or> is_digit c \<or> c \<in> set (''-._:~!$&()*+,;=%@'' @ [CHR 0x27])) s"

definition parse_authority :: "string \<Rightarrow> string option" where
  "parse_authority a =
     (case last_index CHR ''@'' a of
        None \<Rightarrow> parse_host a
      | Some i \<Rightarrow>
          (case parse_host (drop (i + 1) a) of
             None \<Rightarrow> None
           | Some h \<Rightarrow>
               if \<not> valid_userinfo (take i a) then None
               else (case str_cut '':'' (take i a) of
                       None \<Rightarrow> if url_unescape InUser (take i a) = None then None else Some h
                     | Some (u, p) \<Rightarrow>
                         if url_unescape InUser u = None \<or> url_unescape InUser p = None then None else Some h)))"

definition has_ctl :: "string \<Rightarrow> bool" where
  "has_ctl s \<longleftrightarrow> list_ex (\<lambda>c. (of_char c :: nat) < 32 \<or> (of_char c :: nat) = 127) s"

definition set_path :: "string \<Rightarrow> url \<Rightarrow> url option" where
  "set_path p u = map_option (\<lambda>d. u\<lparr>uPath := d, uRawPath := if p = escape InPath d then [] else p\<rparr>)
     (url_unescape InPath p)"

definition cut_query :: "string \<Rightarrow> bool \<times> string \<times> string" where
  "cut_query s =
     (if has_suffix ''?'' s \<and> length (filter (\<lambda>c. c = CHR ''?'') s) = 1 then (True, butlast s, [])
      else (case str_cut ''?'' s of None \<Rightarrow> (False, s, []) | Some (p, q) \<Rightarrow> (False, p, q)))"

definition parse_no_fragment :: "string \<Rightarrow> url option" where
  "parse_no_fragment s =
     (if has_ctl s then None
      else if s = ''*'' then
        Some \<lparr>uScheme = [], uHost = [], uPath = ''*'', uRawPath = [], uForceQuery = False, uRawQuery = [], uFragment = []\<rparr>
      else
        (case get_scheme s of
           None \<Rightarrow> None
         | Some (sch, rest0) \<Rightarrow>
             (case cut_query rest0 of
                (fq, rest, q) \<Rightarrow>
                  (let u = \<lparr>uScheme = to_lower sch, uHost = [], uPath = [], uRawPath = [], uForceQuery = fq,
                            uRawQuery = q, uFragment = []\<rparr>
                   in if \<not> has_prefix ''/'' rest \<and> sch \<noteq> [] then Some u
                      else if \<not> has_prefix ''/'' rest \<and>
                        CHR '':'' \<in> set (takeWhile (\<lambda>c. c \<noteq> CHR ''/'') rest) then None
                      else if (sch \<noteq> [] \<or> \<not> has_prefix ''///'' rest) \<and> has_prefix ''//'' rest then
                        (let a = takeWhile (\<lambda>c. c \<noteq> CHR ''/'') (drop 2 rest);
                             p = dropWhile (\<lambda>c. c \<noteq> CHR ''/'') (drop 2 rest)
                         in (case parse_authority a of
                               None \<Rightarrow> None
                             | Some h \<Rightarrow> set_path p (u\<lparr>uHost := h\<rparr>)))
                      else set_path rest u))))"

definition url_parse :: "string \<Rightarrow> url option" where
  "url_parse raw =
     (case str_cut ''#'' raw of
        None \<Rightarrow> parse_no_fragment raw
      | Some (s, f) \<Rightarrow>
          (case parse_no_fragment s of
             None \<Rightarrow> None
           | Some u \<Rightarrow> map_option (\<lambda>d. u\<lparr>uFragment := d\<rparr>) (url_unescape InFragment f)))"

definition split_host_port :: "string \<Rightarrow> string \<times> string" where
  "split_host_port hp =
     (let (h, p) = (case last_index CHR '':'' hp of
                      None \<Rightarrow> (hp, [])
                    | Some i \<Rightarrow> if valid_optional_port (drop i hp) then (take i hp, drop (i + 1) hp)
                        else (hp, []))
      in (if has_prefix ''['' h \<and> has_suffix '']'' h then butlast (tl h) else h, p))"

definition url_Hostname :: "url \<Rightarrow> string" where
  "url_Hostname u = fst (split_host_port (uHost u))"

definition url_Port :: "url \<Rightarrow> string" where
  "url_Port u = snd (split_host_port (uHost u))"

text \<open>
  \<open>URL.String\<close> of a URL that has a host. An escaped path is kept when it still decodes to the path.
\<close>

definition escaped_path :: "url \<Rightarrow> string" where
  "escaped_path u =
     (if uRawPath u \<noteq> [] \<and> url_unescape InPath (uRawPath u) = Some (uPath u) \<and>
         list_all (\<lambda>c. c \<in> set (''!$&()*+,;=:@[]%'' @ [CHR 0x27]) \<or> \<not> should_escape InPath c) (uRawPath u)
      then uRawPath u
      else if uPath u = ''*'' then ''*'' else escape InPath (uPath u))"

definition url_string :: "url \<Rightarrow> string" where
  "url_string u =
     (if uScheme u = [] then [] else uScheme u @ '':'') @ ''//'' @ escape InHost (uHost u) @
     (let p = escaped_path u in (if p \<noteq> [] \<and> hd p \<noteq> CHR ''/'' then ''/'' @ p else p)) @
     (if uForceQuery u \<or> uRawQuery u \<noteq> [] then ''?'' @ uRawQuery u else []) @
     (if uFragment u = [] then [] else ''#'' @ escape InFragment (uFragment u))"

lemmas net_eval = SplitHostPort_def JoinHostPort_def is_alpha_def hex_val_def hex_digit_def should_escape_def
  escape_def get_scheme_def valid_optional_port_def parse_host_def valid_userinfo_def parse_authority_def
  has_ctl_def set_path_def cut_query_def parse_no_fragment_def url_parse_def split_host_port_def
  url_Hostname_def url_Port_def escaped_path_def url_string_def

end
