(* ===== verification/Config.thy ===== *)
theory Config
  imports Credentials Net
begin

text \<open>
  The configuration (internal/config): a context is one vCenter and how to reach it, a config the
  list of contexts and the current one. Modelled are validation and normalisation of a context, the
  derivation of its SDK URL and address, and the operations on the list. Reading and writing the
  TOML file is not; \<open>load_config\<close> starts from the decoded file.
\<close>

section \<open>Data\<close>

abbreviation "TransportDirect \<equiv> ''direct''"
abbreviation "TransportSOCKS5 \<equiv> ''socks5''"
abbreviation "TransportHTTPProxy \<equiv> ''http''"
abbreviation "TransportHTTPSProxy \<equiv> ''https''"
abbreviation "TLSSystem \<equiv> ''system''"
abbreviation "TLSThumbprint \<equiv> ''thumbprint''"
abbreviation "TLSInsecure \<equiv> ''insecure''"

record transport =
  tType :: string
  tAddress :: string
  tRemoteDNS :: bool
  tUsername :: string
  tCredential :: cref

record tls =
  tlsMode :: string
  tlsThumbprint :: string

record vcontext =
  cxName :: string
  cxEndpoint :: string
  cxUsername :: string
  cxCredential :: cref
  cxVia :: string
  cxViaMoRef :: string
  cxDatacenter :: string
  cxTransport :: transport
  cxTLS :: tls

record config =
  cfVersion :: int
  cfCurrent :: string
  cfContexts :: "vcontext list"

datatype config_error =
    AddressNotUsed | AddressRequired string | AddressForm string | UnknownTransport string
  | ThumbprintRequired | UnknownTLSMode string
  | EmptyEndpoint string | InvalidEndpoint string string | NoHost string string | BadScheme string string
  | NameRequired | NameCharacters string | UsernameRequired string
  | InContext string config_error
  | DuplicateName string | CurrentUnknown string
  | NoContexts | NoneSelected | NotFound string | AlreadyExists string
  | NewerVersion int
  | NoPath | SaveFailed string

section \<open>Transport and TLS\<close>

definition transport_Describe :: "transport \<Rightarrow> string" where
  "transport_Describe t =
     (if tType t = TransportSOCKS5 then
        ''SOCKS5 -> '' @ tAddress t @ (if tRemoteDNS t then '' (remote DNS)'' else [])
      else if tType t = TransportHTTPProxy then ''HTTP proxy -> '' @ tAddress t
      else if tType t = TransportHTTPSProxy then ''HTTPS proxy -> '' @ tAddress t
      else ''Direct'')"

definition transport_validate :: "transport \<Rightarrow> config_error option" where
  "transport_validate t =
     (if tType t = TransportDirect \<or> tType t = [] then
        (if tAddress t \<noteq> [] then Some AddressNotUsed else None)
      else if tType t \<in> {TransportSOCKS5, TransportHTTPProxy, TransportHTTPSProxy} then
        (if tAddress t = [] then Some (AddressRequired (tType t))
         else (case SplitHostPort (tAddress t) of
                 None \<Rightarrow> Some (AddressForm (tAddress t))
               | Some (host, port) \<Rightarrow>
                   if host = [] \<or> port = [] then Some (AddressForm (tAddress t)) else None))
      else Some (UnknownTransport (tType t)))"

definition tls_Describe :: "tls \<Rightarrow> string" where
  "tls_Describe t =
     (if tlsMode t = TLSThumbprint then ''Pinned thumbprint''
      else if tlsMode t = TLSInsecure then ''Verification disabled''
      else ''System trust store'')"

text \<open>\<open>None\<close> is a character that makes the fingerprint invalid, \<open>Some []\<close> a separator.\<close>

definition thumb_char :: "char \<Rightarrow> string option" where
  "thumb_char r =
     (let n = of_char r :: nat
      in if is_digit r \<or> (65 \<le> n \<and> n \<le> 70) then Some [r]
         else if 97 \<le> n \<and> n \<le> 102 then Some [char_of (n - 32)]
         else if r \<in> {CHR '':'', CHR '' '', CHR ''-''} then Some [] else None)"

fun thumb_hex :: "string \<Rightarrow> string option" where
  "thumb_hex [] = Some []"
| "thumb_hex (r # rs) =
     (case thumb_char r of
        None \<Rightarrow> None
      | Some h \<Rightarrow> map_option ((@) h) (thumb_hex rs))"

fun pairs_of :: "string \<Rightarrow> string list" where
  "pairs_of (a # b # cs) = [a, b] # pairs_of cs"
| "pairs_of _ = []"

definition NormalizeThumbprint :: "string \<Rightarrow> string" where
  "NormalizeThumbprint s =
     (case thumb_hex s of
        None \<Rightarrow> []
      | Some h \<Rightarrow> if h = [] \<or> odd (length h) then [] else str_join '':'' (pairs_of h))"

definition tls_validate :: "tls \<Rightarrow> config_error option" where
  "tls_validate t =
     (if tlsMode t \<in> {TLSSystem, [], TLSInsecure} then None
      else if tlsMode t = TLSThumbprint then
        (if NormalizeThumbprint (tlsThumbprint t) = [] then Some ThumbprintRequired else None)
      else Some (UnknownTLSMode (tlsMode t)))"

section \<open>One context\<close>

text \<open>A context is a pointer that may be nil: \<open>None\<close>.\<close>

definition SameConnection :: "vcontext option \<Rightarrow> vcontext option \<Rightarrow> bool" where
  "SameConnection c other =
     (case (c, other) of (Some a, Some b) \<Rightarrow> a = b | (None, None) \<Rightarrow> True | _ \<Rightarrow> False)"

definition context_URL :: "vcontext \<Rightarrow> config_error + url" where
  "context_URL c =
     (let raw = trim_space (cxEndpoint c)
      in if raw = [] then Inl (EmptyEndpoint (cxName c))
         else
           (let raw = (if str_contains ''://'' raw then raw else ''https://'' @ raw)
            in case url_parse raw of
                 None \<Rightarrow> Inl (InvalidEndpoint (cxName c) (cxEndpoint c))
               | Some u \<Rightarrow>
                   if uHost u = [] then Inl (NoHost (cxName c) (cxEndpoint c))
                   else if uScheme u \<noteq> ''http'' \<and> uScheme u \<noteq> ''https'' then Inl (BadScheme (cxName c) (uScheme u))
                   else Inr (if uPath u = [] \<or> uPath u = ''/'' then u\<lparr>uPath := ''/sdk''\<rparr> else u)))"

definition context_Host :: "vcontext \<Rightarrow> string" where
  "context_Host c = (case context_URL c of Inl e \<Rightarrow> [] | Inr u \<Rightarrow> url_Hostname u)"

definition context_Address :: "vcontext \<Rightarrow> config_error + string" where
  "context_Address c =
     (case context_URL c of
        Inl e \<Rightarrow> Inl e
      | Inr u \<Rightarrow>
          (let port = (if url_Port u = [] then (if uScheme u = ''http'' then ''80'' else ''443'') else url_Port u)
           in Inr (JoinHostPort (url_Hostname u) port)))"

definition context_Validate :: "vcontext \<Rightarrow> config_error option" where
  "context_Validate c =
     (if trim_space (cxName c) = [] then Some NameRequired
      else if list_ex (\<lambda>x. x \<in> {CHR '' '', CHR 0x09, CHR ''/'', CHR 0x5C}) (cxName c)
      then Some (NameCharacters (cxName c))
      else (case context_URL c of
              Inl e \<Rightarrow> Some e
            | Inr _ \<Rightarrow>
                if trim_space (cxUsername c) = [] then Some (UsernameRequired (cxName c))
                else (case transport_validate (cxTransport c) of
                        Some e \<Rightarrow> Some (InContext (cxName c) e)
                      | None \<Rightarrow> map_option (InContext (cxName c)) (tls_validate (cxTLS c)))))"

text \<open>\<open>slug_loop out lastDash s\<close>: the loop of \<open>SlugName\<close>.\<close>

definition slug_allowed :: "char \<Rightarrow> bool" where
  "slug_allowed r \<longleftrightarrow>
     (let n = of_char r :: nat in (97 \<le> n \<and> n \<le> 122) \<or> is_digit r \<or> r = CHR ''.'' \<or> r = CHR ''_'')"

fun slug_loop :: "string \<Rightarrow> bool \<Rightarrow> string \<Rightarrow> string" where
  "slug_loop out lastDash [] = out"
| "slug_loop out lastDash (c # cs) =
     (let r = (if slug_allowed (lower_char c) then lower_char c else CHR ''-'')
      in if r = CHR ''-'' then
           (if lastDash \<or> out = [] then slug_loop out True cs else slug_loop (out @ ''-'') True cs)
         else slug_loop (out @ [r]) False cs)"

definition trim_suffix :: "string \<Rightarrow> string \<Rightarrow> string" where
  "trim_suffix p s = (if has_suffix p s then take (length s - length p) s else s)"

definition SlugName :: "string \<Rightarrow> string" where
  "SlugName s = trim_suffix ''-'' (slug_loop [] False s)"

definition normalize_endpoint :: "vcontext \<Rightarrow> vcontext" where
  "normalize_endpoint c =
     (case context_URL c of
        Inl _ \<Rightarrow> c
      | Inr u \<Rightarrow> c\<lparr>cxEndpoint := trim_suffix ''/'' (url_string (u\<lparr>uPath := trim_suffix ''/sdk'' (uPath u)\<rparr>))\<rparr>)"

definition trim_fields :: "vcontext \<Rightarrow> vcontext" where
  "trim_fields c =
     c\<lparr>cxName := trim_space (cxName c), cxUsername := trim_space (cxUsername c),
       cxEndpoint := trim_space (cxEndpoint c), cxVia := trim_space (cxVia c),
       cxViaMoRef := trim_space (cxViaMoRef c)\<rparr>"

definition drop_self_via :: "vcontext \<Rightarrow> vcontext" where
  "drop_self_via c = (if cxVia c = cxName c then c\<lparr>cxVia := []\<rparr> else c)"

definition default_modes :: "vcontext \<Rightarrow> vcontext" where
  "default_modes c =
     c\<lparr>cxTransport := (if tType (cxTransport c) = [] then (cxTransport c)\<lparr>tType := TransportDirect\<rparr> else cxTransport c),
       cxTLS := (if tlsMode (cxTLS c) = [] then (cxTLS c)\<lparr>tlsMode := TLSSystem\<rparr> else cxTLS c)\<rparr>"

definition normalize_pin :: "vcontext \<Rightarrow> vcontext" where
  "normalize_pin c =
     (if tlsMode (cxTLS c) = TLSThumbprint
      then c\<lparr>cxTLS := (cxTLS c)\<lparr>tlsThumbprint := NormalizeThumbprint (tlsThumbprint (cxTLS c))\<rparr>\<rparr> else c)"

definition context_Normalize :: "vcontext \<Rightarrow> vcontext" where
  "context_Normalize c = normalize_endpoint (normalize_pin (default_modes (drop_self_via (trim_fields c))))"

section \<open>The list of contexts\<close>

fun validate_contexts :: "string list \<Rightarrow> vcontext list \<Rightarrow> config_error + string list" where
  "validate_contexts seen [] = Inr seen"
| "validate_contexts seen (c # cs) =
     (case context_Validate c of
        Some e \<Rightarrow> Inl e
      | None \<Rightarrow> if cxName c \<in> set seen then Inl (DuplicateName (cxName c))
          else validate_contexts (cxName c # seen) cs)"

definition config_Validate :: "config \<Rightarrow> config_error option" where
  "config_Validate f =
     (case validate_contexts [] (cfContexts f) of
        Inl e \<Rightarrow> Some e
      | Inr seen \<Rightarrow> if cfCurrent f \<noteq> [] \<and> cfCurrent f \<notin> set seen then Some (CurrentUnknown (cfCurrent f)) else None)"

text \<open>The version the program writes, and what \<open>Load\<close> does with a decoded file.\<close>

definition config_version :: int where
  "config_version = 1"

definition load_config :: "config \<Rightarrow> config_error + config" where
  "load_config f0 =
     (let f = (if cfVersion f0 = 0 then f0\<lparr>cfVersion := config_version\<rparr> else f0)
      in if config_version < cfVersion f then Inl (NewerVersion (cfVersion f))
         else (let f = f\<lparr>cfContexts := map context_Normalize (cfContexts f)\<rparr>
               in case config_Validate f of Some e \<Rightarrow> Inl e | None \<Rightarrow> Inr f))"

definition find_context :: "string \<Rightarrow> vcontext list \<Rightarrow> vcontext option" where
  "find_context name cs = find (\<lambda>c. cxName c = name) cs"

definition config_Context :: "config \<Rightarrow> string \<Rightarrow> config_error + vcontext" where
  "config_Context f name0 =
     (let named = (\<lambda>name. case find_context name (cfContexts f) of None \<Rightarrow> Inl (NotFound name) | Some c \<Rightarrow> Inr c)
      in if name0 = [] then
           (if cfCurrent f \<noteq> [] then named (cfCurrent f)
            else (case cfContexts f of [c] \<Rightarrow> Inr c | [] \<Rightarrow> Inl NoContexts | _ \<Rightarrow> Inl NoneSelected))
         else named name0)"

definition config_Names :: "config \<Rightarrow> string list" where
  "config_Names f = map cxName (cfContexts f)"

fun resolve_names :: "config \<Rightarrow> string list \<Rightarrow> config_error + vcontext list" where
  "resolve_names f [] = Inr []"
| "resolve_names f (n # ns) =
     (case config_Context f n of
        Inl e \<Rightarrow> Inl e
      | Inr c \<Rightarrow> (case resolve_names f ns of Inl e \<Rightarrow> Inl e | Inr cs \<Rightarrow> Inr (c # cs)))"

definition config_Resolve :: "config \<Rightarrow> string list \<Rightarrow> bool \<Rightarrow> config_error + vcontext list" where
  "config_Resolve f names all =
     (if all then (if cfContexts f = [] then Inl NoContexts else Inr (cfContexts f))
      else if names = [] then (case config_Context f [] of Inl e \<Rightarrow> Inl e | Inr c \<Rightarrow> Inr [c])
      else resolve_names f names)"

fun replace_context :: "vcontext \<Rightarrow> vcontext list \<Rightarrow> vcontext list option" where
  "replace_context c [] = None"
| "replace_context c (x # xs) =
     (if cxName x = cxName c then Some (c # xs) else map_option ((#) x) (replace_context c xs))"

definition config_Add :: "config \<Rightarrow> vcontext \<Rightarrow> bool \<Rightarrow> config_error option \<times> config" where
  "config_Add f c0 replace =
     (let c = context_Normalize c0
      in case context_Validate c of
           Some e \<Rightarrow> (Some e, f)
         | None \<Rightarrow>
             (case replace_context c (cfContexts f) of
                None \<Rightarrow> (None, f\<lparr>cfContexts := cfContexts f @ [c]\<rparr>)
              | Some cs \<Rightarrow> if replace then (None, f\<lparr>cfContexts := cs\<rparr>) else (Some (AlreadyExists (cxName c)), f)))"

fun remove_context :: "string \<Rightarrow> vcontext list \<Rightarrow> vcontext list option" where
  "remove_context name [] = None"
| "remove_context name (x # xs) =
     (if cxName x = name then Some xs else map_option ((#) x) (remove_context name xs))"

definition config_Remove :: "config \<Rightarrow> string \<Rightarrow> config_error option \<times> config" where
  "config_Remove f name =
     (case remove_context name (cfContexts f) of
        None \<Rightarrow> (Some (NotFound name), f)
      | Some cs \<Rightarrow> (None, f\<lparr>cfContexts := cs, cfCurrent := (if cfCurrent f = name then [] else cfCurrent f)\<rparr>))"

definition config_Sort :: "config \<Rightarrow> config" where
  "config_Sort f = f\<lparr>cfContexts := sort_key cxName (cfContexts f)\<rparr>"

text \<open>
  \<open>Save\<close> writes the file after checking the configuration; \<open>write\<close> is the file system, which
  refuses with a message or succeeds.
\<close>

definition config_Save :: "(config \<Rightarrow> string option) \<Rightarrow> string \<Rightarrow> config \<Rightarrow> config_error option \<times> config" where
  "config_Save write path f =
     (if path = [] then (Some NoPath, f)
      else (case config_Validate f of
              Some e \<Rightarrow> (Some e, f)
            | None \<Rightarrow>
                (let f = (if cfVersion f = 0 then f\<lparr>cfVersion := config_version\<rparr> else f)
                 in (map_option SaveFailed (write f), f))))"

section \<open>Fingerprints and slugs\<close>

definition upper_hex :: "char \<Rightarrow> bool" where
  "upper_hex c \<longleftrightarrow> is_digit c \<or> (65 \<le> (of_char c :: nat) \<and> of_char c \<le> (70 :: nat))"

lemma thumb_char_upper: "thumb_char c = Some h \<Longrightarrow> list_all upper_hex h"
  by (auto simp: thumb_char_def Let_def upper_hex_def split: if_splits)

lemma thumb_hex_upper: "thumb_hex s = Some h \<Longrightarrow> list_all upper_hex h"
  by (induction s arbitrary: h) (auto split: option.splits dest: thumb_char_upper)

lemma thumb_hex_append:
  "thumb_hex (a @ b) = (case (thumb_hex a, thumb_hex b) of (Some x, Some y) \<Rightarrow> Some (x @ y) | _ \<Rightarrow> None)"
  by (induction a) (auto split: option.splits)

lemma thumb_char_id: "upper_hex c \<Longrightarrow> thumb_char c = Some [c]"
  by (auto simp: thumb_char_def upper_hex_def Let_def)

lemma thumb_hex_pairs:
  "list_all upper_hex h \<Longrightarrow> even (length h) \<Longrightarrow> thumb_hex (str_join '':'' (pairs_of h)) = Some h"
proof (induction h rule: pairs_of.induct)
  case (1 a b cs)
  have sep: "thumb_char CHR '':'' = Some []" by (simp add: thumb_char_def is_digit_def)
  from 1 have IH: "thumb_hex (str_join '':'' (pairs_of cs)) = Some cs" by simp
  show ?case
  proof (cases "pairs_of cs")
    case Nil
    with 1 have "cs = []" by (cases cs rule: pairs_of.cases) auto
    with 1 show ?thesis by (simp add: thumb_char_id)
  next
    case (Cons p ps)
    with 1 IH sep show ?thesis by (simp add: thumb_char_id)
  qed
qed auto

lemma NormalizeThumbprint_eq:
  "NormalizeThumbprint s \<noteq> [] \<Longrightarrow> thumb_hex (NormalizeThumbprint s) = thumb_hex s"
  using thumb_hex_upper [of s] thumb_hex_pairs
  by (fastforce simp: NormalizeThumbprint_def split: option.splits if_splits)

lemma NormalizeThumbprint_cong: "thumb_hex s = thumb_hex t \<Longrightarrow> NormalizeThumbprint s = NormalizeThumbprint t"
  by (simp add: NormalizeThumbprint_def)

fun no_double_dash :: "string \<Rightarrow> bool" where
  "no_double_dash (a # b # cs) \<longleftrightarrow> \<not> (a = CHR ''-'' \<and> b = CHR ''-'') \<and> no_double_dash (b # cs)"
| "no_double_dash _ \<longleftrightarrow> True"

definition slug_shape :: "string \<Rightarrow> bool" where
  "slug_shape s \<longleftrightarrow> list_all (\<lambda>c. slug_allowed c \<or> c = CHR ''-'') s \<and> (s \<noteq> [] \<longrightarrow> hd s \<noteq> CHR ''-'') \<and>
     no_double_dash s"

lemma no_double_dash_snoc:
  "no_double_dash (s @ [c]) \<longleftrightarrow> no_double_dash s \<and> (s = [] \<or> \<not> (last s = CHR ''-'' \<and> c = CHR ''-''))"
  by (induction s rule: no_double_dash.induct) auto

lemma no_double_dash_append: "no_double_dash (a @ b) \<Longrightarrow> no_double_dash a"
  by (induction b rule: rev_induct) (auto simp: no_double_dash_snoc simp flip: append_assoc)

lemma slug_shape_prefix: "slug_shape (a @ b) \<Longrightarrow> slug_shape a"
  by (auto simp: slug_shape_def dest: no_double_dash_append)

lemma slug_shape_snoc:
  "slug_shape s \<Longrightarrow> slug_allowed c \<or> c = CHR ''-'' \<and> s \<noteq> [] \<and> last s \<noteq> CHR ''-'' \<Longrightarrow> slug_shape (s @ [c])"
  by (auto simp: slug_shape_def no_double_dash_snoc slug_allowed_def is_digit_def hd_append)

lemma slug_loop_shape:
  "slug_shape out \<Longrightarrow> (out \<noteq> [] \<longrightarrow> lastDash = (last out = CHR ''-'')) \<Longrightarrow> slug_shape (slug_loop out lastDash s)"
proof (induction out lastDash s rule: slug_loop.induct)
  case (2 out lastDash c cs)
  then show ?case
    using slug_shape_snoc [of out "lower_char c"] slug_shape_snoc [of out "CHR ''-''"]
    by (auto simp: Let_def)
qed simp

lemma slug_allowed_lower: "slug_allowed c \<Longrightarrow> lower_char c = c \<and> c \<noteq> CHR ''-''"
  by (auto simp: slug_allowed_def lower_char_def is_digit_def Let_def)

lemma slug_loop_fixed:
  "slug_shape (out @ s) \<Longrightarrow> (out \<noteq> [] \<longrightarrow> lastDash = (last out = CHR ''-'')) \<Longrightarrow> (out = [] \<longrightarrow> \<not> lastDash) \<Longrightarrow>
   slug_loop out lastDash s = out @ s"
proof (induction out lastDash s rule: slug_loop.induct)
  case (2 out lastDash c cs)
  have pre: "slug_shape (out @ [c])" using 2(4) slug_shape_prefix [of "out @ [c]" cs] by simp
  have dash: "lower_char CHR ''-'' = CHR ''-''" "\<not> slug_allowed CHR ''-''"
    by (simp_all add: lower_char_def slug_allowed_def is_digit_def)
  show ?case
  proof (cases "c = CHR ''-''")
    case True
    with pre have "out \<noteq> []" "last out \<noteq> CHR ''-''"
      by (auto simp: slug_shape_def no_double_dash_snoc)
    with 2 True dash show ?thesis by (auto simp: Let_def)
  next
    case False
    with pre have "slug_allowed c" by (simp add: slug_shape_def)
    with slug_allowed_lower [of c] 2 show ?thesis by (auto simp: Let_def)
  qed
qed simp

lemma trim_suffix_cases: "trim_suffix p s = s \<and> \<not> has_suffix p s \<or> s = trim_suffix p s @ p"
  by (auto simp: trim_suffix_def has_suffix_iff)

lemma SlugName_shape:
  "slug_shape (SlugName s) \<and> (SlugName s \<noteq> [] \<longrightarrow> last (SlugName s) \<noteq> CHR ''-'')"
proof -
  have l: "slug_shape (slug_loop [] False s)" by (rule slug_loop_shape) (auto simp: slug_shape_def)
  from trim_suffix_cases [of "''-''" "slug_loop [] False s"] show ?thesis
  proof
    assume a: "trim_suffix ''-'' (slug_loop [] False s) = slug_loop [] False s \<and>
      \<not> has_suffix ''-'' (slug_loop [] False s)"
    moreover have "last (slug_loop [] False s) \<noteq> CHR ''-''" if "slug_loop [] False s \<noteq> []"
      using a that by (auto simp: has_suffix_iff) (metis append_butlast_last_id)
    ultimately show ?thesis using l by (simp add: SlugName_def)
  next
    assume "slug_loop [] False s = trim_suffix ''-'' (slug_loop [] False s) @ ''-''"
    then have "slug_shape (SlugName s @ ''-'')" using l by (simp add: SlugName_def)
    then show ?thesis
      by (auto simp: slug_shape_def no_double_dash_snoc dest: no_double_dash_append)
  qed
qed

section \<open>Validity of the list\<close>

lemma validate_contexts_Inr:
  "validate_contexts seen cs = Inr seen' \<longleftrightarrow>
     (\<forall>c \<in> set cs. context_Validate c = None) \<and> distinct (map cxName cs) \<and>
     cxName ` set cs \<inter> set seen = {} \<and> seen' = rev (map cxName cs) @ seen"
  by (induction seen cs arbitrary: seen' rule: validate_contexts.induct) (auto split: option.splits)

lemma config_Validate_iff:
  "config_Validate f = None \<longleftrightarrow>
     (\<forall>c \<in> set (cfContexts f). context_Validate c = None) \<and> distinct (config_Names f) \<and>
     (cfCurrent f = [] \<or> cfCurrent f \<in> set (config_Names f))"
proof (cases "validate_contexts [] (cfContexts f)")
  case (Inl e)
  then have "\<not> ((\<forall>c \<in> set (cfContexts f). context_Validate c = None) \<and> distinct (map cxName (cfContexts f)))"
    using validate_contexts_Inr [of "[]" "cfContexts f" "rev (map cxName (cfContexts f))"] by auto
  with Inl show ?thesis by (auto simp: config_Validate_def config_Names_def)
next
  case (Inr seen)
  then show ?thesis
    using validate_contexts_Inr [of "[]" "cfContexts f" seen]
    by (auto simp: config_Validate_def config_Names_def)
qed

lemma replace_context_None: "replace_context c cs = None \<longleftrightarrow> cxName c \<notin> cxName ` set cs"
  by (induction cs) (auto split: if_splits)

lemma replace_context_names: "replace_context c cs = Some cs' \<Longrightarrow> map cxName cs' = map cxName cs"
  by (induction cs arbitrary: cs') (auto split: if_splits)

lemma replace_context_find:
  "replace_context c cs = Some cs' \<Longrightarrow>
   find_context n cs' = (if n = cxName c then Some c else find_context n cs)"
  by (induction cs arbitrary: cs') (auto simp: find_context_def split: if_splits)

lemma replace_context_set: "replace_context c cs = Some cs' \<Longrightarrow> set cs' \<subseteq> insert c (set cs)"
  by (induction cs arbitrary: cs') (fastforce split: if_splits)+

lemma remove_context_set: "remove_context n cs = Some cs' \<Longrightarrow> set cs' \<subseteq> set cs"
  by (induction cs arbitrary: cs') (fastforce split: if_splits)+

lemma remove_context_names:
  "remove_context n cs = Some cs' \<Longrightarrow> map cxName cs' = remove1 n (map cxName cs)"
  by (induction cs arbitrary: cs') (auto split: if_splits)

lemma remove_context_None: "remove_context n cs = None \<longleftrightarrow> n \<notin> cxName ` set cs"
  by (induction cs) (auto split: if_splits)

lemma find_context_append:
  "find_context n (xs @ ys) = (case find_context n xs of None \<Rightarrow> find_context n ys | Some c \<Rightarrow> Some c)"
  by (induction xs) (auto simp: find_context_def)

lemma find_context_None: "find_context n cs = None \<longleftrightarrow> n \<notin> cxName ` set cs"
  by (auto simp: find_context_def find_None_iff)

lemma find_context_Some: "find_context n cs = Some c \<Longrightarrow> c \<in> set cs \<and> cxName c = n"
  by (auto simp: find_context_def find_Some_iff)

lemma remove_context_find:
  "remove_context n cs = Some cs' \<Longrightarrow> distinct (map cxName cs) \<Longrightarrow>
   find_context q cs' = (if q = n then None else find_context q cs)"
proof (induction cs arbitrary: cs')
  case (Cons x xs)
  have "find_context n xs = None" if "cxName x = n"
    using Cons.prems(2) that by (auto simp: find_context_None)
  with Cons show ?case by (auto simp: find_context_def split: if_splits)
qed simp

lemma config_Add_valid:
  assumes "config_Validate f = None" and "config_Add f c r = (None, f')"
  shows "config_Validate f' = None"
proof (cases "replace_context (context_Normalize c) (cfContexts f)")
  case None
  with assms replace_context_None [THEN iffD1, OF None] show ?thesis
    by (auto simp: config_Add_def Let_def config_Validate_iff config_Names_def
        split: option.splits if_splits)
next
  case (Some cs)
  have "cxName ` set cs = cxName ` set (cfContexts f)"
    using replace_context_names [OF Some] by (metis list.set_map)
  with assms replace_context_names [OF Some] replace_context_set [OF Some] Some show ?thesis
    by (auto simp: config_Add_def Let_def config_Validate_iff config_Names_def
        split: option.splits if_splits)
qed

lemma config_Add_find:
  assumes "config_Add f c r = (None, f')"
  shows "find_context n (cfContexts f') =
    (if n = cxName (context_Normalize c) then Some (context_Normalize c) else find_context n (cfContexts f))"
proof (cases "replace_context (context_Normalize c) (cfContexts f)")
  case None
  have "find_context n (cfContexts f @ [context_Normalize c]) =
    (if n = cxName (context_Normalize c) then Some (context_Normalize c) else find_context n (cfContexts f))"
    using replace_context_None [THEN iffD1, OF None]
      find_context_None [of "cxName (context_Normalize c)" "cfContexts f"]
    by (auto simp: find_context_append find_context_def [of _ "[_]"] split: option.splits)
  with None assms show ?thesis by (auto simp: config_Add_def Let_def split: option.splits if_splits)
next
  case (Some cs)
  with assms replace_context_find [OF Some, of n] show ?thesis
    by (auto simp: config_Add_def Let_def split: option.splits if_splits)
qed

lemma config_Remove_valid:
  assumes "config_Validate f = None" and "config_Remove f n = (e, f')"
  shows "config_Validate f' = None"
proof (cases "remove_context n (cfContexts f)")
  case None
  with assms show ?thesis by (simp add: config_Remove_def)
next
  case (Some cs)
  with assms remove_context_names [OF Some] remove_context_set [OF Some] show ?thesis
    by (auto simp: config_Remove_def config_Validate_iff config_Names_def simp flip: set_map)
qed

lemma config_Remove_find:
  assumes "config_Validate f = None" and "config_Remove f n = (None, f')"
  shows "find_context q (cfContexts f') = (if q = n then None else find_context q (cfContexts f))"
proof (cases "remove_context n (cfContexts f)")
  case None
  with assms show ?thesis by (simp add: config_Remove_def)
next
  case (Some cs)
  with assms remove_context_find [OF Some, of q] show ?thesis
    by (auto simp: config_Remove_def config_Validate_iff config_Names_def)
qed

section \<open>The contract of the list\<close>

text \<open>
  What the operations that save and remove contexts rely on: adding puts the normalised context
  under its name and changes no other name, removing takes one name away, both keep the
  configuration valid.
\<close>

locale context_registry =
  fixes valid :: "'s \<Rightarrow> bool"
    and look :: "'s \<Rightarrow> string \<Rightarrow> 'c option"
    and add :: "'s \<Rightarrow> 'c \<Rightarrow> bool \<Rightarrow> 'e option \<times> 's"
    and remove :: "'s \<Rightarrow> string \<Rightarrow> 'e option \<times> 's"
    and norm :: "'c \<Rightarrow> 'c"
    and key :: "'c \<Rightarrow> string"
  assumes add_valid: "valid s \<Longrightarrow> add s c r = (None, s') \<Longrightarrow> valid s'"
    and add_look: "add s c r = (None, s') \<Longrightarrow>
      look s' n = (if n = key (norm c) then Some (norm c) else look s n)"
    and remove_valid: "valid s \<Longrightarrow> remove s n = (e, s') \<Longrightarrow> valid s'"
    and remove_look: "valid s \<Longrightarrow> remove s n = (None, s') \<Longrightarrow>
      look s' q = (if q = n then None else look s q)"
begin

lemma add_remove:
  assumes "valid s" and "add s c r = (None, s1)" and "remove s1 (key (norm c)) = (None, s2)"
  shows "valid s2 \<and> look s2 q = (if q = key (norm c) then None else look s q)"
  using assms add_valid [OF assms(1,2)] remove_valid remove_look [of s1 "key (norm c)" s2 q]
    add_look [OF assms(2), of q] by auto

end

interpretation contexts: context_registry "\<lambda>f. config_Validate f = None"
  "\<lambda>f n. find_context n (cfContexts f)" config_Add config_Remove context_Normalize cxName
  by unfold_locales (rule config_Add_valid config_Add_find config_Remove_valid config_Remove_find; assumption)+

lemmas config_eval = context_URL_def context_Host_def context_Address_def context_Validate_def
  context_Normalize_def normalize_endpoint_def normalize_pin_def default_modes_def drop_self_via_def
  trim_fields_def transport_validate_def tls_validate_def

section \<open>Properties\<close>

definition plain_context :: "string \<Rightarrow> string \<Rightarrow> vcontext" where
  "plain_context name endpoint =
     \<lparr>cxName = name, cxEndpoint = endpoint, cxUsername = ''admin'', cxCredential = mk_ref [] [], cxVia = [],
      cxViaMoRef = [], cxDatacenter = [],
      cxTransport = \<lparr>tType = TransportDirect, tAddress = [], tRemoteDNS = False, tUsername = [],
        tCredential = mk_ref [] []\<rparr>,
      cxTLS = \<lparr>tlsMode = TLSSystem, tlsThumbprint = []\<rparr>\<rparr>"

text \<open>
  Adding a context keeps the configuration valid, stores exactly the normalised context under its
  name, leaves what every other name resolves to, and without \<open>replace\<close> only succeeds for a new name.
\<close>

theorem config_add_correct:
  assumes "config_Validate f = None" and "config_Add f c replace = (None, f')"
  shows "config_Validate f' = None \<and>
    config_Context f' (cxName (context_Normalize c)) = Inr (context_Normalize c) \<and>
    (\<forall>n. n \<noteq> cxName (context_Normalize c) \<and> n \<noteq> [] \<longrightarrow> config_Context f' n = config_Context f n) \<and>
    (\<not> replace \<longrightarrow> cxName (context_Normalize c) \<notin> set (config_Names f))"
proof -
  let ?c = "context_Normalize c"
  have "context_Validate ?c = None"
    using assms(2) by (auto simp: config_Add_def Let_def split: option.splits)
  then have ne: "cxName ?c \<noteq> []" by (auto simp: context_Validate_def)
  have new: "\<not> replace \<longrightarrow> cxName ?c \<notin> set (config_Names f)"
    using assms(2) replace_context_None [of ?c "cfContexts f"]
    by (auto simp: config_Add_def Let_def config_Names_def split: option.splits if_splits)
  show ?thesis
    using contexts.add_valid [OF assms] contexts.add_look [OF assms(2)] ne new
    by (simp add: config_Context_def)
qed

theorem config_add_correct_witness:
  "config_Context (snd (config_Add \<lparr>cfVersion = 1, cfCurrent = [], cfContexts = []\<rparr>
     (plain_context ''lab'' ''vc.lab'') False)) ''lab''
   = Inr (plain_context ''lab'' ''https://vc.lab'')"
proof -
  let ?f = "\<lparr>cfVersion = 1, cfCurrent = [], cfContexts = []\<rparr>" and ?c = "plain_context ''lab'' ''vc.lab''"
  let ?f' = "?f\<lparr>cfContexts := [plain_context ''lab'' ''https://vc.lab'']\<rparr>"
  have n: "context_Normalize ?c = plain_context ''lab'' ''https://vc.lab''" by code_simp
  have v: "config_Validate ?f = None" by code_simp
  have "context_Validate (plain_context ''lab'' ''https://vc.lab'') = None" by code_simp
  then have a: "config_Add ?f ?c False = (None, ?f')" by (simp add: config_Add_def n)
  have k: "cxName (plain_context ''lab'' ''https://vc.lab'') = ''lab''" by (simp add: plain_context_def)
  show ?thesis using config_add_correct [OF v a] by (simp add: n a k)
qed

text \<open>
  Removing a context keeps the configuration valid, so the current context never names one that
  is gone, and takes away exactly that name.
\<close>

theorem config_remove_correct:
  assumes "config_Validate f = None" and "config_Remove f name = (None, f')"
  shows "config_Validate f' = None \<and> name \<in> set (config_Names f) \<and> name \<notin> set (config_Names f') \<and>
    cfCurrent f' \<noteq> name"
proof -
  have mem: "name \<in> set (config_Names f)"
    using assms(2) remove_context_None [of name "cfContexts f"]
    by (auto simp: config_Remove_def config_Names_def split: option.splits)
  then have ne: "name \<noteq> []"
    using assms(1) by (auto simp: config_Validate_iff config_Names_def context_Validate_def)
  have "find_context name (cfContexts f') = None"
    using contexts.remove_look [OF assms, of name] by simp
  with mem ne contexts.remove_valid [OF assms] show ?thesis
    by (auto simp: find_context_None config_Names_def config_Validate_iff) (metis imageI)
qed

theorem config_remove_correct_witness:
  "config_Validate \<lparr>cfVersion = 1, cfCurrent = [], cfContexts = []\<rparr> = None"
proof -
  let ?f = "\<lparr>cfVersion = 1, cfCurrent = ''lab'', cfContexts = [plain_context ''lab'' ''https://vc.lab'']\<rparr>"
  have v: "config_Validate ?f = None" by code_simp
  have r: "config_Remove ?f ''lab'' = (None, \<lparr>cfVersion = 1, cfCurrent = [], cfContexts = []\<rparr>)" by code_simp
  show ?thesis using config_remove_correct [OF v r] by simp
qed

text \<open>
  A configured context can always be dialled: a context that passes validation has a host and
  port to connect to.
\<close>

theorem valid_context_has_address:
  assumes "context_Validate c = None"
  shows "\<exists>u addr. context_URL c = Inr u \<and> context_Address c = Inr addr \<and> uHost u \<noteq> [] \<and> uPath u \<noteq> []"
proof -
  obtain u where u: "context_URL c = Inr u"
    using assms by (auto simp: context_Validate_def split: sum.splits if_splits)
  then have "uHost u \<noteq> [] \<and> uPath u \<noteq> []"
    by (auto simp: context_URL_def Let_def split: if_splits option.splits)
  with u show ?thesis by (simp add: context_Address_def Let_def)
qed

theorem valid_context_has_address_witness:
  "\<exists>u addr. context_URL (plain_context ''lab'' ''vc.lab:8443'') = Inr u \<and>
     context_Address (plain_context ''lab'' ''vc.lab:8443'') = Inr addr \<and> uHost u \<noteq> [] \<and> uPath u \<noteq> []"
  by (rule valid_context_has_address) code_simp

text \<open>
  A certificate fingerprint has one written form: two spellings of the same hexadecimal digits
  normalise to the same text, and normalising again changes nothing.
\<close>

theorem thumbprint_normal_form:
  "NormalizeThumbprint (NormalizeThumbprint s) = NormalizeThumbprint s \<and>
   (thumb_hex s = thumb_hex t \<longrightarrow> NormalizeThumbprint s = NormalizeThumbprint t)"
proof -
  have "NormalizeThumbprint (NormalizeThumbprint s) = NormalizeThumbprint s"
  proof (cases "NormalizeThumbprint s = []")
    case True
    then show ?thesis by (simp add: NormalizeThumbprint_def)
  next
    case False
    then show ?thesis by (rule NormalizeThumbprint_cong [OF NormalizeThumbprint_eq])
  qed
  then show ?thesis by (simp add: NormalizeThumbprint_def)
qed

theorem thumbprint_normal_form_witness:
  "NormalizeThumbprint ''ab cd:EF-01'' = NormalizeThumbprint ''AB:CD:EF:01''"
  using thumbprint_normal_form [of "''ab cd:EF-01''" "''AB:CD:EF:01''"]
  by (simp add: thumb_char_def go_eval)

text \<open>
  The name suggested for a context is one the configuration accepts and is stable: it holds no
  space, slash or capital letter, does not start or end with a dash, and suggesting a name for it gives
  it back.
\<close>

theorem slug_is_legal_and_stable:
  "SlugName (SlugName s) = SlugName s \<and>
   list_all (\<lambda>c. slug_allowed c \<or> c = CHR ''-'') (SlugName s) \<and>
   (SlugName s = [] \<or> hd (SlugName s) \<noteq> CHR ''-'' \<and> last (SlugName s) \<noteq> CHR ''-'')"
proof -
  note sh = SlugName_shape [of s]
  have l: "slug_loop [] False (SlugName s) = SlugName s" using slug_loop_fixed [of "[]" "SlugName s" False] sh by simp
  have "\<not> has_suffix ''-'' (SlugName s)" using sh by (auto simp: has_suffix_iff)
  then have "SlugName (SlugName s) = SlugName s" by (simp add: SlugName_def [of "SlugName s"] l trim_suffix_def)
  with sh show ?thesis by (auto simp: slug_shape_def)
qed

text \<open>
  An endpoint below a path loses its SDK path: the context of \<open>vc.lab/vc1/sdk\<close> is dialled at
  \<open>/vc1/sdk\<close> before it is normalised and at \<open>/vc1\<close> afterwards, because normalising drops the suffix
  and only an empty path gets it back.
\<close>

theorem normalize_loses_sdk_path:
  "map_sum (\<lambda>_. ()) uPath (context_URL (plain_context ''lab'' ''vc.lab/vc1/sdk'')) = Inr ''/vc1/sdk'' \<and>
   map_sum (\<lambda>_. ()) uPath (context_URL (context_Normalize (plain_context ''lab'' ''vc.lab/vc1/sdk''))) = Inr ''/vc1''"
  by code_simp

end
