(* ===== verification/ContextOps.thy ===== *)
theory ContextOps
  imports Config
begin

text \<open>
  Saving and removing contexts (internal/contextops), on top of the configuration and of a secret
  store. The connection test is the parameter \<open>diagnose\<close>, the file system is \<open>write\<close>, and the
  resolver's \<open>Store\<close> and \<open>Delete\<close> are taken from a resolver of the credentials theory.
\<close>

section \<open>Operations\<close>

record input =
  iName :: string
  iEndpoint :: string
  iUsername :: string
  iVia :: string
  iViaMoRef :: string
  iDatacenter :: string
  iTransport :: transport
  iTLS :: tls
  iCredential :: cref
  iPassword :: string
  iHavePassword :: bool
  iProxyCredential :: cref
  iProxyPassword :: string
  iHaveProxyPassword :: bool
  iReplace :: bool
  iSaveOnTestFailure :: bool
  iSetCurrent :: bool
  iDropReplacedKeyring :: bool

definition Build :: "input \<Rightarrow> vcontext" where
  "Build i =
     (let c = context_Normalize
                \<lparr>cxName = iName i, cxEndpoint = iEndpoint i, cxUsername = iUsername i,
                 cxCredential = mk_ref [] [], cxVia = iVia i, cxViaMoRef = iViaMoRef i,
                 cxDatacenter = iDatacenter i, cxTransport = iTransport i, cxTLS = iTLS i\<rparr>;
          cred = (if ref_is_zero (iCredential i) then mk_ref SchemeKeyring (cxName c) else iCredential i);
          c = c\<lparr>cxCredential := cred\<rparr>
      in if tUsername (cxTransport c) \<noteq> [] then
           (let pref = (if ref_is_zero (iProxyCredential i) then mk_ref SchemeKeyring (cxName c @ ''-proxy'')
                        else iProxyCredential i)
            in c\<lparr>cxTransport := (cxTransport c)\<lparr>tCredential := pref\<rparr>\<rparr>)
         else c)"

text \<open>The credentials the connection test uses instead of the stored ones: vCenter's and the proxy's.\<close>

definition connectOptions :: "input \<Rightarrow> credential option \<times> credential option" where
  "connectOptions i =
     (if iHavePassword i then Some (of_password (iPassword i)) else None,
      if iHaveProxyPassword i then Some (of_password (iProxyPassword i)) else None)"

text \<open>A diagnosis is whether it is OK and, when not, the error it carries.\<close>

record diagnosis =
  dOK :: bool
  dErr :: "string option"

datatype save_error = SaveInvalid config_error | TestFailed "string option"

datatype 'e store_warning = VCenterPassword 'e | ProxyPassword 'e | BothPasswords 'e 'e

record result =
  resContext :: vcontext
  resDiagnosis :: "diagnosis option"
  resStoreWarning :: "cred_error store_warning option"
  resDropped :: cref
  resDropWarning :: "cred_error option"

definition Test ::
  "(vcontext \<Rightarrow> credential option \<times> credential option \<Rightarrow> diagnosis) \<Rightarrow> input \<Rightarrow> vcontext \<times> (config_error + diagnosis)"
where
  "Test diagnose i =
     (let c = Build i
      in case context_Validate c of
           Some e \<Rightarrow> (c, Inl e)
         | None \<Rightarrow> (c, Inr (diagnose c (connectOptions i))))"

definition refInUse :: "config \<Rightarrow> cref \<Rightarrow> bool" where
  "refInUse f ref \<longleftrightarrow>
     list_ex (\<lambda>c. cxCredential c = ref \<or> tCredential (cxTransport c) = ref) (cfContexts f)"

text \<open>The two downgrades to a prompt when the secret store refuses a password.\<close>

definition store_password ::
  "'s resolver \<Rightarrow> input \<Rightarrow> vcontext \<Rightarrow> 's \<Rightarrow> cred_error option \<times> vcontext \<times> 's" where
  "store_password r i c w =
     (if iHavePassword i \<and> rScheme (cxCredential c) = SchemeKeyring then
        (case resolver_Store r (cxCredential c) (of_password (iPassword i)) w of
           (None, w') \<Rightarrow> (None, c, w')
         | (Some e, w') \<Rightarrow> (Some e, c\<lparr>cxCredential := mk_ref SchemePrompt []\<rparr>, w'))
      else (None, c, w))"

definition store_proxy_password ::
  "'s resolver \<Rightarrow> input \<Rightarrow> vcontext \<Rightarrow> 's \<Rightarrow> cred_error option \<times> vcontext \<times> 's" where
  "store_proxy_password r i c w =
     (if iHaveProxyPassword i \<and> rScheme (tCredential (cxTransport c)) = SchemeKeyring then
        (case resolver_Store r (tCredential (cxTransport c)) (of_password (iProxyPassword i)) w of
           (None, w') \<Rightarrow> (None, c, w')
         | (Some e, w') \<Rightarrow>
             (Some e, c\<lparr>cxTransport := (cxTransport c)\<lparr>tCredential := mk_ref SchemePrompt []\<rparr>\<rparr>, w'))
      else (None, c, w))"

definition join_warnings :: "'e option \<Rightarrow> 'e option \<Rightarrow> 'e store_warning option" where
  "join_warnings a b =
     (case (a, b) of
        (None, None) \<Rightarrow> None
      | (Some x, None) \<Rightarrow> Some (VCenterPassword x)
      | (None, Some y) \<Rightarrow> Some (ProxyPassword y)
      | (Some x, Some y) \<Rightarrow> Some (BothPasswords x y))"

definition replaced_ref :: "config \<Rightarrow> input \<Rightarrow> vcontext \<Rightarrow> cref" where
  "replaced_ref f i c =
     (if iReplace i \<and> iDropReplacedKeyring i then
        (case config_Context f (cxName c) of Inl _ \<Rightarrow> mk_ref [] [] | Inr old \<Rightarrow> cxCredential old)
      else mk_ref [] [])"

definition drop_replaced ::
  "'s resolver \<Rightarrow> config \<Rightarrow> cref \<Rightarrow> result \<Rightarrow> 's \<Rightarrow> result \<times> 's" where
  "drop_replaced r f replaced res w =
     (if rScheme replaced = SchemeKeyring \<and> \<not> refInUse f replaced then
        (case resolver_Delete r replaced w of
           (None, w') \<Rightarrow> (res\<lparr>resDropped := replaced\<rparr>, w')
         | (Some e, w') \<Rightarrow> (if is_not_found e then res else res\<lparr>resDropWarning := Some e\<rparr>, w'))
      else (res, w))"

text \<open>
  \<open>Save\<close> returns the result, the error if any, the configuration as it is in memory and the world. The
  context is shared with the configuration, so the result shows the normalised one that was added.
\<close>

definition commit ::
  "(config \<Rightarrow> string option) \<Rightarrow> string \<Rightarrow> 's resolver \<Rightarrow> config \<Rightarrow> input \<Rightarrow> vcontext \<Rightarrow> result \<Rightarrow> 's \<Rightarrow>
   result \<times> save_error option \<times> config \<times> 's" where
  "commit write path r f i c res w =
     (let replaced = replaced_ref f i c
      in case config_Add f c (iReplace i) of
           (Some e, f') \<Rightarrow> (res\<lparr>resContext := context_Normalize c\<rparr>, Some (SaveInvalid e), f', w)
         | (None, f1) \<Rightarrow>
             (let res = res\<lparr>resContext := context_Normalize c\<rparr>;
                  f2 = (if iSetCurrent i \<or> cfCurrent f1 = [] then f1\<lparr>cfCurrent := cxName (context_Normalize c)\<rparr> else f1)
              in case config_Save write path f2 of
                   (Some e, f3) \<Rightarrow> (res, Some (SaveInvalid e), f3, w)
                 | (None, f3) \<Rightarrow>
                     (case drop_replaced r f3 replaced res w of (res', w') \<Rightarrow> (res', None, f3, w'))))"

definition Save ::
  "(vcontext \<Rightarrow> credential option \<times> credential option \<Rightarrow> diagnosis) \<Rightarrow> (config \<Rightarrow> string option) \<Rightarrow>
   string \<Rightarrow> 's resolver \<Rightarrow> config \<Rightarrow> input \<Rightarrow> bool \<Rightarrow> 's \<Rightarrow>
   result \<times> save_error option \<times> config \<times> 's" where
  "Save diagnose write path r f i test w =
     (let c = Build i;
          res = \<lparr>resContext = c, resDiagnosis = None, resStoreWarning = None, resDropped = mk_ref [] [],
                 resDropWarning = None\<rparr>
      in case context_Validate c of
           Some e \<Rightarrow> (res, Some (SaveInvalid e), f, w)
         | None \<Rightarrow>
             (let d = diagnose c (connectOptions i);
                  res = (if test then res\<lparr>resDiagnosis := Some d\<rparr> else res)
              in if test \<and> \<not> dOK d \<and> \<not> iSaveOnTestFailure i then (res, Some (TestFailed (dErr d)), f, w)
                 else (case store_password r i c w of (e1, c1, w1) \<Rightarrow>
                         case store_proxy_password r i c1 w1 of (e2, c2, w2) \<Rightarrow>
                           commit write path r f i c2
                             (res\<lparr>resContext := c2, resStoreWarning := join_warnings e1 e2\<rparr>) w2)))"

definition Remove ::
  "(config \<Rightarrow> string option) \<Rightarrow> string \<Rightarrow> config \<Rightarrow> string \<Rightarrow> (config_error + vcontext) \<times> config" where
  "Remove write path f name =
     (case config_Context f name of
        Inl e \<Rightarrow> (Inl e, f)
      | Inr c \<Rightarrow>
          (case config_Remove f (cxName c) of
             (Some e, f') \<Rightarrow> (Inl e, f')
           | (None, f1) \<Rightarrow>
               (case config_Save write path f1 of
                  (Some e, f2) \<Rightarrow> (Inl e, f2)
                | (None, f2) \<Rightarrow> (Inr c, f2))))"

definition DeleteCredential :: "'s resolver \<Rightarrow> cref \<Rightarrow> 's \<Rightarrow> cred_error option \<times> 's" where
  "DeleteCredential r ref w = resolver_Delete r ref w"

definition delete_if_stored :: "'s resolver \<Rightarrow> cref \<Rightarrow> 's \<Rightarrow> cred_error list \<times> 's" where
  "delete_if_stored r ref w =
     (if rScheme ref = SchemeKeyring then
        (case DeleteCredential r ref w of
           (Some e, w') \<Rightarrow> (if is_not_found e then [] else [e], w')
         | (None, w') \<Rightarrow> ([], w'))
      else ([], w))"

definition DeleteCredentials :: "'s resolver \<Rightarrow> vcontext \<Rightarrow> 's \<Rightarrow> cred_error list \<times> 's" where
  "DeleteCredentials r c w =
     (case delete_if_stored r (cxCredential c) w of (e1, w1) \<Rightarrow>
        case delete_if_stored r (tCredential (cxTransport c)) w1 of (e2, w2) \<Rightarrow> (e1 @ e2, w2))"

section \<open>What saving does\<close>

lemma config_Save_ok:
  "config_Save write path f = (None, f') \<Longrightarrow>
     config_Validate f' = None \<and> write f' = None \<and> cfContexts f' = cfContexts f \<and> cfCurrent f' = cfCurrent f"
  by (auto simp: config_Save_def Let_def config_Validate_def split: if_splits option.splits sum.splits)

lemma commit_ok:
  assumes "commit write path r f i c res w = (res', None, f', w')"
  obtains f1 where "config_Add f c (iReplace i) = (None, f1)" and "cfContexts f' = cfContexts f1"
    and "config_Validate f' = None" and "write f' = None"
    and "cfCurrent f' = (if iSetCurrent i \<or> cfCurrent f1 = [] then cxName (context_Normalize c) else cfCurrent f1)"
    and "drop_replaced r f' (replaced_ref f i c) (res\<lparr>resContext := context_Normalize c\<rparr>) w = (res', w')"
proof -
  obtain f1 where f1: "config_Add f c (iReplace i) = (None, f1)"
    using assms by (auto simp: commit_def Let_def split: prod.splits option.splits)
  let ?f2 = "if iSetCurrent i \<or> cfCurrent f1 = [] then f1\<lparr>cfCurrent := cxName (context_Normalize c)\<rparr> else f1"
  obtain f3 where f3: "config_Save write path ?f2 = (None, f3)"
    using assms f1 by (cases "config_Save write path ?f2") (auto simp: commit_def Let_def split: option.splits)
  then have "f' = f3" "drop_replaced r f3 (replaced_ref f i c) (res\<lparr>resContext := context_Normalize c\<rparr>) w = (res', w')"
    using assms f1 by (auto simp: commit_def Let_def split: prod.splits)
  with config_Save_ok [OF f3] f1 that show thesis by auto
qed

lemma store_password_cases:
  "store_password r i c w = (e, c', w') \<Longrightarrow>
     w' = w \<or> rScheme (cxCredential c) = SchemeKeyring \<and>
       w' = snd (resolver_Store r (cxCredential c) (of_password (iPassword i)) w)"
  by (auto simp: store_password_def split: prod.splits option.splits if_splits)

lemma store_password_context:
  "store_password r i c w = (e, c', w') \<Longrightarrow> cxTransport c' = cxTransport c \<and> cxName c' = cxName c"
  by (auto simp: store_password_def split: prod.splits option.splits if_splits)

lemma store_proxy_password_cases:
  "store_proxy_password r i c w = (e, c', w') \<Longrightarrow>
     w' = w \<or> rScheme (tCredential (cxTransport c)) = SchemeKeyring \<and>
       w' = snd (resolver_Store r (tCredential (cxTransport c)) (of_password (iProxyPassword i)) w)"
  by (auto simp: store_proxy_password_def split: prod.splits option.splits if_splits)

lemma store_proxy_password_context:
  "store_proxy_password r i c w = (e, c', w') \<Longrightarrow>
     cxCredential c' = cxCredential c \<and> cxName c' = cxName c"
  by (auto simp: store_proxy_password_def split: prod.splits option.splits if_splits)

lemma drop_replaced_cases:
  "drop_replaced r f ref res w = (res', w') \<Longrightarrow>
     resContext res' = resContext res \<and> resStoreWarning res' = resStoreWarning res \<and>
     (w' = w \<or> rScheme ref = SchemeKeyring \<and> \<not> refInUse f ref \<and> w' = snd (resolver_Delete r ref w))"
  by (auto simp: drop_replaced_def split: prod.splits option.splits if_splits)

lemma Save_ok:
  assumes "Save diagnose write path r f i test w = (res, None, f', w')"
  obtains e1 c1 w1 e2 c2 w2 res2 where "context_Validate (Build i) = None"
    and "store_password r i (Build i) w = (e1, c1, w1)"
    and "store_proxy_password r i c1 w1 = (e2, c2, w2)"
    and "commit write path r f i c2 res2 w2 = (res, None, f', w')"
    and "resStoreWarning res2 = join_warnings e1 e2"
proof -
  obtain e1 c1 w1 e2 c2 w2 where s: "store_password r i (Build i) w = (e1, c1, w1)"
    "store_proxy_password r i c1 w1 = (e2, c2, w2)" by (metis prod_cases3)
  from assms s that show thesis
    by (auto simp: Save_def Let_def split: option.splits if_splits)
qed

lemma normalize_credential [simp]: "cxCredential (context_Normalize c) = cxCredential c"
proof -
  have "cxCredential (normalize_endpoint d) = cxCredential d" for d
    by (simp add: normalize_endpoint_def split: sum.splits)
  moreover have "cxCredential (normalize_pin d) = cxCredential d" for d
    by (simp add: normalize_pin_def)
  moreover have "cxCredential (default_modes d) = cxCredential d" for d
    by (simp add: default_modes_def)
  moreover have "cxCredential (drop_self_via d) = cxCredential d" for d
    by (simp add: drop_self_via_def)
  moreover have "cxCredential (trim_fields d) = cxCredential d" for d
    by (simp add: trim_fields_def)
  ultimately show ?thesis by (simp add: context_Normalize_def)
qed

lemma config_Add_mem:
  assumes "config_Add f c r = (None, f')"
  shows "context_Normalize c \<in> set (cfContexts f')"
proof -
  have "find_context (cxName (context_Normalize c)) (cfContexts f') = Some (context_Normalize c)"
    using contexts.add_look [OF assms, of "cxName (context_Normalize c)"] by simp
  from find_context_Some [OF this] show ?thesis by simp
qed

section \<open>Properties\<close>

text \<open>
  A successful save leaves a valid configuration that was written out, in which the saved context
  is found under its name and every other name means what it meant before, and which has a current
  context.
\<close>

theorem save_config_correct:
  assumes "Save diagnose write path r f i test w = (res, None, f', w')"
  shows "config_Validate f' = None \<and> write f' = None \<and>
    config_Context f' (cxName (resContext res)) = Inr (resContext res) \<and>
    (\<forall>n. n \<noteq> [] \<and> n \<noteq> cxName (resContext res) \<longrightarrow> config_Context f' n = config_Context f n) \<and>
    cfCurrent f' \<noteq> [] \<and> (iSetCurrent i \<longrightarrow> cfCurrent f' = cxName (resContext res))"
  using assms
proof (rule Save_ok)
  fix e1 c1 w1 e2 c2 w2 res2
  assume "commit write path r f i c2 res2 w2 = (res, None, f', w')"
  then show ?thesis
  proof (rule commit_ok)
    fix f1
    assume a: "config_Add f c2 (iReplace i) = (None, f1)" "cfContexts f' = cfContexts f1"
      "config_Validate f' = None" "write f' = None"
      "cfCurrent f' = (if iSetCurrent i \<or> cfCurrent f1 = [] then cxName (context_Normalize c2) else cfCurrent f1)"
      "drop_replaced r f' (replaced_ref f i c2) (res2\<lparr>resContext := context_Normalize c2\<rparr>) w2 = (res, w')"
    have ctx: "resContext res = context_Normalize c2" using drop_replaced_cases [OF a(6)] by simp
    have ne: "cxName (context_Normalize c2) \<noteq> []"
      using a(1) by (auto simp: config_Add_def context_Validate_def Let_def split: option.splits if_splits)
    show ?thesis using a ctx ne contexts.add_look [OF a(1)] by (simp add: config_Context_def)
  qed
qed

definition plain_input :: "string \<Rightarrow> string \<Rightarrow> input" where
  "plain_input name endpoint =
     \<lparr>iName = name, iEndpoint = endpoint, iUsername = ''admin'', iVia = [], iViaMoRef = [], iDatacenter = [],
      iTransport = \<lparr>tType = TransportDirect, tAddress = [], tRemoteDNS = False, tUsername = [],
        tCredential = mk_ref [] []\<rparr>,
      iTLS = \<lparr>tlsMode = TLSSystem, tlsThumbprint = []\<rparr>, iCredential = mk_ref [] [],
      iPassword = ''s3cret'', iHavePassword = True, iProxyCredential = mk_ref [] [], iProxyPassword = [],
      iHaveProxyPassword = False, iReplace = True, iSaveOnTestFailure = False, iSetCurrent = False,
      iDropReplacedKeyring = True\<rparr>"

definition old_context :: vcontext where
  "old_context = (plain_context ''old'' ''https://vc.old'')\<lparr>cxCredential := mk_ref SchemeKeyring ''old''\<rparr>"

definition old_config :: config where
  "old_config = \<lparr>cfVersion = 1, cfCurrent = ''old'', cfContexts = [old_context]\<rparr>"

definition old_ring :: "string \<times> string \<rightharpoonup> string" where
  "old_ring = [(KeyringService, ''old'') \<mapsto> ''0ld'']"

definition lab_context :: vcontext where
  "lab_context = (plain_context ''lab'' ''https://vc.lab'')\<lparr>cxCredential := mk_ref SchemeKeyring ''lab''\<rparr>"

definition lab_config :: config where
  "lab_config = \<lparr>cfVersion = 1, cfCurrent = ''old'', cfContexts = [old_context, lab_context]\<rparr>"

definition lab_ring :: "string \<times> string \<rightharpoonup> string" where
  "lab_ring = old_ring((KeyringService, ''lab'') \<mapsto> ''s3cret'')"

abbreviation "refusing_test \<equiv> \<lambda>_ _. \<lparr>dOK = False, dErr = None\<rparr>"

lemma Build_lab: "Build (plain_input ''lab'' ''vc.lab'') = lab_context"
  by code_simp

lemma lab_valid: "context_Validate lab_context = None" "context_Normalize lab_context = lab_context"
  "config_Validate lab_config = None"
  by code_simp+

lemma lab_Save:
  "\<exists>res. Save refusing_test (\<lambda>_. None) ''c.toml'' (std_resolver map_ring) old_config
     (plain_input ''lab'' ''vc.lab'') False (empty_world old_ring)
   = (res, None, lab_config, empty_world lab_ring) \<and> resStoreWarning res = None"
proof -
  let ?i = "plain_input ''lab'' ''vc.lab''" and ?r = "std_resolver map_ring"
  let ?w = "empty_world lab_ring"
  have lab: "cxCredential lab_context = mk_ref SchemeKeyring ''lab''" "cxName lab_context = ''lab''"
    "cxName old_context = ''old''"
    by (simp_all add: lab_context_def old_context_def plain_context_def)
  have inp: "iReplace ?i" "iDropReplacedKeyring ?i" "iHavePassword ?i" "\<not> iHaveProxyPassword ?i"
    "\<not> iSetCurrent ?i" "iPassword ?i = ''s3cret''"
    by (simp_all add: plain_input_def)
  have st: "resolver_Store ?r (mk_ref SchemeKeyring ''lab'') (of_password ''s3cret'') (empty_world old_ring) = (None, ?w)"
    by (simp add: resolver_Store_def resolver_lookup_def ref_is_zero_def std_lookup
        keyring_provider_def keyring_Store_def map_ring_def empty_world_def of_password_def lab_ring_def)
  have add: "config_Add old_config lab_context True = (None, old_config\<lparr>cfContexts := [old_context, lab_context]\<rparr>)"
    by (simp add: config_Add_def lab_valid lab old_config_def)
  have nf: "config_Context old_config ''lab'' = Inl (NotFound ''lab'')"
    by (simp add: config_Context_def old_config_def find_context_def lab)
  have sp: "store_password ?r ?i lab_context (empty_world old_ring) = (None, lab_context, ?w)"
    by (simp add: store_password_def lab inp st)
  have spp: "store_proxy_password ?r ?i lab_context ?w = (None, lab_context, ?w)"
    by (simp add: store_proxy_password_def inp)
  have rr: "replaced_ref old_config ?i lab_context = mk_ref [] []"
    by (simp add: replaced_ref_def lab nf)
  have cs: "config_Save (\<lambda>_. None) ''c.toml'' lab_config = (None, lab_config)"
    by (simp add: config_Save_def lab_valid) (simp add: lab_config_def)
  have f2: "old_config\<lparr>cfContexts := [old_context, lab_context]\<rparr> = lab_config" "cfCurrent lab_config = ''old''"
    by (simp_all add: old_config_def lab_config_def)
  have cm: "commit (\<lambda>_. None) ''c.toml'' ?r old_config ?i lab_context res ?w
      = (res\<lparr>resContext := lab_context\<rparr>, None, lab_config, ?w)" for res
    by (simp add: commit_def Let_def rr inp add lab_valid lab f2 cs drop_replaced_def)
  show ?thesis
    by (simp add: Save_def Let_def Build_lab lab_valid sp spp cm join_warnings_def)
qed

theorem save_config_correct_witness:
  "config_Validate lab_config = None"
proof -
  from lab_Save obtain res where r: "Save refusing_test (\<lambda>_. None) ''c.toml'' (std_resolver map_ring) old_config
     (plain_input ''lab'' ''vc.lab'') False (empty_world old_ring) = (res, None, lab_config, empty_world lab_ring)"
    by blast
  show ?thesis using save_config_correct [OF r] by simp
qed



text \<open>
  A saved password is there afterwards: when saving reports no warning and the password was given
  for a keyring reference, the program's resolver reads that password back, from the state the save
  left and through the clean-up of the replaced entry.
\<close>

theorem saved_password_is_stored:
  assumes "keyring_laws ops"
    and "Save diagnose write path (std_resolver ops) f i test w = (res, None, f', w')"
    and "iHavePassword i" and "rScheme (cxCredential (Build i)) = SchemeKeyring"
    and "resStoreWarning res = None"
    and "iHaveProxyPassword i \<Longrightarrow> rValue (tCredential (cxTransport (Build i))) \<noteq> rValue (cxCredential (Build i))"
  shows "\<exists>c. fst (resolver_Get (std_resolver ops) label (cxCredential (Build i)) w') = Inr c \<and>
    crPassword c = iPassword i"
  using assms(2)
proof (rule Save_ok)
  let ?r = "std_resolver ops" and ?ref = "cxCredential (Build i)"
  note st = std_resolver_store [OF assms(1), of label]
  fix e1 c1 w1 e2 c2 w2 res2
  assume s: "store_password ?r i (Build i) w = (e1, c1, w1)" "store_proxy_password ?r i c1 w1 = (e2, c2, w2)"
    and j: "resStoreWarning res2 = join_warnings e1 e2"
    and "commit write path ?r f i c2 res2 w2 = (res, None, f', w')"
  from this(4) show ?thesis
  proof (rule commit_ok)
    fix f1
    assume add: "config_Add f c2 (iReplace i) = (None, f1)" and cf: "cfContexts f' = cfContexts f1"
      and d: "drop_replaced ?r f' (replaced_ref f i c2) (res2\<lparr>resContext := context_Normalize c2\<rparr>) w2 = (res, w')"
    have "e1 = None"
      using drop_replaced_cases [OF d] j assms(5) by (auto simp: join_warnings_def split: option.splits)
    then have put: "resolver_Store ?r ?ref (of_password (iPassword i)) w = (None, w1)" "c1 = Build i"
      using s(1) assms(3,4) by (auto simp: store_password_def split: prod.splits option.splits)
    then obtain c where c: "fst (resolver_Get ?r label ?ref w1) = Inr c" "crPassword c = iPassword i"
      using secret_store.put_get [OF st assms(4) put(1)] by (auto simp: of_password_def)
    have "fst (resolver_Get ?r label ?ref w2) = fst (resolver_Get ?r label ?ref w1)"
    proof (cases "w2 = w1")
      case False
      then have "iHaveProxyPassword i" using s(2) by (auto simp: store_proxy_password_def split: if_splits)
      then show ?thesis
        using store_proxy_password_cases [OF s(2)] False put(2) assms(4,6) secret_store.put_other [OF st] by metis
    qed simp
    moreover have "fst (resolver_Get ?r label ?ref w') = fst (resolver_Get ?r label ?ref w2)"
    proof (cases "w' = w2")
      case False
      then have dd: "rScheme (replaced_ref f i c2) = SchemeKeyring" "\<not> refInUse f' (replaced_ref f i c2)"
        "w' = snd (resolver_Delete ?r (replaced_ref f i c2) w2)" using drop_replaced_cases [OF d] by auto
      have "refInUse f' ?ref"
        using config_Add_mem [OF add] cf store_proxy_password_context [OF s(2)] put(2)
        by (auto simp: refInUse_def list_ex_iff intro!: bexI [of _ "context_Normalize c2"])
      then have "rValue ?ref \<noteq> rValue (replaced_ref f i c2)"
        using dd(1,2) assms(4) by (metis mk_ref_sel(3))
      with dd show ?thesis using secret_store.del_other [OF st dd(1) assms(4)] by simp
    qed simp
    ultimately show ?thesis using c by simp
  qed
qed

theorem saved_password_is_stored_witness:
  "\<exists>c. fst (resolver_Get (std_resolver map_ring) ''lab'' (cxCredential (Build (plain_input ''lab'' ''vc.lab'')))
      (empty_world lab_ring)) = Inr c \<and>
    crPassword c = iPassword (plain_input ''lab'' ''vc.lab'')"
proof -
  have i: "iHavePassword (plain_input ''lab'' ''vc.lab'')" "\<not> iHaveProxyPassword (plain_input ''lab'' ''vc.lab'')"
    "rScheme (cxCredential (Build (plain_input ''lab'' ''vc.lab''))) = SchemeKeyring"
    by (simp_all add: plain_input_def Build_lab [unfolded plain_input_def] lab_context_def)
  from lab_Save obtain res where r: "Save refusing_test (\<lambda>_. None) ''c.toml'' (std_resolver map_ring) old_config
     (plain_input ''lab'' ''vc.lab'') False (empty_world old_ring)
   = (res, None, lab_config, empty_world lab_ring)"
     "resStoreWarning res = None" by blast
  show ?thesis by (rule saved_password_is_stored [OF map_ring_laws r(1) i(1,3) r(2)]) (simp add: i(2))
qed

text \<open>
  "Also delete the stored credential" removes every password of a context: when deleting reports no
  error, neither its own keyring entry nor its proxy's can be read any more.
\<close>

theorem delete_credentials_gone:
  assumes "keyring_laws ops" and "DeleteCredentials (std_resolver ops) c w = ([], w')"
    and "ref \<in> {cxCredential c, tCredential (cxTransport c)}" and "rScheme ref = SchemeKeyring"
  shows "\<exists>e. fst (resolver_Get (std_resolver ops) label ref w') = Inl e \<and> is_not_found e"
proof -
  let ?r = "std_resolver ops"
  note st = std_resolver_store [OF assms(1), of label]
  obtain e1 w1 e2 where d: "delete_if_stored ?r (cxCredential c) w = (e1, w1)"
    "delete_if_stored ?r (tCredential (cxTransport c)) w1 = (e2, w')" "e1 = []" "e2 = []"
    using assms(2) by (auto simp: DeleteCredentials_def split: prod.splits)
  have ok: "case fst (resolver_Delete ?r q v) of None \<Rightarrow> True | Some e \<Rightarrow> is_not_found e"
    "v' = snd (resolver_Delete ?r q v)"
    if "delete_if_stored ?r q v = ([], v')" "rScheme q = SchemeKeyring" for q v v'
    using that by (auto simp: delete_if_stored_def DeleteCredential_def split: prod.splits option.splits if_splits)
  have same: "v' = v" if "delete_if_stored ?r q v = (e, v')" "rScheme q \<noteq> SchemeKeyring" for q v v' e
    using that by (simp add: delete_if_stored_def)
  note gone = secret_store.del_absent_after [OF st, unfolded secret_store.absent_def [OF st]]
  note keep = secret_store.del_keeps_absent [OF st, unfolded secret_store.absent_def [OF st]]
  show ?thesis
  proof (cases "ref = tCredential (cxTransport c)")
    case True
    with d gone [of ref w1] ok [of ref w1 w'] assms(4) show ?thesis by simp
  next
    case False
    with assms(3) have ref: "ref = cxCredential c" by simp
    then have a: "\<exists>e. fst (resolver_Get ?r label ref w1) = Inl e \<and> is_not_found e"
      using d gone [of ref w] ok [of ref w w1] assms(4) by simp
    show ?thesis
    proof (cases "rScheme (tCredential (cxTransport c)) = SchemeKeyring")
      case True
      with d keep [OF True assms(4) a] ok [of "tCredential (cxTransport c)" w1 w'] show ?thesis by simp
    next
      case False
      with same [OF d(2)] a show ?thesis by simp
    qed
  qed
qed

theorem delete_credentials_gone_witness:
  "\<exists>e. fst (resolver_Get (std_resolver map_ring) ''lab'' (mk_ref SchemeKeyring ''lab'') (empty_world Map.empty))
     = Inl e \<and> is_not_found e"
proof (rule delete_credentials_gone [OF map_ring_laws, where c = lab_context
      and w = "empty_world [(KeyringService, ''lab'') \<mapsto> ''s3cret'']"])
  have c: "cxCredential lab_context = mk_ref SchemeKeyring ''lab''"
    "tCredential (cxTransport lab_context) = mk_ref [] []" by (simp_all add: lab_context_def plain_context_def)
  show "DeleteCredentials (std_resolver map_ring) lab_context (empty_world [(KeyringService, ''lab'') \<mapsto> ''s3cret''])
    = ([], empty_world Map.empty)"
    by (simp add: DeleteCredentials_def delete_if_stored_def DeleteCredential_def c resolver_Delete_def
        resolver_lookup_def ref_is_zero_def std_lookup keyring_provider_def keyring_Delete_def map_ring_def
        empty_world_def)
  show "mk_ref SchemeKeyring ''lab'' \<in> {cxCredential lab_context, tCredential (cxTransport lab_context)}"
    by (simp add: c)
qed simp

text \<open>
  The default entry of one context's proxy password is the default entry of another context's own
  password: with a context \<open>a\<close> behind a proxy that asks for a user, saving a context named \<open>a-proxy\<close>
  stores its password under the very reference \<open>a\<close> uses for its proxy.
\<close>

theorem proxy_entry_collides:
  "cxCredential (Build (plain_input ''a-proxy'' ''vc2.lab'')) =
   tCredential (cxTransport (Build ((plain_input ''a'' ''vc.lab'')
     \<lparr>iTransport := \<lparr>tType = TransportHTTPProxy, tAddress = ''p:3128'', tRemoteDNS = False, tUsername = ''squid'',
       tCredential = mk_ref [] []\<rparr>\<rparr>)))"
  by code_simp

end
