(* ===== verification/Session.thy ===== *)
theory Session
  imports Config "HOL-Library.Multiset"
begin

text \<open>
  The session manager (internal/session/manager.go): one connection per context name, shared by
  concurrent callers. A session lives at an address of a heap (a list, so the address of a forgotten
  session stays valid for the callers that still hold it) and the manager maps names to addresses.
  Every section a method runs under \<open>s.mu\<close> or \<open>m.mu\<close> is one function; the methods are their
  compositions, and \<open>sys_step\<close> interleaves the sections of concurrent calls. Dialling and pinging a
  vCenter is a parameter. \<open>mOpen\<close> is the list of logins that nobody has asked to end yet: a dial adds
  one, a close, also one that runs in the background, takes it out.
\<close>

section \<open>Sessions\<close>

datatype conn_state = Disconnected | Connecting | Connected | Failed

definition state_string :: "conn_state \<Rightarrow> string" where
  "state_string s =
     (case s of Connecting \<Rightarrow> ''connecting'' | Connected \<Rightarrow> ''connected'' | Failed \<Rightarrow> ''failed''
      | Disconnected \<Rightarrow> ''disconnected'')"

record client_info =
  ciLatency :: int
  ciVersion :: string
  ciRoute :: string
  ciInstance :: string

record client =
  clId :: nat
  clFor :: vcontext  \<comment> \<open>the context it was dialled for\<close>
  clInfo :: client_info

record session =
  sContext :: vcontext
  sState :: conn_state
  sClient :: "client option"
  sErr :: "string option"
  sLatency :: int
  sLastOK :: "int option"
  sLastTry :: "int option"
  sAttempts :: nat
  sLoggedOut :: bool

record status =
  stName :: string
  stEndpoint :: string
  stRoute :: string
  stState :: conn_state
  stLatency :: int
  stVersion :: string
  stErr :: "string option"
  stLastOK :: "int option"
  stLastTry :: "int option"
  stAttempts :: nat
  stDatacenter :: string
  stInstanceID :: string

definition new_session :: "vcontext \<Rightarrow> session" where
  "new_session cc = \<lparr>sContext = cc, sState = Disconnected, sClient = None, sErr = None, sLatency = 0,
     sLastOK = None, sLastTry = None, sAttempts = 0, sLoggedOut = False\<rparr>"

definition Snapshot :: "session \<Rightarrow> status" where
  "Snapshot s =
     (let st = \<lparr>stName = cxName (sContext s), stEndpoint = cxEndpoint (sContext s),
                stRoute = transport_Describe (cxTransport (sContext s)), stState = sState s,
                stLatency = sLatency s, stVersion = [], stErr = sErr s, stLastOK = sLastOK s,
                stLastTry = sLastTry s, stAttempts = sAttempts s, stDatacenter = cxDatacenter (sContext s),
                stInstanceID = []\<rparr>
      in case sClient s of
           None \<Rightarrow> st
         | Some c \<Rightarrow> st\<lparr>stVersion := ciVersion (clInfo c), stRoute := ciRoute (clInfo c),
             stInstanceID := ciInstance (clInfo c)\<rparr>)"

text \<open>\<open>adopt\<close> returns the client that is orphaned.\<close>

definition adopt :: "vcontext \<Rightarrow> session \<Rightarrow> client option \<times> session" where
  "adopt cc s =
     (if SameConnection (Some (sContext s)) (Some cc) then (None, s)
      else (sClient s, s\<lparr>sContext := cc, sClient := None, sState := Disconnected, sErr := None, sLatency := 0,
              sLastOK := None, sLastTry := None, sAttempts := 0\<rparr>))"

datatype begin_result = Refused | Reused | Dial

definition connect_begin ::
  "vcontext \<Rightarrow> bool \<Rightarrow> int \<Rightarrow> session \<Rightarrow> (begin_result \<times> client option) \<times> session" where
  "connect_begin cc explicit now s =
     (if sLoggedOut s \<and> \<not> explicit then ((Refused, None), s)
      else (case adopt cc (s\<lparr>sLoggedOut := False\<rparr>) of
              (stale, s) \<Rightarrow>
                if sState s = Connected \<and> sClient s \<noteq> None then ((Reused, stale), s)
                else ((Dial, stale), s\<lparr>sState := Connecting, sErr := None, sLastTry := Some now,
                        sAttempts := sAttempts s + 1\<rparr>)))"

datatype connect_error = ErrLoggedOut string | DialFailed string

text \<open>The last section of a login: the error it returns and the client it closes.\<close>

definition connect_finish ::
  "vcontext \<Rightarrow> string + client \<Rightarrow> int \<Rightarrow> session \<Rightarrow> (connect_error option \<times> client option) \<times> session" where
  "connect_finish cc r now s =
     (if sLoggedOut s then ((Some (ErrLoggedOut (cxName cc)), case r of Inl _ \<Rightarrow> None | Inr c \<Rightarrow> Some c), s)
      else (case r of
              Inl e \<Rightarrow> ((Some (DialFailed e), None), s\<lparr>sState := Failed, sErr := Some e, sClient := None\<rparr>)
            | Inr c \<Rightarrow> ((None, None), s\<lparr>sState := Connected, sClient := Some c,
                        sLatency := ciLatency (clInfo c), sLastOK := Some now\<rparr>)))"

text \<open>The sections of \<open>Drop\<close>, \<open>Logout\<close> and of \<open>Forget\<close> and \<open>Close\<close>: each returns the client to close.\<close>

definition drop_section :: "client \<Rightarrow> session \<Rightarrow> client option \<times> session" where
  "drop_section c s =
     (if map_option clId (sClient s) \<noteq> Some (clId c) then (None, s)
      else (Some c, s\<lparr>sClient := None, sState := Disconnected\<rparr>))"

definition logout_section :: "session \<Rightarrow> client option \<times> session" where
  "logout_section s =
     (sClient s, s\<lparr>sClient := None, sState := Disconnected, sErr := None, sLatency := 0, sLoggedOut := True\<rparr>)"

definition forget_section :: "session \<Rightarrow> client option \<times> session" where
  "forget_section s = (sClient s, s\<lparr>sClient := None, sState := Disconnected\<rparr>)"

section \<open>The manager\<close>

record mgr =
  mSessions :: "(string \<times> nat) list"
  mHeap :: "session list"
  mOpen :: "nat list"
  mNext :: nat

definition new_manager :: mgr where
  "new_manager = \<lparr>mSessions = [], mHeap = [], mOpen = [], mNext = 0\<rparr>"

definition m_session :: "vcontext \<Rightarrow> mgr \<Rightarrow> nat \<times> mgr" where
  "m_session cc m =
     (case map_of (mSessions m) (cxName cc) of
        Some a \<Rightarrow> (a, m)
      | None \<Rightarrow> (length (mHeap m), m\<lparr>mHeap := mHeap m @ [new_session cc],
                   mSessions := (cxName cc, length (mHeap m)) # mSessions m\<rparr>))"

definition locked :: "nat \<Rightarrow> (session \<Rightarrow> 'a \<times> session) \<Rightarrow> mgr \<Rightarrow> 'a \<times> mgr" where
  "locked a f m = (case f (mHeap m ! a) of (x, s) \<Rightarrow> (x, m\<lparr>mHeap := (mHeap m)[a := s]\<rparr>))"

definition close_client :: "client option \<Rightarrow> mgr \<Rightarrow> mgr" where
  "close_client c m =
     (case c of None \<Rightarrow> m | Some c \<Rightarrow> m\<lparr>mOpen := filter (\<lambda>i. i \<noteq> clId c) (mOpen m)\<rparr>)"

text \<open>A vCenter's answer to a login: an error, or a client with an identity of its own.\<close>

definition dialled :: "vcontext \<Rightarrow> string + client_info \<Rightarrow> mgr \<Rightarrow> (string + client) \<times> mgr" where
  "dialled cc r m =
     (case r of
        Inl e \<Rightarrow> (Inl e, m)
      | Inr info \<Rightarrow> (Inr \<lparr>clId = mNext m, clFor = cc, clInfo = info\<rparr>,
                     m\<lparr>mOpen := mNext m # mOpen m, mNext := Suc (mNext m)\<rparr>))"

definition begin_call :: "nat \<Rightarrow> vcontext \<Rightarrow> bool \<Rightarrow> int \<Rightarrow> mgr \<Rightarrow> begin_result \<times> mgr" where
  "begin_call a cc explicit now m =
     (case locked a (connect_begin cc explicit now) m of ((b, stale), m) \<Rightarrow> (b, close_client stale m))"

definition finish_call ::
  "nat \<Rightarrow> vcontext \<Rightarrow> string + client \<Rightarrow> int \<Rightarrow> mgr \<Rightarrow> connect_error option \<times> mgr" where
  "finish_call a cc r now m =
     (case locked a (connect_finish cc r now) m of ((e, late), m) \<Rightarrow> (e, close_client late m))"

definition close_call :: "nat \<Rightarrow> (session \<Rightarrow> client option \<times> session) \<Rightarrow> mgr \<Rightarrow> client option \<times> mgr" where
  "close_call a f m = (case locked a f m of (c, m) \<Rightarrow> (c, close_client c m))"

section \<open>The methods, run without interruption\<close>

type_synonym dialler = "nat \<Rightarrow> vcontext \<Rightarrow> string + client_info"

text \<open>The body of \<open>Connect\<close> and \<open>Login\<close>: the session, whether it was reused, and the error.\<close>

definition connect ::
  "dialler \<Rightarrow> int \<Rightarrow> vcontext \<Rightarrow> bool \<Rightarrow> mgr \<Rightarrow> (nat \<times> bool \<times> connect_error option) \<times> mgr" where
  "connect dial now cc explicit m =
     (case m_session cc m of
        (a, m) \<Rightarrow>
          (case begin_call a cc explicit now m of
             (Refused, m) \<Rightarrow> ((a, False, Some (ErrLoggedOut (cxName cc))), m)
           | (Reused, m) \<Rightarrow> ((a, True, None), m)
           | (Dial, m) \<Rightarrow>
               (case dialled cc (dial (mNext m) cc) m of
                  (r, m) \<Rightarrow> (case finish_call a cc r now m of (e, m) \<Rightarrow> ((a, False, e), m)))))"

definition Connect :: "dialler \<Rightarrow> int \<Rightarrow> vcontext \<Rightarrow> mgr \<Rightarrow> (nat \<times> connect_error option) \<times> mgr" where
  "Connect dial now cc m = (case connect dial now cc False m of ((a, reused, e), m) \<Rightarrow> ((a, e), m))"

definition Drop :: "string \<Rightarrow> client option \<Rightarrow> mgr \<Rightarrow> mgr" where
  "Drop name c m =
     (case (map_of (mSessions m) name, c) of
        (Some a, Some c) \<Rightarrow> snd (close_call a (drop_section c) m)
      | _ \<Rightarrow> m)"

definition Login ::
  "dialler \<Rightarrow> (client \<Rightarrow> bool) \<Rightarrow> int \<Rightarrow> vcontext \<Rightarrow> mgr \<Rightarrow> (nat \<times> connect_error option) \<times> mgr" where
  "Login dial ping now cc m =
     (case connect dial now cc True m of
        ((a, reused, e), m) \<Rightarrow>
          if e \<noteq> None \<or> \<not> reused then ((a, e), m)
          else (case sClient (mHeap m ! a) of
                  None \<Rightarrow> ((a, None), m)
                | Some c \<Rightarrow>
                    if ping c then ((a, None), m)
                    else (case connect dial now cc True (Drop (cxName cc) (Some c) m) of
                            ((a, reused, e), m) \<Rightarrow> ((a, e), m))))"

text \<open>The logout of a client may fail at the server; \<open>cerr\<close> is its answer.\<close>

definition Logout :: "(client \<Rightarrow> string option) \<Rightarrow> vcontext \<Rightarrow> mgr \<Rightarrow> string option \<times> mgr" where
  "Logout cerr cc m =
     (case m_session cc m of
        (a, m) \<Rightarrow> (case close_call a logout_section m of (c, m) \<Rightarrow> (Option.bind c cerr, m)))"

definition Forget :: "(client \<Rightarrow> string option) \<Rightarrow> string \<Rightarrow> mgr \<Rightarrow> string option \<times> mgr" where
  "Forget cerr name m =
     (case map_of (mSessions m) name of
        None \<Rightarrow> (None, m)
      | Some a \<Rightarrow>
          (case close_call a forget_section (m\<lparr>mSessions := filter (\<lambda>p. fst p \<noteq> name) (mSessions m)\<rparr>) of
             (c, m) \<Rightarrow> (Option.bind c cerr, m)))"

fun close_sessions :: "(client \<Rightarrow> string option) \<Rightarrow> nat list \<Rightarrow> mgr \<Rightarrow> (nat \<times> string) list \<times> mgr" where
  "close_sessions cerr [] m = ([], m)"
| "close_sessions cerr (a # as) m =
     (case close_call a forget_section m of
        (c, m) \<Rightarrow> (case close_sessions cerr as m of
                     (errs, m) \<Rightarrow> (case Option.bind c cerr of None \<Rightarrow> errs | Some e \<Rightarrow> (a, e) # errs, m)))"

definition Close_all :: "(client \<Rightarrow> string option) \<Rightarrow> mgr \<Rightarrow> (nat \<times> string) list \<times> mgr" where
  "Close_all cerr m = close_sessions cerr (map snd (mSessions m)) (m\<lparr>mSessions := []\<rparr>)"

text \<open>
  \<open>ConnectAll\<close> with the logins one after the other, in the order of the contexts: one of the orders the
  bounded group of goroutines allows.
\<close>

fun ConnectAll :: "dialler \<Rightarrow> int \<Rightarrow> vcontext list \<Rightarrow> mgr \<Rightarrow> nat list \<times> mgr" where
  "ConnectAll dial now [] m = ([], m)"
| "ConnectAll dial now (cc # ccs) m =
     (case Connect dial now cc m of
        ((a, e), m) \<Rightarrow> (case ConnectAll dial now ccs m of (as, m) \<Rightarrow> (a # as, m)))"

definition Statuses :: "mgr \<Rightarrow> status list" where
  "Statuses m = sort_key stName (map (\<lambda>p. Snapshot (mHeap m ! snd p)) (mSessions m))"

definition unknown_status :: "string \<Rightarrow> status" where
  "unknown_status name = \<lparr>stName = name, stEndpoint = [], stRoute = [], stState = Disconnected, stLatency = 0,
     stVersion = [], stErr = None, stLastOK = None, stLastTry = None, stAttempts = 0, stDatacenter = [],
     stInstanceID = []\<rparr>"

definition Status_of :: "string \<Rightarrow> mgr \<Rightarrow> status \<times> bool" where
  "Status_of name m =
     (case map_of (mSessions m) name of
        None \<Rightarrow> (unknown_status name, False)
      | Some a \<Rightarrow> (Snapshot (mHeap m ! a), True))"

definition Live :: "vcontext \<Rightarrow> mgr \<Rightarrow> client option" where
  "Live cc m =
     (case map_of (mSessions m) (cxName cc) of
        None \<Rightarrow> None
      | Some a \<Rightarrow>
          (let s = mHeap m ! a
           in if sState s \<noteq> Connected \<or> \<not> SameConnection (Some (sContext s)) (Some cc) then None
              else sClient s))"

section \<open>Concurrent calls\<close>

text \<open>What is left of a call: the section it runs next.\<close>

datatype thread =
    ConnectReady nat vcontext bool
  | Dialling nat vcontext
  | DialDone nat vcontext "string + client"
  | DropReady nat client
  | LogoutReady nat
  | ForgetReady nat

record sys =
  sysM :: mgr
  sysT :: "thread list"

datatype action =
    CallConnect vcontext bool
  | CallDrop string client
  | CallLogout vcontext
  | CallForget string
  | CallClose
  | Answer nat "string + client_info"  \<comment> \<open>the vCenter's answer to the login of a thread\<close>
  | Run nat int  \<comment> \<open>the next section of a thread, at a time\<close>

definition remove_nth :: "nat \<Rightarrow> 'a list \<Rightarrow> 'a list" where
  "remove_nth i xs = take i xs @ drop (Suc i) xs"

definition run_thread :: "nat \<Rightarrow> thread \<Rightarrow> int \<Rightarrow> sys \<Rightarrow> sys option" where
  "run_thread i t now s =
     (let rest = s\<lparr>sysT := remove_nth i (sysT s)\<rparr>
      in case t of
           ConnectReady a cc explicit \<Rightarrow>
             (case begin_call a cc explicit now (sysM s) of
                (Dial, m) \<Rightarrow> Some (s\<lparr>sysM := m, sysT := (sysT s)[i := Dialling a cc]\<rparr>)
              | (_, m) \<Rightarrow> Some (rest\<lparr>sysM := m\<rparr>))
         | Dialling a cc \<Rightarrow> None
         | DialDone a cc r \<Rightarrow> Some (rest\<lparr>sysM := snd (finish_call a cc r now (sysM s))\<rparr>)
         | DropReady a c \<Rightarrow> Some (rest\<lparr>sysM := snd (close_call a (drop_section c) (sysM s))\<rparr>)
         | LogoutReady a \<Rightarrow> Some (rest\<lparr>sysM := snd (close_call a logout_section (sysM s))\<rparr>)
         | ForgetReady a \<Rightarrow> Some (rest\<lparr>sysM := snd (close_call a forget_section (sysM s))\<rparr>))"

definition sys_step :: "action \<Rightarrow> sys \<Rightarrow> sys option" where
  "sys_step act s =
     (case act of
        CallConnect cc explicit \<Rightarrow>
          (case m_session cc (sysM s) of
             (a, m) \<Rightarrow> Some (s\<lparr>sysM := m, sysT := sysT s @ [ConnectReady a cc explicit]\<rparr>))
      | CallDrop name c \<Rightarrow>
          (case map_of (mSessions (sysM s)) name of
             None \<Rightarrow> Some s | Some a \<Rightarrow> Some (s\<lparr>sysT := sysT s @ [DropReady a c]\<rparr>))
      | CallLogout cc \<Rightarrow>
          (case m_session cc (sysM s) of
             (a, m) \<Rightarrow> Some (s\<lparr>sysM := m, sysT := sysT s @ [LogoutReady a]\<rparr>))
      | CallForget name \<Rightarrow>
          (case map_of (mSessions (sysM s)) name of
             None \<Rightarrow> Some s
           | Some a \<Rightarrow> Some (s\<lparr>sysM := (sysM s)\<lparr>mSessions := filter (\<lambda>p. fst p \<noteq> name) (mSessions (sysM s))\<rparr>,
               sysT := sysT s @ [ForgetReady a]\<rparr>))
      | CallClose \<Rightarrow>
          Some (s\<lparr>sysM := (sysM s)\<lparr>mSessions := []\<rparr>,
            sysT := sysT s @ map (\<lambda>p. ForgetReady (snd p)) (mSessions (sysM s))\<rparr>)
      | Answer i r \<Rightarrow>
          (if i < length (sysT s) then
             (case sysT s ! i of
                Dialling a cc \<Rightarrow>
                  (case dialled cc r (sysM s) of
                     (d, m) \<Rightarrow> Some (s\<lparr>sysM := m, sysT := (sysT s)[i := DialDone a cc d]\<rparr>))
              | _ \<Rightarrow> None)
           else None)
      | Run i now \<Rightarrow> if i < length (sysT s) then run_thread i (sysT s ! i) now s else None)"

definition sys_init :: sys where
  "sys_init = \<lparr>sysM = new_manager, sysT = []\<rparr>"

inductive reachable :: "sys \<Rightarrow> bool" where
  init: "reachable sys_init"
| step: "reachable s \<Longrightarrow> sys_step act s = Some s' \<Longrightarrow> reachable s'"

fun run_trace :: "action list \<Rightarrow> sys \<Rightarrow> sys option" where
  "run_trace [] s = Some s"
| "run_trace (a # as) s = (case sys_step a s of None \<Rightarrow> None | Some s' \<Rightarrow> run_trace as s')"

lemma reachable_trace: "run_trace as s = Some s' \<Longrightarrow> reachable s \<Longrightarrow> reachable s'"
  by (induction as arbitrary: s) (auto split: option.splits intro: reachable.step)

section \<open>What every section keeps\<close>

definition sess_ok :: "session \<Rightarrow> bool" where
  "sess_ok s \<longleftrightarrow> (sClient s \<noteq> None \<longleftrightarrow> sState s = Connected) \<and> (sLoggedOut s \<longrightarrow> sState s = Disconnected)"

definition s_ids :: "session \<Rightarrow> nat list" where
  "s_ids s = (case sClient s of None \<Rightarrow> [] | Some c \<Rightarrow> [clId c])"

definition c_ids :: "client option \<Rightarrow> nat list" where
  "c_ids c = (case c of None \<Rightarrow> [] | Some c \<Rightarrow> [clId c])"

lemma ids_simps [simp]:
  "c_ids None = []" "c_ids (Some c) = [clId c]" "s_ids s = c_ids (sClient s)"
  by (simp_all add: c_ids_def s_ids_def)

lemma new_session_sel [simp]:
  "sClient (new_session cc) = None" "sContext (new_session cc) = cc" "sess_ok (new_session cc)"
  "sState (new_session cc) = Disconnected" "sLoggedOut (new_session cc) = False"
  by (simp_all add: new_session_def sess_ok_def)

lemma SameConnection_Some [simp]: "SameConnection (Some a) (Some b) \<longleftrightarrow> a = b"
  by (simp add: SameConnection_def)

lemma connect_begin_ok:
  assumes "connect_begin cc explicit now s = ((b, stale), s')" and "sess_ok s"
  shows "sess_ok s'"
    and "cxName cc = cxName (sContext s) \<Longrightarrow> cxName (sContext s') = cxName (sContext s)"
    and "b \<noteq> Dial \<Longrightarrow> sState s' = sState s \<or> sState s' \<noteq> Connecting"
    and "b = Dial \<Longrightarrow> sClient s' = None \<and> sContext s' = cc \<and> \<not> sLoggedOut s'"
    and "b = Reused \<Longrightarrow> sContext s' = cc \<and> sClient s' = sClient s \<and> sClient s' \<noteq> None"
    and "b = Refused \<Longrightarrow> s' = s \<and> sLoggedOut s \<and> \<not> explicit"
    and "c_ids (sClient s') @ c_ids stale = c_ids (sClient s)"
  using assms
  by (auto simp: connect_begin_def adopt_def sess_ok_def split: if_splits)

lemma connect_finish_ok:
  assumes "connect_finish cc r now s = ((e, late), s')" and "sess_ok s"
  shows "sess_ok s'" and "sContext s' = sContext s" and "sState s' = Connecting \<longrightarrow> sState s = Connecting \<and> sLoggedOut s"
    and "set (c_ids (sClient s')) \<union> set (c_ids late) \<subseteq> set (c_ids (sClient s)) \<union> (case r of Inl _ \<Rightarrow> {} | Inr c \<Rightarrow> {clId c})"
    and "sClient s' = sClient s \<or> late = None" and "late \<noteq> None \<Longrightarrow> r = Inr (the late) \<and> sClient s' = sClient s"
    and "sLoggedOut s' = sLoggedOut s"
  using assms by (auto simp: connect_finish_def sess_ok_def split: if_splits sum.splits)

lemma close_sections_ok:
  assumes "sess_ok s"
    and "f \<in> {logout_section, forget_section} \<or> (\<exists>d. f = drop_section d)" and "f s = (c, s')"
  shows "sess_ok s'" and "sContext s' = sContext s" and "sState s' = Connecting \<longrightarrow> sState s = Connecting"
    and "c_ids (sClient s') @ c_ids c = c_ids (sClient s)"
  using assms by (auto simp: logout_section_def forget_section_def drop_section_def sess_ok_def split: if_splits option.splits)

lemma close_client_sel [simp]:
  "mSessions (close_client c m) = mSessions m" "mHeap (close_client c m) = mHeap m"
  "mNext (close_client c m) = mNext m" "set (mOpen (close_client c m)) = set (mOpen m) - set (c_ids c)"
  by (auto simp: close_client_def split: option.splits)

section \<open>The invariant of the concurrent system\<close>

fun t_addr :: "thread \<Rightarrow> nat" where
  "t_addr (ConnectReady a cc e) = a"
| "t_addr (Dialling a cc) = a"
| "t_addr (DialDone a cc r) = a"
| "t_addr (DropReady a c) = a"
| "t_addr (LogoutReady a) = a"
| "t_addr (ForgetReady a) = a"

fun t_dials :: "thread \<Rightarrow> bool" where
  "t_dials (Dialling a cc) = True"
| "t_dials (DialDone a cc r) = True"
| "t_dials _ = False"

fun t_ids :: "thread \<Rightarrow> nat list" where
  "t_ids (DialDone a cc (Inr c)) = [clId c]"
| "t_ids _ = []"

fun t_name :: "session list \<Rightarrow> thread \<Rightarrow> bool" where
  "t_name h (ConnectReady a cc e) \<longleftrightarrow> cxName cc = cxName (sContext (h ! a))"
| "t_name h _ \<longleftrightarrow> True"

definition ids_of :: "session list \<Rightarrow> thread list \<Rightarrow> nat list" where
  "ids_of h ts = concat (map s_ids h) @ concat (map t_ids ts)"

definition heap_inv :: "mgr \<Rightarrow> thread list \<Rightarrow> bool" where
  "heap_inv m ts \<longleftrightarrow>
     (\<forall>x \<in> set (mHeap m). sess_ok x) \<and>
     distinct (map fst (mSessions m)) \<and>
     (\<forall>p \<in> set (mSessions m). snd p < length (mHeap m) \<and> cxName (sContext (mHeap m ! snd p)) = fst p) \<and>
     (\<forall>t \<in> set ts. t_addr t < length (mHeap m) \<and> t_name (mHeap m) t) \<and>
     (\<forall>a < length (mHeap m). sState (mHeap m ! a) = Connecting \<longrightarrow> (\<exists>t \<in> set ts. t_dials t \<and> t_addr t = a))"

definition ids_inv :: "mgr \<Rightarrow> thread list \<Rightarrow> bool" where
  "ids_inv m ts \<longleftrightarrow>
     distinct (ids_of (mHeap m) ts) \<and> set (ids_of (mHeap m) ts) \<subseteq> set (mOpen m) \<and> (\<forall>i \<in> set (mOpen m). i < mNext m)"

lemma ids_of_Cons_append [simp]:
  "ids_of (l @ x # r) ts = concat (map s_ids l) @ s_ids x @ concat (map s_ids r) @ concat (map t_ids ts)"
  by (simp add: ids_of_def)

text \<open>One section on one session and one thread: the clients it passes on or closes were its own.\<close>

lemma ids_inv_section:
  assumes "ids_inv m (p @ ts @ q)" and "mHeap m = l @ x # r" and "mHeap m' = l @ x' # r"
    and "mNext m' = mNext m" and "set (mOpen m') = set (mOpen m) - C"
    and "distinct (s_ids x' @ concat (map t_ids ts'))"
    and "set (s_ids x' @ concat (map t_ids ts')) \<subseteq> set (s_ids x @ concat (map t_ids ts)) - C"
    and "C \<subseteq> set (s_ids x @ concat (map t_ids ts))"
  shows "ids_inv m' (p @ ts' @ q)"
proof -
  let ?o = "concat (map s_ids l) @ concat (map s_ids r) @ concat (map t_ids p) @ concat (map t_ids q)"
  let ?old = "s_ids x @ concat (map t_ids ts)" and ?new = "s_ids x' @ concat (map t_ids ts')"
  have m: "mset (ids_of (mHeap m) (p @ ts @ q)) = mset (?o @ ?old)"
    "mset (ids_of (mHeap m') (p @ ts' @ q)) = mset (?o @ ?new)"
    unfolding assms(2,3) by (simp_all add: ac_simps del: ids_simps)
  have "distinct (?o @ ?old)" "set (?o @ ?old) \<subseteq> set (mOpen m)" and lt: "\<forall>i \<in> set (mOpen m). i < mNext m"
    using assms(1) mset_eq_imp_distinct_iff [OF m(1)] mset_eq_setD [OF m(1)]
    unfolding ids_inv_def by blast+
  then have d: "distinct ?o" "set ?o \<inter> set ?old = {}" "set ?o \<subseteq> set (mOpen m)" "set ?old \<subseteq> set (mOpen m)"
    unfolding distinct_append set_append by blast+
  have "distinct (?o @ ?new)" using d assms(6,7) by (subst distinct_append) blast
  moreover have "set (?o @ ?new) \<subseteq> set (mOpen m')"
    using d assms(5,7,8) unfolding set_append by blast
  ultimately show ?thesis
    using mset_eq_imp_distinct_iff [OF m(2)] mset_eq_setD [OF m(2)] lt assms(4,5)
    unfolding ids_inv_def by auto
qed

definition sys_inv :: "mgr \<Rightarrow> thread list \<Rightarrow> bool" where
  "sys_inv m ts \<longleftrightarrow> heap_inv m ts \<and> ids_inv m ts"

lemma connecting_has_thread:
  "sys_inv m ts \<Longrightarrow> a < length (mHeap m) \<Longrightarrow> sState (mHeap m ! a) = Connecting \<Longrightarrow>
   \<exists>t \<in> set ts. t_dials t \<and> t_addr t = a"
  unfolding sys_inv_def heap_inv_def by blast

lemma inv_section:
  assumes "sys_inv m (p @ ts @ q)" and "a < length (mHeap m)" and "\<forall>t \<in> set ts. t_addr t = a"
    and "mHeap m' = (mHeap m)[a := x']" and "mSessions m' = mSessions m" and "mNext m' = mNext m"
    and "set (mOpen m') = set (mOpen m) - C"
    and "sess_ok x'" and "cxName (sContext x') = cxName (sContext (mHeap m ! a))"
    and "\<forall>t \<in> set ts'. t_addr t = a \<and> (\<forall>h. t_name h t)"
    and "sState x' = Connecting \<Longrightarrow> \<exists>t \<in> set (p @ ts' @ q). t_dials t \<and> t_addr t = a"
    and "distinct (s_ids x' @ concat (map t_ids ts'))"
    and "set (s_ids x' @ concat (map t_ids ts')) \<subseteq> set (s_ids (mHeap m ! a) @ concat (map t_ids ts)) - C"
    and "C \<subseteq> set (s_ids (mHeap m ! a) @ concat (map t_ids ts))"
  shows "sys_inv m' (p @ ts' @ q)"
  unfolding sys_inv_def
proof
  let ?h = "mHeap m" and ?h' = "mHeap m'"
  have name: "cxName (sContext (?h' ! b)) = cxName (sContext (?h ! b))" if "b < length ?h" for b
    using assms(4,9) that by (cases "a = b") auto
  have tn: "t_name ?h' t \<longleftrightarrow> t_name ?h t" if "t_addr t < length ?h" for t
    using name that by (cases t) auto
  note h = assms(1) [unfolded sys_inv_def heap_inv_def]
  show "heap_inv m' (p @ ts' @ q)"
    unfolding heap_inv_def
  proof (intro conjI ballI allI impI)
    fix y assume "y \<in> set ?h'"
    then show "sess_ok y" using h assms(4,8) set_update_subset_insert [of ?h a x'] by auto
  next
    show "distinct (map fst (mSessions m'))" using h assms(5) by simp
  next
    fix y assume "y \<in> set (mSessions m')"
    then show "snd y < length ?h'" "cxName (sContext (?h' ! snd y)) = fst y"
      using h assms(4,5) name by auto
  next
    fix t assume t: "t \<in> set (p @ ts' @ q)"
    have tq: "t_addr t < length ?h \<and> t_name ?h t" if "t \<notin> set ts'"
      using h t that by auto
    show "t_addr t < length ?h'" "t_name ?h' t"
      using tq tn assms(2,4,10) by (cases "t \<in> set ts'", auto)+
  next
    fix b assume b: "b < length ?h'" "sState (?h' ! b) = Connecting"
    show "\<exists>t \<in> set (p @ ts' @ q). t_dials t \<and> t_addr t = b"
    proof (cases "b = a")
      case True
      then show ?thesis using b assms(2,4,11) by simp
    next
      case False
      then have "sState (?h ! b) = Connecting" "b < length ?h" using b assms(4) by auto
      then obtain t where "t \<in> set (p @ ts @ q)" "t_dials t" "t_addr t = b" using h by blast
      moreover have "t \<notin> set ts" using assms(3) calculation(3) False by auto
      ultimately show ?thesis by auto
    qed
  qed
next
  have l: "mHeap m = take a (mHeap m) @ mHeap m ! a # drop (Suc a) (mHeap m)"
    "mHeap m' = take a (mHeap m) @ x' # drop (Suc a) (mHeap m)"
    using assms(2,4) by (auto simp: id_take_nth_drop upd_conv_take_nth_drop)
  show "ids_inv m' (p @ ts' @ q)"
    using assms(1) by (intro ids_inv_section [OF _ l assms(6,7,12-14)]) (simp add: sys_inv_def)
qed

lemma inv_close:
  assumes "sys_inv m (p @ [t] @ q)" and "close_call a f m = (c, m')" and "t_addr t = a" and "\<not> t_dials t"
    and "f \<in> {logout_section, forget_section} \<or> (\<exists>d. f = drop_section d)"
  shows "sys_inv m' (p @ q)"
proof -
  have a: "a < length (mHeap m)" "sess_ok (mHeap m ! a)"
    using assms(1,3) by (auto simp: sys_inv_def heap_inv_def)
  obtain x' where f: "f (mHeap m ! a) = (c, x')" "m' = close_client c (m\<lparr>mHeap := (mHeap m)[a := x']\<rparr>)"
    using assms(2) by (auto simp: close_call_def locked_def split: prod.splits)
  note ok = close_sections_ok [OF a(2) assms(5) f(1)]
  have t0: "t_ids t = []" using assms(4) by (cases t) auto
  have "sys_inv m' (p @ [] @ q)"
  proof (rule inv_section [OF assms(1) a(1), where x' = x' and C = "set (c_ids c)"])
    show "\<exists>t \<in> set (p @ [] @ q). t_dials t \<and> t_addr t = a" if "sState x' = Connecting"
    proof -
      have "sState (mHeap m ! a) = Connecting" using ok(3) that by simp
      then obtain u where "u \<in> set (p @ [t] @ q)" "t_dials u" "t_addr u = a"
        using connecting_has_thread [OF assms(1) a(1)] by blast
      then show ?thesis using assms(4) by auto
    qed
    show "set (s_ids x' @ concat (map t_ids [])) \<subseteq> set (s_ids (mHeap m ! a) @ concat (map t_ids [t])) - set (c_ids c)"
      "set (c_ids c) \<subseteq> set (s_ids (mHeap m ! a) @ concat (map t_ids [t]))"
      "distinct (s_ids x' @ concat (map t_ids []))"
      using ok(4) t0 by (cases "sClient x'"; cases c; cases "sClient (mHeap m ! a)"; simp)+
  qed (use assms(3) f(2) ok in auto)
  then show ?thesis by simp
qed

lemma begin_call_cases:
  assumes "begin_call a cc explicit now m = (b, m')"
  obtains stale x' where "connect_begin cc explicit now (mHeap m ! a) = ((b, stale), x')"
    and "m' = close_client stale (m\<lparr>mHeap := (mHeap m)[a := x']\<rparr>)"
  using assms by (auto simp: begin_call_def locked_def split: prod.splits)

lemma finish_call_cases:
  assumes "finish_call a cc r now m = (e, m')"
  obtains late x' where "connect_finish cc r now (mHeap m ! a) = ((e, late), x')"
    and "m' = close_client late (m\<lparr>mHeap := (mHeap m)[a := x']\<rparr>)"
  using assms by (auto simp: finish_call_def locked_def split: prod.splits)

lemma inv_begin:
  assumes "sys_inv m (p @ [ConnectReady a cc explicit] @ q)" and "begin_call a cc explicit now m = (b, m')"
  shows "sys_inv m' (p @ (if b = Dial then [Dialling a cc] else []) @ q)"
  using assms(2)
proof (rule begin_call_cases)
  fix stale x'
  assume f: "connect_begin cc explicit now (mHeap m ! a) = ((b, stale), x')"
    "m' = close_client stale (m\<lparr>mHeap := (mHeap m)[a := x']\<rparr>)"
  have a: "a < length (mHeap m)" "sess_ok (mHeap m ! a)" "cxName cc = cxName (sContext (mHeap m ! a))"
    using assms(1) by (auto simp: sys_inv_def heap_inv_def)
  note ok = connect_begin_ok [OF f(1) a(2)]
  let ?ts = "if b = Dial then [Dialling a cc] else []"
  show ?thesis
  proof (rule inv_section [OF assms(1) a(1), where x' = x' and C = "set (c_ids stale)"])
    show "\<exists>t \<in> set (p @ ?ts @ q). t_dials t \<and> t_addr t = a" if "sState x' = Connecting"
    proof (cases "b = Dial")
      case False
      then have "sState (mHeap m ! a) = Connecting" using ok(3) that by auto
      then obtain u where u: "u \<in> set (p @ [ConnectReady a cc explicit] @ q)" "t_dials u" "t_addr u = a"
        using connecting_has_thread [OF assms(1) a(1)] by blast
      have "u \<noteq> ConnectReady a cc explicit" using u(2) by auto
      with u(1) have "u \<in> set (p @ q)" by simp
      then show ?thesis using u(2,3) by auto
    qed simp
    show "set (s_ids x' @ concat (map t_ids ?ts)) \<subseteq>
        set (s_ids (mHeap m ! a) @ concat (map t_ids [ConnectReady a cc explicit])) - set (c_ids stale)"
      "set (c_ids stale) \<subseteq> set (s_ids (mHeap m ! a) @ concat (map t_ids [ConnectReady a cc explicit]))"
      "distinct (s_ids x' @ concat (map t_ids ?ts))"
      using ok(7) by (cases "sClient x'"; cases stale; cases "sClient (mHeap m ! a)"; simp)+
  qed (use f(2) ok(1) ok(2) [OF a(3)] in auto)
qed

lemma inv_finish:
  assumes "sys_inv m (p @ [DialDone a cc r] @ q)" and "finish_call a cc r now m = (e, m')"
  shows "sys_inv m' (p @ q)"
  using assms(2)
proof (rule finish_call_cases)
  fix late x'
  assume f: "connect_finish cc r now (mHeap m ! a) = ((e, late), x')"
    "m' = close_client late (m\<lparr>mHeap := (mHeap m)[a := x']\<rparr>)"
  have a: "a < length (mHeap m)" "sess_ok (mHeap m ! a)"
    using assms(1) by (auto simp: sys_inv_def heap_inv_def)
  note ok = connect_finish_ok [OF f(1) a(2)]
  have dist: "distinct (ids_of (mHeap m) (p @ [DialDone a cc r] @ q))"
    using assms(1) by (simp add: sys_inv_def ids_inv_def)
  have ne: "set (c_ids (sClient x')) \<inter> set (c_ids late) = {}"
  proof (cases late)
    case (Some c)
    then have "r = Inr c" "sClient x' = sClient (mHeap m ! a)" using ok(6) by auto
    moreover have "mHeap m ! a \<in> set (mHeap m)" using a(1) by simp
    ultimately show ?thesis using dist Some by (auto simp: ids_of_def c_ids_def split: option.splits)
  qed simp
  have "sys_inv m' (p @ [] @ q)"
  proof (rule inv_section [OF assms(1) a(1), where x' = x' and C = "set (c_ids late)"])
    show "\<exists>t \<in> set (p @ [] @ q). t_dials t \<and> t_addr t = a" if "sState x' = Connecting"
      using ok(3) that a(2) by (auto simp: sess_ok_def)
    show "set (s_ids x' @ concat (map t_ids [])) \<subseteq>
        set (s_ids (mHeap m ! a) @ concat (map t_ids [DialDone a cc r])) - set (c_ids late)"
      "set (c_ids late) \<subseteq> set (s_ids (mHeap m ! a) @ concat (map t_ids [DialDone a cc r]))"
      using ok(4) ne by (cases r; auto)+
    show "distinct (s_ids x' @ concat (map t_ids []))" by (cases "sClient x'") auto
  qed (use f(2) ok in auto)
  then show ?thesis by simp
qed

lemma inv_m_session:
  assumes "sys_inv m ts" and "m_session cc m = (a, m')"
  shows "sys_inv m' ts" and "a < length (mHeap m')" and "cxName (sContext (mHeap m' ! a)) = cxName cc"
proof -
  have "sys_inv m' ts \<and> a < length (mHeap m') \<and> cxName (sContext (mHeap m' ! a)) = cxName cc"
  proof (cases "map_of (mSessions m) (cxName cc)")
    case (Some b)
    from map_of_SomeD [OF this] show ?thesis
      using Some assms by (auto simp: m_session_def sys_inv_def heap_inv_def)
  next
    case None
    then have new: "cxName cc \<notin> fst ` set (mSessions m)" by (simp add: map_of_eq_None_iff)
    have m': "m' = m\<lparr>mHeap := mHeap m @ [new_session cc], mSessions := (cxName cc, length (mHeap m)) # mSessions m\<rparr>"
      "a = length (mHeap m)" using None assms(2) by (auto simp: m_session_def)
    have tn: "t_name (mHeap m @ [new_session cc]) t" if "t \<in> set ts" for t
      using assms(1) that by (cases t) (auto simp: sys_inv_def heap_inv_def nth_append)
    have "heap_inv m' ts"
      using assms(1) new tn
      by (auto simp: m' sys_inv_def heap_inv_def nth_append less_Suc_eq split: if_splits)
    moreover have "ids_inv m' ts"
      using assms(1) by (simp add: m' sys_inv_def ids_inv_def ids_of_def)
    ultimately show ?thesis by (simp add: m' sys_inv_def)
  qed
  then show "sys_inv m' ts" "a < length (mHeap m')" "cxName (sContext (mHeap m' ! a)) = cxName cc" by auto
qed

lemma inv_add_thread:
  assumes "sys_inv m ts" and "t_addr t < length (mHeap m)" and "t_name (mHeap m) t" and "t_ids t = []"
  shows "sys_inv m (ts @ [t])"
  using assms by (auto simp: sys_inv_def heap_inv_def ids_inv_def ids_of_def)

lemma inv_forget_threads:
  assumes "sys_inv m ts" and "\<forall>a \<in> set as. a < length (mHeap m)"
  shows "sys_inv m (ts @ map ForgetReady as)"
  using assms
proof (induction as arbitrary: ts)
  case (Cons a as)
  from Cons.IH [of "ts @ [ForgetReady a]"] Cons.prems inv_add_thread [OF Cons.prems(1), of "ForgetReady a"]
  show ?case by simp
qed simp

lemma inv_drop_names:
  assumes "sys_inv m ts" and "set ss \<subseteq> set (mSessions m)" and "distinct (map fst ss)"
  shows "sys_inv (m\<lparr>mSessions := ss\<rparr>) ts"
  using assms by (auto simp: sys_inv_def heap_inv_def ids_inv_def)

lemma inv_answer:
  assumes "sys_inv m (p @ [Dialling a cc] @ q)" and "dialled cc r m = (d, m')"
  shows "sys_inv m' (p @ [DialDone a cc d] @ q)"
proof -
  have tn: "t_name (mHeap m') t \<longleftrightarrow> t_name (mHeap m) t" for t
    using assms(2) by (cases t) (auto simp: dialled_def split: sum.splits)
  have same: "mHeap m' = mHeap m" "mSessions m' = mSessions m"
    using assms(2) by (auto simp: dialled_def split: sum.splits)
  have h: "heap_inv m' (p @ [DialDone a cc d] @ q)"
    using assms(1) unfolding sys_inv_def heap_inv_def same by (auto simp: same tn)
  have i: "ids_inv m (p @ [Dialling a cc] @ q)" using assms(1) by (simp add: sys_inv_def)
  show ?thesis
  proof (cases r)
    case (Inl e)
    with h i assms(2) show ?thesis by (auto simp: sys_inv_def dialled_def ids_inv_def ids_of_def)
  next
    case (Inr info)
    let ?old = "ids_of (mHeap m) (p @ [Dialling a cc] @ q)" and ?new = "ids_of (mHeap m') (p @ [DialDone a cc d] @ q)"
    have m': "m' = m\<lparr>mOpen := mNext m # mOpen m, mNext := Suc (mNext m)\<rparr>"
      "d = Inr \<lparr>clId = mNext m, clFor = cc, clInfo = info\<rparr>"
      using assms(2) Inr by (auto simp: dialled_def)
    have eq: "mset ?new = mset (mNext m # ?old)" by (simp add: m' ids_of_def)
    have "mNext m \<notin> set ?old" using i by (auto simp: ids_inv_def)
    then have "distinct ?new" using mset_eq_imp_distinct_iff [OF eq] i by (simp add: ids_inv_def)
    moreover have "set ?new \<subseteq> set (mOpen m')" using mset_eq_setD [OF eq] i by (auto simp: ids_inv_def m')
    moreover have "\<forall>j \<in> set (mOpen m'). j < mNext m'" using i by (auto simp: ids_inv_def m')
    ultimately show ?thesis using h by (simp add: sys_inv_def ids_inv_def)
  qed
qed

lemma split_nth: "i < length xs \<Longrightarrow> xs = take i xs @ [xs ! i] @ drop (Suc i) xs"
  by (simp add: id_take_nth_drop)

lemma update_split: "i < length xs \<Longrightarrow> xs[i := y] = take i xs @ [y] @ drop (Suc i) xs"
  by (simp add: upd_conv_take_nth_drop)

lemma run_thread_inv:
  assumes "sys_inv (sysM s) (sysT s)" and "i < length (sysT s)" and "run_thread i (sysT s ! i) now s = Some s'"
  shows "sys_inv (sysM s') (sysT s')"
proof -
  let ?p = "take i (sysT s)" and ?q = "drop (Suc i) (sysT s)"
  have inv: "sys_inv (sysM s) (?p @ [sysT s ! i] @ ?q)" using assms(1) split_nth [OF assms(2)] by simp
  show ?thesis
  proof (cases "sysT s ! i")
    case (ConnectReady a cc explicit)
    obtain b m' where b: "begin_call a cc explicit now (sysM s) = (b, m')" by fastforce
    from inv_begin [OF inv [unfolded ConnectReady] b] assms(3) b ConnectReady show ?thesis
      by (cases b) (auto simp: run_thread_def remove_nth_def update_split [OF assms(2)])
  next
    case (DialDone a cc r)
    obtain e m' where b: "finish_call a cc r now (sysM s) = (e, m')" by fastforce
    from inv_finish [OF inv [unfolded DialDone] b] assms(3) b DialDone show ?thesis
      by (auto simp: run_thread_def remove_nth_def)
  next
    case (DropReady a c)
    obtain e m' where b: "close_call a (drop_section c) (sysM s) = (e, m')" by fastforce
    have "sys_inv m' (take i (sysT s) @ drop (Suc i) (sysT s))"
      by (rule inv_close [OF inv [unfolded DropReady] b]) auto
    with assms(3) b DropReady show ?thesis by (auto simp: run_thread_def remove_nth_def)
  next
    case (LogoutReady a)
    obtain e m' where b: "close_call a logout_section (sysM s) = (e, m')" by fastforce
    from inv_close [OF inv [unfolded LogoutReady] b] assms(3) b LogoutReady show ?thesis
      by (auto simp: run_thread_def remove_nth_def)
  next
    case (ForgetReady a)
    obtain e m' where b: "close_call a forget_section (sysM s) = (e, m')" by fastforce
    from inv_close [OF inv [unfolded ForgetReady] b] assms(3) b ForgetReady show ?thesis
      by (auto simp: run_thread_def remove_nth_def)
  next
    case (Dialling a cc)
    with assms(3) show ?thesis by (simp add: run_thread_def)
  qed
qed

lemma distinct_filter_fst: "distinct (map fst xs) \<Longrightarrow> distinct (map fst (filter P xs))"
  by (induction xs) auto

lemma sys_step_inv:
  assumes "sys_inv (sysM s) (sysT s)" and "sys_step act s = Some s'"
  shows "sys_inv (sysM s') (sysT s')"
proof (cases act)
  case (CallConnect cc explicit)
  obtain a m where a: "m_session cc (sysM s) = (a, m)" by fastforce
  note i = inv_m_session [OF assms(1) a]
  from inv_add_thread [OF i(1), of "ConnectReady a cc explicit"] i(2,3) a assms(2) CallConnect show ?thesis
    by (auto simp: sys_step_def)
next
  case (CallDrop name c)
  have "a < length (mHeap (sysM s))" if "map_of (mSessions (sysM s)) name = Some a" for a
    using map_of_SomeD [OF that] assms(1) by (auto simp: sys_inv_def heap_inv_def)
  with inv_add_thread [OF assms(1), of "DropReady a c" for a] assms CallDrop show ?thesis
    by (auto simp: sys_step_def split: option.splits)
next
  case (CallLogout cc)
  obtain a m where a: "m_session cc (sysM s) = (a, m)" by fastforce
  note i = inv_m_session [OF assms(1) a]
  from inv_add_thread [OF i(1), of "LogoutReady a"] i(2) a assms(2) CallLogout show ?thesis
    by (auto simp: sys_step_def)
next
  case (CallForget name)
  show ?thesis
  proof (cases "map_of (mSessions (sysM s)) name")
    case None
    with assms CallForget show ?thesis by (simp add: sys_step_def)
  next
    case (Some a)
    let ?m = "(sysM s)\<lparr>mSessions := filter (\<lambda>p. fst p \<noteq> name) (mSessions (sysM s))\<rparr>"
    have "sys_inv ?m (sysT s)"
      using assms(1) by (intro inv_drop_names) (auto simp: sys_inv_def heap_inv_def distinct_filter_fst)
    moreover have "a < length (mHeap ?m)"
      using map_of_SomeD [OF Some] assms(1) by (auto simp: sys_inv_def heap_inv_def)
    ultimately show ?thesis using inv_add_thread [of ?m _ "ForgetReady a"] Some CallForget assms(2)
      by (auto simp: sys_step_def)
  qed
next
  case CallClose
  let ?m = "(sysM s)\<lparr>mSessions := []\<rparr>"
  have "sys_inv ?m (sysT s)" using assms(1) by (intro inv_drop_names) auto
  moreover have "\<forall>a \<in> set (map snd (mSessions (sysM s))). a < length (mHeap ?m)"
    using assms(1) by (auto simp: sys_inv_def heap_inv_def)
  ultimately show ?thesis using inv_forget_threads [of ?m _ "map snd (mSessions (sysM s))"] assms(2) CallClose
    by (auto simp: sys_step_def comp_def)
next
  case (Answer i r)
  then obtain a cc d m where i: "i < length (sysT s)" "sysT s ! i = Dialling a cc"
    "dialled cc r (sysM s) = (d, m)" "s' = s\<lparr>sysM := m, sysT := (sysT s)[i := DialDone a cc d]\<rparr>"
    using assms(2) by (auto simp: sys_step_def split: if_splits thread.splits prod.splits)
  have "sys_inv (sysM s) (take i (sysT s) @ [Dialling a cc] @ drop (Suc i) (sysT s))"
    using assms(1) split_nth [OF i(1)] i(2) by simp
  from inv_answer [OF this i(3)] i show ?thesis by (simp add: update_split [OF i(1)])
next
  case (Run i now)
  with assms run_thread_inv show ?thesis by (auto simp: sys_step_def split: if_splits)
qed

lemma reachable_inv: "reachable s \<Longrightarrow> sys_inv (sysM s) (sysT s)"
proof (induction rule: reachable.induct)
  case init
  show ?case by (simp add: sys_init_def new_manager_def sys_inv_def heap_inv_def ids_inv_def ids_of_def)
next
  case (step s act s')
  then show ?case using sys_step_inv by blast
qed

section \<open>Methods run one after the other\<close>

definition held :: "mgr \<Rightarrow> nat \<Rightarrow> bool" where
  "held m i \<longleftrightarrow> (\<exists>p \<in> set (mSessions m). i \<in> set (s_ids (mHeap m ! snd p)))"

text \<open>No call is running and every open login belongs to a session the manager knows.\<close>

definition tidy :: "mgr \<Rightarrow> bool" where
  "tidy m \<longleftrightarrow> sys_inv m [] \<and> (\<forall>i \<in> set (mOpen m). held m i)"

lemma tidy_sys_inv: "tidy m \<Longrightarrow> sys_inv m []"
  by (simp add: tidy_def)

lemma inv_session_addr:
  "sys_inv m ts \<Longrightarrow> p \<in> set (mSessions m) \<Longrightarrow> snd p < length (mHeap m)"
  by (auto simp: sys_inv_def heap_inv_def)

lemma inv_sess_ok: "sys_inv m ts \<Longrightarrow> a < length (mHeap m) \<Longrightarrow> sess_ok (mHeap m ! a)"
  by (auto simp: sys_inv_def heap_inv_def)

lemma m_session_mem: "m_session cc m = (a, m') \<Longrightarrow> map_of (mSessions m') (cxName cc) = Some a"
  by (auto simp: m_session_def split: option.splits)

lemma tidy_m_session:
  assumes "tidy m" and "m_session cc m = (a, m')"
  shows "tidy m'"
proof -
  have "held m' i" if "i \<in> set (mOpen m')" for i
  proof -
    have "i \<in> set (mOpen m)" using assms(2) that by (auto simp: m_session_def split: option.splits)
    then obtain p where p: "p \<in> set (mSessions m)" "i \<in> set (s_ids (mHeap m ! snd p))"
      using assms(1) by (auto simp: tidy_def held_def)
    have l: "snd p < length (mHeap m)" using inv_session_addr [OF tidy_sys_inv [OF assms(1)] p(1)] .
    then have "mHeap m' ! snd p = mHeap m ! snd p" "p \<in> set (mSessions m')"
      using assms(2) p(1) by (auto simp: m_session_def nth_append split: option.splits)
    then show ?thesis unfolding held_def using p(2) by metis
  qed
  then show ?thesis using inv_m_session(1) [OF tidy_sys_inv [OF assms(1)] assms(2)] by (simp add: tidy_def)
qed

lemma held_section:
  assumes "\<forall>i \<in> set (mOpen m). held m i" and "mSessions m' = mSessions m" and "mHeap m' = (mHeap m)[a := x']"
    and "set (mOpen m') = set (mOpen m) - set (c_ids c)" and "a < length (mHeap m)"
    and "c_ids (sClient x') @ c_ids c = c_ids (sClient (mHeap m ! a))"
  shows "\<forall>i \<in> set (mOpen m'). held m' i"
proof
  fix i assume i: "i \<in> set (mOpen m')"
  then obtain p where p: "p \<in> set (mSessions m)" "i \<in> set (s_ids (mHeap m ! snd p))"
    using assms(1,4) by (auto simp: held_def)
  have "i \<in> set (s_ids (mHeap m' ! snd p))"
  proof (cases "snd p = a")
    case True
    have "i \<in> set (c_ids (sClient x') @ c_ids c)" using p(2) True unfolding assms(6) by simp
    then show ?thesis using i assms(3-5) True by auto
  next
    case False
    then show ?thesis using p(2) assms(3) by simp
  qed
  then show "held m' i" using p(1) assms(2) by (auto simp: held_def)
qed

lemma tidy_close:
  assumes "tidy m" and "a < length (mHeap m)" and "close_call a f m = (c, m')"
    and "f \<in> {logout_section, forget_section} \<or> (\<exists>d. f = drop_section d)"
  shows "tidy m'" and "mSessions m' = mSessions m"
    and "f \<noteq> drop_section d \<Longrightarrow> f \<in> {logout_section, forget_section} \<Longrightarrow>
      set (mOpen m') = set (mOpen m) - set (s_ids (mHeap m ! a))"
proof -
  obtain x' where f: "f (mHeap m ! a) = (c, x')" "m' = close_client c (m\<lparr>mHeap := (mHeap m)[a := x']\<rparr>)"
    using assms(3) by (auto simp: close_call_def locked_def split: prod.splits)
  note ok = close_sections_ok [OF inv_sess_ok [OF tidy_sys_inv [OF assms(1)] assms(2)] assms(4) f(1)]
  have "sys_inv m ([] @ [ForgetReady a] @ [])"
    using inv_add_thread [OF tidy_sys_inv [OF assms(1)], of "ForgetReady a"] assms(2) by simp
  then have "sys_inv m' ([] @ [])"
    by (rule inv_close [OF _ assms(3) _ _ assms(4)]) auto
  moreover have "\<forall>i \<in> set (mOpen m'). held m' i"
    by (rule held_section [of m m' a x' c]) (use assms(1,2) f(2) ok(4) in \<open>auto simp: tidy_def\<close>)
  ultimately show "tidy m'" by (simp add: tidy_def)
  show "mSessions m' = mSessions m" using f(2) by simp
  show "f \<noteq> drop_section d \<Longrightarrow> f \<in> {logout_section, forget_section} \<Longrightarrow>
      set (mOpen m') = set (mOpen m) - set (s_ids (mHeap m ! a))"
    using f by (auto simp: logout_section_def forget_section_def)
qed

lemma connect_cases:
  assumes "connect dial now cc explicit m = ((a, reused, e), m')"
  obtains (refused) m1 m2 where "m_session cc m = (a, m1)" "begin_call a cc explicit now m1 = (Refused, m2)"
      "reused = False" "e = Some (ErrLoggedOut (cxName cc))" "m' = m2"
  | (reused) m1 where "m_session cc m = (a, m1)" "begin_call a cc explicit now m1 = (Reused, m')"
      "reused = True" "e = None"
  | (dial) m1 m2 r m3 where "m_session cc m = (a, m1)" "begin_call a cc explicit now m1 = (Dial, m2)"
      "dialled cc (dial (mNext m2) cc) m2 = (r, m3)" "finish_call a cc r now m3 = (e, m')" "reused = False"
  using assms by (auto simp: connect_def split: prod.splits begin_result.splits)

lemma tidy_begin:
  assumes "tidy m" and "a < length (mHeap m)" and "cxName (sContext (mHeap m ! a)) = cxName cc"
    and "begin_call a cc explicit now m = (b, m')"
  shows "sys_inv m' (if b = Dial then [Dialling a cc] else [])" and "\<forall>i \<in> set (mOpen m'). held m' i"
    and "mSessions m' = mSessions m" and "length (mHeap m') = length (mHeap m)"
proof -
  have "sys_inv m ([] @ [ConnectReady a cc explicit] @ [])"
    using inv_add_thread [OF tidy_sys_inv [OF assms(1)], of "ConnectReady a cc explicit"] assms(2,3) by simp
  from inv_begin [OF this assms(4)] show "sys_inv m' (if b = Dial then [Dialling a cc] else [])" by simp
  from assms(4) obtain stale x' where f: "connect_begin cc explicit now (mHeap m ! a) = ((b, stale), x')"
    "m' = close_client stale (m\<lparr>mHeap := (mHeap m)[a := x']\<rparr>)" by (rule begin_call_cases)
  note ok = connect_begin_ok [OF f(1) inv_sess_ok [OF tidy_sys_inv [OF assms(1)] assms(2)]]
  show "\<forall>i \<in> set (mOpen m'). held m' i"
    by (rule held_section [of m m' a x' stale]) (use assms(1,2) f(2) ok(7) in \<open>auto simp: tidy_def\<close>)
  show "mSessions m' = mSessions m" "length (mHeap m') = length (mHeap m)" using f(2) by auto
qed

lemma tidy_connect:
  assumes "tidy m" and "connect dial now cc explicit m = ((a, reused, e), m')"
  shows "tidy m' \<and> map_of (mSessions m') (cxName cc) = Some a"
  using assms(2)
proof (cases rule: connect_cases)
  case (refused m1 m2)
  note s = tidy_m_session [OF assms(1) refused(1)] inv_m_session(2,3) [OF tidy_sys_inv [OF assms(1)] refused(1)]
  from tidy_begin [OF s refused(2)] refused m_session_mem [OF refused(1)] show ?thesis by (simp add: tidy_def)
next
  case (reused m1)
  note s = tidy_m_session [OF assms(1) reused(1)] inv_m_session(2,3) [OF tidy_sys_inv [OF assms(1)] reused(1)]
  from tidy_begin [OF s reused(2)] reused m_session_mem [OF reused(1)] show ?thesis by (simp add: tidy_def)
next
  case (dial m1 m2 r m3)
  note s = tidy_m_session [OF assms(1) dial(1)] inv_m_session(2,3) [OF tidy_sys_inv [OF assms(1)] dial(1)]
  note b = tidy_begin [OF s dial(2)]
  have mem: "map_of (mSessions m1) (cxName cc) = Some a" using m_session_mem [OF dial(1)] .
  have a2: "a < length (mHeap m2)" using s(2) b(4) by simp
  from dial(2) obtain stale x where bx: "connect_begin cc explicit now (mHeap m1 ! a) = ((Dial, stale), x)"
    "m2 = close_client stale (m1\<lparr>mHeap := (mHeap m1)[a := x]\<rparr>)" by (rule begin_call_cases)
  then have x: "mHeap m2 ! a = x" "sClient x = None" "\<not> sLoggedOut x"
    using connect_begin_ok(4) [OF bx(1) inv_sess_ok [OF tidy_sys_inv [OF s(1)] s(2)]] s(2) by auto
  have m3: "mHeap m3 = mHeap m2" "mSessions m3 = mSessions m1"
    using dial(3) b(3) by (auto simp: dialled_def split: sum.splits)
  have "sys_inv m2 ([] @ [Dialling a cc] @ [])" using b(1) by simp
  from inv_answer [OF this dial(3)] have "sys_inv m3 ([] @ [DialDone a cc r] @ [])" .
  from inv_finish [OF this dial(4)] have inv: "sys_inv m' []" by simp
  from dial(4) obtain late x' where fx: "connect_finish cc r now (mHeap m3 ! a) = ((e, late), x')"
    "m' = close_client late (m3\<lparr>mHeap := (mHeap m3)[a := x']\<rparr>)" by (rule finish_call_cases)
  have x': "late = None" "sClient x' = (case r of Inl _ \<Rightarrow> None | Inr c \<Rightarrow> Some c)"
    using fx(1) x m3(1) by (auto simp: connect_finish_def split: sum.splits)
  have "held m' i" if i: "i \<in> set (mOpen m')" for i
  proof (cases "i \<in> set (mOpen m2)")
    case True
    then obtain p where p: "p \<in> set (mSessions m2)" "i \<in> set (s_ids (mHeap m2 ! snd p))"
      using b(2) by (auto simp: held_def)
    then have "snd p \<noteq> a" using x by auto
    then show ?thesis using p fx(2) m3 b(3) by (auto simp: held_def intro!: bexI [of _ p])
  next
    case False
    then have "\<exists>c. r = Inr c \<and> i = clId c"
      using i fx(2) x'(1) dial(3) by (auto simp: dialled_def split: sum.splits)
    then have "i \<in> set (s_ids (mHeap m' ! a))" using x' fx(2) m3 a2 by auto
    moreover have "(cxName cc, a) \<in> set (mSessions m')" using map_of_SomeD [OF mem] fx(2) m3 by simp
    ultimately show ?thesis by (auto simp: held_def intro!: bexI [of _ "(cxName cc, a)"])
  qed
  with inv mem fx(2) m3 show ?thesis by (simp add: tidy_def)
qed

lemma tidy_Drop: "tidy m \<Longrightarrow> tidy (Drop name c m)"
proof -
  assume m: "tidy m"
  have "tidy (snd (close_call a (drop_section d) m))" if "map_of (mSessions m) name = Some a" for a d
    using tidy_close(1) [OF m inv_session_addr [OF tidy_sys_inv [OF m] map_of_SomeD [OF that], simplified] prod.collapse [symmetric]]
    by blast
  with m show ?thesis by (auto simp: Drop_def split: option.splits)
qed

lemma tidy_connect_snd: "tidy m \<Longrightarrow> tidy (snd (connect dial now cc explicit m))"
  using tidy_connect by (metis prod.collapse)

lemma tidy_Login: "tidy m \<Longrightarrow> tidy (snd (Login dial ping now cc m))"
proof -
  assume m: "tidy m"
  obtain a reused e m1 where c: "connect dial now cc True m = ((a, reused, e), m1)" by (metis surj_pair)
  have m1: "tidy m1" using tidy_connect_snd [OF m, of dial now cc True] c by simp
  obtain a' r' e' m2 where d: "connect dial now cc True (Drop (cxName cc) (sClient (mHeap m1 ! a)) m1) = ((a', r', e'), m2)"
    by (metis surj_pair)
  have "tidy m2" using tidy_connect_snd [OF tidy_Drop [OF m1], of dial now cc True] d by (metis snd_conv)
  with m1 d c show ?thesis by (auto simp: Login_def split: option.splits)
qed

lemma tidy_Logout: "tidy m \<Longrightarrow> tidy (snd (Logout cerr cc m))"
proof -
  assume m: "tidy m"
  obtain a m1 c m2 where s: "m_session cc m = (a, m1)" "close_call a logout_section m1 = (c, m2)" by (metis prod.exhaust)
  note i = tidy_m_session [OF m s(1)] inv_m_session(2) [OF tidy_sys_inv [OF m] s(1)]
  from tidy_close(1) [OF i s(2)] s show ?thesis by (simp add: Logout_def)
qed

lemma tidy_Forget: "tidy m \<Longrightarrow> tidy (snd (Forget cerr name m))"
proof -
  assume m: "tidy m"
  show ?thesis
  proof (cases "map_of (mSessions m) name")
    case None
    with m show ?thesis by (simp add: Forget_def)
  next
    case (Some a)
    note p = map_of_SomeD [OF Some]
    note al = inv_session_addr [OF tidy_sys_inv [OF m] p, simplified]
    let ?ss = "filter (\<lambda>p. fst p \<noteq> name) (mSessions m)"
    obtain c m2 where s: "close_call a forget_section m = (c, m2)" by fastforce
    note t = tidy_close [OF m al s]
    have cc: "close_call a forget_section (m\<lparr>mSessions := ?ss\<rparr>) = (c, m2\<lparr>mSessions := ?ss\<rparr>)"
      using s by (auto simp: close_call_def locked_def close_client_def split: prod.splits option.splits)
    have "sys_inv (m2\<lparr>mSessions := ?ss\<rparr>) []"
      using tidy_sys_inv [OF t(1)] t(2) m
      by (intro inv_drop_names) (auto simp: tidy_def sys_inv_def heap_inv_def distinct_filter_fst)
    moreover have "held (m2\<lparr>mSessions := ?ss\<rparr>) i" if i: "i \<in> set (mOpen m2)" for i
    proof -
      obtain q where q: "q \<in> set (mSessions m)" "i \<in> set (s_ids (mHeap m2 ! snd q))"
        using t(1,2) i by (auto simp: tidy_def held_def)
      have "fst q \<noteq> name"
      proof
        assume "fst q = name"
        then have "snd q = a"
          using m p q(1) eq_key_imp_eq_value [of "mSessions m" name "snd q" a]
          by (auto simp: tidy_def sys_inv_def heap_inv_def)
        moreover have "s_ids (mHeap m2 ! a) = []"
          using s al by (auto simp: close_call_def locked_def forget_section_def split: prod.splits)
        ultimately show False using q(2) by simp
      qed
      then show ?thesis using q unfolding held_def by (intro bexI [of _ q]) auto
    qed
    ultimately show ?thesis using cc Some by (simp add: Forget_def tidy_def)
  qed
qed

lemma tidy_Connect: "tidy m \<Longrightarrow> tidy (snd (Connect dial now cc m))"
  using tidy_connect_snd [of m dial now cc False] by (auto simp: Connect_def split: prod.splits)

lemma tidy_ConnectAll: "tidy m \<Longrightarrow> tidy (snd (ConnectAll dial now ccs m))"
proof (induction ccs arbitrary: m)
  case (Cons cc ccs)
  obtain a e m1 where c: "Connect dial now cc m = ((a, e), m1)" by (metis surj_pair)
  have "tidy m1" using tidy_Connect [OF Cons.prems, of dial now cc] c by simp
  with Cons.IH [of m1] c show ?case by (auto split: prod.splits)
qed simp

lemma close_sessions_open:
  "\<forall>a \<in> set as. a < length (mHeap m) \<Longrightarrow>
   \<forall>i \<in> set (mOpen m). \<exists>a \<in> set as. i \<in> set (s_ids (mHeap m ! a)) \<Longrightarrow>
   mOpen (snd (close_sessions cerr as m)) = [] \<and> mSessions (snd (close_sessions cerr as m)) = mSessions m"
proof (induction cerr as m rule: close_sessions.induct)
  case (1 cerr m)
  then show ?case by (cases "mOpen m") auto
next
  case (2 cerr a as m)
  obtain c m2 where s: "close_call a forget_section m = (c, m2)" by fastforce
  then have m2: "mHeap m2 = (mHeap m)[a := snd (forget_section (mHeap m ! a))]" "mSessions m2 = mSessions m"
    "set (mOpen m2) = set (mOpen m) - set (s_ids (mHeap m ! a))"
    by (auto simp: close_call_def locked_def forget_section_def split: prod.splits)
  have "\<exists>b \<in> set as. i \<in> set (s_ids (mHeap m2 ! b))" if i: "i \<in> set (mOpen m2)" for i
  proof -
    have "i \<in> set (mOpen m)" and n: "i \<notin> set (s_ids (mHeap m ! a))" using i m2(3) by auto
    then obtain b where b: "b \<in> set (a # as)" "i \<in> set (s_ids (mHeap m ! b))" using 2(3) by blast
    with n have "b \<noteq> a" "b \<in> set as" by auto
    with b m2(1) show ?thesis by (auto intro!: bexI [of _ b])
  qed
  with 2(1) [OF s [symmetric]] 2(2) m2 s show ?case by (auto split: prod.splits option.splits)
qed

lemma Close_all_open:
  assumes "tidy m"
  shows "mOpen (snd (Close_all cerr m)) = []"
  unfolding Close_all_def
  using close_sessions_open [of "map snd (mSessions m)" "m\<lparr>mSessions := []\<rparr>" cerr] assms
    inv_session_addr [OF tidy_sys_inv [OF assms]]
  by (fastforce simp: tidy_def held_def)

section \<open>Properties\<close>

lemma distinct_concat_nth:
  "distinct (concat (map f xs)) \<Longrightarrow> a < length xs \<Longrightarrow> b < length xs \<Longrightarrow> a \<noteq> b \<Longrightarrow>
   set (f (xs ! a)) \<inter> set (f (xs ! b)) = {}"
proof (induction xs arbitrary: a b)
  case (Cons x xs)
  have "set (f x) \<inter> set (f (xs ! c)) = {}" if "c < length xs" for c
    using Cons.prems(1) nth_mem [OF that] by fastforce
  with Cons show ?case by (cases a; cases b) auto
qed simp

text \<open>
  C17: Sessions stay consistent under every interleaving of calls: a session holds a client exactly
  when it is connected, one that was logged out holds none, one that shows as connecting has a login in
  flight, and every name leads to one session, of a context of that name.
\<close>

theorem sessions_consistent:
  assumes "reachable s" and "a < length (mHeap (sysM s))"
  shows "(sClient (mHeap (sysM s) ! a) \<noteq> None \<longleftrightarrow> sState (mHeap (sysM s) ! a) = Connected) \<and>
    (sLoggedOut (mHeap (sysM s) ! a) \<longrightarrow> sClient (mHeap (sysM s) ! a) = None) \<and>
    (sState (mHeap (sysM s) ! a) = Connecting \<longrightarrow> (\<exists>t \<in> set (sysT s). t_dials t \<and> t_addr t = a)) \<and>
    distinct (map fst (mSessions (sysM s))) \<and>
    (\<forall>n. (n, a) \<in> set (mSessions (sysM s)) \<longrightarrow> n = cxName (sContext (mHeap (sysM s) ! a)))"
proof -
  note inv = reachable_inv [OF assms(1)]
  from inv_sess_ok [OF inv assms(2)] connecting_has_thread [OF inv assms(2)] inv assms(2) show ?thesis
    by (auto simp: sess_ok_def sys_inv_def heap_inv_def)
qed

text \<open>
  C4: A connection that is handed out was never logged out: in every reachable state the client a
  session holds is still open, and no other session holds the same one.
\<close>

theorem no_use_after_close:
  assumes "reachable s" and "a < length (mHeap (sysM s))" and "sClient (mHeap (sysM s) ! a) = Some c"
  shows "clId c \<in> set (mOpen (sysM s)) \<and>
    (\<forall>b d. b < length (mHeap (sysM s)) \<and> b \<noteq> a \<and> sClient (mHeap (sysM s) ! b) = Some d \<longrightarrow> clId d \<noteq> clId c)"
proof -
  have ids: "distinct (concat (map s_ids (mHeap (sysM s))))"
    "set (concat (map s_ids (mHeap (sysM s)))) \<subseteq> set (mOpen (sysM s))"
    using reachable_inv [OF assms(1)] by (auto simp: sys_inv_def ids_inv_def ids_of_def)
  have "mHeap (sysM s) ! a \<in> set (mHeap (sysM s))" using assms(2) by simp
  then have "clId c \<in> set (concat (map s_ids (mHeap (sysM s))))" using assms(3) by force
  moreover have "clId d \<noteq> clId c"
    if "b < length (mHeap (sysM s))" "b \<noteq> a" "sClient (mHeap (sysM s) ! b) = Some d" for b d
    using distinct_concat_nth [OF ids(1) that(1) assms(2) that(2)] that(3) assms(3) by auto
  ultimately show ?thesis using ids(2) by blast
qed

definition vc_a :: vcontext where "vc_a = plain_context ''vc'' ''https://a.lab''"
definition vc_b :: vcontext where "vc_b = plain_context ''vc'' ''https://b.lab''"
definition some_info :: client_info where
  "some_info = \<lparr>ciLatency = 5, ciVersion = ''8.0'', ciRoute = ''Direct'', ciInstance = ''i''\<rparr>"

definition login_trace :: "action list" where
  "login_trace = [CallConnect vc_a False, Run 0 1, Answer 0 (Inr some_info), Run 0 2]"

lemma reachable_the: "run_trace as sys_init \<noteq> None \<Longrightarrow> reachable (the (run_trace as sys_init))"
  by (auto intro: reachable_trace reachable.init)

theorem no_use_after_close_witness:
  "0 \<in> set (mOpen (sysM (the (run_trace login_trace sys_init))))"
proof -
  have r: "reachable (the (run_trace login_trace sys_init))" by (rule reachable_the) code_simp
  have l: "0 < length (mHeap (sysM (the (run_trace login_trace sys_init))))" by code_simp
  have c: "sClient (mHeap (sysM (the (run_trace login_trace sys_init))) ! 0)
    = Some \<lparr>clId = 0, clFor = vc_a, clInfo = some_info\<rparr>" by code_simp
  show ?thesis using no_use_after_close [OF r l c] by simp
qed

theorem sessions_consistent_witness:
  "sState (mHeap (sysM (the (run_trace login_trace sys_init))) ! 0) = Connected"
proof -
  have r: "reachable (the (run_trace login_trace sys_init))" by (rule reachable_the) code_simp
  have l: "0 < length (mHeap (sysM (the (run_trace login_trace sys_init))))" by code_simp
  have c: "sClient (mHeap (sysM (the (run_trace login_trace sys_init))) ! 0) \<noteq> None" by code_simp
  show ?thesis using sessions_consistent [OF r l] c by simp
qed

text \<open>
  C29: An operator's logout stands until the next explicit login: once a session is logged out, every
  step of the system other than the explicit login of that session leaves it logged out and without a
  client, also the end of a login that was in flight.
\<close>

theorem logout_stands:
  assumes "reachable s" and "a < length (mHeap (sysM s))" and "sLoggedOut (mHeap (sysM s) ! a)"
    and "sys_step act s = Some s'"
    and "\<And>i now cc. act = Run i now \<Longrightarrow> i < length (sysT s) \<Longrightarrow> sysT s ! i \<noteq> ConnectReady a cc True"
  shows "sLoggedOut (mHeap (sysM s') ! a) \<and> sClient (mHeap (sysM s') ! a) = None"
proof -
  let ?h = "mHeap (sysM s)"
  have ok: "sess_ok (?h ! a)" using inv_sess_ok [OF reachable_inv [OF assms(1)] assms(2)] .
  then have none: "sClient (?h ! a) = None" using assms(3) by (auto simp: sess_ok_def)
  have same: "sLoggedOut (h' ! a) \<and> sClient (h' ! a) = None" if "h' = ?h \<or> h' = ?h @ [y] \<or> h' = ?h[b := x] \<and>
      (b = a \<longrightarrow> sLoggedOut x \<and> sClient x = None)" for h' y b x
    using that assms(2,3) none by (cases "b = a") (auto simp: nth_append)
  have sess: "mHeap (snd (m_session cc (sysM s))) = ?h \<or> mHeap (snd (m_session cc (sysM s))) = ?h @ [new_session cc]" for cc
    by (auto simp: m_session_def split: option.splits)
  have sec: "sLoggedOut (snd (f (?h ! a))) \<and> sClient (snd (f (?h ! a))) = None"
    if "f \<in> {logout_section, forget_section} \<or> (\<exists>d. f = drop_section d)" for f
    using that assms(3) none by (auto simp: logout_section_def forget_section_def drop_section_def)
  have closed: "mHeap (snd (close_call b f (sysM s))) = ?h[b := snd (f (?h ! b))]" for b f
    by (auto simp: close_call_def locked_def split: prod.splits)
  have fin: "sLoggedOut (snd (connect_finish cc r now (?h ! a))) \<and> sClient (snd (connect_finish cc r now (?h ! a))) = None" for cc r now
    using assms(3) none by (simp add: connect_finish_def)
  have finc: "mHeap (snd (finish_call b cc r now (sysM s))) = ?h[b := snd (connect_finish cc r now (?h ! b))]" for b cc r now
    by (auto simp: finish_call_def locked_def split: prod.splits)
  have bgn: "sLoggedOut (snd (connect_begin cc False now (?h ! a))) \<and> sClient (snd (connect_begin cc False now (?h ! a))) = None" for cc now
    using assms(3) none by (simp add: connect_begin_def)
  have bgc: "mHeap (snd (begin_call b cc e now (sysM s))) = ?h[b := snd (connect_begin cc e now (?h ! b))]" for b cc e now
    by (auto simp: begin_call_def locked_def split: prod.splits)
  show ?thesis
  proof (cases act)
    case (CallConnect cc explicit)
    with assms(4) have "mHeap (sysM s') = mHeap (snd (m_session cc (sysM s)))"
      by (auto simp: sys_step_def split: prod.splits)
    with same sess show ?thesis by metis
  next
    case (CallLogout cc)
    with assms(4) have "mHeap (sysM s') = mHeap (snd (m_session cc (sysM s)))"
      by (auto simp: sys_step_def split: prod.splits)
    with same sess show ?thesis by metis
  next
    case (Answer i r)
    with assms(4) have "mHeap (sysM s') = ?h"
      by (auto simp: sys_step_def dialled_def split: if_splits thread.splits prod.splits sum.splits)
    with same show ?thesis by metis
  next
    case (Run i now)
    with assms(4) have i: "i < length (sysT s)" "run_thread i (sysT s ! i) now s = Some s'"
      by (auto simp: sys_step_def split: if_splits)
    show ?thesis
    proof (cases "sysT s ! i")
      case (ConnectReady b cc e)
      have "mHeap (sysM s') = mHeap (snd (begin_call b cc e now (sysM s)))"
        using i(2) ConnectReady
        by (cases "begin_call b cc e now (sysM s)"; cases "fst (begin_call b cc e now (sysM s))")
          (auto simp: run_thread_def Let_def)
      moreover have "b = a \<longrightarrow> \<not> e" using assms(5) [OF Run i(1), of cc] ConnectReady by auto
      ultimately show ?thesis using same bgc bgn by metis
    next
      case (DialDone b cc r)
      have "mHeap (sysM s') = mHeap (snd (finish_call b cc r now (sysM s)))"
        using i(2) DialDone by (auto simp: run_thread_def)
      then show ?thesis using same finc fin by metis
    next
      case (DropReady b c)
      have "mHeap (sysM s') = mHeap (snd (close_call b (drop_section c) (sysM s)))"
        using i(2) DropReady by (auto simp: run_thread_def)
      then show ?thesis using same closed sec [of "drop_section c"] by metis
    next
      case (LogoutReady b)
      have "mHeap (sysM s') = mHeap (snd (close_call b logout_section (sysM s)))"
        using i(2) LogoutReady by (auto simp: run_thread_def)
      then show ?thesis using same closed sec [of logout_section] by (metis insertI1)
    next
      case (ForgetReady b)
      have "mHeap (sysM s') = mHeap (snd (close_call b forget_section (sysM s)))"
        using i(2) ForgetReady by (auto simp: run_thread_def)
      then show ?thesis using same closed sec [of forget_section] by (metis insertI1 insertI2)
    qed (use i(2) in \<open>simp add: run_thread_def\<close>)
  qed (use assms(3,4) none in \<open>auto simp: sys_step_def split: option.splits\<close>)
qed

definition logout_trace :: "action list" where
  "logout_trace = [CallConnect vc_a False, Run 0 1, Answer 0 (Inr some_info), CallLogout vc_a, Run 1 2]"

theorem logout_stands_witness:
  "sClient (mHeap (sysM (the (run_trace (logout_trace @ [Run 0 3]) sys_init))) ! 0) = None"
proof -
  let ?s = "the (run_trace logout_trace sys_init)"
  let ?t = "the (run_trace (logout_trace @ [Run 0 3]) sys_init)"
  have r: "reachable ?s" by (rule reachable_the) code_simp
  have l: "0 < length (mHeap (sysM ?s))" "sLoggedOut (mHeap (sysM ?s) ! 0)" by code_simp+
  have st: "sys_step (Run 0 3) ?s = Some ?t" by code_simp
  have th: "sysT ?s = [DialDone 0 vc_a (Inr \<lparr>clId = 0, clFor = vc_a, clInfo = some_info\<rparr>)]" by code_simp
  show ?thesis using logout_stands [OF r l st] th by simp
qed

text \<open>
  Calls that do not overlap leak nothing: from a state in which every open login belongs to a
  session the manager knows, each method leads to such a state again whatever the vCenters answer, and
  \<open>Close\<close> leaves no login open.
\<close>

theorem sequential_calls_leak_nothing:
  assumes "tidy m"
  shows "tidy (snd (Connect dial now cc m)) \<and> tidy (snd (Login dial ping now cc m)) \<and>
    tidy (snd (ConnectAll dial now ccs m)) \<and> tidy (Drop name c m) \<and> tidy (snd (Logout cerr cc m)) \<and>
    tidy (snd (Forget cerr name m)) \<and> mOpen (snd (Close_all cerr m)) = []"
  by (intro conjI tidy_Connect tidy_Login tidy_ConnectAll tidy_Drop tidy_Logout tidy_Forget Close_all_open assms)

lemma tidy_new: "tidy new_manager"
  by (simp add: tidy_def new_manager_def sys_inv_def heap_inv_def ids_inv_def ids_of_def)

theorem sequential_calls_leak_nothing_witness:
  "mOpen (snd (Close_all (\<lambda>_. None) (snd (Connect (\<lambda>_ _. Inr some_info) 1 vc_a new_manager)))) = []"
proof -
  let ?m = "snd (Connect (\<lambda>_ _. Inr some_info) 1 vc_a new_manager)"
  note leak = sequential_calls_leak_nothing [where dial = "\<lambda>_ _. Inr some_info" and now = 1 and cc = vc_a
      and ping = "\<lambda>_. True" and ccs = "[]" and name = "[]" and c = None and cerr = "\<lambda>_. None"]
  have "tidy ?m" using leak [OF tidy_new] by blast
  from leak [OF this] show ?thesis by blast
qed

text \<open>
  The outcome of \<open>Connect\<close>: without an error the session describes the given context, is connected
  and is what \<open>Live\<close> and \<open>Status\<close> show; a failed dial is recorded on the session; a logged-out session
  refuses and is left as it was.
\<close>

theorem connect_outcome:
  assumes "tidy m" and "Connect dial now cc m = ((a, e), m')"
  shows "map_of (mSessions m') (cxName cc) = Some a \<and>
    (case e of
       None \<Rightarrow> Live cc m' \<noteq> None \<and> sContext (mHeap m' ! a) = cc \<and> stState (fst (Status_of (cxName cc) m')) = Connected
     | Some (DialFailed msg) \<Rightarrow> Live cc m' = None \<and> stState (fst (Status_of (cxName cc) m')) = Failed \<and>
         stErr (fst (Status_of (cxName cc) m')) = Some msg
     | Some (ErrLoggedOut n) \<Rightarrow> n = cxName cc \<and> Live cc m' = None \<and> mOpen m' = mOpen m)"
proof -
  from assms(2) obtain reused where c: "connect dial now cc False m = ((a, reused, e), m')"
    by (auto simp: Connect_def split: prod.splits)
  note t = tidy_connect [OF assms(1) c]
  let ?x = "mHeap m' ! a"
  have al: "a < length (mHeap m')" using inv_session_addr [OF tidy_sys_inv] t map_of_SomeD by fastforce
  have ok: "sess_ok ?x" using inv_sess_ok [OF tidy_sys_inv al] t by blast
  have goal: "case e of None \<Rightarrow> sClient ?x \<noteq> None \<and> sContext ?x = cc
     | Some (DialFailed msg) \<Rightarrow> sState ?x = Failed \<and> sErr ?x = Some msg
     | Some (ErrLoggedOut n) \<Rightarrow> n = cxName cc \<and> sLoggedOut ?x \<and> mOpen m' = mOpen m"
    using c
  proof (cases rule: connect_cases)
    case (refused m1 m2)
    note i = inv_m_session [OF tidy_sys_inv [OF assms(1)] refused(1)]
    from refused(2) obtain st x where f: "connect_begin cc False now (mHeap m1 ! a) = ((Refused, st), x)"
      "m2 = close_client st (m1\<lparr>mHeap := (mHeap m1)[a := x]\<rparr>)" by (rule begin_call_cases)
    then have st: "st = None" by (auto simp: connect_begin_def split: prod.splits if_splits)
    note ok' = connect_begin_ok(6) [OF f(1) inv_sess_ok [OF i(1,2)]]
    have "mOpen m1 = mOpen m" using refused(1) by (auto simp: m_session_def split: option.splits)
    with refused(4,5) f(2) ok' i(2) st show ?thesis by (simp add: close_client_def)
  next
    case (reused m1)
    note i = inv_m_session [OF tidy_sys_inv [OF assms(1)] reused(1)]
    from reused(2) obtain st x where f: "connect_begin cc False now (mHeap m1 ! a) = ((Reused, st), x)"
      "m' = close_client st (m1\<lparr>mHeap := (mHeap m1)[a := x]\<rparr>)" by (rule begin_call_cases)
    have "sContext x = cc" "sClient x \<noteq> None"
      using connect_begin_ok(5) [OF f(1) inv_sess_ok [OF i(1,2)]] by blast+
    with f(2) i(2) reused(4) show ?thesis by simp
  next
    case (dial m1 m2 r m3)
    note i = inv_m_session [OF tidy_sys_inv [OF assms(1)] dial(1)]
    from dial(2) obtain st x where f: "connect_begin cc False now (mHeap m1 ! a) = ((Dial, st), x)"
      "m2 = close_client st (m1\<lparr>mHeap := (mHeap m1)[a := x]\<rparr>)" by (rule begin_call_cases)
    then have x: "mHeap m2 ! a = x" "sContext x = cc" "\<not> sLoggedOut x"
      using connect_begin_ok(4) [OF f(1) inv_sess_ok [OF i(1,2)]] i(2) by auto
    have m3: "mHeap m3 = mHeap m2" using dial(3) by (auto simp: dialled_def split: sum.splits)
    from dial(4) obtain late x' where g: "connect_finish cc r now (mHeap m3 ! a) = ((e, late), x')"
      "m' = close_client late (m3\<lparr>mHeap := (mHeap m3)[a := x']\<rparr>)" by (rule finish_call_cases)
    have "case e of None \<Rightarrow> sClient x' \<noteq> None \<and> sContext x' = cc
     | Some (DialFailed msg) \<Rightarrow> sState x' = Failed \<and> sErr x' = Some msg
     | Some (ErrLoggedOut n) \<Rightarrow> False"
      using g(1) x m3 by (auto simp: connect_finish_def split: sum.splits)
    moreover have "?x = x'" using g(2) al by simp
    ultimately show ?thesis by (auto split: option.splits connect_error.splits)
  qed
  have look: "map_of (mSessions m') (cxName cc) = Some a" using t by simp
  show ?thesis
    using goal ok look
    by (auto simp: Live_def Status_of_def Snapshot_def sess_ok_def Let_def split: option.splits connect_error.splits)
qed

theorem connect_outcome_witness:
  "Live vc_a (snd (Connect (\<lambda>_ _. Inr some_info) 1 vc_a new_manager)) \<noteq> None"
proof -
  have "fst (Connect (\<lambda>_ _. Inr some_info) 1 vc_a new_manager) = (0, None)" by code_simp
  then have "Connect (\<lambda>_ _. Inr some_info) 1 vc_a new_manager
      = ((0, None), snd (Connect (\<lambda>_ _. Inr some_info) 1 vc_a new_manager))" by (metis prod.collapse)
  from connect_outcome [OF tidy_new this] show ?thesis by simp
qed

definition double_connect :: "action list" where
  "double_connect = [CallConnect vc_a False, CallConnect vc_a False, Run 0 1, Run 1 1,
     Answer 0 (Inr some_info), Answer 1 (Inr some_info), Run 0 2, Run 0 3]"

text \<open>
  Two callers that connect to the same context at once leak a login: both dial, the second answer
  replaces the first client without closing it, and no session holds that login any more, although no
  call is left that could end it.
\<close>

theorem concurrent_connects_leak_a_login:
  "\<exists>s. reachable s \<and> sysT s = [] \<and> length (mOpen (sysM s)) = 2 \<and>
     length (concat (map s_ids (mHeap (sysM s)))) = 1"
proof -
  let ?s = "the (run_trace double_connect sys_init)"
  have "reachable ?s" by (rule reachable_the) code_simp
  moreover have "sysT ?s = []" by code_simp
  moreover have "length (mOpen (sysM ?s)) = 2" by code_simp
  moreover have "length (concat (map s_ids (mHeap (sysM ?s)))) = 1" by code_simp
  ultimately show ?thesis by blast
qed

definition stale_login :: "action list" where
  "stale_login = [CallConnect vc_a False, Run 0 1, CallConnect vc_b False, Run 1 2,
     Answer 1 (Inr some_info), Run 1 3, Answer 0 (Inr some_info), Run 0 4]"

text \<open>
  A login that was in flight when its context was edited is installed for the new configuration:
  \<open>Live\<close> then hands the connection to the old endpoint out for the new one.
\<close>

theorem edited_context_gets_stale_client:
  "\<exists>s c. reachable s \<and> sysT s = [] \<and> Live vc_b (sysM s) = Some c \<and> cxEndpoint (clFor c) \<noteq> cxEndpoint vc_b"
proof -
  let ?s = "the (run_trace stale_login sys_init)"
  have "reachable ?s" by (rule reachable_the) code_simp
  moreover have "sysT ?s = []" by code_simp
  moreover have "map_option (cxEndpoint \<circ> clFor) (Live vc_b (sysM ?s)) = Some (cxEndpoint vc_a)" by code_simp
  moreover have "cxEndpoint vc_a \<noteq> cxEndpoint vc_b" by code_simp
  ultimately show ?thesis by (metis (no_types, lifting) comp_apply map_option_eq_Some)
qed

definition forget_in_flight :: "action list" where
  "forget_in_flight = [CallConnect vc_a False, Run 0 1, CallForget ''vc'', Run 1 2,
     Answer 0 (Inr some_info), Run 0 3, CallClose]"

text \<open>
  Forgetting a context while it is being logged in leaves a live login behind: when the answer comes
  it is installed in a session the manager no longer knows, so not even \<open>Close\<close> ends it.
\<close>

theorem forget_during_login_leaks:
  "\<exists>s. reachable s \<and> sysT s = [] \<and> mSessions (sysM s) = [] \<and> mOpen (sysM s) \<noteq> []"
proof -
  let ?s = "the (run_trace forget_in_flight sys_init)"
  have "reachable ?s" by (rule reachable_the) code_simp
  moreover have "sysT ?s = []" by code_simp
  moreover have "mSessions (sysM ?s) = []" by code_simp
  moreover have "mOpen (sysM ?s) \<noteq> []" by code_simp
  ultimately show ?thesis by blast
qed

text \<open>
  The status table has one row per known context, in the order of the names, each the snapshot of
  the session of that name.
\<close>

theorem statuses_sorted:
  assumes "reachable s"
  shows "sorted (map stName (Statuses (sysM s))) \<and> distinct (map stName (Statuses (sysM s))) \<and>
    (\<forall>st. st \<in> set (Statuses (sysM s)) \<longleftrightarrow> Status_of (stName st) (sysM s) = (st, True))"
proof -
  let ?m = "sysM s"
  let ?row = "\<lambda>p. Snapshot (mHeap ?m ! snd p)"
  have n: "stName (?row p) = fst p" if "p \<in> set (mSessions ?m)" for p
    using reachable_inv [OF assms] that
    by (auto simp: sys_inv_def heap_inv_def Snapshot_def Let_def split: option.splits)
  have d: "distinct (map fst (mSessions ?m))"
    using reachable_inv [OF assms] by (simp add: sys_inv_def heap_inv_def)
  have names: "map stName (map ?row (mSessions ?m)) = map fst (mSessions ?m)"
    using n by simp
  have "distinct (map stName (Statuses ?m))"
    using d names unfolding Statuses_def by (metis distinct_map distinct_sort set_sort)
  moreover have "st \<in> set (Statuses ?m) \<longleftrightarrow> Status_of (stName st) ?m = (st, True)" for st
  proof
    assume "st \<in> set (Statuses ?m)"
    then obtain p where p: "p \<in> set (mSessions ?m)" "st = ?row p" by (auto simp: Statuses_def)
    then have "map_of (mSessions ?m) (stName st) = Some (snd p)"
      using d n by (simp add: map_of_is_SomeI)
    then show "Status_of (stName st) ?m = (st, True)" using p by (simp add: Status_of_def)
  next
    assume st: "Status_of (stName st) ?m = (st, True)"
    then obtain a where "map_of (mSessions ?m) (stName st) = Some a" "st = Snapshot (mHeap ?m ! a)"
      by (auto simp: Status_of_def split: option.splits)
    with map_of_SomeD [OF this(1)] show "st \<in> set (Statuses ?m)"
      by (auto simp: Statuses_def intro!: image_eqI [of _ _ "(stName st, a)"])
  qed
  ultimately show ?thesis by (simp add: Statuses_def)
qed

theorem statuses_sorted_witness:
  "distinct (map stName (Statuses (sysM (the (run_trace login_trace sys_init)))))"
proof -
  have "reachable (the (run_trace login_trace sys_init))" by (rule reachable_the) code_simp
  from statuses_sorted [OF this] show ?thesis by simp
qed

end
