(* ===== verification/Watchdog.thy ===== *)
theory Watchdog
  imports Prelude
begin

text \<open>
  The time bounds of the session manager (internal/session/manager.go): the defaults, the idle
  watchdog of \<open>StreamOperation\<close> as a state machine over times, and the naming of timeouts. The timer
  callback, \<open>progress\<close> and \<open>stop\<close> are transitions; \<open>wd_expire\<close> is what the timer has done by a time.
  Durations and times are integers in one unit.
\<close>

section \<open>Bounds\<close>

definition default_if_unset :: "int \<Rightarrow> int \<Rightarrow> int" where
  "default_if_unset d x = (if 0 < x then x else d)"

definition DefaultConnectTimeout :: int where "DefaultConnectTimeout = 30"
definition DefaultConcurrency :: int where "DefaultConcurrency = 8"
definition DefaultIdleTimeout :: int where "DefaultIdleTimeout = 90"

definition m_timeout :: "int \<Rightarrow> int" where "m_timeout = default_if_unset DefaultConnectTimeout"
definition m_concurrency :: "int \<Rightarrow> int" where "m_concurrency = default_if_unset DefaultConcurrency"
definition m_idleTimeout :: "int \<Rightarrow> int" where "m_idleTimeout = default_if_unset DefaultIdleTimeout"

section \<open>Errors\<close>

text \<open>
  \<open>TimedOut d stage e\<close> and \<open>GaveUp d stage\<close> are the messages of \<open>TimeoutError\<close> and \<open>StreamError\<close>; the
  stage is empty when it is not known.
\<close>

datatype op_error =
    DeadlineExceeded
  | Canceled
  | OtherError string
  | TimedOut int string op_error
  | GaveUp int string

fun is_deadline :: "op_error \<Rightarrow> bool" where
  "is_deadline DeadlineExceeded = True"
| "is_deadline (TimedOut d st e) = is_deadline e"
| "is_deadline (GaveUp d st) = True"
| "is_deadline Canceled = False"
| "is_deadline (OtherError s) = False"

definition TimeoutError :: "int \<Rightarrow> op_error option \<Rightarrow> string \<Rightarrow> op_error option" where
  "TimeoutError timeout err stage =
     (case err of
        None \<Rightarrow> None
      | Some e \<Rightarrow> if \<not> is_deadline e then Some e else Some (TimedOut (m_timeout timeout) stage e))"

definition StreamError ::
  "int \<Rightarrow> int \<Rightarrow> op_error option \<Rightarrow> op_error option \<Rightarrow> string \<Rightarrow> op_error option" where
  "StreamError timeout idle cause err stage =
     (case err of
        None \<Rightarrow> None
      | Some e \<Rightarrow>
          (let by_idle = (case cause of None \<Rightarrow> False | Some c \<Rightarrow> is_deadline c)
           in if \<not> by_idle \<and> \<not> is_deadline e then Some e
              else if \<not> by_idle then TimeoutError timeout (Some e) stage
              else Some (GaveUp (m_idleTimeout idle) stage)))"

section \<open>The idle watchdog\<close>

record watchdog =
  wdDone :: bool
  wdTimer :: "int option"  \<comment> \<open>when the armed timer fires\<close>
  wdCause :: "op_error option"

text \<open>The first cancellation names the cause.\<close>

definition wd_cancel :: "op_error \<Rightarrow> watchdog \<Rightarrow> watchdog" where
  "wd_cancel e w = (if wdCause w = None then w\<lparr>wdCause := Some e\<rparr> else w)"

definition wd_start :: "int \<Rightarrow> int \<Rightarrow> watchdog" where
  "wd_start idle now = \<lparr>wdDone = False, wdTimer = Some (now + idle), wdCause = None\<rparr>"

definition wd_expire :: "int \<Rightarrow> watchdog \<Rightarrow> watchdog" where
  "wd_expire now w =
     (case wdTimer w of
        None \<Rightarrow> w
      | Some t \<Rightarrow> if t \<le> now then wd_cancel DeadlineExceeded (w\<lparr>wdTimer := None\<rparr>) else w)"

definition wd_progress :: "int \<Rightarrow> int \<Rightarrow> watchdog \<Rightarrow> watchdog" where
  "wd_progress idle now w = (if wdDone w then w else w\<lparr>wdTimer := Some (now + idle)\<rparr>)"

definition wd_stop :: "watchdog \<Rightarrow> watchdog" where
  "wd_stop w = wd_cancel Canceled (w\<lparr>wdDone := True, wdTimer := None\<rparr>)"

text \<open>A stream that starts at \<open>t\<close>, reports progress at the given times and is stopped at \<open>e\<close>.\<close>

fun wd_run :: "int \<Rightarrow> int list \<Rightarrow> watchdog \<Rightarrow> watchdog" where
  "wd_run idle [] w = w"
| "wd_run idle (t # ts) w = wd_run idle ts (wd_progress idle t (wd_expire t w))"

definition stream :: "int \<Rightarrow> int \<Rightarrow> int list \<Rightarrow> int \<Rightarrow> watchdog" where
  "stream idle t ts e = wd_stop (wd_expire e (wd_run idle ts (wd_start idle t)))"

fun gaps_below :: "int \<Rightarrow> int \<Rightarrow> int list \<Rightarrow> bool" where
  "gaps_below idle t [] = True"
| "gaps_below idle t (u # us) = (u - t < idle \<and> gaps_below idle u us)"

lemma wd_cause_kept: "wdCause w = Some c \<Longrightarrow>
   wdCause (wd_stop (wd_expire e (wd_run idle ts w))) = Some c"
proof (induction ts arbitrary: w)
  case Nil
  then show ?case by (auto simp: wd_stop_def wd_expire_def wd_cancel_def split: option.splits)
next
  case (Cons t ts)
  have "wdCause (wd_progress idle t (wd_expire t w)) = Some c"
    using Cons.prems by (auto simp: wd_progress_def wd_expire_def wd_cancel_def split: option.splits)
  with Cons.IH show ?case by simp
qed

lemma wd_run_cause:
  "\<not> wdDone w \<Longrightarrow> wdTimer w = Some (t + idle) \<Longrightarrow> wdCause w = None \<Longrightarrow>
   wdCause (wd_stop (wd_expire e (wd_run idle ts w))) =
     Some (if gaps_below idle t (ts @ [e]) then Canceled else DeadlineExceeded)"
proof (induction ts arbitrary: t w)
  case Nil
  then show ?case by (auto simp: wd_stop_def wd_expire_def wd_cancel_def)
next
  case (Cons u ts)
  show ?case
  proof (cases "u - t < idle")
    case True
    then have "wd_progress idle u (wd_expire u w) = w\<lparr>wdTimer := Some (u + idle)\<rparr>"
      using Cons.prems by (simp add: wd_progress_def wd_expire_def)
    with Cons.IH [of "w\<lparr>wdTimer := Some (u + idle)\<rparr>" u] Cons.prems True show ?thesis by simp
  next
    case False
    then have "wdCause (wd_progress idle u (wd_expire u w)) = Some DeadlineExceeded"
      using Cons.prems by (auto simp: wd_progress_def wd_expire_def wd_cancel_def)
    with False wd_cause_kept show ?thesis by simp
  qed
qed

section \<open>Properties\<close>

text \<open>
  The watchdog measures silence, not duration: a stream of any length is cancelled for a timeout
  exactly when some gap between two reports of progress, its start and its end included, reaches the idle
  bound.
\<close>

theorem watchdog_measures_silence:
  "wdCause (stream idle t ts e) = Some (if gaps_below idle t (ts @ [e]) then Canceled else DeadlineExceeded)"
  unfolding stream_def by (rule wd_run_cause) (simp_all add: wd_start_def)

text \<open>
  A timeout stays recognisable as one: the error a stream reports is a deadline error exactly when the
  watchdog fired or the failure was a deadline error, and no failure is lost or made up.
\<close>

theorem stream_error_keeps_deadline:
  "(case StreamError timeout idle cause err stage of
      None \<Rightarrow> err = None
    | Some e' \<Rightarrow> (\<exists>e. err = Some e \<and>
        (is_deadline e' \<longleftrightarrow> is_deadline e \<or> (case cause of None \<Rightarrow> False | Some c \<Rightarrow> is_deadline c))))"
  by (auto simp: StreamError_def TimeoutError_def Let_def split: option.splits)

end
