(* ===== verification/Estate.thy ===== *)
theory Estate
  imports Prelude
begin

text \<open>
  The stored assessment (internal/assessment/types.go, export.go) and the inventory objects it holds
  (internal/vsphere/types.go), each with the fields the modelled code reads. A resource's payload is
  JSON text in the code; here it is the object it decodes to, or \<open>PBroken\<close> when it decodes to none.
\<close>

section \<open>Inventory objects\<close>

record location =
  loContext :: string
  loDatacenter :: string
  loPath :: string

record host_vswitch =
  vsKey :: string
  vsName :: string
  vsMTU :: int
  vsUplinks :: "string list"

record host_port_group =
  hpKey :: string
  hpName :: string
  hpSwitch :: string
  hpVLAN :: int
  hpPromiscuous :: "bool option"
  hpMACChanges :: "bool option"
  hpForged :: "bool option"

record host =
  hoLocation :: location
  hoID :: string
  hoName :: string
  hoCluster :: string
  hoVSwitches :: "host_vswitch list"
  hoPortGroups :: "host_port_group list"
  hoLUNs :: "string list"  \<comment> \<open>the LUN of each multipath entry\<close>

record dv_port_group =
  dpID :: string
  dpKey :: string
  dpName :: string
  dpSwitch :: string
  dpVLAN :: string
  dpTeaming :: string
  dpActive :: "string list"
  dpStandby :: "string list"
  dpPromiscuous :: "bool option"
  dpMACChanges :: "bool option"
  dpForged :: "bool option"
  dpLogicalSwitch :: string
  dpSegment :: string

record dvswitch =
  dsLocation :: location
  dsID :: string
  dsName :: string
  dsUUID :: string
  dsContact :: string
  dsContactDetail :: string
  dsMaxMTU :: int
  dsHosts :: "string list"
  dsPortGroups :: "dv_port_group list"

record cluster =
  cuLocation :: location
  cuID :: string
  cuName :: string

record backing =
  bkURL :: string
  bkVMFS :: string
  bkExtents :: "string list"
  bkNAS :: string
  bkVVol :: string
  bkLocal :: bool

record datastore =
  daLocation :: location
  daID :: string
  daName :: string
  daBacking :: backing

record resource_pool =
  rpLocation :: location
  rpID :: string
  rpName :: string
  rpVMRefs :: "string list"

record net_object =
  noLocation :: location
  noID :: string
  noName :: string
  noVLAN :: string

record vm_nic =
  niNetwork :: string
  niNetworkID :: string
  niSwitchID :: string

record vm_disk =
  dkLabel :: string
  dkPath :: string  \<comment> \<open>the backing path\<close>
  dkRaw :: bool

text \<open>A CD-ROM drive or a USB device.\<close>

record vm_device =
  dvLabel :: string
  dvConnected :: "bool option"

record vm_snapshot =
  snID :: string
  snName :: string

record cluster_rule =
  ruleName :: string
  ruleKind :: string
  ruleEnabled :: bool

record vm =
  vmLocation :: location
  vmID :: string
  vmName :: string
  vmInstanceUUID :: string
  vmBIOSUUID :: string
  vmIsTemplate :: bool
  vmHost :: string
  vmCluster :: string
  vmDatastores :: "string list"
  vmDisks :: "vm_disk list"
  vmNICs :: "vm_nic list"
  vmPowerState :: string
  vmConnectionState :: string
  vmConfigurationAvailable :: bool
  vmCDROMs :: "vm_device list"
  vmUSBs :: "vm_device list"
  vmSnapshots :: "vm_snapshot list"
  vmRules :: "cluster_rule list option"  \<comment> \<open>the rules of the cluster configuration, when it was read\<close>

section \<open>The stored assessment\<close>

datatype payload =
    PHost host | PCluster cluster | PDatastore datastore | PPool resource_pool | PDVSwitch dvswitch
  | PNetwork net_object | PBroken

record resource =
  reVCenter :: string
  reContext :: string
  reKind :: string
  reID :: string
  reName :: string
  rePayload :: payload

record observation =
  obVCenter :: string
  obContext :: string
  obVM :: vm
  obSnapshots :: "vm_snapshot list"  \<comment> \<open>of the enclosing ExportVM\<close>

record collection_run =
  coKind :: string
  coStatus :: string
  coError :: string

record context_run =
  ctName :: string
  ctDatacenter :: string
  ctVCenter :: string
  ctVMStatus :: string
  ctError :: string
  ctCollections :: "collection_run list"

record run =
  ruID :: int
  ruSchema :: string

record perf_window =
  pwContext :: string
  pwVCenter :: string

record export_data =
  exRun :: run
  exContexts :: "context_run list"
  exVMs :: "observation list"
  exResources :: "resource list"
  exPerformance :: "perf_window list"

text \<open>\<open>inventorySchema\<close>: the schema version of a run, 0 when it is not a number.\<close>

definition inventorySchema :: "string \<Rightarrow> int" where
  "inventorySchema s = (case atoi (trim_space s) of None \<Rightarrow> 0 | Some n \<Rightarrow> n)"

definition decode_host :: "resource \<Rightarrow> host option" where
  "decode_host r = (case rePayload r of PHost h \<Rightarrow> Some h | _ \<Rightarrow> None)"

definition decode_cluster :: "resource \<Rightarrow> cluster option" where
  "decode_cluster r = (case rePayload r of PCluster c \<Rightarrow> Some c | _ \<Rightarrow> None)"

definition decode_datastore :: "resource \<Rightarrow> datastore option" where
  "decode_datastore r = (case rePayload r of PDatastore d \<Rightarrow> Some d | _ \<Rightarrow> None)"

definition decode_pool :: "resource \<Rightarrow> resource_pool option" where
  "decode_pool r = (case rePayload r of PPool p \<Rightarrow> Some p | _ \<Rightarrow> None)"

definition decode_dvswitch :: "resource \<Rightarrow> dvswitch option" where
  "decode_dvswitch r = (case rePayload r of PDVSwitch d \<Rightarrow> Some d | _ \<Rightarrow> None)"

definition decode_network :: "resource \<Rightarrow> net_object option" where
  "decode_network r = (case rePayload r of PNetwork n \<Rightarrow> Some n | _ \<Rightarrow> None)"

end
