(* ===== verification/Coverage.thy ===== *)
theory Coverage
  imports Estate
begin

text \<open>
  What a stored assessment can answer (internal/assessment/coverage.go) and the selection of contexts
  (context_scope.go, ScopeExportDataChecked of export.go). The lemmas relate the three readings of
  coverage to one another and say what a scope keeps.
\<close>

section \<open>Coverage\<close>

definition Successful :: "string \<Rightarrow> bool" where
  "Successful s \<longleftrightarrow> s = ''success'' \<or> s = ''empty''"

definition nonempty :: "string \<Rightarrow> string \<Rightarrow> string" where
  "nonempty a b = (if a \<noteq> [] then a else b)"

text \<open>The map built from the collections: the last one of a kind counts.\<close>

definition last_collection :: "string \<Rightarrow> collection_run list \<Rightarrow> collection_run option" where
  "last_collection kind cs = find (\<lambda>c. coKind c = kind) (rev cs)"

definition collection_status :: "context_run \<Rightarrow> string \<Rightarrow> string" where
  "collection_status c kind =
     (if kind = ''vm'' \<and> ctVMStatus c \<noteq> [] then ctVMStatus c
      else (case last_collection kind (ctCollections c) of None \<Rightarrow> [] | Some r \<Rightarrow> coStatus r))"

definition ContextComplete :: "context_run \<Rightarrow> string list \<Rightarrow> bool" where
  "ContextComplete c needs \<longleftrightarrow> list_all (\<lambda>kind. Successful (collection_status c kind)) needs"

definition context_blind :: "string list \<Rightarrow> context_run \<Rightarrow> bool" where
  "context_blind needs c \<longleftrightarrow> list_ex (\<lambda>kind. \<not> Successful (collection_status c kind)) needs"

definition BlindContexts :: "context_run list \<Rightarrow> string list \<Rightarrow> string list" where
  "BlindContexts cs needs = (if needs = [] then [] else sort (map ctName (filter (context_blind needs) cs)))"

datatype reason = NotRecorded string | Collection string string | RequiredNotRecorded

fun kind_reason :: "context_run \<Rightarrow> string list \<Rightarrow> reason option" where
  "kind_reason c [] = None"
| "kind_reason c (kind # kinds) =
     (let found = last_collection kind (ctCollections c);
          of_vm = (kind = ''vm'' \<and> ctVMStatus c \<noteq> []);
          val = (if of_vm then ctVMStatus c else case found of None \<Rightarrow> [] | Some r \<Rightarrow> coStatus r);
          errorText = (if of_vm then ctError c else case found of None \<Rightarrow> [] | Some r \<Rightarrow> coError r);
          ok = (of_vm \<or> found \<noteq> None)
      in if \<not> ok then Some (NotRecorded kind)
         else if \<not> Successful val then Some (Collection kind (nonempty errorText val))
         else kind_reason c kinds)"

fun CoverageReason :: "context_run list \<Rightarrow> string \<Rightarrow> string list \<Rightarrow> reason" where
  "CoverageReason [] name needs = RequiredNotRecorded"
| "CoverageReason (c # cs) name needs =
     (if ctName c \<noteq> name then CoverageReason cs name needs
      else (case kind_reason c needs of Some r \<Rightarrow> r | None \<Rightarrow> CoverageReason cs name needs))"

fun reason_text :: "reason \<Rightarrow> string" where
  "reason_text (NotRecorded kind) = kind @ '' collection was not recorded''"
| "reason_text (Collection kind text) = kind @ '' collection: '' @ text"
| "reason_text RequiredNotRecorded = ''required collection was not recorded''"

section \<open>Selecting contexts\<close>

datatype scope_error = BlankSelector | UnknownContexts "string list"

fun normalize_selectors :: "string list \<Rightarrow> string list \<Rightarrow> scope_error + string list" where
  "normalize_selectors seen [] = Inr []"
| "normalize_selectors seen (raw # rest) =
     (let name = to_lower (trim_space raw)
      in if name = [] then Inl BlankSelector
         else if name \<in> set seen then normalize_selectors seen rest
         else (case normalize_selectors (name # seen) rest of
                 Inl e \<Rightarrow> Inl e | Inr out \<Rightarrow> Inr (name # out)))"

definition NormalizeContextSelectors :: "string list \<Rightarrow> scope_error + string list" where
  "NormalizeContextSelectors = normalize_selectors []"

definition known_contexts :: "context_run list list \<Rightarrow> string list" where
  "known_contexts runs = filter (\<lambda>n. n \<noteq> []) (map (\<lambda>c. to_lower (trim_space (ctName c))) (concat runs))"

definition ValidateStoredContexts :: "string list \<Rightarrow> context_run list list \<Rightarrow> scope_error + string list" where
  "ValidateStoredContexts selectors runs =
     (case NormalizeContextSelectors selectors of
        Inl e \<Rightarrow> Inl e
      | Inr wanted \<Rightarrow>
          if wanted = [] then Inr []
          else (let unknown = filter (\<lambda>n. n \<notin> set (known_contexts runs)) wanted
                in if unknown \<noteq> [] then Inl (UnknownContexts (sort unknown)) else Inr wanted))"

definition contextSelected :: "string \<Rightarrow> string list \<Rightarrow> bool" where
  "contextSelected name selectors \<longleftrightarrow> selectors = [] \<or> to_lower (trim_space name) \<in> set selectors"

definition ScopeExportDataChecked :: "export_data \<Rightarrow> string list \<Rightarrow> scope_error + export_data" where
  "ScopeExportDataChecked d contexts =
     (case ValidateStoredContexts contexts [exContexts d] of
        Inl e \<Rightarrow> Inl e
      | Inr selected \<Rightarrow>
          if selected = [] then Inr d
          else
            (let allowed = (\<lambda>name. to_lower name \<in> set selected);
                 cs = filter (\<lambda>c. allowed (ctName c)) (exContexts d);
                 vcs = filter (\<lambda>v. v \<noteq> []) (map ctVCenter cs)
             in Inr (d\<lparr>exContexts := cs,
                  exVMs := filter (\<lambda>o1. allowed (obContext o1)) (exVMs d),
                  exPerformance := filter (\<lambda>w. allowed (pwContext w) \<or> (pwVCenter w \<noteq> [] \<and> pwVCenter w \<in> set vcs))
                    (exPerformance d),
                  exResources := filter (\<lambda>r. allowed (reContext r)) (exResources d)\<rparr>)))"

section \<open>Lemmas\<close>

lemma context_blind_iff: "context_blind needs c \<longleftrightarrow> \<not> ContextComplete c needs"
  by (induction needs) (auto simp: context_blind_def ContextComplete_def)

lemma set_BlindContexts:
  "set (BlindContexts cs needs) = (if needs = [] then {} else ctName ` {c \<in> set cs. \<not> ContextComplete c needs})"
  by (auto simp: BlindContexts_def context_blind_iff)

lemma not_successful_blank [simp]: "\<not> Successful []"
  by (simp add: Successful_def)

lemma kind_reason_None: "kind_reason c needs = None \<longleftrightarrow> ContextComplete c needs"
  by (induction needs)
    (auto simp: ContextComplete_def collection_status_def Let_def split: option.splits)

lemma kind_reason_not_default: "kind_reason c needs \<noteq> Some RequiredNotRecorded"
  by (induction needs) (auto simp: Let_def)

lemma CoverageReason_default:
  "CoverageReason cs name needs = RequiredNotRecorded \<longleftrightarrow>
     (\<forall>c \<in> set cs. ctName c = name \<longrightarrow> ContextComplete c needs)"
proof (induction cs)
  case (Cons c cs)
  show ?case
    using Cons kind_reason_None [of c needs] kind_reason_not_default [of c needs]
    by (cases "kind_reason c needs") auto
qed simp

lemma normalize_selectors_Inr:
  "normalize_selectors seen xs = Inr out \<Longrightarrow>
     distinct out \<and> set out = (\<lambda>x. to_lower (trim_space x)) ` set xs - set seen \<and> [] \<notin> set out"
proof (induction xs arbitrary: seen out)
  case (Cons raw rest)
  define n where "n = to_lower (trim_space raw)"
  have step: "normalize_selectors seen (raw # rest) =
      (if n = [] then Inl BlankSelector else if n \<in> set seen then normalize_selectors seen rest
       else (case normalize_selectors (n # seen) rest of Inl e \<Rightarrow> Inl e | Inr out \<Rightarrow> Inr (n # out)))"
    unfolding n_def by (simp add: Let_def)
  have ne: "n \<noteq> []" using Cons.prems step by (auto split: if_splits)
  have img: "(\<lambda>x. to_lower (trim_space x)) ` set (raw # rest) = insert n ((\<lambda>x. to_lower (trim_space x)) ` set rest)"
    by (simp add: n_def)
  show ?case
  proof (cases "n \<in> set seen")
    case True
    with Cons.prems step ne have "normalize_selectors seen rest = Inr out" by simp
    from Cons.IH [OF this] True show ?thesis unfolding img by auto
  next
    case False
    with Cons.prems step ne obtain out' where o: "normalize_selectors (n # seen) rest = Inr out'" "out = n # out'"
      by (auto split: sum.splits)
    from Cons.IH [OF o(1)] o(2) False ne show ?thesis unfolding img by auto
  qed
qed simp

lemma ValidateStoredContexts_Inr:
  assumes "ValidateStoredContexts sel runs = Inr wanted" and "sel \<noteq> []"
  shows "wanted \<noteq> [] \<and> set wanted = (\<lambda>x. to_lower (trim_space x)) ` set sel \<and>
    set wanted \<subseteq> set (known_contexts runs) \<and> NormalizeContextSelectors sel = Inr wanted"
proof -
  obtain w where w: "NormalizeContextSelectors sel = Inr w"
    using assms(1) by (auto simp: ValidateStoredContexts_def split: sum.splits)
  then have "set w = (\<lambda>x. to_lower (trim_space x)) ` set sel"
    using normalize_selectors_Inr [of "[]" sel w] by (simp add: NormalizeContextSelectors_def)
  with assms w show ?thesis
    by (auto simp: ValidateStoredContexts_def Let_def filter_empty_conv split: if_splits)
qed

section \<open>Properties\<close>

text \<open>
  The readings of coverage agree: a context is listed as blind exactly when some run of it is not
  complete, and exactly then there is a reason to give for it.
\<close>

theorem blind_iff_reason:
  assumes "needs \<noteq> []"
  shows "(name \<in> set (BlindContexts cs needs) \<longleftrightarrow> CoverageReason cs name needs \<noteq> RequiredNotRecorded) \<and>
    (name \<in> set (BlindContexts cs needs) \<longleftrightarrow> (\<exists>c \<in> set cs. ctName c = name \<and> \<not> ContextComplete c needs))"
  using assms by (auto simp: set_BlindContexts CoverageReason_default)

definition sample_run :: "string \<Rightarrow> string \<Rightarrow> context_run" where
  "sample_run name st = \<lparr>ctName = name, ctDatacenter = [], ctVCenter = ''vc-1'', ctVMStatus = [], ctError = [],
     ctCollections = [\<lparr>coKind = ''host'', coStatus = st, coError = ''denied''\<rparr>]\<rparr>"

theorem blind_iff_reason_witness:
  "''a'' \<in> set (BlindContexts [sample_run ''a'' ''failed''] [''host'']) \<and>
   CoverageReason [sample_run ''a'' ''failed''] ''a'' [''host''] \<noteq> RequiredNotRecorded"
proof -
  have "CoverageReason [sample_run ''a'' ''failed''] ''a'' [''host''] \<noteq> RequiredNotRecorded" by code_simp
  then show ?thesis using blind_iff_reason [of "[''host'']" "''a''" "[sample_run ''a'' ''failed'']"] by simp
qed

text \<open>
  A scope is exact and stable: with context names that carry no outer spaces, what a scope keeps of
  the contexts, VMs and resources is what is recorded under a selected name, at least one context for
  every selector, and scoping the result again with the same selectors gives it back.
\<close>

theorem scope_exact_and_stable:
  assumes "ScopeExportDataChecked d sel = Inr d'" and "sel \<noteq> []"
    and "\<And>c. c \<in> set (exContexts d) \<Longrightarrow> trim_space (ctName c) = ctName c"
  shows "exContexts d' = filter (\<lambda>c. \<exists>s \<in> set sel. equal_fold (ctName c) (trim_space s)) (exContexts d) \<and>
    exVMs d' = filter (\<lambda>v. \<exists>s \<in> set sel. equal_fold (obContext v) (trim_space s)) (exVMs d) \<and>
    exResources d' = filter (\<lambda>r. \<exists>s \<in> set sel. equal_fold (reContext r) (trim_space s)) (exResources d) \<and>
    (\<forall>s \<in> set sel. \<exists>c \<in> set (exContexts d'). equal_fold (ctName c) (trim_space s)) \<and>
    ScopeExportDataChecked d' sel = Inr d'"
proof -
  obtain w where v: "ValidateStoredContexts sel [exContexts d] = Inr w"
    using assms(1) by (auto simp: ScopeExportDataChecked_def split: sum.splits)
  note w = ValidateStoredContexts_Inr [OF v assms(2)]
  have sel: "to_lower n \<in> set w \<longleftrightarrow> (\<exists>s \<in> set sel. equal_fold n (trim_space s))" for n
    using w by (auto simp: equal_fold_def)
  let ?cs = "filter (\<lambda>c. to_lower (ctName c) \<in> set w) (exContexts d)"
  let ?vcs = "filter (\<lambda>v. v \<noteq> []) (map ctVCenter ?cs)"
  have d': "d' = d\<lparr>exContexts := ?cs, exVMs := filter (\<lambda>v. to_lower (obContext v) \<in> set w) (exVMs d),
      exPerformance := filter (\<lambda>p. to_lower (pwContext p) \<in> set w \<or> (pwVCenter p \<noteq> [] \<and> pwVCenter p \<in> set ?vcs)) (exPerformance d),
      exResources := filter (\<lambda>r. to_lower (reContext r) \<in> set w) (exResources d)\<rparr>"
    using assms(1) v w by (simp add: ScopeExportDataChecked_def Let_def)
  have all: "\<exists>c \<in> set ?cs. to_lower (ctName c) = n" if n: "n \<in> set w" for n
  proof -
    have "n \<in> set (known_contexts [exContexts d])" using w n by blast
    then obtain c where c: "c \<in> set (exContexts d)" "n = to_lower (trim_space (ctName c))"
      by (auto simp: known_contexts_def)
    then show ?thesis using assms(3) [OF c(1)] n by (intro bexI [of _ c]) auto
  qed
  have "n \<in> set (known_contexts [?cs])" if n: "n \<in> set w" for n
  proof -
    obtain c where c: "c \<in> set ?cs" "to_lower (ctName c) = n" using all [OF n] by blast
    have "n \<noteq> []" using w n by (auto simp: known_contexts_def)
    then show ?thesis
      unfolding known_contexts_def using c assms(3) [of c] by (auto intro!: image_eqI [of _ _ c])
  qed
  then have "filter (\<lambda>n. n \<notin> set (known_contexts [?cs])) w = []"
    by (simp add: filter_empty_conv)
  moreover have "exContexts d' = ?cs" by (simp add: d')
  ultimately have v': "ValidateStoredContexts sel [exContexts d'] = Inr w"
    using w by (simp add: ValidateStoredContexts_def)
  have keep: "\<forall>s \<in> set sel. \<exists>c \<in> set (exContexts d'). equal_fold (ctName c) (trim_space s)"
    using all w by (auto simp: equal_fold_def d')
  have "filter (\<lambda>c. to_lower (ctName c) \<in> set w) (exContexts d') = exContexts d'" by (simp add: d')
  then have again: "ScopeExportDataChecked d' sel = Inr d'"
    unfolding ScopeExportDataChecked_def v' using w by (simp add: Let_def) (simp add: d')
  show ?thesis
    using keep again by (simp add: sel [symmetric]) (simp add: d')
qed

definition sample_data :: "context_run list \<Rightarrow> export_data" where
  "sample_data cs = \<lparr>exRun = \<lparr>ruID = 1, ruSchema = ''38''\<rparr>, exContexts = cs, exVMs = [], exResources = [], exPerformance = []\<rparr>"

theorem scope_exact_and_stable_witness:
  "ScopeExportDataChecked (sample_data [sample_run ''Prod'' ''empty'']) ['' prod ''] =
    Inr (sample_data [sample_run ''Prod'' ''empty''])"
proof -
  have r: "ScopeExportDataChecked (sample_data [sample_run ''Prod'' ''empty'', sample_run ''lab'' ''empty'']) ['' prod ''] =
    Inr (sample_data [sample_run ''Prod'' ''empty''])" by code_simp
  have t: "trim_space ''Prod'' = ''Prod''" "trim_space ''lab'' = ''lab''" by code_simp+
  have n: "trim_space (ctName c) = ctName c"
    if "c \<in> set (exContexts (sample_data [sample_run ''Prod'' ''empty'', sample_run ''lab'' ''empty'']))" for c
    using that t by (auto simp: sample_data_def sample_run_def)
  show ?thesis
    by (rule scope_exact_and_stable [OF r _ n, THEN conjunct2, THEN conjunct2, THEN conjunct2, THEN conjunct2]) auto
qed

text \<open>
  The validation of selectors and the scope disagree on spaces: a context recorded as \<open>prod\<close> with an
  outer space passes validation, but the scope then keeps nothing of it.
\<close>

theorem scope_drops_untrimmed_context:
  "map_sum id (\<lambda>d. length (exContexts d)) (ScopeExportDataChecked (sample_data [sample_run ''prod '' ''empty'']) [''prod'']) = Inr 0"
  by code_simp

end
