(* ===== verification/NetCompare.thy ===== *)
theory NetCompare
  imports Coverage "HOL-Library.Multiset"
begin

text \<open>
  The evidence of a network comparison (internal/network/compare.go, types.go): the networks the hosts of
  a cluster reach, the matching of two sides, the differences within a pair and the verdict. The whole
  comparison, which also needs the topology graph, is in the theory Compare. The messages of a verdict
  are values of \<open>verdict_note\<close>.
\<close>

section \<open>Data\<close>

record cluster_ref =
  crfName :: string
  crfContext :: string
  crfVCenter :: string
  crfHosts :: int
  crfResolved :: bool

record network_summary =
  nsName :: string
  nsVLAN :: string
  nsParent :: string
  nsType :: string
  nsMTU :: int
  nsTeaming :: string
  nsActive :: "string list"
  nsStandby :: "string list"
  nsPromiscuous :: "bool option"
  nsMACChanges :: "bool option"
  nsForged :: "bool option"
  nsCovered :: int
  nsTotal :: int
  nsContact :: string
  nsContactDetail :: string

record network_match =
  nmSource :: network_summary
  nmTarget :: network_summary
  nmBasis :: string

record attached_vm =
  avName :: string
  avID :: string
  avContext :: string
  avVCenter :: string
  avConfidence :: string
  avBasis :: string

record mapping_gap =
  mgNetwork :: network_summary
  mgVMs :: "attached_vm list"
  mgResolved :: bool
  mgSeverity :: string

record difference =
  dfNetwork :: string
  dfField :: string
  dfSource :: string
  dfTarget :: string
  dfSeverity :: string

record blindness =
  blContext :: string
  blReason :: string

record comparison =
  cmSchema :: int
  cmRun :: int
  cmSource :: cluster_ref
  cmTarget :: cluster_ref
  cmMatched :: "network_match list"
  cmGaps :: "mapping_gap list"
  cmTargetOnly :: "network_summary list"
  cmDifferences :: "difference list"
  cmConfidence :: string
  cmChecked :: "string list"
  cmBlind :: "blindness list"
  cmAmbiguous :: bool
  cmCandidates :: "cluster_ref list"

datatype verdict_note = UsedGap string string | UnusedGap string | Differs string string string string

record readiness =
  rdComparison :: comparison
  rdVerdict :: string
  rdBlockers :: "verdict_note list"
  rdAdvisories :: "verdict_note list"

abbreviation "severityBlocker \<equiv> ''blocker''"
abbreviation "severityAdvisory \<equiv> ''advisory''"

section \<open>Texts and keys\<close>

definition eq_trim :: "string \<Rightarrow> string \<Rightarrow> bool" where
  "eq_trim a b \<longleftrightarrow> equal_fold (trim_space a) (trim_space b)"

definition sameContext :: "string \<Rightarrow> string \<Rightarrow> bool" where
  "sameContext a b \<longleftrightarrow> eq_trim a b"

definition sameStrings :: "string list \<Rightarrow> string list \<Rightarrow> bool" where
  "sameStrings a b \<longleftrightarrow> length a = length b \<and> list_all2 eq_trim a b"

definition objectSortKey :: "string list \<Rightarrow> string" where
  "objectSortKey vs = str_join NUL (map (\<lambda>v. to_lower (trim_space v)) vs)"

definition networkKey :: "string \<Rightarrow> string \<Rightarrow> string \<Rightarrow> string" where
  "networkKey name vlan parent = to_lower (str_join NUL [name, vlan, parent])"

definition summarySortKey :: "network_summary \<Rightarrow> string" where
  "summarySortKey n = objectSortKey [nsName n, nsVLAN n, nsParent n, nsType n]"

definition bool_text :: "bool \<Rightarrow> string" where
  "bool_text b = (if b then ''true'' else ''false'')"

definition boolString :: "bool option \<Rightarrow> string" where
  "boolString v = (case v of None \<Rightarrow> ''unknown'' | Some b \<Rightarrow> bool_text b)"

definition normalizeContexts :: "string list \<Rightarrow> string list" where
  "normalizeContexts vs =
     sort_key to_lower (first_by to_lower [] (filter (\<lambda>v. v \<noteq> []) (map trim_space vs)))"

definition checkedContexts :: "context_run list \<Rightarrow> string list \<Rightarrow> string list" where
  "checkedContexts runs requested =
     (if requested \<noteq> [] then normalizeContexts requested else normalizeContexts (map ctName runs))"

definition comparisonBlindness :: "context_run list \<Rightarrow> string list \<Rightarrow> string list \<Rightarrow> blindness list" where
  "comparisonBlindness runs selected needs =
     (let allowed = map to_lower selected
      in map (\<lambda>c. \<lparr>blContext = c, blReason = reason_text (CoverageReason runs c needs)\<rparr>)
           (filter (\<lambda>c. allowed = [] \<or> to_lower c \<in> set allowed) (BlindContexts runs needs)))"

section \<open>The networks a cluster reaches\<close>

definition owningVSwitch :: "host \<Rightarrow> string \<Rightarrow> host_vswitch option" where
  "owningVSwitch h name =
     find (\<lambda>s. (name \<noteq> [] \<and> equal_fold (vsKey s) name) \<or> equal_fold (vsName s) name) (hoVSwitches h)"

definition mergeBool :: "bool option \<Rightarrow> bool option \<Rightarrow> bool option" where
  "mergeBool dst v =
     (if dst = None \<or> v = None then (if dst \<noteq> None \<and> v = None then None else dst)
      else if dst \<noteq> v then None else dst)"

definition mergeStandardEvidence :: "host \<Rightarrow> host_port_group \<Rightarrow> network_summary \<Rightarrow> network_summary" where
  "mergeStandardEvidence h pg n =
     (let n = (case owningVSwitch h (hpSwitch pg) of
                 None \<Rightarrow> n
               | Some sw \<Rightarrow> n\<lparr>nsMTU := (if nsMTU n \<noteq> vsMTU sw then 0 else nsMTU n),
                    nsActive := (if \<not> sameStrings (nsActive n) (vsUplinks sw) then [] else nsActive n)\<rparr>)
      in n\<lparr>nsPromiscuous := mergeBool (nsPromiscuous n) (hpPromiscuous pg),
           nsMACChanges := mergeBool (nsMACChanges n) (hpMACChanges pg),
           nsForged := mergeBool (nsForged n) (hpForged pg)\<rparr>)"

definition switchHasHost :: "dvswitch \<Rightarrow> host \<Rightarrow> bool" where
  "switchHasHost sw h \<longleftrightarrow>
     list_ex (\<lambda>m. eq_trim m (hoName h) \<or> (hoID h \<noteq> [] \<and> eq_trim m (hoID h))) (dsHosts sw)"

definition new_standard :: "int \<Rightarrow> host \<Rightarrow> host_port_group \<Rightarrow> network_summary" where
  "new_standard tot h pg =
     (let n = \<lparr>nsName = hpName pg, nsVLAN = itoa (hpVLAN pg), nsParent = hpSwitch pg, nsType = ''standard'',
               nsMTU = 0, nsTeaming = [], nsActive = [], nsStandby = [], nsPromiscuous = hpPromiscuous pg,
               nsMACChanges = hpMACChanges pg, nsForged = hpForged pg, nsCovered = 1, nsTotal = tot,
               nsContact = [], nsContactDetail = []\<rparr>
      in case owningVSwitch h (hpSwitch pg) of
           None \<Rightarrow> n
         | Some sw \<Rightarrow> n\<lparr>nsMTU := vsMTU sw, nsActive := vsUplinks sw\<rparr>)"

text \<open>The index map of the standard port groups is the list of their keys, in step with the summaries.\<close>

fun add_standard ::
  "int \<Rightarrow> host \<Rightarrow> host_port_group \<Rightarrow> (string \<times> network_summary) list \<Rightarrow> (string \<times> network_summary) list" where
  "add_standard tot h pg [] =
     [(networkKey (hpName pg) (itoa (hpVLAN pg)) (hpSwitch pg), new_standard tot h pg)]"
| "add_standard tot h pg ((k, n) # rest) =
     (if k = networkKey (hpName pg) (itoa (hpVLAN pg)) (hpSwitch pg)
      then (k, mergeStandardEvidence h pg (n\<lparr>nsCovered := nsCovered n + 1\<rparr>)) # rest
      else (k, n) # add_standard tot h pg rest)"

definition standard_networks :: "host list \<Rightarrow> network_summary list" where
  "standard_networks hosts =
     map snd (fold (\<lambda>h acc. fold (add_standard (int (length hosts)) h) (hoPortGroups h) acc) hosts [])"

definition distributed_networks :: "host list \<Rightarrow> dvswitch \<Rightarrow> network_summary list" where
  "distributed_networks hosts sw =
     (let covered = int (length (filter (switchHasHost sw) hosts));
          pgs = sort_key (\<lambda>p. objectSortKey [dpName p, dpID p, dpKey p]) (dsPortGroups sw)
      in map (\<lambda>p. \<lparr>nsName = dpName p, nsVLAN = dpVLAN p,
                nsParent = (if dpSwitch p = [] then dsName sw else dpSwitch p), nsType = ''distributed'',
                nsMTU = dsMaxMTU sw, nsTeaming = dpTeaming p, nsActive = dpActive p, nsStandby = dpStandby p,
                nsPromiscuous = dpPromiscuous p, nsMACChanges = dpMACChanges p, nsForged = dpForged p,
                nsCovered = covered, nsTotal = int (length hosts), nsContact = dsContact sw,
                nsContactDetail = dsContactDetail sw\<rparr>)
           (first_by (\<lambda>p. dpID p @ NUL @ dpKey p @ NUL @ dpName p) [] pgs))"

definition Reachable :: "host list \<Rightarrow> dvswitch list \<Rightarrow> network_summary list" where
  "Reachable hostList switchList =
     (let hosts = sort_key (\<lambda>h. objectSortKey [hoName h, hoID h]) hostList;
          switches = sort_key (\<lambda>s. objectSortKey [dsName s, dsID s]) switchList
      in sort_key summarySortKey (standard_networks hosts @ concat (map (distributed_networks hosts) switches)))"

definition in_cluster :: "cluster_ref \<Rightarrow> resource \<Rightarrow> host option" where
  "in_cluster c r =
     (if reKind r \<noteq> ''host'' then None
      else (case decode_host r of
              None \<Rightarrow> None
            | Some h \<Rightarrow> if equal_fold (hoCluster h) (crfName c) then Some h else None))"

definition reachableNetworks :: "export_data \<Rightarrow> cluster_ref \<Rightarrow> network_summary list" where
  "reachableNetworks d c =
     (let rs = filter (\<lambda>r. sameContext (reContext r) (crfContext c)) (exResources d)
      in Reachable (List.map_filter (in_cluster c) rs)
           (List.map_filter (\<lambda>r. if reKind r = ''dvswitch'' then decode_dvswitch r else None) rs))"

section \<open>Matching\<close>

text \<open>
  \<open>used\<close> marks the targets that are taken. The candidates for a VLAN are the free targets of the same
  VLAN; among them one of the same name is preferred, else the first.
\<close>

definition vlan_candidate :: "network_summary \<Rightarrow> network_summary \<times> bool \<Rightarrow> bool" where
  "vlan_candidate s t \<longleftrightarrow> trim_space (nsVLAN s) \<noteq> [] \<and> \<not> snd t \<and> eq_trim (nsVLAN s) (nsVLAN (fst t)) \<and>
     trim_space (nsVLAN (fst t)) \<noteq> []"

definition name_candidate :: "network_summary \<Rightarrow> network_summary \<times> bool \<Rightarrow> bool" where
  "name_candidate s t \<longleftrightarrow> \<not> snd t \<and> eq_trim (nsName s) (nsName (fst t))"

definition findTarget :: "network_summary \<Rightarrow> network_summary list \<Rightarrow> bool list \<Rightarrow> (nat \<times> string) option" where
  "findTarget s targets used =
     (let ts = zip targets used
      in case find_index (\<lambda>t. vlan_candidate s t \<and> eq_trim (nsName s) (nsName (fst t))) ts of
           Some i \<Rightarrow> Some (i, ''vlan'')
         | None \<Rightarrow>
             (case find_index (vlan_candidate s) ts of
                Some i \<Rightarrow> Some (i, ''vlan'')
              | None \<Rightarrow> map_option (\<lambda>i. (i, ''name'')) (find_index (name_candidate s) ts)))"

fun match_loop ::
  "network_summary list \<Rightarrow> bool list \<Rightarrow> network_summary list \<Rightarrow>
   network_match list \<times> network_summary list \<times> bool list" where
  "match_loop targets used [] = ([], [], used)"
| "match_loop targets used (s # ss) =
     (case findTarget s targets used of
        None \<Rightarrow> (case match_loop targets used ss of (ps, so, u) \<Rightarrow> (ps, s # so, u))
      | Some (i, basis) \<Rightarrow>
          (case match_loop targets (used[i := True]) ss of
             (ps, so, u) \<Rightarrow> (\<lparr>nmSource = s, nmTarget = targets ! i, nmBasis = basis\<rparr> # ps, so, u)))"

definition matchNetworks ::
  "network_summary list \<Rightarrow> network_summary list \<Rightarrow> network_match list \<times> network_summary list \<times> network_summary list" where
  "matchNetworks source target =
     (case match_loop target (replicate (length target) False) source of
        (ps, so, used) \<Rightarrow> (ps, so, map fst (filter (\<lambda>t. \<not> snd t) (zip target used))))"

section \<open>Differences and verdict\<close>

definition boolDiff :: "bool option \<Rightarrow> bool option \<Rightarrow> bool" where
  "boolDiff a b \<longleftrightarrow> a \<noteq> None \<and> b \<noteq> None \<and> a \<noteq> b"

definition securityDiff :: "network_summary \<Rightarrow> network_summary \<Rightarrow> bool" where
  "securityDiff s t \<longleftrightarrow> boolDiff (nsPromiscuous s) (nsPromiscuous t) \<or> boolDiff (nsMACChanges s) (nsMACChanges t) \<or>
     boolDiff (nsForged s) (nsForged t)"

definition securityText :: "network_summary \<Rightarrow> string" where
  "securityText n = ''promiscuous='' @ boolString (nsPromiscuous n) @ '',mac_changes='' @ boolString (nsMACChanges n) @
     '',forged_transmits='' @ boolString (nsForged n)"

definition coverageText :: "network_summary \<Rightarrow> string" where
  "coverageText n = itoa (nsCovered n) @ ''/'' @ itoa (nsTotal n)"

definition add_difference :: "string \<Rightarrow> string \<Rightarrow> string \<Rightarrow> string \<Rightarrow> string \<Rightarrow> bool \<Rightarrow> difference list" where
  "add_difference network field left right severity different =
     (if different then [\<lparr>dfNetwork = network, dfField = field, dfSource = left, dfTarget = right, dfSeverity = severity\<rparr>]
      else [])"

definition networkDifferences :: "network_match \<Rightarrow> difference list" where
  "networkDifferences p =
     (let s = nmSource p; t = nmTarget p; add = add_difference (nsName s)
      in (if nmBasis p = ''name''
          then add ''vlan'' (nsVLAN s) (nsVLAN t) severityBlocker (\<not> eq_trim (nsVLAN s) (nsVLAN t)) else []) @
         (if 0 < nsMTU s \<and> 0 < nsMTU t
          then add ''mtu'' (itoa (nsMTU s)) (itoa (nsMTU t)) severityBlocker (nsMTU s \<noteq> nsMTU t) else []) @
         (if nsTeaming s \<noteq> [] \<and> nsTeaming t \<noteq> []
          then add ''teaming_policy'' (nsTeaming s) (nsTeaming t) severityBlocker (nsTeaming s \<noteq> nsTeaming t) else []) @
         (if nsActive s \<noteq> [] \<and> nsActive t \<noteq> []
          then add ''active_uplinks'' (str_join '','' (nsActive s)) (str_join '','' (nsActive t)) severityAdvisory
            (\<not> sameStrings (nsActive s) (nsActive t)) else []) @
         (if nsStandby s \<noteq> [] \<and> nsStandby t \<noteq> []
          then add ''standby_uplinks'' (str_join '','' (nsStandby s)) (str_join '','' (nsStandby t)) severityAdvisory
            (\<not> sameStrings (nsStandby s) (nsStandby t)) else []) @
         (if securityDiff s t then add ''security'' (securityText s) (securityText t) severityBlocker True else []) @
         (if 0 < nsTotal s \<and> 0 < nsTotal t
          then add ''host_coverage'' (coverageText s) (coverageText t) severityBlocker
            (nsCovered s < nsTotal s \<or> nsCovered t < nsTotal t) else []) @
         (if nsContact s \<noteq> [] \<and> nsContact t \<noteq> []
          then add ''contact'' (nsContact s) (nsContact t) severityAdvisory (nsContact s \<noteq> nsContact t) else []) @
         (if nsContactDetail s \<noteq> [] \<and> nsContactDetail t \<noteq> []
          then add ''contact_detail'' (nsContactDetail s) (nsContactDetail t) severityAdvisory
            (nsContactDetail s \<noteq> nsContactDetail t) else []))"

definition GapSeverity :: "int \<Rightarrow> string" where
  "GapSeverity n = (if 0 < n then severityBlocker else severityAdvisory)"

definition IsBlocker :: "string \<Rightarrow> bool" where
  "IsBlocker s \<longleftrightarrow> s = severityBlocker"

definition attachedNames :: "attached_vm list \<Rightarrow> string" where
  "attachedNames vs = str_join '', '' (map avName vs)"

text \<open>The notes on one gap and on one difference: (blockers, advisories).\<close>

definition gap_notes :: "mapping_gap \<Rightarrow> verdict_note list \<times> verdict_note list" where
  "gap_notes g =
     (if mgVMs g \<noteq> [] then
        (let msg = UsedGap (nsName (mgNetwork g)) (attachedNames (mgVMs g))
         in if mgSeverity g = severityAdvisory then ([], [msg]) else ([msg], []))
      else ([], [UnusedGap (nsName (mgNetwork g))]))"

definition difference_notes :: "difference \<Rightarrow> verdict_note list \<times> verdict_note list" where
  "difference_notes d =
     (let msg = Differs (dfNetwork d) (dfField d) (dfSource d) (dfTarget d)
      in if dfSeverity d = severityBlocker then ([msg], []) else ([], [msg]))"

definition comparison_unknown :: "comparison \<Rightarrow> bool" where
  "comparison_unknown c \<longleftrightarrow> cmConfidence c = ''unknown'' \<or> cmAmbiguous c \<or> \<not> crfResolved (cmSource c) \<or>
     \<not> crfResolved (cmTarget c)"

definition Verdict :: "comparison \<Rightarrow> readiness" where
  "Verdict c =
     (let notes = map gap_notes (cmGaps c) @ map difference_notes (cmDifferences c);
          blockers = concat (map fst notes);
          verdict = (if comparison_unknown c then ''unknown'' else ''ready'')
      in \<lparr>rdComparison = c,
          rdVerdict = (if \<not> comparison_unknown c \<and> blockers \<noteq> [] then ''blocked'' else verdict),
          rdBlockers = blockers, rdAdvisories = concat (map snd notes)\<rparr>)"

section \<open>Lemmas on the matching\<close>

definition free_targets :: "network_summary list \<Rightarrow> bool list \<Rightarrow> network_summary list" where
  "free_targets ts used = map fst (filter (\<lambda>t. \<not> snd t) (zip ts used))"

definition same_vlan :: "network_summary \<Rightarrow> network_summary \<Rightarrow> bool" where
  "same_vlan s t \<longleftrightarrow> trim_space (nsVLAN s) \<noteq> [] \<and> trim_space (nsVLAN t) \<noteq> [] \<and> eq_trim (nsVLAN s) (nsVLAN t)"

definition same_name :: "network_summary \<Rightarrow> network_summary \<Rightarrow> bool" where
  "same_name s t \<longleftrightarrow> eq_trim (nsName s) (nsName t)"

lemma findTarget_Some:
  assumes "findTarget s ts used = Some (i, b)" and "length used = length ts"
  shows "i < length ts \<and> \<not> used ! i \<and> (b = ''vlan'' \<and> same_vlan s (ts ! i) \<or> b = ''name'' \<and> same_name s (ts ! i))"
  using assms
  by (auto simp: findTarget_def Let_def vlan_candidate_def name_candidate_def same_vlan_def same_name_def
      split: option.splits dest!: find_index_Some)

lemma findTarget_None:
  "findTarget s ts used = None \<Longrightarrow> t \<in> set (free_targets ts used) \<Longrightarrow> \<not> same_vlan s t \<and> \<not> same_name s t"
  by (force simp: findTarget_def Let_def vlan_candidate_def name_candidate_def same_vlan_def same_name_def
      free_targets_def find_index_None split: option.splits)

text \<open>A VLAN decides before a name: a target is taken by name only when no free one shares the VLAN.\<close>

lemma findTarget_name:
  "findTarget s ts used = Some (i, ''name'') \<Longrightarrow> t \<in> set (free_targets ts used) \<Longrightarrow> \<not> same_vlan s t"
  by (force simp: findTarget_def Let_def vlan_candidate_def same_vlan_def free_targets_def find_index_None
      split: option.splits)

lemma free_targets_update:
  "i < length ts \<Longrightarrow> length used = length ts \<Longrightarrow> \<not> used ! i \<Longrightarrow>
   mset (free_targets ts used) = add_mset (ts ! i) (mset (free_targets ts (used[i := True])))"
proof (induction ts arbitrary: i used)
  case (Cons t ts)
  then obtain u us where u: "used = u # us" by (cases used) auto
  show ?case
  proof (cases i)
    case 0
    with Cons.prems u show ?thesis by (simp add: free_targets_def)
  next
    case (Suc j)
    with Cons.IH [of j us] Cons.prems u show ?thesis by (simp add: free_targets_def)
  qed
qed simp

lemma match_loop_correct:
  assumes "match_loop ts used ss = (ps, so, u)" and "length used = length ts"
  shows "length u = length ts \<and> mset (map nmSource ps) + mset so = mset ss \<and>
    mset (map nmTarget ps) + mset (free_targets ts u) = mset (free_targets ts used) \<and>
    (\<forall>p \<in> set ps. nmBasis p = ''vlan'' \<and> same_vlan (nmSource p) (nmTarget p) \<or>
       nmBasis p = ''name'' \<and> same_name (nmSource p) (nmTarget p)) \<and>
    (\<forall>s \<in> set so. \<forall>t \<in> set (free_targets ts u). \<not> same_vlan s t \<and> \<not> same_name s t) \<and>
    (\<forall>p \<in> set ps. nmBasis p = ''name'' \<longrightarrow> (\<forall>t \<in> set (free_targets ts u). \<not> same_vlan (nmSource p) t))"
  using assms
proof (induction ts used ss arbitrary: ps so u rule: match_loop.induct)
  case (2 ts used s ss)
  show ?case
  proof (cases "findTarget s ts used")
    case None
    obtain ps' so' u' where r: "match_loop ts used ss = (ps', so', u')" by (metis prod_cases3)
    note IH = 2(1) [OF None r 2(4)]
    have sub: "set (free_targets ts u') \<subseteq> set (free_targets ts used)"
      using IH by (metis mset_subset_eq_add_right set_mset_mono set_mset_mset)
    have "ps = ps'" "so = s # so'" "u = u'" using 2(3) None r by auto
    with IH findTarget_None [OF None] sub show ?thesis by auto
  next
    case (Some ib)
    obtain i b where ib: "ib = (i, b)" by fastforce
    note f = findTarget_Some [OF Some [unfolded ib] 2(4)]
    obtain ps' so' u' where r: "match_loop ts (used[i := True]) ss = (ps', so', u')" by (metis prod_cases3)
    have l: "length (used[i := True]) = length ts" using 2(4) by simp
    note IH = 2(2) [OF Some ib [symmetric] r l]
    have "ps = \<lparr>nmSource = s, nmTarget = ts ! i, nmBasis = b\<rparr> # ps'" "so = so'" "u = u'"
      using 2(3) Some ib r by auto
    moreover have "\<not> same_vlan s t" if "b = ''name''" "t \<in> set (free_targets ts u)" for t
    proof -
      have "set (free_targets ts u) \<subseteq> set (free_targets ts (used[i := True]))"
        using IH calculation by (metis mset_subset_eq_add_right set_mset_mono set_mset_mset)
      also have "\<dots> \<subseteq> set (free_targets ts used)"
        using free_targets_update [of i ts used] f 2(4) by (metis insert_subset order_refl set_mset_add_mset_insert set_mset_mset)
      finally show ?thesis using findTarget_name [of s ts used i t] Some ib that by auto
    qed
    ultimately show ?thesis using IH f free_targets_update [of i ts used] 2(4) by auto
  qed
qed simp

lemma matchNetworks_correct:
  assumes "matchNetworks source target = (ps, so, tos)"
  shows "mset (map nmSource ps) + mset so = mset source \<and> mset (map nmTarget ps) + mset tos = mset target \<and>
    (\<forall>p \<in> set ps. nmBasis p = ''vlan'' \<and> same_vlan (nmSource p) (nmTarget p) \<or>
       nmBasis p = ''name'' \<and> same_name (nmSource p) (nmTarget p)) \<and>
    (\<forall>s \<in> set so. \<forall>t \<in> set tos. \<not> same_vlan s t \<and> \<not> same_name s t) \<and>
    (\<forall>p \<in> set ps. nmBasis p = ''name'' \<longrightarrow> (\<forall>t \<in> set tos. \<not> same_vlan (nmSource p) t))"
proof -
  obtain u where m: "match_loop target (replicate (length target) False) source = (ps, so, u)"
    and tos: "tos = free_targets target u"
    using assms by (auto simp: matchNetworks_def free_targets_def split: prod.splits)
  have "free_targets ts (replicate (length ts) False) = ts" for ts :: "network_summary list"
    by (induction ts) (auto simp: free_targets_def)
  then show ?thesis using match_loop_correct [OF m] tos by simp
qed

section \<open>Lemmas on the evidence\<close>

lemma mergeBool_Some: "mergeBool a b = Some v \<longleftrightarrow> a = Some v \<and> b = Some v"
  by (auto simp: mergeBool_def)

text \<open>A summary is supported by the hosts it was merged from.\<close>

definition claims_hold :: "network_summary \<Rightarrow> host \<times> host_port_group \<Rightarrow> bool" where
  "claims_hold n hp \<longleftrightarrow>
     (\<forall>v. nsPromiscuous n = Some v \<longrightarrow> hpPromiscuous (snd hp) = Some v) \<and>
     (\<forall>v. nsMACChanges n = Some v \<longrightarrow> hpMACChanges (snd hp) = Some v) \<and>
     (\<forall>v. nsForged n = Some v \<longrightarrow> hpForged (snd hp) = Some v) \<and>
     (\<forall>sw. owningVSwitch (fst hp) (hpSwitch (snd hp)) = Some sw \<longrightarrow> nsMTU n = 0 \<or> nsMTU n = vsMTU sw)"

lemma claims_hold_merge:
  "claims_hold n hp \<Longrightarrow> claims_hold (mergeStandardEvidence h pg n) hp"
  by (auto simp: claims_hold_def mergeStandardEvidence_def mergeBool_Some Let_def split: option.splits)

lemma claims_hold_merged: "claims_hold (mergeStandardEvidence h pg n) (h, pg)"
  by (auto simp: claims_hold_def mergeStandardEvidence_def mergeBool_Some Let_def split: option.splits)

lemma claims_hold_new: "claims_hold (new_standard t h pg) (h, pg)"
  by (auto simp: claims_hold_def new_standard_def Let_def split: option.splits)

lemma claims_hold_covered: "claims_hold (n\<lparr>nsCovered := c\<rparr>) hp \<longleftrightarrow> claims_hold n hp"
  by (simp add: claims_hold_def)

definition pg_key :: "host_port_group \<Rightarrow> string" where
  "pg_key pg = networkKey (hpName pg) (itoa (hpVLAN pg)) (hpSwitch pg)"

definition evidence_ok :: "(string \<times> network_summary) list \<Rightarrow> (host \<times> host_port_group) list \<Rightarrow> bool" where
  "evidence_ok acc seen \<longleftrightarrow> distinct (map fst acc) \<and> fst ` set acc = (\<lambda>hp. pg_key (snd hp)) ` set seen \<and>
     (\<forall>kn \<in> set acc. nsCovered (snd kn) = int (length (filter (\<lambda>hp. pg_key (snd hp) = fst kn) seen)) \<and>
        (\<forall>hp \<in> set seen. pg_key (snd hp) = fst kn \<longrightarrow> claims_hold (snd kn) hp))"

lemma fst_add_standard:
  "map fst (add_standard t h pg acc) = (if pg_key pg \<in> fst ` set acc then map fst acc else map fst acc @ [pg_key pg])"
  by (induction t h pg acc rule: add_standard.induct) (auto simp: pg_key_def)

lemma add_standard_mem:
  assumes "distinct (map fst acc)" and "kn \<in> set (add_standard t h pg acc)"
  shows "(fst kn \<noteq> pg_key pg \<and> kn \<in> set acc) \<or>
    (pg_key pg \<notin> fst ` set acc \<and> kn = (pg_key pg, new_standard t h pg)) \<or>
    (\<exists>n. (pg_key pg, n) \<in> set acc \<and> kn = (pg_key pg, mergeStandardEvidence h pg (n\<lparr>nsCovered := nsCovered n + 1\<rparr>)))"
  using assms
proof (induction acc)
  case Nil
  then show ?case by (simp add: pg_key_def)
next
  case (Cons a rest)
  obtain k n where a: "a = (k, n)" by fastforce
  show ?case
  proof (cases "k = pg_key pg")
    case True
    then have "add_standard t h pg (a # rest) =
        (k, mergeStandardEvidence h pg (n\<lparr>nsCovered := nsCovered n + 1\<rparr>)) # rest"
      by (simp add: a pg_key_def)
    with Cons.prems(2) consider "kn = (k, mergeStandardEvidence h pg (n\<lparr>nsCovered := nsCovered n + 1\<rparr>))"
      | "kn \<in> set rest" by auto
    then show ?thesis
    proof cases
      case 1
      with True a show ?thesis by (intro disjI2 exI [of _ n]) simp
    next
      case 2
      with Cons.prems(1) True a have "fst kn \<noteq> pg_key pg" by (metis fst_conv image_eqI list.simps(9) distinct.simps(2) list.set_map)
      with 2 show ?thesis by simp
    qed
  next
    case False
    then have "add_standard t h pg (a # rest) = a # add_standard t h pg rest" by (simp add: a pg_key_def)
    with Cons.prems(2) consider "kn = a" | "kn \<in> set (add_standard t h pg rest)" by auto
    then show ?thesis
    proof cases
      case 1
      with False a show ?thesis by simp
    next
      case 2
      have d: "distinct (map fst rest)" using Cons.prems(1) by simp
      show ?thesis using Cons.IH [OF d 2] False a by (elim disjE) auto
    qed
  qed
qed

lemma merge_covered [simp]: "nsCovered (mergeStandardEvidence h pg n) = nsCovered n"
  by (simp add: mergeStandardEvidence_def Let_def split: option.splits)

lemma new_covered [simp]: "nsCovered (new_standard t h pg) = 1"
  by (simp add: new_standard_def Let_def split: option.splits)

lemma evidence_add:
  assumes "evidence_ok acc seen"
  shows "evidence_ok (add_standard t h pg acc) (seen @ [(h, pg)])"
proof -
  note a = assms [unfolded evidence_ok_def]
  let ?acc = "add_standard t h pg acc"
  have d: "distinct (map fst ?acc)" using a by (auto simp: fst_add_standard)
  have "fst ` set ?acc = set (map fst ?acc)" by simp
  also have "\<dots> = (\<lambda>hp. pg_key (snd hp)) ` set (seen @ [(h, pg)])" using a by (auto simp: fst_add_standard)
  finally have k: "fst ` set ?acc = (\<lambda>hp. pg_key (snd hp)) ` set (seen @ [(h, pg)])" .
  have "nsCovered (snd kn) = int (length (filter (\<lambda>hp. pg_key (snd hp) = fst kn) (seen @ [(h, pg)]))) \<and>
      (\<forall>hp \<in> set (seen @ [(h, pg)]). pg_key (snd hp) = fst kn \<longrightarrow> claims_hold (snd kn) hp)" if kn: "kn \<in> set ?acc" for kn
    using add_standard_mem [OF conjunct1 [OF a] kn]
  proof (elim disjE conjE exE)
    assume "fst kn \<noteq> pg_key pg" "kn \<in> set acc"
    then show ?thesis using a by auto
  next
    assume n: "pg_key pg \<notin> fst ` set acc" "kn = (pg_key pg, new_standard t h pg)"
    then have none: "\<forall>hp \<in> set seen. pg_key (snd hp) \<noteq> pg_key pg" using a by (metis image_eqI)
    then have "filter (\<lambda>hp. pg_key (snd hp) = pg_key pg) seen = []" by (simp add: filter_empty_conv)
    with none n(2) claims_hold_new show ?thesis by simp
  next
    fix n assume n: "(pg_key pg, n) \<in> set acc"
      "kn = (pg_key pg, mergeStandardEvidence h pg (n\<lparr>nsCovered := nsCovered n + 1\<rparr>))"
    have "nsCovered n = int (length (filter (\<lambda>hp. pg_key (snd hp) = pg_key pg) seen))"
      "\<forall>hp \<in> set seen. pg_key (snd hp) = pg_key pg \<longrightarrow> claims_hold n hp"
      using a n(1) by force+
    then show ?thesis using n(2) claims_hold_merge claims_hold_merged by (auto simp: claims_hold_covered)
  qed
  with d k show ?thesis unfolding evidence_ok_def by blast
qed

lemma evidence_host:
  "evidence_ok acc seen \<Longrightarrow> evidence_ok (fold (add_standard t h) pgs acc) (seen @ map (\<lambda>pg. (h, pg)) pgs)"
proof (induction pgs arbitrary: acc seen)
  case (Cons pg pgs)
  from Cons.IH [OF evidence_add [OF Cons.prems, of t h pg]] show ?case by simp
qed simp

definition all_port_groups :: "host list \<Rightarrow> (host \<times> host_port_group) list" where
  "all_port_groups hosts = concat (map (\<lambda>h. map (\<lambda>pg. (h, pg)) (hoPortGroups h)) hosts)"

lemma evidence_hosts:
  "evidence_ok acc seen \<Longrightarrow>
   evidence_ok (fold (\<lambda>h acc. fold (add_standard t h) (hoPortGroups h) acc) hosts acc) (seen @ all_port_groups hosts)"
proof (induction hosts arbitrary: acc seen)
  case (Cons h hosts)
  from Cons.IH [OF evidence_host [OF Cons.prems, of t h "hoPortGroups h"]] show ?case
    by (simp add: all_port_groups_def)
qed (simp add: all_port_groups_def)

lemma standard_networks_ok:
  "\<exists>acc. standard_networks hosts = map snd acc \<and> evidence_ok acc (all_port_groups hosts)"
  using evidence_hosts [of "[]" "[]" "int (length hosts)" hosts]
  by (auto simp: standard_networks_def evidence_ok_def)


section \<open>Properties\<close>

definition sample_net :: "string \<Rightarrow> string \<Rightarrow> network_summary" where
  "sample_net name vlan = \<lparr>nsName = name, nsVLAN = vlan, nsParent = ''dvs'', nsType = ''distributed'', nsMTU = 1500,
     nsTeaming = [], nsActive = [], nsStandby = [], nsPromiscuous = None, nsMACChanges = None, nsForged = None,
     nsCovered = 2, nsTotal = 2, nsContact = [], nsContactDetail = []\<rparr>"

text \<open>
  C31: Matching partitions both sides: every source network is matched once or reported as missing, every
  target is used at most once and is otherwise reported as target-only; a pair shares its VLAN, or the
  name when that is the basis, and then no target that stayed free shares the VLAN; and no network
  reported as missing has the VLAN or the name of a target that stayed free.
\<close>

theorem matching_partitions_both_sides:
  assumes "matchNetworks source target = (ps, so, tos)"
  shows "mset (map nmSource ps) + mset so = mset source \<and> mset (map nmTarget ps) + mset tos = mset target \<and>
    (\<forall>p \<in> set ps. nmBasis p = ''vlan'' \<and> same_vlan (nmSource p) (nmTarget p) \<or>
       nmBasis p = ''name'' \<and> same_name (nmSource p) (nmTarget p)) \<and>
    (\<forall>p \<in> set ps. nmBasis p = ''name'' \<longrightarrow> (\<forall>t \<in> set tos. \<not> same_vlan (nmSource p) t)) \<and>
    (\<forall>s \<in> set so. \<forall>t \<in> set tos. \<not> same_vlan s t \<and> \<not> same_name s t)"
  using matchNetworks_correct [OF assms] by blast

theorem matching_partitions_both_sides_witness:
  "{#sample_net ''web'' ''VLAN 10''#} + {#sample_net ''old'' ''VLAN 99''#} =
     mset [sample_net ''web'' ''VLAN 10'', sample_net ''old'' ''VLAN 99'']"
proof -
  have "matchNetworks [sample_net ''web'' ''VLAN 10'', sample_net ''old'' ''VLAN 99'']
      [sample_net ''app'' ''VLAN 20'', sample_net ''front'' ''vlan 10'']
    = ([\<lparr>nmSource = sample_net ''web'' ''VLAN 10'', nmTarget = sample_net ''front'' ''vlan 10'', nmBasis = ''vlan''\<rparr>],
       [sample_net ''old'' ''VLAN 99''], [sample_net ''app'' ''VLAN 20''])" by code_simp
  from matching_partitions_both_sides [OF this] show ?thesis by simp
qed

text \<open>
  The evidence for a standard network claims no more than every host supports: its count is the number
  of host port groups merged into it, a security setting it states is the setting on each of them, and an
  MTU it states is the one of each owning switch that was observed.
\<close>

theorem standard_evidence_supported:
  assumes "n \<in> set (standard_networks hosts)"
  shows "\<exists>key. nsCovered n = int (length (filter (\<lambda>hp. pg_key (snd hp) = key) (all_port_groups hosts))) \<and>
    (\<forall>hp \<in> set (all_port_groups hosts). pg_key (snd hp) = key \<longrightarrow> claims_hold n hp)"
proof -
  obtain acc where acc: "standard_networks hosts = map snd acc" "evidence_ok acc (all_port_groups hosts)"
    using standard_networks_ok [of hosts] by blast
  with assms obtain k where "(k, n) \<in> set acc" by auto
  with acc(2) show ?thesis by (intro exI [of _ k]) (force simp: evidence_ok_def)
qed

definition sample_pg :: "string \<Rightarrow> bool option \<Rightarrow> host_port_group" where
  "sample_pg name p = \<lparr>hpKey = ''key'', hpName = name, hpSwitch = ''vSwitch0'', hpVLAN = 10, hpPromiscuous = p,
     hpMACChanges = None, hpForged = None\<rparr>"

definition sample_host :: "string \<Rightarrow> host_port_group list \<Rightarrow> host" where
  "sample_host name pgs = \<lparr>hoLocation = \<lparr>loContext = ''prod'', loDatacenter = ''dc'', loPath = []\<rparr>, hoID = name, hoName = name,
     hoCluster = ''c1'',
     hoVSwitches = [\<lparr>vsKey = ''k'', vsName = ''vSwitch0'', vsMTU = 1500, vsUplinks = [''vmnic0'']\<rparr>], hoPortGroups = pgs, hoLUNs = []\<rparr>"

theorem standard_evidence_supported_witness:
  "\<exists>key. (2::int) = int (length (filter (\<lambda>hp. pg_key (snd hp) = key)
     (all_port_groups [sample_host ''h1'' [sample_pg ''web'' (Some True)], sample_host ''h2'' [sample_pg ''web'' (Some False)]])))"
proof -
  define hosts where "hosts = [sample_host ''h1'' [sample_pg ''web'' (Some True)], sample_host ''h2'' [sample_pg ''web'' (Some False)]]"
  have n: "standard_networks hosts = [hd (standard_networks hosts)]" and c: "nsCovered (hd (standard_networks hosts)) = 2"
    unfolding hosts_def by code_simp+
  from n have "hd (standard_networks hosts) \<in> set (standard_networks hosts)" by (metis list.set_intros(1))
  from standard_evidence_supported [OF this] c show ?thesis unfolding hosts_def by auto
qed

text \<open>
  The count is of port groups, not of hosts: two port groups of one host whose names differ in case only
  count twice, so a network that one of two hosts lacks is reported as reached by both.
\<close>

theorem covered_counts_port_groups:
  "map coverageText (standard_networks [sample_host ''h1'' [sample_pg ''web'' None, sample_pg ''WEB'' None], sample_host ''h2'' []])
     = [''2/2'']"
  by code_simp

text \<open>
  The verdict is exact: it is unknown just when the comparison is unknown, ambiguous or unresolved on
  a side; otherwise blocked just when a used gap or a difference was judged a blocker; otherwise ready.
  Every gap and difference is noted once, and a ready verdict has no blocker.
\<close>

theorem verdict_exact:
  "(rdVerdict (Verdict c) = ''unknown'' \<longleftrightarrow> comparison_unknown c) \<and>
   (rdVerdict (Verdict c) = ''blocked'' \<longleftrightarrow> \<not> comparison_unknown c \<and>
      ((\<exists>g \<in> set (cmGaps c). mgVMs g \<noteq> [] \<and> mgSeverity g \<noteq> severityAdvisory) \<or>
       (\<exists>d \<in> set (cmDifferences c). IsBlocker (dfSeverity d)))) \<and>
   (rdVerdict (Verdict c) = ''ready'' \<longleftrightarrow> \<not> comparison_unknown c \<and> rdBlockers (Verdict c) = []) \<and>
   length (rdBlockers (Verdict c)) + length (rdAdvisories (Verdict c)) = length (cmGaps c) + length (cmDifferences c) \<and>
   rdComparison (Verdict c) = c"
proof -
  let ?notes = "map gap_notes (cmGaps c) @ map difference_notes (cmDifferences c)"
  have blk: "concat (map fst ?notes) \<noteq> [] \<longleftrightarrow>
      (\<exists>g \<in> set (cmGaps c). mgVMs g \<noteq> [] \<and> mgSeverity g \<noteq> severityAdvisory) \<or>
      (\<exists>d \<in> set (cmDifferences c). IsBlocker (dfSeverity d))"
    by (auto simp: gap_notes_def difference_notes_def IsBlocker_def Let_def)
  have one: "length (concat (map fst ns)) + length (concat (map snd ns)) = length ns"
    if "\<And>n. n \<in> set ns \<Longrightarrow> length (fst n) + length (snd n) = 1" for ns :: "(verdict_note list \<times> verdict_note list) list"
    using that
  proof (induction ns)
    case (Cons n ns)
    have "length (fst n) + length (snd n) = 1" using Cons.prems [of n] by simp
    moreover have "length (concat (map fst ns)) + length (concat (map snd ns)) = length ns" using Cons by simp
    ultimately show ?case by simp
  qed simp
  have "length (concat (map fst ?notes)) + length (concat (map snd ?notes)) = length ?notes"
    by (rule one) (auto simp: gap_notes_def difference_notes_def Let_def)
  then have len: "length (rdBlockers (Verdict c)) + length (rdAdvisories (Verdict c)) = length (cmGaps c) + length (cmDifferences c)"
    by (simp add: Verdict_def Let_def)
  have v: "rdVerdict (Verdict c) = (if comparison_unknown c then ''unknown''
      else if concat (map fst ?notes) \<noteq> [] then ''blocked'' else ''ready'')"
    and b: "rdBlockers (Verdict c) = concat (map fst ?notes)" and r: "rdComparison (Verdict c) = c"
    by (simp_all only: Verdict_def Let_def readiness.simps split: if_splits) auto
  show ?thesis unfolding v blk [symmetric] b
    by (intro conjI) (simp, simp, simp, rule len [unfolded b], rule r)
qed

definition swapped :: "network_match \<Rightarrow> network_match" where
  "swapped p = \<lparr>nmSource = nmTarget p, nmTarget = nmSource p, nmBasis = nmBasis p\<rparr>"

lemma eq_trim_sym: "eq_trim a b \<longleftrightarrow> eq_trim b a"
  by (auto simp: eq_trim_def equal_fold_def)

lemma sameStrings_sym: "sameStrings a b \<longleftrightarrow> sameStrings b a"
proof -
  have "list_all2 eq_trim a b \<longleftrightarrow> list_all2 eq_trim b a"
    by (auto simp: list_all2_conv_all_nth eq_trim_sym)
  then show ?thesis by (auto simp: sameStrings_def)
qed

lemma securityDiff_sym: "securityDiff a b \<longleftrightarrow> securityDiff b a"
  by (auto simp: securityDiff_def boolDiff_def)

text \<open>
  Differences do not depend on which cluster is the source: the same pair the other way round differs
  in the same fields with the same severities and with the two values exchanged.
\<close>

theorem differences_symmetric:
  "map (\<lambda>d. (dfField d, dfSource d, dfTarget d, dfSeverity d)) (networkDifferences (swapped p)) =
   map (\<lambda>d. (dfField d, dfTarget d, dfSource d, dfSeverity d)) (networkDifferences p)"
proof -
  have add: "map (\<lambda>d. (dfField d, dfSource d, dfTarget d, dfSeverity d)) (add_difference n f l r s b) =
      (if b then [(f, l, r, s)] else [])"
    "map (\<lambda>d. (dfField d, dfTarget d, dfSource d, dfSeverity d)) (add_difference n f l r s b) =
      (if b then [(f, r, l, s)] else [])" for n f l r s b
    by (simp_all add: add_difference_def)
  let ?s = "nmSource p" and ?t = "nmTarget p"
  have sy: "eq_trim (nsVLAN ?t) (nsVLAN ?s) = eq_trim (nsVLAN ?s) (nsVLAN ?t)"
    "sameStrings (nsActive ?t) (nsActive ?s) = sameStrings (nsActive ?s) (nsActive ?t)"
    "sameStrings (nsStandby ?t) (nsStandby ?s) = sameStrings (nsStandby ?s) (nsStandby ?t)"
    "securityDiff ?t ?s = securityDiff ?s ?t"
    by (rule eq_trim_sym sameStrings_sym securityDiff_sym)+
  show ?thesis
    unfolding networkDifferences_def Let_def swapped_def network_match.simps map_append if_distrib [of "map _"] add sy
      list.map(1)
    by (intro arg_cong2 [of _ _ _ _ append]) auto
qed

end
