(* ===== verification/Identity.thy ===== *)
theory Identity
  imports Estate
begin

text \<open>
  The identities of the topology graph: the strong keys of a datastore and the datastore paths
  (internal/vsphere/identity.go), the keys of a network (internal/topology/identity.go) and the weak key of
  every object (graph.go, weakKey). The lemmas show when two datastores share a key.
\<close>

section \<open>Datastores\<close>

definition slashes :: "string \<Rightarrow> string" where
  "slashes = replace_char CHR 0x5C CHR ''/''"

definition NormalizeBackingURL :: "string \<Rightarrow> string" where
  "NormalizeBackingURL v = trim_char_right CHR ''/'' (to_lower (trim_space (slashes v)))"

definition uniqueIdentityStrings :: "string list \<Rightarrow> string list" where
  "uniqueIdentityStrings vs = sort (first_by id [] (filter (\<lambda>v. v \<noteq> []) vs))"

definition key_of :: "string \<Rightarrow> string \<Rightarrow> string list" where
  "key_of prefix v = (if trim_space v \<noteq> [] then [prefix @ to_lower (trim_space v)] else [])"

definition IdentityKeys :: "backing \<Rightarrow> string list" where
  "IdentityKeys b =
     (if bkLocal b then []
      else uniqueIdentityStrings
        (key_of ''vmfs:'' (bkVMFS b) @ concat (map (key_of ''extent:'') (bkExtents b)) @ key_of ''nas:'' (bkNAS b) @
         key_of ''vvol:'' (bkVVol b) @
         (if NormalizeBackingURL (bkURL b) \<noteq> [] then [''url:'' @ NormalizeBackingURL (bkURL b)] else [])))"

section \<open>Datastore paths\<close>

text \<open>One \<open>strings.ReplaceAll(value, "//", "/")\<close>, and the loop that repeats it while a double slash is left.\<close>

fun halve_slashes :: "string \<Rightarrow> string" where
  "halve_slashes (a # b # cs) =
     (if a = CHR ''/'' \<and> b = CHR ''/'' then CHR ''/'' # halve_slashes cs else a # halve_slashes (b # cs))"
| "halve_slashes cs = cs"

lemma length_halve: "length (halve_slashes s) \<le> length s"
  by (induction s rule: halve_slashes.induct) auto

lemma length_halve_less: "str_contains ''//'' s \<Longrightarrow> length (halve_slashes s) < length s"
proof (induction s rule: halve_slashes.induct)
  case (1 a b cs)
  show ?case
  proof (cases "a = CHR ''/'' \<and> b = CHR ''/''")
    case True
    then show ?thesis using length_halve [of cs] by simp
  next
    case False
    with 1 show ?thesis by (auto simp: str_contains_def split: if_splits)
  qed
qed (auto simp: str_contains_def)

function collapse_slashes :: "string \<Rightarrow> string" where
  "collapse_slashes s = (if str_contains ''//'' s then collapse_slashes (halve_slashes s) else s)"
  by pat_completeness auto

termination
  by (relation "measure length") (auto simp: length_halve_less)

declare collapse_slashes.simps [simp del]

definition NormalizeRelativePath :: "string \<Rightarrow> string" where
  "NormalizeRelativePath v = to_lower (collapse_slashes (trim_char CHR ''/'' (trim_space (slashes v))))"

definition SplitDatastorePath :: "string \<Rightarrow> (string \<times> string) option" where
  "SplitDatastorePath v =
     (let n = trim_space (slashes v)
      in if \<not> has_prefix ''['' n then None
         else (case str_index '']'' n of
                 None \<Rightarrow> None
               | Some i \<Rightarrow>
                   if i \<le> 1 then None
                   else Some (to_lower (trim_space (drop 1 (take i n))), NormalizeRelativePath (drop (i + 1) n))))"

text \<open>The datastore's name as the path spells it.\<close>

definition datastorePathSpelling :: "string \<Rightarrow> string \<Rightarrow> string" where
  "datastorePathSpelling path normalized =
     (let t = trim_space (slashes path)
      in if \<not> has_prefix ''['' t then normalized
         else (case str_index '']'' t of
                 None \<Rightarrow> normalized
               | Some i \<Rightarrow>
                   if i \<le> 1 then normalized
                   else (let raw = trim_space (drop 1 (take i t))
                         in if equal_fold raw normalized then raw else normalized)))"

section \<open>Networks and weak keys\<close>

record net_identity =
  idKeys :: "string list"
  idPortGroup :: string
  idSwitch :: string
  idLogicalSwitch :: string
  idSegment :: string
  idVLAN :: string

definition no_identity :: net_identity where
  "no_identity = \<lparr>idKeys = [], idPortGroup = [], idSwitch = [], idLogicalSwitch = [], idSegment = [], idVLAN = []\<rparr>"

definition norm :: "string \<Rightarrow> string" where
  "norm v = to_lower (trim_space v)"

definition networkKeys :: "net_identity \<Rightarrow> string list" where
  "networkKeys i =
     (if idPortGroup i \<noteq> [] \<and> idSwitch i \<noteq> []
      then [''portgroup:'' @ norm (idSwitch i) @ '':'' @ norm (idPortGroup i)] else []) @
     (if idLogicalSwitch i \<noteq> [] then [''logical-switch:'' @ norm (idLogicalSwitch i)] else []) @
     (if idSegment i \<noteq> [] then [''segment:'' @ norm (idSegment i)] else [])"

definition uniqueLower :: "string list \<Rightarrow> string list" where
  "uniqueLower vs = first_by id [] (filter (\<lambda>v. v \<noteq> []) (map norm vs))"

definition weakKey :: "string \<Rightarrow> string \<Rightarrow> string \<Rightarrow> string \<Rightarrow> string" where
  "weakKey kind context_name name vlan =
     to_lower kind @ NUL @ norm context_name @ NUL @ norm name @ NUL @ norm vlan"

section \<open>Lemmas\<close>

lemma set_first_by_id: "set (first_by id [] xs) = set xs"
  using set_first_by_key [of id "[]" xs] by simp

lemma set_uniqueIdentityStrings [simp]: "set (uniqueIdentityStrings vs) = set vs - {[]}"
  by (auto simp: uniqueIdentityStrings_def set_first_by_id)

lemma distinct_uniqueIdentityStrings: "sorted (uniqueIdentityStrings vs) \<and> distinct (uniqueIdentityStrings vs)"
  using distinct_first_by [of id "[]" "filter (\<lambda>v. v \<noteq> []) vs"] by (simp add: uniqueIdentityStrings_def)

lemma set_uniqueLower: "set (uniqueLower vs) = norm ` set vs - {[]}"
  by (auto simp: uniqueLower_def set_first_by_id)

lemma norm_Nil_iff: "norm v = [] \<longleftrightarrow> trim_space v = []"
  by (simp add: norm_def to_lower_def)

lemma set_key_of: "set (key_of p v) = (@) p ` ({norm v} - {[]})"
  using norm_Nil_iff [of v] by (auto simp: key_of_def norm_def)

lemma set_keys_of: "set (concat (map (key_of p) vs)) = (@) p ` (norm ` set vs - {[]})"
  by (auto simp: set_key_of)

text \<open>The backing identities of a datastore, before they are spelled as keys.\<close>

datatype backing_id = Vmfs string | Extent string | Nas string | Vvol string | Url string

fun id_text :: "backing_id \<Rightarrow> string" where
  "id_text (Vmfs v) = ''vmfs:'' @ v"
| "id_text (Extent v) = ''extent:'' @ v"
| "id_text (Nas v) = ''nas:'' @ v"
| "id_text (Vvol v) = ''vvol:'' @ v"
| "id_text (Url v) = ''url:'' @ v"

lemma id_text_inject: "id_text a = id_text b \<longleftrightarrow> a = b"
  by (cases a; cases b) auto

definition norm_ids :: "(string \<Rightarrow> backing_id) \<Rightarrow> string set \<Rightarrow> backing_id set" where
  "norm_ids c vs = c ` (norm ` vs - {[]})"

definition backing_ids :: "backing \<Rightarrow> backing_id set" where
  "backing_ids b = norm_ids Vmfs {bkVMFS b} \<union> norm_ids Extent (set (bkExtents b)) \<union> norm_ids Nas {bkNAS b} \<union>
     norm_ids Vvol {bkVVol b} \<union> Url ` ({NormalizeBackingURL (bkURL b)} - {[]})"

lemma id_text_norm_ids:
  "id_text ` norm_ids Vmfs S = (@) ''vmfs:'' ` (norm ` S - {[]})"
  "id_text ` norm_ids Extent S = (@) ''extent:'' ` (norm ` S - {[]})"
  "id_text ` norm_ids Nas S = (@) ''nas:'' ` (norm ` S - {[]})"
  "id_text ` norm_ids Vvol S = (@) ''vvol:'' ` (norm ` S - {[]})"
  by (simp_all add: norm_ids_def image_image)

lemma id_text_not_Nil: "id_text i \<noteq> []"
  by (cases i) auto

lemma set_IdentityKeys: "set (IdentityKeys b) = (if bkLocal b then {} else id_text ` backing_ids b)"
proof (cases "bkLocal b")
  case False
  have url: "set (if NormalizeBackingURL (bkURL b) \<noteq> [] then [''url:'' @ NormalizeBackingURL (bkURL b)] else []) =
      id_text ` Url ` ({NormalizeBackingURL (bkURL b)} - {[]})" by auto
  have "set (IdentityKeys b) = id_text ` backing_ids b - {[]}"
    using False unfolding backing_ids_def image_Un id_text_norm_ids url [symmetric]
    by (simp only: IdentityKeys_def if_False set_uniqueIdentityStrings set_append set_key_of set_keys_of
        image_insert image_empty Un_assoc)
  then show ?thesis using False id_text_not_Nil by auto
qed (simp add: IdentityKeys_def)

lemma lower_char_slash: "lower_char c = CHR ''/'' \<longleftrightarrow> c = CHR ''/''"
proof (cases "65 \<le> (of_char c :: nat) \<and> of_char c \<le> (90 :: nat)")
  case True
  then have "(of_char (lower_char c) :: nat) = of_char c + 32" by (simp add: lower_char_def)
  moreover have "(of_char (CHR ''/'') :: nat) = 47" by simp
  ultimately have "lower_char c \<noteq> CHR ''/''" "c \<noteq> CHR ''/''" using True by auto
  then show ?thesis by simp
qed (auto simp: lower_char_def)

lemma double_slash_lower: "str_contains ''//'' (to_lower s) \<longleftrightarrow> str_contains ''//'' s"
proof -
  have p: "has_prefix ''//'' (to_lower s) \<longleftrightarrow> has_prefix ''//'' s" for s
    by (cases s; cases "tl s") (auto simp: lower_char_slash eq_commute [of "CHR ''/''"])
  show ?thesis
  proof (induction s)
    case (Cons c s)
    then show ?case using p [of "c # s"] by (simp add: str_contains_def del: has_prefix.simps)
  qed simp
qed

lemma halve_no_double: "\<not> str_contains ''//'' s \<Longrightarrow> halve_slashes s = s"
  by (induction s rule: halve_slashes.induct) (auto simp: str_contains_def split: if_splits)

lemma collapse_no_double: "\<not> str_contains ''//'' (collapse_slashes s)"
proof (induction s rule: collapse_slashes.induct)
  case (1 s)
  then show ?case by (subst collapse_slashes.simps) (simp split: if_splits)
qed

section \<open>Properties\<close>

text \<open>
  Two datastores get a common identity key exactly when neither is local and they have a backing
  identity in common - the VMFS UUID, an extent, the NAS export, the vVol container or the URL, up to case
  and outer spaces. Identities of different sorts never collide, and the keys are sorted without repeats.
\<close>

theorem shared_key_iff_shared_backing:
  "(set (IdentityKeys a) \<inter> set (IdentityKeys b) \<noteq> {} \<longleftrightarrow>
      \<not> bkLocal a \<and> \<not> bkLocal b \<and> backing_ids a \<inter> backing_ids b \<noteq> {}) \<and>
   sorted (IdentityKeys a) \<and> distinct (IdentityKeys a)"
proof -
  have "id_text ` backing_ids a \<inter> id_text ` backing_ids b = id_text ` (backing_ids a \<inter> backing_ids b)"
    by (rule image_Int [symmetric]) (auto simp: inj_on_def id_text_inject)
  then show ?thesis
    using distinct_uniqueIdentityStrings by (auto simp: set_IdentityKeys) (auto simp: IdentityKeys_def)
qed

text \<open>
  A datastore path is read whatever its spelling: from the path of a file on a datastore, written with
  any outer spaces around the name and any slashes of either sort, \<open>SplitDatastorePath\<close> recovers the name
  in lower case and a relative path without a double slash, and the label shown for it is the name as it
  was written.
\<close>

theorem datastore_path_split:
  assumes "\<And>c. c \<in> set name \<Longrightarrow> c \<notin> {CHR '']'', CHR 0x5C}" and "trim_space name = name" and "name \<noteq> []"
    and "rel = [] \<or> \<not> is_space (last rel)"
  shows "SplitDatastorePath (''['' @ name @ '']'' @ rel) = Some (to_lower name, NormalizeRelativePath rel) \<and>
    \<not> str_contains ''//'' (NormalizeRelativePath rel) \<and>
    datastorePathSpelling (''['' @ name @ '']'' @ rel) (to_lower name) = name"
proof -
  have sl: "slashes name = name"
    using assms(1) by (auto simp: slashes_def replace_char_def intro!: map_idI)
  have "CHR ''['' \<noteq> CHR 0x5C" "CHR '']'' \<noteq> CHR 0x5C" by simp_all
  then have s: "slashes (''['' @ name @ '']'' @ rel) = ''['' @ name @ '']'' @ slashes rel"
    using sl by (simp add: slashes_def replace_char_def)
  have "slashes rel = [] \<or> \<not> is_space (last (slashes rel))"
    using assms(4) by (cases "rel = []") (auto simp: slashes_def replace_char_def last_map is_space_def)
  then have t: "trim_space (''['' @ name @ '']'' @ slashes rel) = ''['' @ name @ '']'' @ slashes rel"
    by (intro trim_space_id) (auto simp: is_space_def split: if_splits)
  have i: "str_index '']'' (''['' @ name @ '']'' @ slashes rel) = Some (length name + 1)"
    using str_index_char_first [of "CHR '']''" "''['' @ name" "slashes rel"] assms(1) by auto
  have ss: "slashes (slashes rel) = slashes rel"
    by (simp add: slashes_def replace_char_def)
  have nr: "NormalizeRelativePath (slashes rel) = NormalizeRelativePath rel"
    by (simp add: NormalizeRelativePath_def ss)
  have nd: "\<not> str_contains ''//'' (NormalizeRelativePath rel)"
    by (simp add: NormalizeRelativePath_def double_slash_lower collapse_no_double)
  have len: "\<not> length name + 1 \<le> 1" using assms(3) by (cases name) auto
  have sp: "SplitDatastorePath (''['' @ name @ '']'' @ rel) = Some (to_lower name, NormalizeRelativePath rel)"
    unfolding SplitDatastorePath_def s t Let_def i using len assms(2) nr by simp
  moreover have "datastorePathSpelling (''['' @ name @ '']'' @ rel) (to_lower name) = name"
    unfolding datastorePathSpelling_def s t Let_def i using len assms(2) by (simp add: equal_fold_def)
  ultimately show ?thesis using nd by blast
qed

theorem datastore_path_split_witness:
  "SplitDatastorePath ''[San-01] Web//web.vmx'' = Some (''san-01'', ''web/web.vmx'')"
proof -
  have n: "NormalizeRelativePath '' Web//web.vmx'' = ''web/web.vmx''" "to_lower ''San-01'' = ''san-01''" by code_simp+
  have "trim_space ''San-01'' = ''San-01''" "\<not> is_space (last '' Web//web.vmx'')" by code_simp+
  then show ?thesis
    using datastore_path_split [of "''San-01''" "'' Web//web.vmx''"] n by auto
qed

end
