(* ===== verification/Graph.thy ===== *)
theory Graph
  imports Coverage Identity
begin

text \<open>
  The topology graph of a stored assessment and the first phase of its construction
  (internal/topology/types.go, graph.go): the records of the observed objects, their containment, and the
  networks derived from switches, hosts and virtual machines. Records and edges are referred to by index.
  The maps from record indices are functions, with the zero value where nothing was stored.
\<close>

section \<open>Data\<close>

abbreviation "KindVM \<equiv> ''vm''"
abbreviation "KindTemplate \<equiv> ''template''"
abbreviation "KindHost \<equiv> ''host''"
abbreviation "KindCluster \<equiv> ''cluster''"
abbreviation "KindDatastore \<equiv> ''datastore''"
abbreviation "KindNetwork \<equiv> ''network''"
abbreviation "KindDVSwitch \<equiv> ''dvswitch''"
abbreviation "KindResourcePool \<equiv> ''resourcepool''"

datatype relation = Contains | RunsOn | StoredOn | AttachedTo | MemberOf | CarriedBy | Presents

datatype basis =
    BasisMoref | BasisInstanceUUID | BasisPortGroupKey | BasisSwitchUUID | BasisBackingIdentity | BasisVMRef
  | BasisDiskPath | BasisName

datatype edge_confidence = EdgeConfirmed | EdgeInferred | EdgeUnresolved

fun relation_text :: "relation \<Rightarrow> string" where
  "relation_text Contains = ''contains''"
| "relation_text RunsOn = ''runs-on''"
| "relation_text StoredOn = ''stored-on''"
| "relation_text AttachedTo = ''attached-to''"
| "relation_text MemberOf = ''member-of''"
| "relation_text CarriedBy = ''carried-by''"
| "relation_text Presents = ''presents''"

fun basis_text :: "basis \<Rightarrow> string" where
  "basis_text BasisMoref = ''moref''"
| "basis_text BasisInstanceUUID = ''instance-uuid''"
| "basis_text BasisPortGroupKey = ''portgroup-key''"
| "basis_text BasisSwitchUUID = ''switch-uuid''"
| "basis_text BasisBackingIdentity = ''backing-identity''"
| "basis_text BasisVMRef = ''vm-ref''"
| "basis_text BasisDiskPath = ''disk-path''"
| "basis_text BasisName = ''name''"

fun confidence_text :: "edge_confidence \<Rightarrow> string" where
  "confidence_text EdgeConfirmed = ''confirmed''"
| "confidence_text EdgeInferred = ''inferred''"
| "confidence_text EdgeUnresolved = ''unresolved''"

record node =
  ndKind :: string
  ndName :: string
  ndID :: string
  ndContext :: string
  ndVCenter :: string
  ndDatacenter :: string
  ndPath :: string

record node_record =
  rcNode :: node
  rcKind :: string
  rcKeys :: "string list"
  rcWeak :: string
  rcNetwork :: net_identity
  rcLocal :: bool
  rcEligible :: bool
  rcReconstructed :: bool

record graph_edge =
  geFrom :: nat
  geTo :: nat
  geRelation :: relation
  geBasis :: basis
  geConfidence :: edge_confidence
  geDetail :: string

record unresolved_ref =
  urKind :: string
  urLabel :: string

record subject =
  sjKind :: string
  sjName :: string
  sjMembers :: "node list"
  sjIdentity :: "string list"
  sjBasis :: basis

record subject_record =
  srSubject :: subject
  srNodes :: "nat list"

record graph =
  grData :: export_data
  grRecords :: "node_record list"
  grEdges :: "graph_edge list"
  grUnresolved :: "nat \<Rightarrow> unresolved_ref list"
  grSubjects :: "subject_record list"
  grNodeSubject :: "nat option list"
  grIncoming :: "nat \<Rightarrow> nat list"
  grOutgoing :: "nat \<Rightarrow> nat list"
  grContexts :: "string list"
  grSchema :: int
  grLegacy :: "string list"

abbreviation rec_node :: "graph \<Rightarrow> nat \<Rightarrow> node" where
  "rec_node g i \<equiv> rcNode (grRecords g ! i)"

definition plain_edge :: "nat \<Rightarrow> nat \<Rightarrow> relation \<Rightarrow> basis \<Rightarrow> edge_confidence \<Rightarrow> string \<Rightarrow> graph_edge" where
  "plain_edge a b r bs c d =
     \<lparr>geFrom = a, geTo = b, geRelation = r, geBasis = bs, geConfidence = c, geDetail = d\<rparr>"

definition push_edge :: "graph_edge \<Rightarrow> graph \<Rightarrow> graph" where
  "push_edge e g = g\<lparr>grEdges := grEdges g @ [e]\<rparr>"

section \<open>Records\<close>

definition nodeIdentity :: "node \<Rightarrow> string" where
  "nodeIdentity n = to_lower (ndKind n) @ NUL @ to_lower (ndContext n) @ NUL @ ndID n"

definition fill_datacenter :: "context_run list \<Rightarrow> node \<Rightarrow> node" where
  "fill_datacenter cs n =
     (if ndDatacenter n = [] then (case find (\<lambda>c. ctName c = ndContext n) cs of
         None \<Rightarrow> n | Some c \<Rightarrow> n\<lparr>ndDatacenter := ctDatacenter c\<rparr>) else n)"

definition fill_vcenter :: "context_run list \<Rightarrow> node \<Rightarrow> node" where
  "fill_vcenter cs n =
     (if ndVCenter n = [] then (case find (\<lambda>c. ctName c = ndContext n) cs of
         None \<Rightarrow> n | Some c \<Rightarrow> n\<lparr>ndVCenter := ctVCenter c\<rparr>) else n)"

definition fill_context :: "context_run list \<Rightarrow> node \<Rightarrow> node" where
  "fill_context cs n =
     (if ndContext n = [] then (case find (\<lambda>c. ctVCenter c = ndVCenter n \<and> ndVCenter n \<noteq> []) cs of
         None \<Rightarrow> n | Some c \<Rightarrow> n\<lparr>ndContext := ctName c\<rparr>) else n)"

definition addRecord :: "node_record \<Rightarrow> graph \<Rightarrow> nat \<times> graph" where
  "addRecord r g =
     (let cs = exContexts (grData g);
          n = fill_context cs (fill_vcenter cs (fill_datacenter cs (rcNode r)));
          weak = (if rcWeak r = [] then weakKey (rcKind r) (ndContext n) (ndName n) (idVLAN (rcNetwork r)) else rcWeak r)
      in (length (grRecords g), g\<lparr>grRecords := grRecords g @ [r\<lparr>rcNode := n, rcWeak := weak\<rparr>]\<rparr>))"

definition addSynthetic :: "node \<Rightarrow> string \<Rightarrow> graph \<Rightarrow> nat \<times> graph" where
  "addSynthetic n key g =
     (length (grRecords g),
      g\<lparr>grRecords := grRecords g @ [\<lparr>rcNode = n, rcKind = ndKind n, rcKeys = [], rcWeak = key, rcNetwork = no_identity,
         rcLocal = False, rcEligible = False, rcReconstructed = False\<rparr>]\<rparr>)"

section \<open>Containment\<close>

definition find_synthetic :: "string \<Rightarrow> string \<Rightarrow> graph \<Rightarrow> nat option" where
  "find_synthetic kind key g =
     find_index (\<lambda>r. ndKind (rcNode r) = kind \<and> nodeIdentity (rcNode r) = key) (grRecords g)"

definition ensureVCenter :: "string \<Rightarrow> string \<Rightarrow> graph \<Rightarrow> nat \<times> graph" where
  "ensureVCenter ctx vc g =
     (let key = ''vcenter'' @ NUL @ to_lower ctx @ NUL @ vc
      in case find_synthetic ''vcenter'' key g of
           Some i \<Rightarrow> (i, g)
         | None \<Rightarrow> addSynthetic \<lparr>ndKind = ''vcenter'', ndName = ctx, ndID = vc, ndContext = ctx, ndVCenter = vc,
                       ndDatacenter = [], ndPath = []\<rparr> key g)"

definition ensureDatacenter :: "nat \<Rightarrow> string \<Rightarrow> string \<Rightarrow> string \<Rightarrow> graph \<Rightarrow> nat \<times> graph" where
  "ensureDatacenter parent ctx vc dc g =
     (let key = ''datacenter'' @ NUL @ to_lower ctx @ NUL @ to_lower dc
      in case find_synthetic ''datacenter'' key g of
           Some i \<Rightarrow> (i, g)
         | None \<Rightarrow>
             (case addSynthetic \<lparr>ndKind = ''datacenter'', ndName = dc, ndID = vc @ '':datacenter:'' @ dc, ndContext = ctx,
                     ndVCenter = vc, ndDatacenter = dc, ndPath = ''/'' @ dc\<rparr> key g of
                (i, g) \<Rightarrow> (i, push_edge (plain_edge parent i Contains BasisMoref EdgeConfirmed []) g)))"

definition ensureFolder :: "nat \<Rightarrow> string \<Rightarrow> string \<Rightarrow> string \<Rightarrow> string \<Rightarrow> graph \<Rightarrow> nat \<times> graph" where
  "ensureFolder parent ctx vc name path g =
     (let key = ''folder'' @ NUL @ to_lower ctx @ NUL @ to_lower path
      in case find_synthetic ''folder'' key g of
           Some i \<Rightarrow> (i, g)
         | None \<Rightarrow>
             (case addSynthetic \<lparr>ndKind = ''folder'', ndName = name, ndID = vc @ '':folder:'' @ path, ndContext = ctx,
                     ndVCenter = vc, ndDatacenter = [], ndPath = path\<rparr> key g of
                (i, g) \<Rightarrow> (i, push_edge (plain_edge parent i Contains BasisMoref EdgeConfirmed []) g)))"

text \<open>The folders named by an object's path; \<open>current\<close> is the path so far.\<close>

fun folder_loop :: "node \<Rightarrow> nat \<Rightarrow> string \<Rightarrow> string list \<Rightarrow> graph \<Rightarrow> nat \<times> graph" where
  "folder_loop n parent current [] g = (parent, g)"
| "folder_loop n parent current (part # rest) g =
     (if rest = [] \<and> equal_fold part (ndName n) then (parent, g)
      else if part = [] then folder_loop n parent current rest g
      else (let current = current @ ''/'' @ part
            in case ensureFolder parent (ndContext n) (ndVCenter n) part (''/'' @ current) g of
                 (parent, g) \<Rightarrow> folder_loop n parent current rest g))"

definition container_of :: "node \<Rightarrow> graph \<Rightarrow> nat \<times> graph" where
  "container_of n g =
     (case ensureVCenter (ndContext n) (ndVCenter n) g of
        (parent, g) \<Rightarrow>
          (case (if ndDatacenter n \<noteq> [] then ensureDatacenter parent (ndContext n) (ndVCenter n) (ndDatacenter n) g
                 else (parent, g)) of
             (parent, g) \<Rightarrow>
               (let parts = split_on CHR ''/'' (trim_char CHR ''/'' (slashes (ndPath n)))
                in if 1 < length parts \<and> ndDatacenter n \<noteq> [] \<and> equal_fold (hd parts) (ndDatacenter n)
                   then folder_loop n parent (hd parts) (tl parts) g else (parent, g))))"

definition addContainment :: "nat \<Rightarrow> graph \<Rightarrow> graph" where
  "addContainment child g =
     (let n = rec_node g child
      in if ndContext n = [] then g
         else (case container_of n g of
                 (parent, g) \<Rightarrow> push_edge (plain_edge parent child Contains BasisMoref EdgeConfirmed []) g))"

section \<open>Objects\<close>

text \<open>The closure \<open>add\<close> of \<open>addResource\<close>.\<close>

definition add_object :: "resource \<Rightarrow> string \<Rightarrow> node \<Rightarrow> string list \<Rightarrow> graph \<Rightarrow> nat \<times> graph" where
  "add_object r kind n keys g =
     (let n = n\<lparr>ndKind := kind, ndName := (if ndName n = [] then reName r else ndName n),
            ndID := (if ndID n = [] then reID r else ndID n),
            ndContext := (if ndContext n = [] then reContext r else ndContext n),
            ndVCenter := (if ndVCenter n = [] then reVCenter r else ndVCenter n)\<rparr>
      in case addRecord \<lparr>rcNode = n, rcKind = kind, rcKeys = uniqueLower keys,
              rcWeak = weakKey kind (ndContext n) (ndName n) [], rcNetwork = no_identity, rcLocal = False,
              rcEligible = True, rcReconstructed = False\<rparr> g of
           (i, g) \<Rightarrow> (i, addContainment i g))"

definition fillLocation :: "resource \<Rightarrow> location \<Rightarrow> string \<Rightarrow> string \<Rightarrow> string \<Rightarrow> node" where
  "fillLocation r l kind name ident =
     \<lparr>ndKind = kind, ndName = name, ndID = ident,
      ndContext = (if loContext l = [] then reContext r else loContext l), ndVCenter = reVCenter r,
      ndDatacenter = loDatacenter l, ndPath = loPath l\<rparr>"

definition update_record :: "nat \<Rightarrow> (node_record \<Rightarrow> node_record) \<Rightarrow> graph \<Rightarrow> graph" where
  "update_record i f g = g\<lparr>grRecords := (grRecords g)[i := f (grRecords g ! i)]\<rparr>"

definition addResource :: "resource \<Rightarrow> graph \<Rightarrow> graph" where
  "addResource r g =
     (if reKind r = KindHost then
        (case decode_host r of None \<Rightarrow> g
         | Some v \<Rightarrow> snd (add_object r KindHost (fillLocation r (hoLocation v) KindHost (hoName v) (hoID v)) [] g))
      else if reKind r = KindCluster then
        (case decode_cluster r of None \<Rightarrow> g
         | Some v \<Rightarrow> snd (add_object r KindCluster (fillLocation r (cuLocation v) KindCluster (cuName v) (cuID v)) [] g))
      else if reKind r = KindDatastore then
        (case decode_datastore r of None \<Rightarrow> g
         | Some v \<Rightarrow>
             (case add_object r KindDatastore (fillLocation r (daLocation v) KindDatastore (daName v) (daID v))
                     (IdentityKeys (daBacking v)) g of
                (i, g) \<Rightarrow> update_record i (\<lambda>x. x\<lparr>rcLocal := bkLocal (daBacking v)\<rparr>) g))
      else if reKind r = KindResourcePool then
        (case decode_pool r of None \<Rightarrow> g
         | Some v \<Rightarrow> snd (add_object r KindResourcePool (fillLocation r (rpLocation v) KindResourcePool (rpName v) (rpID v)) [] g))
      else if reKind r = KindDVSwitch then
        (case decode_dvswitch r of None \<Rightarrow> g
         | Some v \<Rightarrow>
             (case add_object r KindDVSwitch (fillLocation r (dsLocation v) KindDVSwitch (dsName v) (dsID v))
                     (if dsUUID v \<noteq> [] then [''dvswitch:'' @ norm (dsUUID v)] else []) g of
                (i, g) \<Rightarrow> update_record i (\<lambda>x. x\<lparr>rcNetwork := (rcNetwork x)\<lparr>idSwitch := dsUUID v\<rparr>\<rparr>) g))
      else if reKind r = KindNetwork then
        (case decode_network r of None \<Rightarrow> g
         | Some v \<Rightarrow>
             (let n = fillLocation r (noLocation v) KindNetwork (noName v) (noID v)
              in case add_object r KindNetwork n [] g of
                   (i, g) \<Rightarrow> update_record i (\<lambda>x. x\<lparr>rcNetwork := (rcNetwork x)\<lparr>idVLAN := noVLAN v\<rparr>,
                      rcWeak := weakKey KindNetwork (ndContext n) (ndName n) (noVLAN v)\<rparr>) g))
      else g)"

definition observed_context :: "observation \<Rightarrow> string" where
  "observed_context o1 = (if obContext o1 = [] then loContext (vmLocation (obVM o1)) else obContext o1)"

definition uuid_keys :: "vm \<Rightarrow> string list" where
  "uuid_keys v = key_of ''instance-uuid:'' (vmInstanceUUID v) @ key_of ''bios-uuid:'' (vmBIOSUUID v)"

definition addVM :: "observation \<Rightarrow> graph \<Rightarrow> graph" where
  "addVM o1 g =
     (let v = obVM o1; ctx = observed_context o1; kind = (if vmIsTemplate v then KindTemplate else KindVM);
          n = \<lparr>ndKind = kind, ndName = vmName v, ndID = vmID v, ndContext = ctx, ndVCenter = obVCenter o1,
               ndDatacenter = loDatacenter (vmLocation v), ndPath = loPath (vmLocation v)\<rparr>
      in case addRecord \<lparr>rcNode = n, rcKind = kind, rcKeys = uniqueLower (uuid_keys v), rcWeak = weakKey kind ctx (vmName v) [],
              rcNetwork = no_identity, rcLocal = False, rcEligible = True, rcReconstructed = False\<rparr> g of
           (i, g) \<Rightarrow> addContainment i g)"

section \<open>The observation behind a record\<close>

datatype observed = ObsRes payload | ObsVM vm

definition decode_kind :: "resource \<Rightarrow> payload option" where
  "decode_kind r =
     (if reKind r = KindHost then map_option PHost (decode_host r)
      else if reKind r = KindCluster then map_option PCluster (decode_cluster r)
      else if reKind r = KindDatastore then map_option PDatastore (decode_datastore r)
      else if reKind r = KindResourcePool then map_option PPool (decode_pool r)
      else if reKind r = KindDVSwitch then map_option PDVSwitch (decode_dvswitch r)
      else if reKind r = KindNetwork then map_option PNetwork (decode_network r)
      else None)"

definition about_record :: "node_record \<Rightarrow> resource \<Rightarrow> bool" where
  "about_record x r \<longleftrightarrow> reKind r = rcKind x \<and> equal_fold (reContext r) (ndContext (rcNode x)) \<and>
     \<not> (reID r \<noteq> [] \<and> ndID (rcNode x) \<noteq> [] \<and> \<not> equal_fold (reID r) (ndID (rcNode x))) \<and>
     \<not> (reName r \<noteq> [] \<and> ndName (rcNode x) \<noteq> [] \<and> \<not> equal_fold (reName r) (ndName (rcNode x)))"

fun first_some :: "('a \<Rightarrow> 'b option) \<Rightarrow> 'a list \<Rightarrow> 'b option" where
  "first_some f [] = None"
| "first_some f (x # xs) = (case f x of Some y \<Rightarrow> Some y | None \<Rightarrow> first_some f xs)"

definition vm_of_record :: "node_record \<Rightarrow> observation \<Rightarrow> vm option" where
  "vm_of_record x o1 =
     (if observed_context o1 = ndContext (rcNode x) \<and> vmID (obVM o1) = ndID (rcNode x) \<and>
         vmName (obVM o1) = ndName (rcNode x) then Some (obVM o1) else None)"

definition resourceValue :: "nat \<Rightarrow> graph \<Rightarrow> observed option" where
  "resourceValue i g =
     (let x = grRecords g ! i
      in case first_some (\<lambda>r. if about_record x r then decode_kind r else None) (exResources (grData g)) of
           Some p \<Rightarrow> Some (ObsRes p)
         | None \<Rightarrow> map_option ObsVM (first_some (vm_of_record x) (exVMs (grData g))))"

section \<open>Derived networks\<close>

definition addNetworkRecord :: "node \<Rightarrow> net_identity \<Rightarrow> bool \<Rightarrow> graph \<Rightarrow> nat \<times> graph" where
  "addNetworkRecord n ident reconstructed g =
     (length (grRecords g),
      g\<lparr>grRecords := grRecords g @ [\<lparr>rcNode = n, rcKind = KindNetwork, rcKeys = uniqueLower (idKeys ident),
           rcWeak = weakKey KindNetwork (ndContext n) (ndName n) (idVLAN ident), rcNetwork = ident, rcLocal = False,
           rcEligible = True, rcReconstructed = reconstructed\<rparr>],
        grLegacy := (if reconstructed then grLegacy g @ [ndContext n] else grLegacy g)\<rparr>)"

definition derived_node :: "node \<Rightarrow> string \<Rightarrow> string \<Rightarrow> node" where
  "derived_node p name ident =
     \<lparr>ndKind = KindNetwork, ndName = name, ndID = ident, ndContext = ndContext p, ndVCenter = ndVCenter p,
      ndDatacenter = ndDatacenter p, ndPath = ndPath p @ ''/'' @ name\<rparr>"

definition with_keys :: "net_identity \<Rightarrow> net_identity" where
  "with_keys i = i\<lparr>idKeys := networkKeys i\<rparr>"

definition add_dv_port_group :: "nat \<Rightarrow> node \<Rightarrow> dvswitch \<Rightarrow> dv_port_group \<Rightarrow> graph \<Rightarrow> graph" where
  "add_dv_port_group parent p sw pg g =
     (let ident = with_keys (no_identity\<lparr>idPortGroup := dpKey pg, idSwitch := dsUUID sw, idLogicalSwitch := dpLogicalSwitch pg,
            idSegment := dpSegment pg, idVLAN := dpVLAN pg\<rparr>)
      in case addNetworkRecord (derived_node p (dpName pg) (dpID pg)) ident (grSchema g < 12) g of
           (i, g) \<Rightarrow> push_edge (plain_edge parent i Contains BasisMoref EdgeConfirmed (dpKey pg)) g)"

definition add_host_port_group :: "nat \<Rightarrow> node \<Rightarrow> host_port_group \<Rightarrow> graph \<Rightarrow> graph" where
  "add_host_port_group parent p pg g =
     (let ident = no_identity\<lparr>idPortGroup := hpKey pg, idVLAN := itoa (hpVLAN pg)\<rparr>
      in case addNetworkRecord (derived_node p (hpName pg) (hpKey pg)) ident (grSchema g < 12) g of
           (i, g) \<Rightarrow> push_edge (plain_edge parent i Presents BasisName EdgeInferred (itoa (hpVLAN pg))) g)"

definition addDerivedNetworks :: "nat \<Rightarrow> graph \<Rightarrow> graph" where
  "addDerivedNetworks parent g =
     (let x = grRecords g ! parent
      in if rcKind x = KindDVSwitch then
           (case resourceValue parent g of
              Some (ObsRes (PDVSwitch sw)) \<Rightarrow> fold (add_dv_port_group parent (rcNode x) sw) (dsPortGroups sw) g
            | _ \<Rightarrow> g)
         else if rcKind x = KindHost then
           (case resourceValue parent g of
              Some (ObsRes (PHost h)) \<Rightarrow> fold (add_host_port_group parent (rcNode x)) (hoPortGroups h) g
            | _ \<Rightarrow> g)
         else g)"

definition add_legacy_nic :: "nat \<Rightarrow> vm_nic \<Rightarrow> graph \<Rightarrow> graph" where
  "add_legacy_nic parent nic g =
     (let name = (if niNetwork nic = [] then niNetworkID nic else niNetwork nic); p = rec_node g parent
      in if name = [] then g
         else snd (addNetworkRecord \<lparr>ndKind = KindNetwork, ndName = name, ndID = [], ndContext = ndContext p,
                 ndVCenter = ndVCenter p, ndDatacenter = ndDatacenter p, ndPath = []\<rparr>
               (with_keys (no_identity\<lparr>idPortGroup := niNetworkID nic, idSwitch := niSwitchID nic\<rparr>)) True g))"

definition addLegacyVMNetworks :: "nat \<Rightarrow> graph \<Rightarrow> graph" where
  "addLegacyVMNetworks parent g =
     (case resourceValue parent g of
        Some (ObsVM v) \<Rightarrow> fold (add_legacy_nic parent) (vmNICs v) g
      | _ \<Rightarrow> g)"

section \<open>The first phase\<close>

definition empty_graph :: "export_data \<Rightarrow> graph" where
  "empty_graph d =
     \<lparr>grData = d, grRecords = [], grEdges = [], grUnresolved = (\<lambda>_. []), grSubjects = [], grNodeSubject = [],
      grIncoming = (\<lambda>_. []), grOutgoing = (\<lambda>_. []), grContexts = sort (map ctName (exContexts d)),
      grSchema = inventorySchema (ruSchema (exRun d)), grLegacy = []\<rparr>"

definition observe :: "export_data \<Rightarrow> graph" where
  "observe d = fold addVM (exVMs d) (fold addResource (exResources d) (empty_graph d))"

definition derive_networks :: "graph \<Rightarrow> graph" where
  "derive_networks g =
     fold (\<lambda>i g. if rcEligible (grRecords g ! i) then addDerivedNetworks i g else g) [0..<length (grRecords g)] g"

definition legacy_networks :: "graph \<Rightarrow> graph" where
  "legacy_networks g =
     (if grSchema g < 12
      then fold (\<lambda>i g. if rcKind (grRecords g ! i) = KindVM \<and> rcEligible (grRecords g ! i) then addLegacyVMNetworks i g else g)
             [0..<length (grRecords g)] g
      else g)"

definition build_records :: "export_data \<Rightarrow> graph" where
  "build_records d = legacy_networks (derive_networks (observe d))"

end
