(* ===== verification/UnionFind.thy ===== *)
theory UnionFind
  imports Main
begin

text \<open>
  The disjoint sets of internal/topology/graph.go: an array of parents with path compression and an array
  of ranks. The recursion of \<open>find\<close> ends because the forest has no cycle; the model gives it as much fuel
  as there are elements, and the invariant \<open>forest\<close> shows that it is enough. The locale \<open>disjoint_sets\<close>
  states what a client may rely on: after a series of unions two elements are in the same set just when a
  chain of the united pairs links them.
\<close>

section \<open>The code\<close>

record disjoint_set =
  djParent :: "nat list"
  djRank :: "nat list"

definition newDisjointSet :: "nat \<Rightarrow> disjoint_set" where
  "newDisjointSet n = \<lparr>djParent = [0..<n], djRank = replicate n 0\<rparr>"

text \<open>\<open>find\<close> returns the root and the parents with the path to it compressed.\<close>

fun find_root :: "nat \<Rightarrow> nat list \<Rightarrow> nat \<Rightarrow> nat \<times> nat list" where
  "find_root 0 p x = (x, p)"
| "find_root (Suc fuel) p x =
     (if p ! x \<noteq> x then (case find_root fuel p (p ! x) of (r, p') \<Rightarrow> (r, p'[x := r])) else (x, p))"

definition dj_find :: "disjoint_set \<Rightarrow> nat \<Rightarrow> nat \<times> disjoint_set" where
  "dj_find d x = (case find_root (length (djParent d)) (djParent d) x of (r, p) \<Rightarrow> (r, d\<lparr>djParent := p\<rparr>))"

definition dj_union :: "disjoint_set \<Rightarrow> nat \<Rightarrow> nat \<Rightarrow> disjoint_set" where
  "dj_union d a b =
     (case dj_find d a of (a, d) \<Rightarrow>
      case dj_find d b of (b, d) \<Rightarrow>
        if a = b then d
        else (let (a, b) = (if djRank d ! a < djRank d ! b then (b, a) else (a, b));
                  d = d\<lparr>djParent := (djParent d)[b := a]\<rparr>
              in if djRank d ! a = djRank d ! b then d\<lparr>djRank := (djRank d)[a := djRank d ! a + 1]\<rparr> else d))"

section \<open>The forest\<close>

definition roots :: "nat list \<Rightarrow> nat set" where
  "roots p = {x. x < length p \<and> p ! x = x}"

text \<open>
  \<open>height_ok p h\<close>: \<open>h\<close> grows away from the roots, and every union leaves room for one more level.
\<close>

definition height_ok :: "nat list \<Rightarrow> (nat \<Rightarrow> nat) \<Rightarrow> bool" where
  "height_ok p h \<longleftrightarrow> (\<forall>x < length p. p ! x < length p \<and> (p ! x = x \<longrightarrow> h x = 0) \<and>
     (p ! x \<noteq> x \<longrightarrow> h (p ! x) < h x) \<and> h x + card (roots p) \<le> length p)"

definition forest :: "nat list \<Rightarrow> bool" where
  "forest p \<longleftrightarrow> (\<exists>h. height_ok p h)"

definition rep :: "nat list \<Rightarrow> nat \<Rightarrow> nat" where
  "rep p x = fst (find_root (length p) p x)"

lemma finite_roots [simp]: "finite (roots p)"
  by (rule finite_subset [of _ "{..<length p}"]) (auto simp: roots_def)

lemma height_bound: "height_ok p h \<Longrightarrow> x < length p \<Longrightarrow> h x \<le> length p"
  by (auto simp: height_ok_def)

text \<open>
  The root of an element is the same for every fuel that is at least its height.
\<close>

fun climb :: "nat \<Rightarrow> nat list \<Rightarrow> nat \<Rightarrow> nat" where
  "climb 0 p x = x"
| "climb (Suc fuel) p x = (if p ! x \<noteq> x then climb fuel p (p ! x) else x)"

lemma fst_find_root: "fst (find_root fuel p x) = climb fuel p x"
  by (induction fuel p x rule: climb.induct) (auto split: prod.splits)

lemma rep_climb: "rep p x = climb (length p) p x"
  by (simp add: rep_def fst_find_root)

lemma climb_root:
  "height_ok p h \<Longrightarrow> x < length p \<Longrightarrow> h x \<le> fuel \<Longrightarrow>
   climb fuel p x < length p \<and> p ! climb fuel p x = climb fuel p x \<and> climb fuel p x = climb (h x) p x"
proof (induction "h x" arbitrary: x fuel rule: less_induct)
  case less
  show ?case
  proof (cases "p ! x = x")
    case True
    then show ?thesis using less.prems by (cases fuel; cases "h x") auto
  next
    case False
    with less.prems have lt: "h (p ! x) < h x" and px: "p ! x < length p" by (auto simp: height_ok_def)
    with less.prems obtain f n where f: "fuel = Suc f" and n: "h x = Suc n" by (cases fuel; cases "h x") auto
    have a: "h (p ! x) \<le> f" and b: "h (p ! x) \<le> n" using lt less.prems f n by auto
    have "climb fuel p x = climb f p (p ! x)" "climb (h x) p x = climb n p (p ! x)" using False f n by simp_all
    then show ?thesis using less.hyps [OF lt less.prems(1) px a] less.hyps [OF lt less.prems(1) px b] by metis
  qed
qed

lemma rep_root:
  assumes "forest p" and "x < length p"
  shows "rep p x < length p" and "p ! rep p x = rep p x"
  using assms climb_root [of p _ x "length p"] height_bound by (auto simp: forest_def rep_climb)

lemma rep_fix: "forest p \<Longrightarrow> p ! x = x \<Longrightarrow> rep p x = x"
  by (cases p) (auto simp: rep_climb)

lemma rep_parent:
  assumes "forest p" and "x < length p"
  shows "rep p (p ! x) = rep p x"
proof (cases "p ! x = x")
  case False
  obtain h where h: "height_ok p h" using assms(1) by (auto simp: forest_def)
  with assms False have px: "p ! x < length p" "h (p ! x) < h x" by (auto simp: height_ok_def)
  obtain m where m: "length p = Suc m" using assms(2) by (cases "length p") auto
  have "h (p ! x) \<le> m" using px height_bound [OF h assms(2)] m by simp
  then have "climb m p (p ! x) = climb (length p) p (p ! x)"
    using climb_root [OF h px(1)] height_bound [OF h px(1)] by metis
  then show ?thesis using False m by (simp add: rep_climb)
qed simp

text \<open>A function that is constant along parents and the identity on roots is the root function.\<close>

lemma rep_unique:
  assumes "forest p" and "x < length p"
    and "\<And>y. y < length p \<Longrightarrow> f (p ! y) = f y" and "\<And>y. y < length p \<Longrightarrow> p ! y = y \<Longrightarrow> f y = g y"
  shows "f x = g (rep p x)"
proof -
  obtain h where h: "height_ok p h" using assms(1) by (auto simp: forest_def)
  have "f y = g (rep p y)" if "y < length p" for y
    using that
  proof (induction "h y" arbitrary: y rule: less_induct)
    case less
    show ?case
    proof (cases "p ! y = y")
      case True
      then show ?thesis using assms(4) [OF less.prems] rep_fix [OF assms(1) True] by simp
    next
      case False
      with h less.prems have "h (p ! y) < h y" "p ! y < length p" by (auto simp: height_ok_def)
      from less.hyps [OF this] show ?thesis
        using assms(3) [OF less.prems] rep_parent [OF assms(1) less.prems] by simp
    qed
  qed
  then show ?thesis using assms(2) by simp
qed

text \<open>Compressing one step: pointing an element at its root keeps the forest and every root.\<close>

lemma compress_step:
  assumes f: "forest p" and x: "x < length p"
  shows "forest (p[x := rep p x]) \<and> (\<forall>y < length p. rep (p[x := rep p x]) y = rep p y) \<and>
    roots (p[x := rep p x]) = roots p"
proof (cases "p ! x = x")
  case True
  then have "p[x := rep p x] = p" using rep_fix [OF f True] by (metis list_update_id)
  then show ?thesis using f by simp
next
  case False
  let ?r = "rep p x" and ?q = "p[x := rep p x]"
  obtain h where h: "height_ok p h" using f by (auto simp: forest_def)
  have r: "?r < length p" "p ! ?r = ?r" using rep_root [OF f x] by auto
  have nx: "?r \<noteq> x" using r False by metis
  have rts: "roots ?q = roots p" using r nx False x by (auto simp: roots_def nth_list_update split: if_splits)
  have "h ?r = 0" using h r by (auto simp: height_ok_def)
  moreover have "0 < h x" using h x False by (fastforce simp: height_ok_def)
  ultimately have "height_ok ?q h"
    using h x r nx unfolding height_ok_def rts by (auto simp: nth_list_update)
  then have q: "forest ?q" by (auto simp: forest_def)
  have "rep p y = rep ?q y" if y: "y < length p" for y
  proof -
    have "rep p y = id (rep ?q y)"
      by (rule rep_unique [OF q])
        (use y x r nx rep_parent [OF f] rep_fix [OF f] in \<open>auto simp: nth_list_update split: if_splits\<close>)
    then show ?thesis by simp
  qed
  then show ?thesis using q rts by simp
qed

lemma find_root_ok:
  assumes "forest p" and "x < length p"
  shows "fst (find_root (length p) p x) = rep p x" and "forest (snd (find_root (length p) p x))"
    and "length (snd (find_root (length p) p x)) = length p"
    and "\<forall>y < length p. rep (snd (find_root (length p) p x)) y = rep p y"
    and "roots (snd (find_root (length p) p x)) = roots p"
proof -
  obtain h where h: "height_ok p h" using assms(1) by (auto simp: forest_def)
  have "let q = snd (find_root fuel p x) in forest q \<and> length q = length p \<and> (\<forall>y < length p. rep q y = rep p y) \<and>
      roots q = roots p \<and> fst (find_root fuel p x) = rep p x"
    if "h x \<le> fuel" "x < length p" for fuel x
    using that
  proof (induction fuel arbitrary: x)
    case 0
    then have "p ! x = x" using h by (fastforce simp: height_ok_def)
    then show ?case using assms(1) rep_fix by simp
  next
    case (Suc fuel)
    show ?case
    proof (cases "p ! x = x")
      case True
      then show ?thesis using assms(1) rep_fix by simp
    next
      case False
      with h Suc.prems have px: "h (p ! x) \<le> fuel" "p ! x < length p" by (fastforce simp: height_ok_def)+
      obtain r q where q: "find_root fuel p (p ! x) = (r, q)" by fastforce
      from Suc.IH [OF px] have IH: "forest q" "length q = length p" "\<forall>y < length p. rep q y = rep p y"
          "roots q = roots p" "r = rep p (p ! x)" by (auto simp: q Let_def)
      have r: "r = rep q x" using IH rep_parent [OF assms(1) Suc.prems(2)] Suc.prems(2) by simp
      have x: "x < length q" using IH Suc.prems by simp
      show ?thesis using compress_step [OF IH(1) x] IH False rep_parent [OF assms(1) Suc.prems(2)]
        by (simp add: q r [symmetric] Let_def)
    qed
  qed
  from this [OF height_bound [OF h assms(2)] assms(2)]
  show "fst (find_root (length p) p x) = rep p x" "forest (snd (find_root (length p) p x))"
    "length (snd (find_root (length p) p x)) = length p"
    "\<forall>y < length p. rep (snd (find_root (length p) p x)) y = rep p y"
    "roots (snd (find_root (length p) p x)) = roots p"
    by (simp_all add: Let_def)
qed

text \<open>Linking one root below another joins their two trees and nothing else.\<close>

lemma link_roots:
  assumes f: "forest p" and ab: "a \<in> roots p" "b \<in> roots p" "a \<noteq> b"
  shows "forest (p[b := a])" and "\<And>x. x < length p \<Longrightarrow> rep (p[b := a]) x = (if rep p x = b then a else rep p x)"
proof -
  let ?q = "p[b := a]"
  obtain h where h: "height_ok p h" using f by (auto simp: forest_def)
  have l: "a < length p" "b < length p" "p ! a = a" "p ! b = b" using ab by (auto simp: roots_def)
  have rts: "roots ?q = roots p - {b}" using l ab(3) by (auto simp: roots_def nth_list_update)
  have c: "card (roots p) = Suc (card (roots ?q))"
    unfolding rts using card_Suc_Diff1 [OF finite_roots ab(2)] by simp
  let ?h = "\<lambda>x. if rep p x = b then Suc (h x) else h x"
  have ra: "rep p a = a" "rep p b = b" using rep_fix [OF f] l by auto
  have "?q ! x < length ?q \<and> (?q ! x = x \<longrightarrow> ?h x = 0) \<and> (?q ! x \<noteq> x \<longrightarrow> ?h (?q ! x) < ?h x) \<and>
      ?h x + card (roots ?q) \<le> length ?q" if x: "x < length ?q" for x
  proof -
    have hx: "p ! x < length p" "p ! x = x \<longrightarrow> h x = 0" "p ! x \<noteq> x \<longrightarrow> h (p ! x) < h x"
      "h x + card (roots p) \<le> length p" using h x by (auto simp: height_ok_def)
    have "h a = 0" using h l by (auto simp: height_ok_def)
    moreover have "rep p (p ! x) = rep p x" using rep_parent [OF f] x by simp
    ultimately show ?thesis using hx l ab(3) ra c rep_fix [OF f, of x] by (cases "x = b") (auto simp: nth_list_update)
  qed
  then have "height_ok ?q ?h" by (auto simp: height_ok_def)
  then show q: "forest ?q" unfolding forest_def by blast
  show "rep ?q x = (if rep p x = b then a else rep p x)" if "x < length p" for x
  proof -
    have "(\<lambda>x. if rep p x = b then a else rep p x) x = id (rep ?q x)"
    proof (rule rep_unique [OF q])
      show "x < length ?q" using that by simp
      show "(if rep p (?q ! y) = b then a else rep p (?q ! y)) = (if rep p y = b then a else rep p y)"
        if "y < length ?q" for y
        using that l ab(3) ra rep_parent [OF f, of y] by (cases "y = b") (auto simp: nth_list_update)
      show "(if rep p y = b then a else rep p y) = id y" if "y < length ?q" "?q ! y = y" for y
        using that l ab(3) ra rep_fix [OF f, of y] by (cases "y = b") (auto simp: nth_list_update)
    qed
    then show ?thesis by simp
  qed
qed

section \<open>What the clients rely on\<close>

definition dj_ok :: "disjoint_set \<Rightarrow> bool" where
  "dj_ok d \<longleftrightarrow> forest (djParent d) \<and> length (djRank d) = length (djParent d)"

definition dj_size :: "disjoint_set \<Rightarrow> nat" where
  "dj_size d = length (djParent d)"

definition dj_same :: "disjoint_set \<Rightarrow> nat \<Rightarrow> nat \<Rightarrow> bool" where
  "dj_same d x y \<longleftrightarrow> rep (djParent d) x = rep (djParent d) y"

lemma new_ok: "dj_ok (newDisjointSet n)" "dj_size (newDisjointSet n) = n"
proof -
  have "height_ok [0..<n] (\<lambda>_. 0)"
    unfolding height_ok_def
  proof (intro allI impI conjI)
    fix x assume "x < length [0..<n]"
    then show "0 + card (roots [0..<n]) \<le> length [0..<n]"
      using card_mono [of "{..<n}" "roots [0..<n]"] by (auto simp: roots_def)
  qed auto
  then show "dj_ok (newDisjointSet n)" "dj_size (newDisjointSet n) = n"
    by (auto simp: dj_ok_def forest_def newDisjointSet_def dj_size_def)
qed

lemma new_same: "x < n \<Longrightarrow> y < n \<Longrightarrow> dj_same (newDisjointSet n) x y \<longleftrightarrow> x = y"
proof -
  have "rep [0..<n] x = x" if "x < n" for x
    using that new_ok(1) [of n] by (intro rep_fix) (auto simp: dj_ok_def newDisjointSet_def)
  then show "x < n \<Longrightarrow> y < n \<Longrightarrow> dj_same (newDisjointSet n) x y \<longleftrightarrow> x = y"
    by (simp add: dj_same_def newDisjointSet_def)
qed

lemma find_ok:
  assumes "dj_ok d" and "x < dj_size d" and "dj_find d x = (r, d')"
  shows "dj_ok d'" and "dj_size d' = dj_size d" and "r = rep (djParent d) x"
    and "\<And>y. y < dj_size d \<Longrightarrow> rep (djParent d') y = rep (djParent d) y" and "roots (djParent d') = roots (djParent d)"
    and "djRank d' = djRank d"
  using assms find_root_ok [of "djParent d" x] by (auto simp: dj_find_def dj_ok_def dj_size_def split: prod.splits)

lemma find_same:
  assumes "dj_ok d" and "x < dj_size d" and "dj_find d x = (r, d')" and "y < dj_size d" and "z < dj_size d"
  shows "dj_same d' y z \<longleftrightarrow> dj_same d y z"
  using find_ok(4) [OF assms(1-3)] assms(4,5) by (simp add: dj_same_def)

lemma union_ok:
  assumes d: "dj_ok d" and a: "a < dj_size d" and b: "b < dj_size d"
  shows "dj_ok (dj_union d a b)" and "dj_size (dj_union d a b) = dj_size d"
    and "\<And>x y. x < dj_size d \<Longrightarrow> y < dj_size d \<Longrightarrow>
      dj_same (dj_union d a b) x y \<longleftrightarrow> dj_same d x y \<or> dj_same d x a \<and> dj_same d b y \<or> dj_same d x b \<and> dj_same d a y"
proof -
  obtain ra d1 where f1: "dj_find d a = (ra, d1)" by fastforce
  note o1 = find_ok [OF d a f1]
  have b1: "b < dj_size d1" using b o1 by simp
  obtain rb d2 where f2: "dj_find d1 b = (rb, d2)" by fastforce
  note o2 = find_ok [OF o1(1) b1 f2]
  have ra: "ra = rep (djParent d) a" and rb: "rb = rep (djParent d) b" using o1 o2 b by simp_all
  have rep2: "rep (djParent d2) x = rep (djParent d) x" if "x < dj_size d" for x using that o1 o2 by simp
  have f: "forest (djParent d)" using d by (simp add: dj_ok_def)
  have r: "ra \<in> roots (djParent d2)" "rb \<in> roots (djParent d2)"
    unfolding o2(5) o1(5) ra rb using rep_root [OF f, of a] rep_root [OF f, of b] a b by (simp_all add: roots_def dj_size_def)
  have f2': "forest (djParent d2)" using o2(1) by (simp add: dj_ok_def)
  define s where "s = (if djRank d2 ! ra < djRank d2 ! rb then (rb, ra) else (ra, rb))"
  have u: "djParent (dj_union d a b) = (if ra = rb then djParent d2 else (djParent d2)[snd s := fst s])"
    "length (djRank (dj_union d a b)) = length (djRank d2)"
    by (auto simp: dj_union_def f1 f2 s_def Let_def)
  have s: "fst s \<in> roots (djParent d2)" "snd s \<in> roots (djParent d2)" "ra \<noteq> rb \<Longrightarrow> fst s \<noteq> snd s"
      "{fst s, snd s} = {ra, rb}"
    using r by (auto simp: s_def)
  have sz: "dj_size d2 = dj_size d" using o1 o2 by simp
  show "dj_ok (dj_union d a b)"
    using link_roots(1) [OF f2' s(1,2)] s(3) u f2' o2(1) by (auto simp: dj_ok_def)
  show "dj_size (dj_union d a b) = dj_size d" using u sz by (simp add: dj_size_def)
  fix x y assume xy: "x < dj_size d" "y < dj_size d"
  show "dj_same (dj_union d a b) x y \<longleftrightarrow> dj_same d x y \<or> dj_same d x a \<and> dj_same d b y \<or> dj_same d x b \<and> dj_same d a y"
  proof (cases "ra = rb")
    case True
    then show ?thesis using u rep2 xy ra rb by (auto simp: dj_same_def)
  next
    case False
    have "rep (djParent (dj_union d a b)) z = (if rep (djParent d) z = snd s then fst s else rep (djParent d) z)"
      if "z < dj_size d" for z
      using link_roots(2) [OF f2' s(1,2) s(3) [OF False], of z] rep2 [OF that] that u False sz by (simp add: dj_size_def)
    then have j: "dj_same (dj_union d a b) x y \<longleftrightarrow>
        (if rep (djParent d) x = snd s then fst s else rep (djParent d) x) =
        (if rep (djParent d) y = snd s then fst s else rep (djParent d) y)"
      using xy by (simp only: dj_same_def)
    have "s = (ra, rb) \<or> s = (rb, ra)" by (simp add: s_def)
    then show ?thesis unfolding j unfolding dj_same_def ra [symmetric] rb [symmetric] using False by (elim disjE) auto
  qed
qed

section \<open>The interface\<close>

definition linked :: "(nat \<times> nat) set \<Rightarrow> nat \<Rightarrow> nat \<Rightarrow> bool" where
  "linked E x y \<longleftrightarrow> (x, y) \<in> (E \<union> E\<inverse>)\<^sup>*"

lemma linked_refl [simp]: "linked E x x"
  by (simp add: linked_def)

lemma linked_sym: "linked E x y \<Longrightarrow> linked E y x"
  unfolding linked_def by (metis sym_Un_converse sym_rtrancl symE)

lemma linked_trans: "linked E x y \<Longrightarrow> linked E y z \<Longrightarrow> linked E x z"
  unfolding linked_def by (rule rtrancl_trans)

lemma linked_edge: "(x, y) \<in> E \<Longrightarrow> linked E x y"
  unfolding linked_def by blast

lemma linked_mono: "linked E x y \<Longrightarrow> E \<subseteq> F \<Longrightarrow> linked F x y"
  unfolding linked_def by (erule rtrancl_mono [THEN subsetD, rotated]) auto

lemma linked_least:
  assumes "linked E x y" and "\<And>x. Q x x" and "\<And>x y z. Q x y \<Longrightarrow> Q y z \<Longrightarrow> Q x z"
    and "\<And>x y. (x, y) \<in> E \<Longrightarrow> Q x y \<and> Q y x"
  shows "Q x y"
  using assms(1) unfolding linked_def
  by (induction rule: rtrancl_induct) (use assms(2-4) in blast)+

locale disjoint_sets =
  fixes ok :: "'s \<Rightarrow> bool" and size_of :: "'s \<Rightarrow> nat" and same :: "'s \<Rightarrow> nat \<Rightarrow> nat \<Rightarrow> bool"
    and join :: "'s \<Rightarrow> nat \<Rightarrow> nat \<Rightarrow> 's"
  assumes same_refl: "same s x x"
    and same_sym: "same s x y \<Longrightarrow> same s y x"
    and same_trans: "same s x y \<Longrightarrow> same s y z \<Longrightarrow> same s x z"
    and join_ok: "ok s \<Longrightarrow> a < size_of s \<Longrightarrow> b < size_of s \<Longrightarrow> ok (join s a b) \<and> size_of (join s a b) = size_of s"
    and join_same: "ok s \<Longrightarrow> a < size_of s \<Longrightarrow> b < size_of s \<Longrightarrow> x < size_of s \<Longrightarrow> y < size_of s \<Longrightarrow>
      same (join s a b) x y \<longleftrightarrow> same s x y \<or> same s x a \<and> same s b y \<or> same s x b \<and> same s a y"
begin

definition join_all :: "(nat \<times> nat) list \<Rightarrow> 's \<Rightarrow> 's" where
  "join_all ps s = fold (\<lambda>(a, b) s. join s a b) ps s"

lemma join_all_ok:
  "ok s \<Longrightarrow> (\<And>a b. (a, b) \<in> set ps \<Longrightarrow> a < size_of s \<and> b < size_of s) \<Longrightarrow>
   ok (join_all ps s) \<and> size_of (join_all ps s) = size_of s"
proof (induction ps arbitrary: s)
  case (Cons p ps)
  obtain a b where p: "p = (a, b)" by fastforce
  have j: "ok (join s a b)" "size_of (join s a b) = size_of s"
    using join_ok [OF Cons.prems(1), of a b] Cons.prems(2) [of a b] p by auto
  show ?case using Cons.IH [OF j(1)] Cons.prems(2) j(2) p by (auto simp: join_all_def)
qed (simp add: join_all_def)

lemma join_same_linked:
  assumes ok: "ok s" and ab: "a < size_of s" "b < size_of s"
    and E: "\<And>x y. x < size_of s \<Longrightarrow> y < size_of s \<Longrightarrow> same s x y \<longleftrightarrow> linked E x y"
    and xy: "x < size_of s" "y < size_of s"
  shows "same (join s a b) x y \<longleftrightarrow> linked (insert (a, b) E) x y"
proof
  let ?F = "insert (a, b) E"
  have F: "linked ?F a b" "linked ?F b a" by (auto intro: linked_edge linked_sym)
  have EF: "linked ?F u v" if "same s u v" "u < size_of s" "v < size_of s" for u v
    using that E linked_mono [of E u v ?F] by auto
  assume "same (join s a b) x y"
  then show "linked ?F x y"
    unfolding join_same [OF ok ab xy] using EF ab xy F by (meson linked_trans)
next
  let ?J = "\<lambda>x y. linked E x y \<or> linked E x a \<and> linked E b y \<or> linked E x b \<and> linked E a y"
  assume "linked (insert (a, b) E) x y"
  then have "?J x y"
  proof (rule linked_least)
    show "\<And>x y z. ?J x y \<Longrightarrow> ?J y z \<Longrightarrow> ?J x z" by (meson linked_trans linked_sym)
    show "\<And>x y. (x, y) \<in> insert (a, b) E \<Longrightarrow> ?J x y \<and> ?J y x" by (auto intro: linked_edge linked_sym)
  qed simp
  then show "same (join s a b) x y" unfolding join_same [OF ok ab xy] using E ab xy by simp
qed

text \<open>After a series of unions two elements are in one set just when the united pairs link them.\<close>

theorem join_all_same:
  assumes "ok s" and "\<And>a b. (a, b) \<in> set ps \<Longrightarrow> a < size_of s \<and> b < size_of s"
    and "\<And>x y. x < size_of s \<Longrightarrow> y < size_of s \<Longrightarrow> same s x y \<longleftrightarrow> linked E x y"
    and "x < size_of s" and "y < size_of s"
  shows "same (join_all ps s) x y \<longleftrightarrow> linked (set ps \<union> E) x y"
  using assms
proof (induction ps arbitrary: s E)
  case (Cons p ps)
  obtain a b where p: "p = (a, b)" by fastforce
  have ab: "a < size_of s" "b < size_of s" using Cons.prems(2) p by auto
  have j: "ok (join s a b)" "size_of (join s a b) = size_of s" using join_ok [OF Cons.prems(1) ab] by auto
  have E: "same (join s a b) u v \<longleftrightarrow> linked (insert (a, b) E) u v" if "u < size_of s" "v < size_of s" for u v
    by (rule join_same_linked [OF Cons.prems(1) ab Cons.prems(3) that])
  have "same (join_all ps (join s a b)) x y \<longleftrightarrow> linked (set ps \<union> insert (a, b) E) x y"
    by (rule Cons.IH [OF j(1)]) (use Cons.prems(2,4,5) j(2) E in auto)
  then show ?case by (simp add: p join_all_def)
qed (simp add: join_all_def)

end

interpretation dj: disjoint_sets dj_ok dj_size dj_same dj_union
proof unfold_locales
  show "dj_same (dj_union s a b) x y \<longleftrightarrow> dj_same s x y \<or> dj_same s x a \<and> dj_same s b y \<or> dj_same s x b \<and> dj_same s a y"
    if "dj_ok s" "a < dj_size s" "b < dj_size s" "x < dj_size s" "y < dj_size s" for s a b x y
    using union_ok(3) that by blast
qed (auto simp: dj_same_def union_ok(1,2))

section \<open>Property\<close>

lemma unions_linked:
  assumes "\<And>a b. (a, b) \<in> set ps \<Longrightarrow> a < n \<and> b < n" and "x < n" and "y < n"
  shows "dj_same (fold (\<lambda>(a, b) d. dj_union d a b) ps (newDisjointSet n)) x y \<longleftrightarrow> linked (set ps) x y"
proof -
  have base: "dj_same (newDisjointSet n) u v \<longleftrightarrow> linked {} u v" if "u < n" "v < n" for u v
    using new_same [OF that] by (simp add: linked_def)
  show ?thesis
    using dj.join_all_same [of "newDisjointSet n" ps "{}" x y, OF new_ok(1)] assms base
    by (simp add: new_ok(2) dj.join_all_def)
qed

text \<open>
  C27: The disjoint sets refine the relation they stand for: after any series of unions of a fresh structure,
  \<open>find\<close> - which compresses paths as it goes - returns the same root for two elements exactly when a
  chain of the united pairs links them, and the structure it leaves behind answers every later question
  in the same way.
\<close>

theorem union_find_refines:
  assumes "\<And>a b. (a, b) \<in> set ps \<Longrightarrow> a < n \<and> b < n" and "x < n" and "y < n" and "z < n"
    and "d = fold (\<lambda>(a, b) d. dj_union d a b) ps (newDisjointSet n)"
  shows "(fst (dj_find d x) = fst (dj_find d y) \<longleftrightarrow> linked (set ps) x y) \<and>
    (fst (dj_find (snd (dj_find d z)) x) = fst (dj_find (snd (dj_find d z)) y) \<longleftrightarrow> linked (set ps) x y)"
proof -
  have ok: "dj_ok d" "dj_size d = n"
    using dj.join_all_ok [of "newDisjointSet n" ps, OF new_ok(1)] assms(1,5) by (simp_all add: new_ok(2) dj.join_all_def)
  have root: "fst (dj_find e u) = rep (djParent e) u" if "dj_ok e" "u < dj_size e" for e u
    using find_ok(3) [OF that] by (metis prod.collapse)
  obtain r d' where f: "dj_find d z = (r, d')" by fastforce
  note f_ok = find_ok [OF ok(1) _ f, unfolded ok(2), OF assms(4)]
  have same: "rep (djParent d) x = rep (djParent d) y \<longleftrightarrow> linked (set ps) x y"
    using unions_linked [OF assms(1-3)] unfolding assms(5) dj_same_def .
  show ?thesis
    using root ok f_ok assms(2,3) same f by simp
qed

theorem union_find_refines_witness:
  "fst (dj_find (fold (\<lambda>(a, b) d. dj_union d a b) [(0, 1), (1, 2)] (newDisjointSet 4)) 2) =
     fst (dj_find (fold (\<lambda>(a, b) d. dj_union d a b) [(0, 1), (1, 2)] (newDisjointSet 4)) 0)"
proof -
  let ?ps = "[(0, 1), (1, 2)] :: (nat \<times> nat) list"
  have "linked (set ?ps) 0 1" "linked (set ?ps) 1 2" by (rule linked_edge, simp)+
  from linked_sym [OF linked_trans [OF this]] have l: "linked (set ?ps) 2 0" .
  have b: "\<And>a b. (a, b) \<in> set ?ps \<Longrightarrow> a < 4 \<and> b < 4" by auto
  have n: "(2::nat) < 4" "(0::nat) < 4" by simp_all
  from union_find_refines [OF b n n(2) refl, THEN conjunct1, THEN iffD2, OF _ l] show ?thesis by blast
qed

end
