(* ===== verification/Subjects.thy ===== *)
theory Subjects
  imports Graph UnionFind "HOL-Library.Multiset"
begin

text \<open>
  The subjects of the topology graph (internal/topology/graph.go, makeSubjects): which observations are one
  object of the estate. The code walks two Go maps, whose order is not fixed: \<open>partition_records\<close> takes
  the two lists of groups as arguments, and the property on it holds for every order. The lemmas rest on the
  interpretation \<open>dj\<close> of the disjoint sets.
\<close>

section \<open>The code\<close>

text \<open>The lists of indices a map from keys collects, the keys in the order they were first seen.\<close>

definition group_by :: "(string \<times> nat) list \<Rightarrow> nat list list" where
  "group_by ps = map (\<lambda>k. map snd (filter (\<lambda>p. fst p = k) ps)) (first_by id [] (map fst ps))"

definition strong_keys :: "node_record \<Rightarrow> string list" where
  "strong_keys r = map (\<lambda>k. to_lower (rcKind r) @ NUL @ k) (rcKeys r)"

definition weak_key_of :: "node_record \<Rightarrow> string" where
  "weak_key_of r = to_lower (rcKind r) @ NUL @ rcWeak r"

definition eligible_nodes :: "node_record list \<Rightarrow> nat list" where
  "eligible_nodes rs = filter (\<lambda>i. rcEligible (rs ! i)) [0..<length rs]"

definition strong_groups :: "node_record list \<Rightarrow> nat list list" where
  "strong_groups rs = group_by (concat (map (\<lambda>i. map (\<lambda>k. (k, i)) (strong_keys (rs ! i))) (eligible_nodes rs)))"

definition weak_groups :: "node_record list \<Rightarrow> nat list list" where
  "weak_groups rs = group_by (map (\<lambda>i. (weak_key_of (rs ! i), i)) (eligible_nodes rs))"

definition observedID :: "node_record \<Rightarrow> string" where
  "observedID r = to_lower (trim_space (ndID (rcNode r)))"

definition groupByObservedID :: "node_record list \<Rightarrow> nat list \<Rightarrow> nat list \<times> nat list list" where
  "groupByObservedID rs is =
     (filter (\<lambda>i. observedID (rs ! i) = []) is,
      group_by (map (\<lambda>i. (observedID (rs ! i), i)) (filter (\<lambda>i. observedID (rs ! i) \<noteq> []) is)))"

text \<open>\<open>unite a bs\<close>: the union of \<open>a\<close> with each of \<open>bs\<close>; \<open>unite_group\<close>: of the first of a group with the others.\<close>

definition unite :: "nat \<Rightarrow> nat list \<Rightarrow> disjoint_set \<Rightarrow> disjoint_set" where
  "unite a bs d = fold (\<lambda>b d. dj_union d a b) bs d"

definition unite_group :: "nat list \<Rightarrow> disjoint_set \<Rightarrow> disjoint_set" where
  "unite_group vs d = (case vs of [] \<Rightarrow> d | a # bs \<Rightarrow> unite a bs d)"

fun find_each :: "nat list \<Rightarrow> disjoint_set \<Rightarrow> nat list \<times> disjoint_set" where
  "find_each [] d = ([], d)"
| "find_each (x # xs) d =
     (case dj_find d x of (r, d) \<Rightarrow> case find_each xs d of (rs, d) \<Rightarrow> (r # rs, d))"

definition weak_union :: "node_record list \<Rightarrow> nat list \<Rightarrow> disjoint_set \<Rightarrow> disjoint_set" where
  "weak_union rs vs d =
     (let unknown = filter (\<lambda>i. rcKeys (rs ! i) = []) vs;
          keyed = filter (\<lambda>i. rcKeys (rs ! i) \<noteq> []) vs;
          (anonymous, identified) = groupByObservedID rs unknown;
          d = fold unite_group identified d;
          d = unite_group anonymous d;
          d = (if anonymous \<noteq> [] \<and> length identified = 1 then dj_union d (hd anonymous) (hd (hd identified)) else d);
          (reps, d) = find_each keyed d;
          keyedIDs = map (\<lambda>i. observedID (rs ! i)) keyed
      in if length (remdups reps) = 1 \<and> unknown \<noteq> []
         then fold (\<lambda>i d. if observedID (rs ! i) \<noteq> [] \<and> observedID (rs ! i) \<notin> set keyedIDs then d
                     else dj_union d i (hd keyed)) unknown d
         else d)"

definition partition_records :: "nat list list \<Rightarrow> nat list list \<Rightarrow> node_record list \<Rightarrow> disjoint_set" where
  "partition_records sg wg rs =
     fold (weak_union rs) wg (fold unite_group sg (newDisjointSet (length rs)))"

definition nodeSortKey :: "node \<Rightarrow> string" where
  "nodeSortKey n = to_lower (str_join NUL [ndKind n, ndContext n, ndName n, ndID n, ndPath n])"

definition memberRecordSortKey :: "node_record \<Rightarrow> string" where
  "memberRecordSortKey r =
     str_join NUL [if rcReconstructed r then ''1'' else ''0'', if ndID (rcNode r) = [] then ''1'' else ''0'',
       nodeSortKey (rcNode r)]"

definition firstContext :: "node list \<Rightarrow> string" where
  "firstContext ns = (case ns of [] \<Rightarrow> [] | n # _ \<Rightarrow> ndContext n)"

definition subjectSortKey :: "subject \<Rightarrow> string" where
  "subjectSortKey s =
     to_lower (str_join NUL ([sjKind s, sjName s, firstContext (sjMembers s)] @ map nodeSortKey (sjMembers s)))"

fun basisForKeys :: "string list \<Rightarrow> basis" where
  "basisForKeys [] = BasisMoref"
| "basisForKeys (k # ks) =
     (if has_prefix ''instance-uuid:'' k \<or> has_prefix ''bios-uuid:'' k then BasisInstanceUUID
      else if has_prefix ''portgroup:'' k then BasisPortGroupKey
      else if has_prefix ''dvswitch:'' k \<or> has_prefix ''logical-switch:'' k then BasisSwitchUUID
      else if has_prefix ''vmfs:'' k \<or> has_prefix ''extent:'' k \<or> has_prefix ''nas:'' k \<or> has_prefix ''vvol:'' k \<or>
        has_prefix ''url:'' k then BasisBackingIdentity
      else basisForKeys ks)"

definition better_name :: "node_record \<Rightarrow> string \<Rightarrow> string" where
  "better_name r name = (if name = [] \<or> to_lower (ndName (rcNode r)) < to_lower name then ndName (rcNode r) else name)"

definition makeSubject :: "nat list \<Rightarrow> node_record list \<Rightarrow> subject_record" where
  "makeSubject vs rs =
     (let vs = sort_key (\<lambda>i. memberRecordSortKey (rs ! i)) vs;
          xs = map (\<lambda>i. rs ! i) vs;
          members = first_by (\<lambda>n. to_lower (ndContext n)) [] (map rcNode xs)
      in \<lparr>srSubject = \<lparr>sjKind = ndKind (rcNode (hd xs)), sjName = fold better_name xs [],
            sjMembers = sort_key nodeSortKey members,
            sjIdentity = sort (first_by id [] (concat (map rcKeys xs))),
            sjBasis = fold (\<lambda>r b. if rcKeys r \<noteq> [] then basisForKeys (rcKeys r) else b) xs BasisName\<rparr>,
          srNodes = vs\<rparr>)"

text \<open>The groups of eligible records by the root of their set, and the subjects made of them.\<close>

definition root_groups :: "node_record list \<Rightarrow> disjoint_set \<Rightarrow> nat list list" where
  "root_groups rs d =
     (let is = eligible_nodes rs; (reps, d) = find_each is d
      in map (\<lambda>r. map snd (filter (\<lambda>p. fst p = r) (zip reps is))) (first_by id [] reps))"

definition subjects_of :: "node_record list \<Rightarrow> disjoint_set \<Rightarrow> subject_record list" where
  "subjects_of rs d =
     sort_key (\<lambda>s. subjectSortKey (srSubject s)) (map (\<lambda>vs. makeSubject vs rs) (root_groups rs d))"

fun assign_subjects :: "nat \<Rightarrow> subject_record list \<Rightarrow> nat option list \<Rightarrow> nat option list" where
  "assign_subjects si [] ns = ns"
| "assign_subjects si (s # ss) ns = assign_subjects (Suc si) ss (fold (\<lambda>i ns. ns[i := Some si]) (srNodes s) ns)"

definition makeSubjects :: "graph \<Rightarrow> graph" where
  "makeSubjects g =
     (let rs = grRecords g;
          d = partition_records (strong_groups rs) (weak_groups rs) rs;
          ss = subjects_of rs d
      in g\<lparr>grSubjects := ss, grNodeSubject := assign_subjects 0 ss (replicate (length rs) None)\<rparr>)"

section \<open>Lemmas on groups\<close>

lemma set_eligible: "i \<in> set (eligible_nodes rs) \<longleftrightarrow> i < length rs \<and> rcEligible (rs ! i)"
  by (auto simp: eligible_nodes_def)

lemma set_group_by: "vs \<in> set (group_by ps) \<longleftrightarrow> (\<exists>k. k \<in> fst ` set ps \<and> vs = map snd (filter (\<lambda>p. fst p = k) ps))"
  by (auto simp: group_by_def set_first_by_id)

lemma in_group: "i \<in> set (map snd (filter (\<lambda>p. fst p = k) ps)) \<longleftrightarrow> (k, i) \<in> set ps"
  by force

lemma group_by_elim:
  assumes "vs \<in> set (group_by ps)"
  shows "vs \<noteq> [] \<and> (\<exists>k. \<forall>i. i \<in> set vs \<longleftrightarrow> (k, i) \<in> set ps)"
proof -
  obtain k where k: "k \<in> fst ` set ps" "vs = map snd (filter (\<lambda>p. fst p = k) ps)"
    using assms by (auto simp: set_group_by)
  then have mem: "\<forall>i. i \<in> set vs \<longleftrightarrow> (k, i) \<in> set ps" by (metis in_group)
  moreover obtain i where "(k, i) \<in> set ps" using k(1) by force
  ultimately show ?thesis by (metis empty_iff empty_set)
qed

lemma group_by_intro:
  assumes "(k, i) \<in> set ps"
  shows "\<exists>vs \<in> set (group_by ps). \<forall>j. j \<in> set vs \<longleftrightarrow> (k, j) \<in> set ps"
proof
  show "map snd (filter (\<lambda>p. fst p = k) ps) \<in> set (group_by ps)" unfolding set_group_by using assms by force
  show "\<forall>j. j \<in> set (map snd (filter (\<lambda>p. fst p = k) ps)) \<longleftrightarrow> (k, j) \<in> set ps"
    by (intro allI in_group)
qed

text \<open>The links a group contributes: its first element with each of the others.\<close>

definition star :: "nat list \<Rightarrow> (nat \<times> nat) list" where
  "star vs = (case vs of [] \<Rightarrow> [] | a # bs \<Rightarrow> map (\<lambda>b. (a, b)) bs)"

lemma star_set: "(a, b) \<in> set (star vs) \<Longrightarrow> a \<in> set vs \<and> b \<in> set vs"
  by (auto simp: star_def split: list.splits)

lemma star_linked: "x \<in> set vs \<Longrightarrow> y \<in> set vs \<Longrightarrow> linked (set (star vs)) x y"
proof (cases vs)
  case (Cons a bs)
  have "linked (set (star vs)) a z" if "z \<in> set vs" for z
    using that Cons by (cases "z = a") (auto simp: star_def intro: linked_edge)
  then show "x \<in> set vs \<Longrightarrow> y \<in> set vs \<Longrightarrow> linked (set (star vs)) x y" by (meson linked_sym linked_trans)
qed simp

lemma unite_group_join: "unite_group vs d = dj.join_all (star vs) d"
  by (simp add: unite_group_def star_def unite_def dj.join_all_def fold_map comp_def split: list.splits)

lemma join_all_append: "dj.join_all ps (dj.join_all qs d) = dj.join_all (qs @ ps) d"
  by (simp add: dj.join_all_def)

lemma fold_unite_join: "fold unite_group gs d = dj.join_all (concat (map star gs)) d"
  by (induction gs arbitrary: d) (simp_all add: unite_group_join join_all_append dj.join_all_def)

section \<open>What the unions amount to\<close>

text \<open>\<open>represents d E n\<close>: the sets of \<open>d\<close>, over \<open>n\<close> elements, are those the links \<open>E\<close> make.\<close>

definition represents :: "disjoint_set \<Rightarrow> (nat \<times> nat) set \<Rightarrow> nat \<Rightarrow> bool" where
  "represents d E n \<longleftrightarrow> dj_ok d \<and> dj_size d = n \<and> (\<forall>x < n. \<forall>y < n. dj_same d x y \<longleftrightarrow> linked E x y)"

lemma linked_empty: "linked {} x y \<longleftrightarrow> x = y"
  by (simp add: linked_def)

lemma represents_new: "represents (newDisjointSet n) {} n"
  by (simp add: represents_def new_ok new_same linked_empty)

lemma represents_join:
  assumes "represents d E n" and "\<And>a b. (a, b) \<in> set ps \<Longrightarrow> a < n \<and> b < n"
  shows "represents (dj.join_all ps d) (set ps \<union> E) n"
  using assms dj.join_all_ok [of d ps] dj.join_all_same [of d ps E] by (auto simp: represents_def)

lemma represents_cong:
  "represents d E n \<Longrightarrow> (\<And>x y. x < n \<Longrightarrow> y < n \<Longrightarrow> linked E x y \<longleftrightarrow> linked F x y) \<Longrightarrow> represents d F n"
  by (simp add: represents_def)

lemma find_each_ok:
  assumes "dj_ok d" and "\<And>x. x \<in> set xs \<Longrightarrow> x < dj_size d" and "find_each xs d = (rs, d')"
  shows "dj_ok d' \<and> dj_size d' = dj_size d \<and> rs = map (rep (djParent d)) xs \<and>
    (\<forall>y < dj_size d. rep (djParent d') y = rep (djParent d) y)"
  using assms
proof (induction xs arbitrary: d rs d')
  case (Cons x xs)
  obtain r d1 where f: "dj_find d x = (r, d1)" by fastforce
  obtain rs1 d2 where e: "find_each xs d1 = (rs1, d2)" by fastforce
  note o1 = find_ok [OF Cons.prems(1) _ f]
  have x: "x < dj_size d" using Cons.prems(2) by simp
  have "dj_ok d2 \<and> dj_size d2 = dj_size d1 \<and> rs1 = map (rep (djParent d1)) xs \<and>
      (\<forall>y < dj_size d1. rep (djParent d2) y = rep (djParent d1) y)"
    by (rule Cons.IH [OF o1(1) [OF x] _ e]) (use Cons.prems(2) o1(2) [OF x] in auto)
  then show ?case using Cons.prems o1 [OF x] f e by auto
qed simp

lemma represents_find:
  assumes "represents d E n" and "\<And>x. x \<in> set xs \<Longrightarrow> x < n" and "find_each xs d = (rs, d')"
  shows "represents d' E n" and "rs = map (rep (djParent d)) xs"
  using assms find_each_ok [of d xs rs d'] by (auto simp: represents_def dj_same_def)

text \<open>The strong links: two eligible records of one kind with a key in common.\<close>

definition strong_links :: "node_record list \<Rightarrow> (nat \<times> nat) set" where
  "strong_links rs = {(i, j). i \<in> set (eligible_nodes rs) \<and> j \<in> set (eligible_nodes rs) \<and>
     set (strong_keys (rs ! i)) \<inter> set (strong_keys (rs ! j)) \<noteq> {}}"

lemma strong_entry:
  "(k, i) \<in> set (concat (map (\<lambda>i. map (\<lambda>k. (k, i)) (strong_keys (rs ! i))) (eligible_nodes rs))) \<longleftrightarrow>
     i \<in> set (eligible_nodes rs) \<and> k \<in> set (strong_keys (rs ! i))"
  by auto

lemma strong_group_elim:
  "vs \<in> set (strong_groups rs) \<Longrightarrow>
     \<exists>k. \<forall>i. i \<in> set vs \<longleftrightarrow> i \<in> set (eligible_nodes rs) \<and> k \<in> set (strong_keys (rs ! i))"
  unfolding strong_groups_def using group_by_elim [of vs] unfolding strong_entry [symmetric] by blast

lemma strong_group_intro:
  "i \<in> set (eligible_nodes rs) \<Longrightarrow> k \<in> set (strong_keys (rs ! i)) \<Longrightarrow>
     \<exists>vs \<in> set (strong_groups rs). \<forall>j. j \<in> set vs \<longleftrightarrow> j \<in> set (eligible_nodes rs) \<and> k \<in> set (strong_keys (rs ! j))"
  using group_by_intro [of k i "concat (map (\<lambda>i. map (\<lambda>k. (k, i)) (strong_keys (rs ! i))) (eligible_nodes rs))"]
  unfolding strong_groups_def strong_entry by blast

lemma linked_strong_groups:
  assumes "set sg = set (strong_groups rs)"
  shows "linked (set (concat (map star sg))) x y \<longleftrightarrow> linked (strong_links rs) x y"
proof
  assume "linked (set (concat (map star sg))) x y"
  moreover have "set (concat (map star sg)) \<subseteq> strong_links rs"
  proof clarify
    fix a b assume "(a, b) \<in> set (concat (map star sg))"
    then obtain vs where vs: "vs \<in> set (strong_groups rs)" "(a, b) \<in> set (star vs)" using assms by auto
    obtain k where "\<forall>i. i \<in> set vs \<longleftrightarrow> i \<in> set (eligible_nodes rs) \<and> k \<in> set (strong_keys (rs ! i))"
      using strong_group_elim [OF vs(1)] by blast
    with star_set [OF vs(2)] show "(a, b) \<in> strong_links rs" unfolding strong_links_def by blast
  qed
  ultimately show "linked (strong_links rs) x y" by (rule linked_mono)
next
  assume "linked (strong_links rs) x y"
  then show "linked (set (concat (map star sg))) x y"
  proof (rule linked_least)
    fix a b assume "(a, b) \<in> strong_links rs"
    then obtain k where k: "a \<in> set (eligible_nodes rs)" "b \<in> set (eligible_nodes rs)"
        "k \<in> set (strong_keys (rs ! a))" "k \<in> set (strong_keys (rs ! b))" by (auto simp: strong_links_def)
    from strong_group_intro [OF k(1,3)] obtain vs where vs: "vs \<in> set sg"
        "\<forall>j. j \<in> set vs \<longleftrightarrow> j \<in> set (eligible_nodes rs) \<and> k \<in> set (strong_keys (rs ! j))" using assms by auto
    have "linked (set (star vs)) a b" using vs(2) k by (intro star_linked) auto
    then have "linked (set (concat (map star sg))) a b" by (rule linked_mono) (use vs(1) in auto)
    then show "linked (set (concat (map star sg))) a b \<and> linked (set (concat (map star sg))) b a"
      using linked_sym by blast
  qed (auto intro: linked_trans)
qed

text \<open>The links the weak keys of one group contribute, given whether the keyed records are one object.\<close>

definition unknown_of :: "node_record list \<Rightarrow> nat list \<Rightarrow> nat list" where
  "unknown_of rs vs = filter (\<lambda>i. rcKeys (rs ! i) = []) vs"

definition keyed_of :: "node_record list \<Rightarrow> nat list \<Rightarrow> nat list" where
  "keyed_of rs vs = filter (\<lambda>i. rcKeys (rs ! i) \<noteq> []) vs"

definition nameless_links :: "node_record list \<Rightarrow> nat list \<Rightarrow> (nat \<times> nat) list" where
  "nameless_links rs vs =
     (let (anonymous, identified) = groupByObservedID rs (unknown_of rs vs)
      in concat (map star identified) @ star anonymous @
         (if anonymous \<noteq> [] \<and> length identified = 1 then [(hd anonymous, hd (hd identified))] else []))"

definition joins_keyed :: "node_record list \<Rightarrow> nat list \<Rightarrow> nat \<Rightarrow> bool" where
  "joins_keyed rs vs i \<longleftrightarrow>
     observedID (rs ! i) = [] \<or> observedID (rs ! i) \<in> (\<lambda>j. observedID (rs ! j)) ` set (keyed_of rs vs)"

definition weak_links :: "node_record list \<Rightarrow> bool \<Rightarrow> nat list \<Rightarrow> (nat \<times> nat) list" where
  "weak_links rs one vs =
     nameless_links rs vs @
     (if one then map (\<lambda>i. (i, hd (keyed_of rs vs))) (filter (joins_keyed rs vs) (unknown_of rs vs)) else [])"

definition one_object :: "(nat \<times> nat) set \<Rightarrow> node_record list \<Rightarrow> nat list \<Rightarrow> bool" where
  "one_object E rs vs \<longleftrightarrow> keyed_of rs vs \<noteq> [] \<and> (\<forall>x \<in> set (keyed_of rs vs). \<forall>y \<in> set (keyed_of rs vs). linked E x y)"

lemma groupByObservedID_set:
  assumes "groupByObservedID rs is = (an, idd)"
  shows "set an \<subseteq> set is" and "\<And>g. g \<in> set idd \<Longrightarrow> g \<noteq> [] \<and> set g \<subseteq> set is"
proof -
  show "set an \<subseteq> set is" using assms by (auto simp: groupByObservedID_def)
  fix g assume g: "g \<in> set idd"
  then have "g \<in> set (group_by (map (\<lambda>i. (observedID (rs ! i), i)) (filter (\<lambda>i. observedID (rs ! i) \<noteq> []) is)))"
    using assms by (auto simp: groupByObservedID_def)
  from group_by_elim [OF this] show "g \<noteq> [] \<and> set g \<subseteq> set is" by auto
qed

lemma nameless_links_set: "(a, b) \<in> set (nameless_links rs vs) \<Longrightarrow> a \<in> set (unknown_of rs vs) \<and> b \<in> set (unknown_of rs vs)"
proof -
  assume ab: "(a, b) \<in> set (nameless_links rs vs)"
  obtain an idd where g: "groupByObservedID rs (unknown_of rs vs) = (an, idd)" by fastforce
  note s = groupByObservedID_set [OF g]
  have "set (nameless_links rs vs) = (\<Union>gr \<in> set idd. set (star gr)) \<union> set (star an) \<union>
      (if an \<noteq> [] \<and> length idd = 1 then {(hd an, hd (hd idd))} else {})"
    by (simp add: nameless_links_def g Un_assoc)
  with ab have "(\<exists>gr \<in> set idd. (a, b) \<in> set (star gr)) \<or> (a, b) \<in> set (star an) \<or>
      (an \<noteq> [] \<and> length idd = 1 \<and> a = hd an \<and> b = hd (hd idd))"
    by (simp split: if_split_asm) blast
  then show ?thesis
  proof (elim disjE bexE conjE)
    fix gr assume "gr \<in> set idd" "(a, b) \<in> set (star gr)"
    then show ?thesis using s(2) star_set by blast
  next
    assume "(a, b) \<in> set (star an)"
    then show ?thesis using s(1) star_set by blast
  next
    assume h: "an \<noteq> []" "length idd = 1" "a = hd an" "b = hd (hd idd)"
    then obtain gr where gr: "idd = [gr]" by (cases idd) auto
    then have "gr \<noteq> []" "set gr \<subseteq> set (unknown_of rs vs)" using s(2) [of gr] by auto
    moreover have "hd an \<in> set an" using h(1) by (rule hd_in_set)
    ultimately show ?thesis using h(3,4) s(1) hd_in_set [of gr] by (simp add: gr subset_iff)
  qed
qed

lemma fold_filter_join:
  "fold (\<lambda>i d. if P i then d else dj_union d i k) is d = dj.join_all (map (\<lambda>i. (i, k)) (filter (\<lambda>i. \<not> P i) is)) d"
  by (induction "is" arbitrary: d) (simp_all add: dj.join_all_def)

lemma one_element: "length (remdups xs) = 1 \<longleftrightarrow> xs \<noteq> [] \<and> (\<forall>a \<in> set xs. \<forall>b \<in> set xs. a = b)"
proof -
  have "length (remdups xs) = 1 \<longleftrightarrow> (\<exists>z. set xs = {z})"
    by (simp add: length_remdups_card_conv card_1_singleton_iff)
  also have "\<dots> \<longleftrightarrow> xs \<noteq> [] \<and> (\<forall>a \<in> set xs. \<forall>b \<in> set xs. a = b)"
  proof (cases xs)
    case (Cons x ys)
    have "set xs = {x}" if "\<forall>a \<in> set xs. \<forall>b \<in> set xs. a = b" using that Cons by auto
    then show ?thesis using Cons by auto
  qed simp
  finally show ?thesis .
qed

lemma weak_union_represents:
  assumes d: "represents d E n" and vs: "\<And>i. i \<in> set vs \<Longrightarrow> i < n"
  shows "represents (weak_union rs vs d)
    (set (weak_links rs (one_object (set (nameless_links rs vs) \<union> E) rs vs) vs) \<union> E) n"
proof -
  obtain an idd where g: "groupByObservedID rs (unknown_of rs vs) = (an, idd)" by fastforce
  define d1 where "d1 = fold unite_group idd d"
  define d2 where "d2 = unite_group an d1"
  define d3 where "d3 = (if an \<noteq> [] \<and> length idd = 1 then dj_union d2 (hd an) (hd (hd idd)) else d2)"
  obtain reps d4 where f: "find_each (keyed_of rs vs) d3 = (reps, d4)" by fastforce
  have j: "d3 = dj.join_all (nameless_links rs vs) d"
    by (simp add: d3_def d2_def d1_def nameless_links_def g fold_unite_join unite_group_join join_all_append)
      (simp add: dj.join_all_def)
  let ?F = "set (nameless_links rs vs) \<union> E"
  have r3: "represents d3 ?F n"
    unfolding j
  proof (rule represents_join [OF d])
    fix a b assume "(a, b) \<in> set (nameless_links rs vs)"
    from nameless_links_set [OF this] show "a < n \<and> b < n" using vs by (simp add: unknown_of_def)
  qed
  have kn: "\<And>i. i \<in> set (keyed_of rs vs) \<Longrightarrow> i < n" using vs by (auto simp: keyed_of_def)
  note r4 = represents_find [OF r3 kn f]
  have one: "length (remdups reps) = 1 \<longleftrightarrow> one_object ?F rs vs"
  proof -
    have "rep (djParent d3) x = rep (djParent d3) y \<longleftrightarrow> linked ?F x y"
      if "x \<in> set (keyed_of rs vs)" "y \<in> set (keyed_of rs vs)" for x y
      using r3 kn that by (simp add: represents_def dj_same_def)
    then show ?thesis unfolding one_element one_object_def by (simp add: r4(2))
  qed
  have skip: "\<not> (observedID (rs ! i) \<noteq> [] \<and> observedID (rs ! i) \<notin> set (map (\<lambda>i. observedID (rs ! i)) (keyed_of rs vs)))
      \<longleftrightarrow> joins_keyed rs vs i" for i
    by (auto simp: joins_keyed_def)
  let ?ps = "if one_object ?F rs vs then map (\<lambda>i. (i, hd (keyed_of rs vs))) (filter (joins_keyed rs vs) (unknown_of rs vs)) else []"
  have w: "weak_union rs vs d = dj.join_all ?ps d4"
  proof -
    have "weak_union rs vs d = (if length (remdups reps) = 1 \<and> unknown_of rs vs \<noteq> []
        then fold (\<lambda>i d. if observedID (rs ! i) \<noteq> [] \<and> observedID (rs ! i) \<notin> set (map (\<lambda>i. observedID (rs ! i)) (keyed_of rs vs)) then d
                     else dj_union d i (hd (keyed_of rs vs))) (unknown_of rs vs) d4
        else d4)"
      unfolding weak_union_def Let_def unknown_of_def [symmetric] keyed_of_def [symmetric] g prod.case
        d1_def [symmetric] d2_def [symmetric] d3_def [symmetric] f ..
    then show ?thesis unfolding one fold_filter_join skip by (auto simp: dj.join_all_def)
  qed
  have "represents (weak_union rs vs d) (set ?ps \<union> ?F) n"
    unfolding w
  proof (rule represents_join [OF r4(1)])
    fix a b assume ab: "(a, b) \<in> set ?ps"
    then have "keyed_of rs vs \<noteq> []" by (auto simp: one_object_def split: if_splits)
    then have "hd (keyed_of rs vs) < n" using kn hd_in_set by blast
    then show "a < n \<and> b < n" using ab vs by (auto simp: unknown_of_def split: if_splits)
  qed
  moreover have "set ?ps \<union> ?F = set (weak_links rs (one_object ?F rs vs) vs) \<union> E"
    by (auto simp: weak_links_def)
  ultimately show ?thesis by simp
qed

section \<open>The partition\<close>

lemma weak_group_elim:
  "vs \<in> set (weak_groups rs) \<Longrightarrow>
     vs \<noteq> [] \<and> (\<exists>w. \<forall>i. i \<in> set vs \<longleftrightarrow> i \<in> set (eligible_nodes rs) \<and> weak_key_of (rs ! i) = w)"
  using group_by_elim [of vs "map (\<lambda>i. (weak_key_of (rs ! i), i)) (eligible_nodes rs)"]
  unfolding weak_groups_def by fastforce

definition all_links :: "node_record list \<Rightarrow> (nat \<times> nat) set" where
  "all_links rs = strong_links rs \<union>
     (\<Union>vs \<in> set (weak_groups rs). set (weak_links rs (one_object (strong_links rs) rs vs) vs))"

text \<open>
  The object a record belongs to by the rules: a keyed record to its strong class; one without keys to the
  strong class of the keyed records of its weak key, when they are one object, else to its weak key.
\<close>

definition keyed_peers :: "node_record list \<Rightarrow> nat \<Rightarrow> nat set" where
  "keyed_peers rs i =
     {k \<in> set (eligible_nodes rs). rcKeys (rs ! k) \<noteq> [] \<and> weak_key_of (rs ! k) = weak_key_of (rs ! i)}"

definition strong_class :: "node_record list \<Rightarrow> nat \<Rightarrow> nat set" where
  "strong_class rs i = {y. linked (strong_links rs) i y}"

definition belongs :: "node_record list \<Rightarrow> nat \<Rightarrow> nat set + string" where
  "belongs rs i =
     (if rcKeys (rs ! i) \<noteq> [] then Inl (strong_class rs i)
      else if keyed_peers rs i \<noteq> {} \<and> (\<forall>x \<in> keyed_peers rs i. \<forall>y \<in> keyed_peers rs i. linked (strong_links rs) x y)
      then Inl (\<Union>(strong_class rs ` keyed_peers rs i)) else Inr (weak_key_of (rs ! i)))"

lemma strong_class_eq: "linked (strong_links rs) a b \<Longrightarrow> strong_class rs a = strong_class rs b"
  unfolding strong_class_def using linked_sym linked_trans by blast

lemma strong_links_keyed:
  "(a, b) \<in> strong_links rs \<Longrightarrow> rcKeys (rs ! a) \<noteq> [] \<and> rcKeys (rs ! b) \<noteq> []"
  by (auto simp: strong_links_def strong_keys_def)

lemma belongs_weak:
  assumes vs: "vs \<in> set (weak_groups rs)"
    and ab: "(a, b) \<in> set (weak_links rs (one_object (strong_links rs) rs vs) vs)"
  shows "belongs rs a = belongs rs b"
proof -
  obtain w where w: "\<And>i. i \<in> set vs \<longleftrightarrow> i \<in> set (eligible_nodes rs) \<and> weak_key_of (rs ! i) = w"
    using weak_group_elim [OF vs] by blast
  from ab consider "(a, b) \<in> set (nameless_links rs vs)"
    | "one_object (strong_links rs) rs vs" "a \<in> set (unknown_of rs vs)" "b = hd (keyed_of rs vs)"
    by (auto simp: weak_links_def split: if_splits)
  then show ?thesis
  proof cases
    case 1
    from nameless_links_set [OF this] have u: "a \<in> set (unknown_of rs vs)" "b \<in> set (unknown_of rs vs)" by auto
    then have "weak_key_of (rs ! a) = weak_key_of (rs ! b)" "rcKeys (rs ! a) = []" "rcKeys (rs ! b) = []"
      using w by (auto simp: unknown_of_def)
    moreover from this have "keyed_peers rs a = keyed_peers rs b" by (simp add: keyed_peers_def)
    ultimately show ?thesis by (simp add: belongs_def)
  next
    case 2
    have a: "rcKeys (rs ! a) = []" "weak_key_of (rs ! a) = w" using 2(2) w by (auto simp: unknown_of_def)
    have peers: "keyed_peers rs a = set (keyed_of rs vs)" using w a(2) by (auto simp: keyed_peers_def keyed_of_def)
    have b: "b \<in> set (keyed_of rs vs)" using 2(1,3) hd_in_set by (auto simp: one_object_def)
    then have bk: "rcKeys (rs ! b) \<noteq> []" by (simp add: keyed_of_def)
    have one: "\<forall>x \<in> keyed_peers rs a. \<forall>y \<in> keyed_peers rs a. linked (strong_links rs) x y"
      using 2(1) by (simp add: one_object_def peers)
    have "strong_class rs x = strong_class rs b" if "x \<in> keyed_peers rs a" for x
      using one that b peers by (intro strong_class_eq) simp
    moreover have ne: "keyed_peers rs a \<noteq> {}" using b by (metis peers empty_iff)
    ultimately have "\<Union>(strong_class rs ` keyed_peers rs a) = strong_class rs b"
      by (intro SUP_eq_const)
    then show ?thesis using a bk one ne by (simp add: belongs_def)
  qed
qed

lemma belongs_linked: "linked (all_links rs) x y \<Longrightarrow> belongs rs x = belongs rs y"
proof (erule linked_least)
  fix a b assume "(a, b) \<in> all_links rs"
  then consider "(a, b) \<in> strong_links rs"
    | vs where "vs \<in> set (weak_groups rs)" "(a, b) \<in> set (weak_links rs (one_object (strong_links rs) rs vs) vs)"
    by (auto simp: all_links_def)
  then have "belongs rs a = belongs rs b"
  proof cases
    case 1
    then show ?thesis
      using strong_links_keyed [OF 1] strong_class_eq [OF linked_edge [OF 1]] by (simp add: belongs_def)
  qed (rule belongs_weak)
  then show "belongs rs a = belongs rs b \<and> belongs rs b = belongs rs a" by simp
qed auto

lemma keyed_linked:
  assumes "rcKeys (rs ! x) \<noteq> []" and "rcKeys (rs ! y) \<noteq> []"
    and "strong_links rs \<subseteq> E" and "E \<subseteq> all_links rs"
  shows "linked E x y \<longleftrightarrow> linked (strong_links rs) x y"
proof
  assume "linked E x y"
  then have "belongs rs x = belongs rs y" using assms(4) belongs_linked linked_mono by blast
  then have "strong_class rs x = strong_class rs y" using assms(1,2) by (simp add: belongs_def)
  then show "linked (strong_links rs) x y" by (auto simp: strong_class_def)
qed (rule linked_mono [OF _ assms(3)])

lemma one_object_cong:
  assumes "strong_links rs \<subseteq> E" and "E \<subseteq> all_links rs"
  shows "one_object E rs vs = one_object (strong_links rs) rs vs"
  unfolding one_object_def using keyed_linked [OF _ _ assms] by (auto simp: keyed_of_def)

lemma partition_weak:
  assumes "represents d E (length rs)" and "strong_links rs \<subseteq> E" and "E \<subseteq> all_links rs"
    and "set wg \<subseteq> set (weak_groups rs)"
  shows "represents (fold (weak_union rs) wg d)
    ((\<Union>vs \<in> set wg. set (weak_links rs (one_object (strong_links rs) rs vs) vs)) \<union> E) (length rs)"
  using assms
proof (induction wg arbitrary: d E)
  case (Cons vs wg)
  let ?L = "\<lambda>vs. set (weak_links rs (one_object (strong_links rs) rs vs) vs)"
  have vs: "vs \<in> set (weak_groups rs)" using Cons.prems by simp
  have n: "\<And>i. i \<in> set vs \<Longrightarrow> i < length rs" using weak_group_elim [OF vs] by (auto simp: set_eligible)
  have L: "?L vs \<subseteq> all_links rs" using vs by (auto simp: all_links_def)
  have "set (nameless_links rs vs) \<subseteq> ?L vs" by (simp add: weak_links_def)
  then have "one_object (set (nameless_links rs vs) \<union> E) rs vs = one_object (strong_links rs) rs vs"
    using L Cons.prems by (intro one_object_cong) auto
  then have d: "represents (weak_union rs vs d) (?L vs \<union> E) (length rs)"
    using weak_union_represents [of d E "length rs" vs rs] Cons.prems(1) n by simp
  have "represents (fold (weak_union rs) wg (weak_union rs vs d)) ((\<Union>vs \<in> set wg. ?L vs) \<union> (?L vs \<union> E)) (length rs)"
    by (rule Cons.IH [OF d]) (use Cons.prems L in auto)
  then show ?case by (simp add: ac_simps)
qed simp

lemma partition_represents:
  assumes "set sg = set (strong_groups rs)" and "set wg = set (weak_groups rs)"
  shows "represents (partition_records sg wg rs) (all_links rs) (length rs)"
proof -
  have "represents (fold unite_group sg (newDisjointSet (length rs))) (set (concat (map star sg)) \<union> {}) (length rs)"
    unfolding fold_unite_join
  proof (rule represents_join [OF represents_new])
    fix a b assume "(a, b) \<in> set (concat (map star sg))"
    then obtain vs where "vs \<in> set (strong_groups rs)" "(a, b) \<in> set (star vs)" using assms(1) by auto
    with star_set [of a b vs] strong_group_elim [of vs rs] show "a < length rs \<and> b < length rs"
      by (auto simp: set_eligible)
  qed
  then have "represents (fold unite_group sg (newDisjointSet (length rs))) (strong_links rs) (length rs)"
    by (rule represents_cong) (simp add: linked_strong_groups [OF assms(1)] del: set_concat)
  from partition_weak [OF this, of wg] show ?thesis
    unfolding partition_records_def using assms(2) by (simp add: all_links_def Un_commute)
qed

section \<open>The subjects\<close>

definition same_subject :: "graph \<Rightarrow> nat \<Rightarrow> nat \<Rightarrow> bool" where
  "same_subject g i j \<longleftrightarrow> (\<exists>s \<in> set (grSubjects g). i \<in> set (srNodes s) \<and> j \<in> set (srNodes s))"

lemma root_groups_elim:
  assumes d: "represents d E (length rs)" and vs: "vs \<in> set (root_groups rs d)"
  shows "vs \<noteq> [] \<and> (\<exists>r. \<forall>i. i \<in> set vs \<longleftrightarrow> i \<in> set (eligible_nodes rs) \<and> rep (djParent d) i = r)"
proof -
  obtain reps d' where f: "find_each (eligible_nodes rs) d = (reps, d')" by fastforce
  have n: "\<And>i. i \<in> set (eligible_nodes rs) \<Longrightarrow> i < length rs" by (simp add: set_eligible)
  have reps: "reps = map (rep (djParent d)) (eligible_nodes rs)" by (rule represents_find(2) [OF d n f])
  have z: "zip reps (eligible_nodes rs) = map (\<lambda>i. (rep (djParent d) i, i)) (eligible_nodes rs)"
    unfolding reps by (simp add: zip_map1 zip_same_conv_map)
  from vs obtain r where r: "r \<in> set reps" "vs = map snd (filter (\<lambda>p. fst p = r) (zip reps (eligible_nodes rs)))"
    by (auto simp: root_groups_def f set_first_by_id)
  have mem: "i \<in> set vs \<longleftrightarrow> i \<in> set (eligible_nodes rs) \<and> rep (djParent d) i = r" for i
    unfolding r(2) z by force
  moreover have "vs \<noteq> []" using r(1) mem unfolding reps by fastforce
  ultimately show ?thesis by blast
qed

lemma root_groups_intro:
  assumes d: "represents d E (length rs)" and i: "i \<in> set (eligible_nodes rs)"
  shows "\<exists>vs \<in> set (root_groups rs d). i \<in> set vs"
proof -
  obtain reps d' where f: "find_each (eligible_nodes rs) d = (reps, d')" by fastforce
  have n: "\<And>i. i \<in> set (eligible_nodes rs) \<Longrightarrow> i < length rs" by (simp add: set_eligible)
  have reps: "reps = map (rep (djParent d)) (eligible_nodes rs)" by (rule represents_find(2) [OF d n f])
  have z: "zip reps (eligible_nodes rs) = map (\<lambda>i. (rep (djParent d) i, i)) (eligible_nodes rs)"
    unfolding reps by (simp add: zip_map1 zip_same_conv_map)
  let ?vs = "map snd (filter (\<lambda>p. fst p = rep (djParent d) i) (zip reps (eligible_nodes rs)))"
  have "rep (djParent d) i \<in> set reps" unfolding reps using i by simp
  then have "?vs \<in> set (root_groups rs d)" by (auto simp: root_groups_def f set_first_by_id)
  moreover have "i \<in> set ?vs" unfolding z using i by force
  ultimately show ?thesis by blast
qed

lemma nodes_makeSubject [simp]: "set (srNodes (makeSubject vs rs)) = set vs"
  by (simp add: makeSubject_def Let_def)

lemma set_subjects_of: "set (subjects_of rs d) = (\<lambda>vs. makeSubject vs rs) ` set (root_groups rs d)"
  by (simp add: subjects_of_def)

lemma same_subject_iff:
  assumes "i < length (grRecords g)" and "j < length (grRecords g)"
  shows "same_subject (makeSubjects g) i j \<longleftrightarrow>
    rcEligible (grRecords g ! i) \<and> rcEligible (grRecords g ! j) \<and> linked (all_links (grRecords g)) i j"
proof -
  let ?rs = "grRecords g"
  let ?d = "partition_records (strong_groups ?rs) (weak_groups ?rs) ?rs"
  have d: "represents ?d (all_links ?rs) (length ?rs)" by (rule partition_represents) simp_all
  have ij: "rep (djParent ?d) i = rep (djParent ?d) j \<longleftrightarrow> linked (all_links ?rs) i j"
    using d assms by (simp add: represents_def dj_same_def)
  have "same_subject (makeSubjects g) i j \<longleftrightarrow> (\<exists>vs \<in> set (root_groups ?rs ?d). i \<in> set vs \<and> j \<in> set vs)"
    by (simp add: same_subject_def makeSubjects_def Let_def set_subjects_of)
  also have "\<dots> \<longleftrightarrow> i \<in> set (eligible_nodes ?rs) \<and> j \<in> set (eligible_nodes ?rs) \<and> rep (djParent ?d) i = rep (djParent ?d) j"
    using root_groups_elim [OF d] root_groups_intro [OF d] by metis
  finally show ?thesis using assms by (auto simp: ij set_eligible)
qed

text \<open>Every eligible record is in exactly one group, so in exactly one subject, and is assigned to it.\<close>

lemma filter_eq_distinct: "distinct xs \<Longrightarrow> a \<in> set xs \<Longrightarrow> filter (\<lambda>x. x = a) xs = [a]"
  by (induction xs) (auto simp: filter_empty_conv)

lemma one_root_group:
  assumes d: "represents d E (length rs)"
  shows "length (filter (\<lambda>vs. i \<in> set vs) (root_groups rs d)) = (if i \<in> set (eligible_nodes rs) then 1 else 0)"
proof (cases "i \<in> set (eligible_nodes rs)")
  case False
  then have "filter (\<lambda>vs. i \<in> set vs) (root_groups rs d) = []"
    using root_groups_elim [OF d] by (auto simp: filter_empty_conv)
  with False show ?thesis by simp
next
  case True
  obtain reps d' where f: "find_each (eligible_nodes rs) d = (reps, d')" by fastforce
  have n: "\<And>i. i \<in> set (eligible_nodes rs) \<Longrightarrow> i < length rs" by (simp add: set_eligible)
  have reps: "reps = map (rep (djParent d)) (eligible_nodes rs)" by (rule represents_find(2) [OF d n f])
  have z: "zip reps (eligible_nodes rs) = map (\<lambda>i. (rep (djParent d) i, i)) (eligible_nodes rs)"
    unfolding reps by (simp add: zip_map1 zip_same_conv_map)
  let ?group = "\<lambda>r. map snd (filter (\<lambda>p. fst p = r) (zip reps (eligible_nodes rs)))"
  have mem: "i \<in> set (?group r) \<longleftrightarrow> r = rep (djParent d) i" for r
    unfolding z using True by force
  have "filter (\<lambda>vs. i \<in> set vs) (root_groups rs d) =
      map ?group (filter (\<lambda>r. r = rep (djParent d) i) (first_by id [] reps))"
    unfolding root_groups_def f Let_def prod.case by (simp only: filter_map comp_def mem)
  moreover have "rep (djParent d) i \<in> set (first_by id [] reps)"
    using True by (simp add: set_first_by_id reps)
  moreover have "distinct (first_by id [] reps)" using distinct_first_by [of id "[]" reps] by simp
  ultimately show ?thesis using True by (simp add: filter_eq_distinct)
qed

lemma filter_length_mset: "mset xs = mset ys \<Longrightarrow> length (filter P xs) = length (filter P ys)"
  by (metis mset_filter size_mset)

lemma unique_index:
  assumes "length (filter P xs) = 1"
  shows "\<exists>!k. k < length xs \<and> P (xs ! k)"
proof -
  have "card {k. k < length xs \<and> P (xs ! k)} = 1" using assms by (simp add: length_filter_conv_card)
  then obtain k where "{k. k < length xs \<and> P (xs ! k)} = {k}" by (auto simp: card_1_singleton_iff)
  then show ?thesis by (metis (mono_tags, lifting) mem_Collect_eq singletonD singletonI)
qed

lemma fold_update: "j < length ns \<Longrightarrow> fold (\<lambda>i ns. ns[i := v]) is ns ! j = (if j \<in> set is then v else ns ! j)"
  by (induction "is" arbitrary: ns) (auto simp: nth_list_update)

lemma length_fold_update [simp]: "length (fold (\<lambda>i ns. ns[i := v]) is ns) = length ns"
  by (induction "is" arbitrary: ns) auto

lemma length_assign [simp]: "length (assign_subjects k ss ns) = length ns"
  by (induction k ss ns rule: assign_subjects.induct) auto

lemma assign_none:
  "j < length ns \<Longrightarrow> (\<And>s. s \<in> set ss \<Longrightarrow> j \<notin> set (srNodes s)) \<Longrightarrow> assign_subjects k ss ns ! j = ns ! j"
  by (induction k ss ns rule: assign_subjects.induct) (auto simp: fold_update)

lemma assign_one:
  "j < length ns \<Longrightarrow> m < length ss \<Longrightarrow> j \<in> set (srNodes (ss ! m)) \<Longrightarrow>
   (\<And>m'. m' < length ss \<Longrightarrow> j \<in> set (srNodes (ss ! m')) \<Longrightarrow> m' = m) \<Longrightarrow> assign_subjects k ss ns ! j = Some (k + m)"
proof (induction ss arbitrary: k m ns)
  case (Cons s ss)
  show ?case
  proof (cases m)
    case 0
    have "j \<notin> set (srNodes t)" if t: "t \<in> set ss" for t
    proof
      assume "j \<in> set (srNodes t)"
      with t obtain m' where "m' < length ss" "j \<in> set (srNodes (ss ! m'))" by (metis in_set_conv_nth)
      with Cons.prems(4) [of "Suc m'"] 0 show False by simp
    qed
    then show ?thesis using Cons.prems(1,3) 0 by (simp add: assign_none fold_update)
  next
    case (Suc m0)
    have "assign_subjects (Suc k) ss (fold (\<lambda>i ns. ns[i := Some k]) (srNodes s) ns) ! j = Some (Suc k + m0)"
    proof (rule Cons.IH)
      show "m' = m0" if "m' < length ss" "j \<in> set (srNodes (ss ! m'))" for m'
        using Cons.prems(4) [of "Suc m'"] that Suc by simp
    qed (use Cons.prems Suc in simp_all)
    then show ?thesis using Suc by simp
  qed
qed simp

section \<open>Properties\<close>

text \<open>
  C15: Strong identity decides the subjects, whatever the order of the Go maps: for any order of the groups
  two records end in one set exactly when the rules link them, which is when they are in one subject; and
  two records that both carry strong keys are one subject exactly when a chain of shared keys links them, so
  no name and no managed-object id ever merges two objects with different strong identities.
\<close>

theorem strong_identity_decides:
  assumes "set sg = set (strong_groups (grRecords g))" and "set wg = set (weak_groups (grRecords g))"
    and "i < length (grRecords g)" and "j < length (grRecords g)"
    and "rcEligible (grRecords g ! i)" and "rcEligible (grRecords g ! j)"
  shows "(dj_same (partition_records sg wg (grRecords g)) i j \<longleftrightarrow> linked (all_links (grRecords g)) i j) \<and>
    (same_subject (makeSubjects g) i j \<longleftrightarrow> linked (all_links (grRecords g)) i j) \<and>
    (rcKeys (grRecords g ! i) \<noteq> [] \<and> rcKeys (grRecords g ! j) \<noteq> [] \<longrightarrow>
      (same_subject (makeSubjects g) i j \<longleftrightarrow> linked (strong_links (grRecords g)) i j))"
  using partition_represents [OF assms(1,2)] assms(3-6) keyed_linked [of "grRecords g" i j "all_links (grRecords g)"]
  by (simp add: same_subject_iff represents_def all_links_def)

definition sample_record :: "string \<Rightarrow> string list \<Rightarrow> node_record" where
  "sample_record ident keys =
     \<lparr>rcNode = \<lparr>ndKind = KindNetwork, ndName = ''web'', ndID = ident, ndContext = ''prod'', ndVCenter = ''vc'',
        ndDatacenter = [], ndPath = []\<rparr>, rcKind = KindNetwork, rcKeys = keys,
      rcWeak = weakKey KindNetwork ''prod'' ''web'' [], rcNetwork = no_identity, rcLocal = False, rcEligible = True,
      rcReconstructed = False\<rparr>"

lemma sample_record_sel [simp]:
  "rcEligible (sample_record ident keys)" "rcKeys (sample_record ident keys) = keys"
  "rcKind (sample_record ident keys) = KindNetwork"
  by (simp_all add: sample_record_def)

definition sample_export :: export_data where
  "sample_export = \<lparr>exRun = \<lparr>ruID = 1, ruSchema = ''11''\<rparr>, exContexts = [], exVMs = [], exResources = [],
     exPerformance = []\<rparr>"

definition sample_graph :: "node_record list \<Rightarrow> graph" where
  "sample_graph rs = (empty_graph sample_export)\<lparr>grRecords := rs\<rparr>"

lemma sample_graph_records [simp]: "grRecords (sample_graph rs) = rs"
  by (simp add: sample_graph_def)

theorem strong_identity_decides_witness:
  "\<not> same_subject (makeSubjects (sample_graph [sample_record ''n1'' [''k1''], sample_record ''n1'' [''k2'']])) 0 1"
proof -
  let ?rs = "[sample_record ''n1'' [''k1''], sample_record ''n1'' [''k2'']]"
  have "strong_links ?rs \<subseteq> {(0, 0), (1, 1)}"
    by (auto simp: strong_links_def set_eligible strong_keys_def less_Suc_eq)
  then have "linked (strong_links ?rs) 0 1 \<Longrightarrow> (0::nat) = 1" by (elim linked_least) auto
  then have no: "\<not> linked (strong_links ?rs) 0 1" by auto
  have "same_subject (makeSubjects (sample_graph ?rs)) 0 1 \<longleftrightarrow> linked (strong_links ?rs) 0 1"
    using strong_identity_decides [of "strong_groups ?rs" "sample_graph ?rs" "weak_groups ?rs" 0 1,
        THEN conjunct2, THEN conjunct2] by simp
  with no show ?thesis by blast
qed

text \<open>
  Names are weak evidence: a record without strong keys is one subject with a keyed record only if
  there is a keyed record of its own kind, context and name, all of those are one object, and that object
  is the keyed record's.
\<close>

theorem weak_name_joins_one_object:
  assumes "i < length (grRecords g)" and "j < length (grRecords g)" and "same_subject (makeSubjects g) i j"
    and "rcKeys (grRecords g ! i) = []" and "rcKeys (grRecords g ! j) \<noteq> []"
  shows "(\<exists>k \<in> keyed_peers (grRecords g) i. linked (strong_links (grRecords g)) k j) \<and>
    (\<forall>x \<in> keyed_peers (grRecords g) i. \<forall>y \<in> keyed_peers (grRecords g) i. linked (strong_links (grRecords g)) x y)"
proof -
  let ?rs = "grRecords g"
  have "linked (all_links ?rs) i j" using assms(3) same_subject_iff [OF assms(1,2)] by simp
  from belongs_linked [OF this] assms(4,5)
  have c: "keyed_peers ?rs i \<noteq> {} \<and> (\<forall>x \<in> keyed_peers ?rs i. \<forall>y \<in> keyed_peers ?rs i. linked (strong_links ?rs) x y)"
    and u: "\<Union>(strong_class ?rs ` keyed_peers ?rs i) = strong_class ?rs j"
    by (simp_all add: belongs_def split: if_splits)
  have "j \<in> strong_class ?rs j" by (simp add: strong_class_def)
  then show ?thesis using c u unfolding strong_class_def by blast
qed

theorem weak_name_joins_one_object_witness:
  "\<exists>k \<in> keyed_peers [sample_record [] [], sample_record ''n1'' [''k'']] 0.
     linked (strong_links [sample_record [] [], sample_record ''n1'' [''k'']]) k 1"
proof -
  let ?g = "sample_graph [sample_record [] [], sample_record ''n1'' [''k'']]"
  let ?rs = "[sample_record [] [], sample_record ''n1'' [''k'']]"
  have "dj_same (partition_records (strong_groups ?rs) (weak_groups ?rs) ?rs) 0 1"
    unfolding dj_same_def rep_def by code_simp
  then have "linked (all_links ?rs) 0 1"
    using partition_represents [of "strong_groups ?rs" ?rs "weak_groups ?rs"] by (simp add: represents_def)
  then have "same_subject (makeSubjects ?g) 0 1"
    using same_subject_iff [of 0 ?g 1] by simp
  from weak_name_joins_one_object [OF _ _ this] show ?thesis by simp
qed

text \<open>
  The subjects partition the observations: every eligible record is among the nodes of exactly one
  subject and is assigned to it, a record that is not eligible to none, and every subject has a node.
\<close>

theorem subjects_partition:
  assumes "i < length (grRecords g)"
  shows "(rcEligible (grRecords g ! i) \<longrightarrow> (\<exists>si. grNodeSubject (makeSubjects g) ! i = Some si \<and> si < length (grSubjects (makeSubjects g)) \<and>
       (\<forall>sj < length (grSubjects (makeSubjects g)). i \<in> set (srNodes (grSubjects (makeSubjects g) ! sj)) \<longleftrightarrow> sj = si))) \<and>
    (\<not> rcEligible (grRecords g ! i) \<longrightarrow> grNodeSubject (makeSubjects g) ! i = None) \<and>
    (\<forall>s \<in> set (grSubjects (makeSubjects g)). srNodes s \<noteq> [])"
proof -
  let ?rs = "grRecords g"
  let ?d = "partition_records (strong_groups ?rs) (weak_groups ?rs) ?rs"
  let ?ss = "subjects_of ?rs ?d"
  have d: "represents ?d (all_links ?rs) (length ?rs)" by (rule partition_represents) simp_all
  have g: "grSubjects (makeSubjects g) = ?ss"
    "grNodeSubject (makeSubjects g) = assign_subjects 0 ?ss (replicate (length ?rs) None)"
    by (simp_all add: makeSubjects_def Let_def)
  have ne: "\<forall>s \<in> set ?ss. srNodes s \<noteq> []"
  proof
    fix s assume "s \<in> set ?ss"
    then obtain vs where vs: "vs \<in> set (root_groups ?rs ?d)" "s = makeSubject vs ?rs" by (auto simp: set_subjects_of)
    have "vs \<noteq> []" using root_groups_elim [OF d vs(1)] by blast
    then show "srNodes s \<noteq> []" unfolding vs(2) by (metis nodes_makeSubject set_empty)
  qed
  have "length (filter (\<lambda>s. i \<in> set (srNodes s)) ?ss) =
      length (filter (\<lambda>s. i \<in> set (srNodes s)) (map (\<lambda>vs. makeSubject vs ?rs) (root_groups ?rs ?d)))"
    by (rule filter_length_mset) (simp add: subjects_of_def)
  also have "\<dots> = (if i \<in> set (eligible_nodes ?rs) then 1 else 0)"
    using one_root_group [OF d, of i] by (simp add: filter_map comp_def)
  finally have c: "length (filter (\<lambda>s. i \<in> set (srNodes s)) ?ss) = (if rcEligible (?rs ! i) then 1 else 0)"
    using assms by (simp add: set_eligible)
  show ?thesis
  proof (cases "rcEligible (?rs ! i)")
    case True
    then obtain si where si: "si < length ?ss" "i \<in> set (srNodes (?ss ! si))"
        "\<And>m. m < length ?ss \<Longrightarrow> i \<in> set (srNodes (?ss ! m)) \<Longrightarrow> m = si"
      using unique_index [of "\<lambda>s. i \<in> set (srNodes s)" ?ss] c by auto
    have a: "assign_subjects 0 ?ss (replicate (length ?rs) None) ! i = Some (0 + si)"
      by (rule assign_one [OF _ si(1,2)]) (simp add: assms, rule si(3))
    have u: "\<forall>sj < length ?ss. i \<in> set (srNodes (?ss ! sj)) \<longleftrightarrow> sj = si"
      using si(2,3) by blast
    show ?thesis unfolding g using a u si(1) True ne by (intro conjI) (simp, blast, simp)
  next
    case False
    then have "\<And>s. s \<in> set ?ss \<Longrightarrow> i \<notin> set (srNodes s)" using c by (auto simp: filter_empty_conv)
    then have "assign_subjects 0 ?ss (replicate (length ?rs) None) ! i = None"
      using assms by (subst assign_none) auto
    then show ?thesis unfolding g using False ne by blast
  qed
qed

theorem subjects_partition_witness:
  "\<exists>si. grNodeSubject (makeSubjects (sample_graph [sample_record ''n1'' []])) ! 0 = Some si"
  using subjects_partition [of 0 "sample_graph [sample_record ''n1'' []]"]
  by auto

text \<open>
  Two objects observed under different managed-object ids are not one object, say the comments, unless a
  strong key joins them; but a third observation of the same name that has no id joins both.
\<close>

theorem nameless_observation_fuses_two_ids:
  "dj_same (partition_records (strong_groups [sample_record ''n1'' [], sample_record ''d3'' [''k''], sample_record [] []])
      (weak_groups [sample_record ''n1'' [], sample_record ''d3'' [''k''], sample_record [] []])
      [sample_record ''n1'' [], sample_record ''d3'' [''k''], sample_record [] []]) 0 1 \<and>
   \<not> dj_same (partition_records (strong_groups [sample_record ''n1'' [], sample_record ''d3'' [''k'']])
      (weak_groups [sample_record ''n1'' [], sample_record ''d3'' [''k'']])
      [sample_record ''n1'' [], sample_record ''d3'' [''k'']]) 0 1"
  unfolding dj_same_def rep_def by (intro conjI) code_simp+

end
