(* ===== verification/Relations.thy ===== *)
theory Relations
  imports Subjects
begin

text \<open>
  The second phase of the topology graph (internal/topology/graph.go, addRelationships and finalizeEdges):
  the references between the observed objects become edges, or unresolved references, and the edges are
  collapsed to the best evidence for each relation. The Go map that collapses the edges is the list of its
  entries, in the order their keys were first seen.
\<close>

section \<open>Candidates\<close>

definition uniqueNodeCandidates :: "nat list \<Rightarrow> graph \<Rightarrow> nat list" where
  "uniqueNodeCandidates vs g = sort (first_by id [] (filter (\<lambda>v. v < length (grRecords g)) vs))"

definition records_with :: "(node_record \<Rightarrow> bool) \<Rightarrow> graph \<Rightarrow> nat list" where
  "records_with P g = filter (\<lambda>i. P (grRecords g ! i)) [0..<length (grRecords g)]"

definition namedCandidates :: "string \<Rightarrow> string \<Rightarrow> string \<Rightarrow> string \<Rightarrow> graph \<Rightarrow> nat list" where
  "namedCandidates kind ctx name vlan g =
     (let key = weakKey kind ctx name vlan;
          exact = records_with (\<lambda>r. rcEligible r \<and> rcKind r = kind \<and> equal_fold (ndContext (rcNode r)) ctx \<and>
            equal_fold (rcWeak r) key) g;
          out = (if exact = []
                 then records_with (\<lambda>r. rcEligible r \<and> rcKind r = kind \<and> equal_fold (ndContext (rcNode r)) ctx \<and>
                   equal_fold (ndName (rcNode r)) name) g
                 else exact)
      in uniqueNodeCandidates out g)"

definition morefCandidates :: "string \<Rightarrow> string \<Rightarrow> string \<Rightarrow> graph \<Rightarrow> nat list" where
  "morefCandidates kind vcenter ident g =
     uniqueNodeCandidates (records_with (\<lambda>r. rcEligible r \<and> rcKind r = kind \<and> ndVCenter (rcNode r) = vcenter \<and>
       equal_fold (ndID (rcNode r)) ident) g) g"

definition port_matches :: "vm_nic \<Rightarrow> node_record \<Rightarrow> bool" where
  "port_matches nic r \<longleftrightarrow>
     (if niSwitchID nic \<noteq> [] \<and> idSwitch (rcNetwork r) \<noteq> [] \<and> equal_fold (niSwitchID nic) (idSwitch (rcNetwork r)) \<and>
         equal_fold (niNetworkID nic) (idPortGroup (rcNetwork r)) then True
      else niSwitchID nic = [] \<and> equal_fold (niNetworkID nic) (idPortGroup (rcNetwork r)))"

definition networkCandidates :: "string \<Rightarrow> vm_nic \<Rightarrow> graph \<Rightarrow> nat list \<times> basis \<times> edge_confidence" where
  "networkCandidates ctx nic g =
     (let ports = (if niNetworkID nic \<noteq> []
            then records_with (\<lambda>r. rcKind r = KindNetwork \<and> equal_fold (ndContext (rcNode r)) ctx \<and> port_matches nic r) g
            else [])
      in if ports \<noteq> [] then (uniqueNodeCandidates ports g, BasisPortGroupKey, EdgeConfirmed)
         else if niNetwork nic \<noteq> [] then (namedCandidates KindNetwork ctx (niNetwork nic) [] g, BasisName, EdgeInferred)
         else ([], BasisPortGroupKey, EdgeUnresolved))"

section \<open>Edges and unresolved references\<close>

definition addUnresolved :: "nat \<Rightarrow> string \<Rightarrow> string \<Rightarrow> graph \<Rightarrow> graph" where
  "addUnresolved i kind value g =
     (let v = trim_space value
      in if v = [] \<or> list_ex (\<lambda>u. equal_fold (urLabel u) v) (grUnresolved g i) then g
         else g\<lparr>grUnresolved := (grUnresolved g)(i := grUnresolved g i @ [\<lparr>urKind = kind, urLabel = v\<rparr>])\<rparr>)"

definition addEdge :: "nat \<Rightarrow> nat \<Rightarrow> relation \<Rightarrow> basis \<Rightarrow> edge_confidence \<Rightarrow> string \<Rightarrow> graph \<Rightarrow> graph" where
  "addEdge a b r bs c d g = (if a = b then g else push_edge (plain_edge a b r bs c d) g)"

definition addUnresolvedEdge ::
  "nat \<Rightarrow> string \<Rightarrow> string \<Rightarrow> relation \<Rightarrow> basis \<Rightarrow> edge_confidence \<Rightarrow> string \<Rightarrow> graph \<Rightarrow> graph" where
  "addUnresolvedEdge i kind value r bs c d g =
     (let name = trim_space value; p = rec_node g i
      in if name = [] then g
         else (let n = \<lparr>ndKind = kind, ndName = name, ndID = [], ndContext = ndContext p, ndVCenter = ndVCenter p,
                   ndDatacenter = ndDatacenter p, ndPath = []\<rparr>
               in case addSynthetic n (''unresolved'' @ NUL @ nodeIdentity n) g of
                    (target, g) \<Rightarrow> addUnresolved i kind name (addEdge i target r bs c d g)))"

definition candidate_subjects :: "nat list \<Rightarrow> graph \<Rightarrow> nat list" where
  "candidate_subjects cs g =
     remdups (List.map_filter (\<lambda>c. if c < length (grNodeSubject g) then grNodeSubject g ! c else None) cs)"

definition canonical :: "nat list \<Rightarrow> graph \<Rightarrow> nat" where
  "canonical cs g =
     fold (\<lambda>c best. if nodeSortKey (rec_node g c) < nodeSortKey (rec_node g best) then c else best) (tl cs) (hd cs)"

definition addCandidates ::
  "nat \<Rightarrow> nat list \<Rightarrow> relation \<Rightarrow> basis \<Rightarrow> edge_confidence \<Rightarrow> string \<Rightarrow> string \<Rightarrow> graph \<Rightarrow> graph" where
  "addCandidates i candidates r bs c d unresolved g =
     (let cs = uniqueNodeCandidates candidates g
      in if cs = [] then g
         else if 1 < length (candidate_subjects cs g)
         then (if unresolved \<noteq> [] then addUnresolved i (rcKind (grRecords g ! hd cs)) unresolved g else g)
         else addEdge i (canonical cs g) r bs c d g)"

definition addNamedReference ::
  "nat \<Rightarrow> string \<Rightarrow> string \<Rightarrow> relation \<Rightarrow> basis \<Rightarrow> edge_confidence \<Rightarrow> string \<Rightarrow> graph \<Rightarrow> graph" where
  "addNamedReference i kind name r bs c unresolved g =
     (let cs = namedCandidates kind (ndContext (rec_node g i)) name [] g
      in if cs = [] then addUnresolvedEdge i kind name r bs EdgeUnresolved name g
         else addCandidates i cs r bs c name unresolved g)"

section \<open>The references of each kind of object\<close>

definition add_disk :: "nat \<Rightarrow> string \<Rightarrow> graph \<Rightarrow> graph" where
  "add_disk i path g =
     (case SplitDatastorePath path of
        None \<Rightarrow> g
      | Some (name, relative) \<Rightarrow>
          if name = [] \<or> relative = [] then g
          else (let label = datastorePathSpelling path name;
                    cs = namedCandidates KindDatastore (ndContext (rec_node g i)) name [] g
                in if cs = [] then addUnresolvedEdge i KindDatastore label StoredOn BasisDiskPath EdgeUnresolved path g
                   else addCandidates i cs StoredOn BasisDiskPath EdgeConfirmed path (''datastore '' @ label) g))"

definition add_datastore_name :: "nat \<Rightarrow> string \<Rightarrow> graph \<Rightarrow> graph" where
  "add_datastore_name i name g =
     (let cs = namedCandidates KindDatastore (ndContext (rec_node g i)) name [] g
      in if cs = [] then addUnresolvedEdge i KindDatastore name StoredOn BasisName EdgeUnresolved name g
         else addCandidates i cs StoredOn BasisName EdgeInferred name (''datastore '' @ name) g)"

definition add_nic :: "nat \<Rightarrow> vm_nic \<Rightarrow> graph \<Rightarrow> graph" where
  "add_nic i nic g =
     (case networkCandidates (ndContext (rec_node g i)) nic g of
        (cs, bs, c) \<Rightarrow>
          if cs = []
          then (let label = (if niNetwork nic = [] then niNetworkID nic else niNetwork nic)
                in if label \<noteq> [] then addUnresolvedEdge i KindNetwork label AttachedTo bs EdgeUnresolved (niNetworkID nic) g
                   else g)
          else addCandidates i cs AttachedTo bs c (niNetworkID nic) (trim_space (''network '' @ niNetwork nic)) g)"

definition addVMRelationships :: "nat \<Rightarrow> graph \<Rightarrow> graph" where
  "addVMRelationships i g =
     (case resourceValue i g of
        Some (ObsVM v) \<Rightarrow>
          (let g = (if vmHost v \<noteq> [] then addNamedReference i KindHost (vmHost v) RunsOn BasisName EdgeInferred (''host '' @ vmHost v) g else g);
               g = (if vmCluster v \<noteq> [] then addNamedReference i KindCluster (vmCluster v) RunsOn BasisName EdgeInferred (''cluster '' @ vmCluster v) g else g);
               g = fold (add_disk i) (map dkPath (vmDisks v)) g;
               g = fold (add_datastore_name i) (vmDatastores v) g
           in fold (add_nic i) (vmNICs v) g)
      | _ \<Rightarrow> g)"

definition datastoreExtents :: "nat \<Rightarrow> graph \<Rightarrow> string list" where
  "datastoreExtents i g =
     (case resourceValue i g of Some (ObsRes (PDatastore d)) \<Rightarrow> bkExtents (daBacking d) | _ \<Rightarrow> [])"

definition lun_candidates :: "nat \<Rightarrow> string \<Rightarrow> graph \<Rightarrow> nat list" where
  "lun_candidates i lun g =
     filter (\<lambda>j. rcKind (grRecords g ! j) = KindDatastore \<and> ndContext (rec_node g j) = ndContext (rec_node g i) \<and>
         list_ex (\<lambda>e. norm e = lun) (datastoreExtents j g)) [0..<length (grRecords g)]"

definition add_lun :: "nat \<Rightarrow> string \<Rightarrow> graph \<Rightarrow> graph" where
  "add_lun i raw g =
     (let lun = norm raw
      in if lun = [] then g
         else (let cs = lun_candidates i lun g
               in if cs = [] then addUnresolvedEdge i KindDatastore raw Presents BasisBackingIdentity EdgeUnresolved raw g
                  else addCandidates i cs Presents BasisBackingIdentity EdgeConfirmed raw ''datastore'' g))"

definition add_port_group :: "nat \<Rightarrow> host_port_group \<Rightarrow> graph \<Rightarrow> graph" where
  "add_port_group i pg g =
     (let ctx = ndContext (rec_node g i); vlan = itoa (hpVLAN pg);
          exact = namedCandidates KindNetwork ctx (hpName pg) vlan g;
          cs = (if exact = [] then namedCandidates KindNetwork ctx (hpName pg) [] g else exact)
      in if cs = [] then addUnresolvedEdge i KindNetwork (hpName pg) Presents BasisName EdgeUnresolved vlan g
         else addCandidates i cs Presents BasisName EdgeInferred vlan (''network '' @ hpName pg) g)"

definition addHostRelationships :: "nat \<Rightarrow> graph \<Rightarrow> graph" where
  "addHostRelationships i g =
     (case resourceValue i g of
        Some (ObsRes (PHost h)) \<Rightarrow>
          (let g = (if hoCluster h \<noteq> [] then addNamedReference i KindCluster (hoCluster h) MemberOf BasisName EdgeInferred (''cluster '' @ hoCluster h) g else g);
               g = fold (add_lun i) (hoLUNs h) g
           in fold (add_port_group i) (hoPortGroups h) g)
      | _ \<Rightarrow> g)"

definition addDVSwitchRelationships :: "nat \<Rightarrow> graph \<Rightarrow> graph" where
  "addDVSwitchRelationships i g =
     (case resourceValue i g of
        Some (ObsRes (PDVSwitch sw)) \<Rightarrow>
          fold (\<lambda>name. addNamedReference i KindHost name AttachedTo BasisName EdgeInferred (''host '' @ name)) (dsHosts sw) g
      | _ \<Rightarrow> g)"

definition after_last_colon :: "string \<Rightarrow> string" where
  "after_last_colon s = rev (takeWhile (\<lambda>c. c \<noteq> CHR '':'') (rev s))"

definition add_vm_ref :: "nat \<Rightarrow> string \<Rightarrow> graph \<Rightarrow> graph" where
  "add_vm_ref i reference g =
     (let ident = after_last_colon (trim_space reference); vc = ndVCenter (rec_node g i);
          vms = morefCandidates KindVM vc ident g;
          cs = (if vms = [] then morefCandidates KindTemplate vc ident g else vms)
      in if cs = [] then addUnresolvedEdge i KindVM ident Contains BasisVMRef EdgeUnresolved reference g
         else addCandidates i cs Contains BasisVMRef EdgeConfirmed reference (''VM reference '' @ reference) g)"

definition addResourcePoolRelationships :: "nat \<Rightarrow> graph \<Rightarrow> graph" where
  "addResourcePoolRelationships i g =
     (case resourceValue i g of
        Some (ObsRes (PPool p)) \<Rightarrow> fold (add_vm_ref i) (rpVMRefs p) g
      | _ \<Rightarrow> g)"

definition relate :: "nat \<Rightarrow> graph \<Rightarrow> graph" where
  "relate i g =
     (let k = rcKind (grRecords g ! i)
      in if \<not> rcEligible (grRecords g ! i) then g
         else if k = KindVM \<or> k = KindTemplate then addVMRelationships i g
         else if k = KindHost then addHostRelationships i g
         else if k = KindDVSwitch then addDVSwitchRelationships i g
         else if k = KindResourcePool then addResourcePoolRelationships i g
         else g)"

text \<open>
  The second pass: for a virtual machine, each pair of a stored-on and a runs-on edge. The edges of a loop
  are those there were when it started.
\<close>

definition placement_edges :: "nat \<Rightarrow> graph_edge \<Rightarrow> graph \<Rightarrow> graph" where
  "placement_edges i e g =
     (if geFrom e \<noteq> i \<or> geRelation e \<noteq> StoredOn then g
      else fold (\<lambda>h g. if geFrom h = i \<and> geRelation h = RunsOn
               then addEdge (geFrom h) (geTo e) Presents BasisName EdgeInferred (ndName (rec_node g i)) g else g)
             (grEdges g) g)"

definition placement :: "nat \<Rightarrow> graph \<Rightarrow> graph" where
  "placement i g =
     (if rcKind (grRecords g ! i) \<noteq> KindVM \<and> rcKind (grRecords g ! i) \<noteq> KindTemplate then g
      else fold (placement_edges i) (grEdges g) g)"

definition addRelationships :: "graph \<Rightarrow> graph" where
  "addRelationships g =
     (let g = fold relate [0..<length (grRecords g)] g
      in fold placement [0..<length (grRecords g)] g)"

section \<open>Collapsing the edges\<close>

definition edgeScore :: "graph_edge \<Rightarrow> nat" where
  "edgeScore e = (if geConfidence e = EdgeConfirmed then 20 else 0) +
     (if geBasis e \<in> {BasisDiskPath, BasisBackingIdentity, BasisPortGroupKey, BasisSwitchUUID} then 5 else 0)"

definition same_key :: "graph_edge \<Rightarrow> graph_edge \<Rightarrow> bool" where
  "same_key a b \<longleftrightarrow> geFrom a = geFrom b \<and> geTo a = geTo b \<and> geRelation a = geRelation b"

definition beats :: "graph_edge \<Rightarrow> graph_edge \<Rightarrow> bool" where
  "beats e old \<longleftrightarrow> edgeScore old < edgeScore e \<or> (edgeScore e = edgeScore old \<and> geDetail e < geDetail old)"

fun keep_best :: "graph_edge \<Rightarrow> graph_edge list \<Rightarrow> graph_edge list" where
  "keep_best e [] = [e]"
| "keep_best e (x # xs) = (if same_key e x then (if beats e x then e else x) # xs else x # keep_best e xs)"

definition edgeSortKey :: "node_record list \<Rightarrow> graph_edge \<Rightarrow> string" where
  "edgeSortKey rs e =
     str_join NUL [nodeSortKey (rcNode (rs ! geFrom e)), nodeSortKey (rcNode (rs ! geTo e)), relation_text (geRelation e),
       basis_text (geBasis e), confidence_text (geConfidence e), geDetail e]"

definition finalizeEdges :: "graph \<Rightarrow> graph" where
  "finalizeEdges g =
     (let edges = sort_key (edgeSortKey (grRecords g)) (fold keep_best (grEdges g) [])
      in g\<lparr>grEdges := edges,
           grOutgoing := (\<lambda>n. filter (\<lambda>k. geFrom (edges ! k) = n) [0..<length edges]),
           grIncoming := (\<lambda>n. filter (\<lambda>k. geTo (edges ! k) = n) [0..<length edges]),
           grUnresolved := (\<lambda>n. sort_key urLabel (grUnresolved g n))\<rparr>)"

definition Build_graph :: "export_data \<Rightarrow> graph" where
  "Build_graph d = finalizeEdges (addRelationships (makeSubjects (build_records d)))"

section \<open>Growth\<close>

text \<open>
  Every operation of the second phase only adds: \<open>extends g h\<close> says that \<open>h\<close> has all that \<open>g\<close> has, at the
  same indices.
\<close>

definition extends :: "graph \<Rightarrow> graph \<Rightarrow> bool" where
  "extends g h \<longleftrightarrow> (\<exists>rs. grRecords h = grRecords g @ rs) \<and> (\<exists>es. grEdges h = grEdges g @ es) \<and>
     (\<forall>n. set (grUnresolved g n) \<subseteq> set (grUnresolved h n)) \<and> grData h = grData g \<and>
     grNodeSubject h = grNodeSubject g \<and> grSubjects h = grSubjects g"

named_theorems growth \<comment> \<open>one rule for each operation: it keeps extending the graph\<close>

lemma extends_refl [simp]: "extends g g"
  by (auto simp: extends_def)

lemma extends_trans: "extends g h \<Longrightarrow> extends h k \<Longrightarrow> extends g k"
  by (auto simp: extends_def; blast)

lemma extends_record: "extends g h \<Longrightarrow> i < length (grRecords g) \<Longrightarrow> grRecords h ! i = grRecords g ! i"
  by (auto simp: extends_def nth_append)

lemma extends_length: "extends g h \<Longrightarrow> length (grRecords g) \<le> length (grRecords h)"
  by (auto simp: extends_def)

lemma extends_value: "extends g h \<Longrightarrow> i < length (grRecords g) \<Longrightarrow> resourceValue i h = resourceValue i g"
proof -
  assume e: "extends g h" and i: "i < length (grRecords g)"
  then have "grData h = grData g" by (simp add: extends_def)
  then show ?thesis unfolding resourceValue_def extends_record [OF e i] by (simp only:)
qed

lemma extends_edges: "extends g h \<Longrightarrow> set (grEdges g) \<subseteq> set (grEdges h)"
  by (auto simp: extends_def)

lemma extends_unresolved: "extends g h \<Longrightarrow> set (grUnresolved g n) \<subseteq> set (grUnresolved h n)"
  by (simp add: extends_def)

lemma extends_if [growth]: "(c \<Longrightarrow> extends g a) \<Longrightarrow> (\<not> c \<Longrightarrow> extends g b) \<Longrightarrow> extends g (if c then a else b)"
  by simp

lemma extends_fold: "(\<And>x h. extends g h \<Longrightarrow> extends g (f x h)) \<Longrightarrow> extends g h \<Longrightarrow> extends g (fold f xs h)"
  by (induction xs arbitrary: h) auto

lemma extends_push [growth]: "extends g h \<Longrightarrow> extends g (push_edge e h)"
  by (rule extends_trans) (auto simp: extends_def push_edge_def)

lemma extends_addEdge [growth]: "extends g h \<Longrightarrow> extends g (addEdge a b r bs c d h)"
  unfolding addEdge_def by (intro growth)

lemma extends_addUnresolved [growth]: "extends g h \<Longrightarrow> extends g (addUnresolved i k v h)"
  by (rule extends_trans) (auto simp: addUnresolved_def Let_def extends_def)

lemma extends_synthetic: "extends g h \<Longrightarrow> extends g (snd (addSynthetic n k h))"
  by (rule extends_trans) (auto simp: addSynthetic_def extends_def)

lemma extends_addUnresolvedEdge [growth]: "extends g h \<Longrightarrow> extends g (addUnresolvedEdge i k v r bs c d h)"
  unfolding addUnresolvedEdge_def Let_def case_prod_beta by (intro growth extends_synthetic)

lemma extends_addCandidates [growth]: "extends g h \<Longrightarrow> extends g (addCandidates i cs r bs c d u h)"
  unfolding addCandidates_def Let_def by (intro growth)

lemma extends_named [growth]: "extends g h \<Longrightarrow> extends g (addNamedReference i k n r bs c u h)"
  unfolding addNamedReference_def Let_def by (intro growth)

lemma extends_disk [growth]: "extends g h \<Longrightarrow> extends g (add_disk i p h)"
  by (cases "SplitDatastorePath p") (auto simp: add_disk_def Let_def intro: growth split: prod.split)

lemma extends_datastore_name [growth]: "extends g h \<Longrightarrow> extends g (add_datastore_name i n h)"
  unfolding add_datastore_name_def Let_def by (intro growth)

lemma extends_nic [growth]: "extends g h \<Longrightarrow> extends g (add_nic i n h)"
  unfolding add_nic_def Let_def case_prod_beta by (intro growth)

lemma extends_lun [growth]: "extends g h \<Longrightarrow> extends g (add_lun i n h)"
  unfolding add_lun_def Let_def by (intro growth)

lemma extends_port_group [growth]: "extends g h \<Longrightarrow> extends g (add_port_group i n h)"
  unfolding add_port_group_def Let_def by (intro growth)

lemma extends_vm_ref [growth]: "extends g h \<Longrightarrow> extends g (add_vm_ref i n h)"
  unfolding add_vm_ref_def Let_def by (intro growth)

lemma extends_relate [growth]: "extends g h \<Longrightarrow> extends g (relate i h)"
proof -
  have "extends g (addVMRelationships i h)" "extends g (addHostRelationships i h)"
    "extends g (addDVSwitchRelationships i h)" "extends g (addResourcePoolRelationships i h)" if "extends g h" for h
    unfolding addVMRelationships_def addHostRelationships_def addDVSwitchRelationships_def
      addResourcePoolRelationships_def Let_def using that
    by (auto split: option.split observed.split payload.split intro!: growth extends_fold)
  then show "extends g h \<Longrightarrow> extends g (relate i h)" unfolding relate_def Let_def by (intro growth)
qed

lemma extends_placement [growth]: "extends g h \<Longrightarrow> extends g (placement i h)"
  unfolding placement_def placement_edges_def by (intro growth extends_fold)


section \<open>Every reference is accounted for\<close>

text \<open>
  \<open>accounted g i r d l\<close>: the reference of record \<open>i\<close> with relation \<open>r\<close> and detail \<open>d\<close> became an edge, or
  something of the label \<open>l\<close> is listed as unresolved.
\<close>

definition accounted :: "graph \<Rightarrow> nat \<Rightarrow> relation \<Rightarrow> string \<Rightarrow> string \<Rightarrow> bool" where
  "accounted g i r d l \<longleftrightarrow>
     (\<exists>e \<in> set (grEdges g). geFrom e = i \<and> geRelation e = r \<and> geDetail e = d) \<or>
     (\<exists>u \<in> set (grUnresolved g i). equal_fold (urLabel u) (trim_space l))"

lemma accounted_extends: "accounted g i r d l \<Longrightarrow> extends g h \<Longrightarrow> accounted h i r d l"
  using extends_edges [of g h] extends_unresolved [of g h i] unfolding accounted_def by blast

lemma fold_accounts:
  assumes ext: "\<And>x g h. extends g h \<Longrightarrow> extends g (f x h)"
    and acc: "\<And>x g. x \<in> set xs \<Longrightarrow> extends g0 g \<Longrightarrow> Q x (f x g)"
    and mono: "\<And>x g h. Q x g \<Longrightarrow> extends g h \<Longrightarrow> Q x h"
    and g: "extends g0 g"
  shows "\<forall>x \<in> set xs. Q x (fold f xs g)"
  using acc g
proof (induction xs arbitrary: g)
  case (Cons x xs)
  have x: "Q x (f x g)" using Cons.prems by simp
  have "extends (f x g) (fold f xs (f x g))" by (rule extends_fold [OF ext]) simp_all
  with x mono have "Q x (fold f xs (f x g))" by blast
  moreover have "\<forall>y \<in> set xs. Q y (fold f xs (f x g))"
    by (rule Cons.IH) (use Cons.prems ext in auto)
  ultimately show ?case by simp
qed simp

lemma set_uniqueNodeCandidates:
  "set (uniqueNodeCandidates vs g) = {v \<in> set vs. v < length (grRecords g)}"
  by (auto simp: uniqueNodeCandidates_def set_first_by_id)

lemma canonical_in: "cs \<noteq> [] \<Longrightarrow> canonical cs g \<in> set cs"
proof -
  have "fold (\<lambda>c best. if nodeSortKey (rec_node g c) < nodeSortKey (rec_node g best) then c else best) xs b \<in> insert b (set xs)"
    for xs b
    by (induction xs arbitrary: b) auto
  then show "cs \<noteq> [] \<Longrightarrow> canonical cs g \<in> set cs"
    unfolding canonical_def by (cases cs) auto
qed

lemma accounted_push: "accounted (push_edge (plain_edge i t r bs c d) g) i r d l"
  by (auto simp: accounted_def push_edge_def plain_edge_def)

lemma accounted_addUnresolved: "trim_space l \<noteq> [] \<Longrightarrow> accounted (addUnresolved i k l g) i r d l"
  by (auto simp: accounted_def addUnresolved_def Let_def list_ex_iff)

lemma accounted_unresolved_edge:
  "i < length (grRecords g) \<Longrightarrow> trim_space v \<noteq> [] \<Longrightarrow> accounted (addUnresolvedEdge i k v r bs c d g) i r d l"
proof -
  have a: "accounted (addUnresolved i k w (addEdge i t r bs c d h)) i r d l" if "i \<noteq> t" for w t h
    using accounted_extends [OF accounted_push [of i t r bs c d h l] extends_addUnresolved [OF extends_refl]] that
    by (simp add: addEdge_def)
  show "i < length (grRecords g) \<Longrightarrow> trim_space v \<noteq> [] \<Longrightarrow> accounted (addUnresolvedEdge i k v r bs c d g) i r d l"
    unfolding addUnresolvedEdge_def Let_def addSynthetic_def prod.case by (simp add: a)
qed

lemma accounted_candidates:
  assumes "cs \<noteq> []" and "\<And>c. c \<in> set cs \<Longrightarrow> c < length (grRecords g) \<and> c \<noteq> i" and "trim_space l \<noteq> []"
  shows "accounted (addCandidates i cs r bs c d l g) i r d l"
proof -
  let ?us = "uniqueNodeCandidates cs g"
  have us: "set ?us = set cs" using assms(2) by (auto simp: set_uniqueNodeCandidates)
  then have ne: "?us \<noteq> []" using assms(1) by (metis set_empty)
  have "canonical ?us g \<noteq> i" using canonical_in [OF ne] us assms(2) by auto
  moreover have "l \<noteq> []" using assms(3) by auto
  ultimately show ?thesis
    using ne accounted_addUnresolved [OF assms(3)] accounted_push
    by (auto simp: addCandidates_def Let_def addEdge_def)
qed

lemma namedCandidates_kind:
  "c \<in> set (namedCandidates kind ctx name vlan g) \<Longrightarrow> c < length (grRecords g) \<and> rcKind (grRecords g ! c) = kind"
  by (auto simp: namedCandidates_def Let_def set_uniqueNodeCandidates records_with_def split: if_splits)

lemma morefCandidates_kind:
  "c \<in> set (morefCandidates kind vc ident g) \<Longrightarrow> c < length (grRecords g) \<and> rcKind (grRecords g ! c) = kind"
  by (auto simp: morefCandidates_def set_uniqueNodeCandidates records_with_def)

lemma networkCandidates_kind:
  "networkCandidates ctx nic g = (cs, b, e) \<Longrightarrow> c \<in> set cs \<Longrightarrow>
     c < length (grRecords g) \<and> rcKind (grRecords g ! c) = KindNetwork"
  by (auto simp: networkCandidates_def Let_def set_uniqueNodeCandidates records_with_def namedCandidates_kind
      split: if_splits dest: namedCandidates_kind)

lemma accounted_named:
  assumes "i < length (grRecords g)" and "rcKind (grRecords g ! i) \<noteq> kind" and "trim_space name \<noteq> []" and "trim_space l \<noteq> []"
  shows "accounted (addNamedReference i kind name r bs c l g) i r name l"
  unfolding addNamedReference_def Let_def
  using assms by (auto intro!: accounted_candidates accounted_unresolved_edge dest: namedCandidates_kind)

lemma accounted_cases:
  assumes "i < length (grRecords g)" and "\<And>c. c \<in> set cs \<Longrightarrow> c < length (grRecords g) \<and> c \<noteq> i"
    and "trim_space v \<noteq> []" and "trim_space l \<noteq> []"
  shows "accounted (if cs = [] then addUnresolvedEdge i k v r bs c d g else addCandidates i cs r bs' c' d l g) i r d l"
  using assms accounted_unresolved_edge accounted_candidates by auto

lemma trim_space_prefix: "p \<noteq> [] \<Longrightarrow> \<not> is_space (hd p) \<Longrightarrow> trim_space (p @ s) \<noteq> []"
proof -
  assume p: "p \<noteq> []" "\<not> is_space (hd p)"
  then have "dropWhile is_space (p @ s) = p @ s" by (cases p) auto
  moreover have "dropWhile is_space (rev (p @ s)) \<noteq> []"
    using p by (simp add: dropWhile_eq_Nil_conv) (use hd_in_set in blast)
  ultimately show ?thesis by (simp add: trim_space_def trim_left_def trim_right_def)
qed

lemmas label_not_blank = trim_space_prefix [of "''host ''"] trim_space_prefix [of "''cluster ''"]
  trim_space_prefix [of "''datastore ''"] trim_space_prefix [of "''network ''"] trim_space_prefix [of "''VM reference ''"]
  trim_space_prefix [of "''datastore''" "[]"]

text \<open>The references a record makes, as relation, detail and the label should they be ambiguous.\<close>

type_synonym reference = "relation \<times> string \<times> string"

definition vm_references :: "vm \<Rightarrow> reference list" where
  "vm_references v =
     (if trim_space (vmHost v) \<noteq> [] then [(RunsOn, vmHost v, ''host '' @ vmHost v)] else []) @
     (if trim_space (vmCluster v) \<noteq> [] then [(RunsOn, vmCluster v, ''cluster '' @ vmCluster v)] else []) @
     concat (map (\<lambda>p. case SplitDatastorePath p of None \<Rightarrow> []
       | Some (name, rel) \<Rightarrow> if rel \<noteq> [] \<and> trim_space (datastorePathSpelling p name) \<noteq> [] \<and> name \<noteq> []
           then [(StoredOn, p, ''datastore '' @ datastorePathSpelling p name)] else []) (map dkPath (vmDisks v))) @
     map (\<lambda>n. (StoredOn, n, ''datastore '' @ n)) (filter (\<lambda>n. trim_space n \<noteq> []) (vmDatastores v)) @
     map (\<lambda>n. (AttachedTo, niNetworkID n, trim_space (''network '' @ niNetwork n)))
       (filter (\<lambda>n. trim_space (if niNetwork n = [] then niNetworkID n else niNetwork n) \<noteq> []) (vmNICs v))"

definition host_references :: "host \<Rightarrow> reference list" where
  "host_references h =
     (if trim_space (hoCluster h) \<noteq> [] then [(MemberOf, hoCluster h, ''cluster '' @ hoCluster h)] else []) @
     map (\<lambda>n. (Presents, n, ''datastore'')) (filter (\<lambda>n. trim_space n \<noteq> []) (hoLUNs h)) @
     map (\<lambda>pg. (Presents, itoa (hpVLAN pg), ''network '' @ hpName pg)) (filter (\<lambda>pg. trim_space (hpName pg) \<noteq> []) (hoPortGroups h))"

definition references :: "graph \<Rightarrow> nat \<Rightarrow> reference list" where
  "references g i =
     (case (rcKind (grRecords g ! i), resourceValue i g) of
        (k, Some (ObsVM v)) \<Rightarrow> if k = KindVM \<or> k = KindTemplate then vm_references v else []
      | (k, Some (ObsRes (PHost h))) \<Rightarrow> if k = KindHost then host_references h else []
      | (k, Some (ObsRes (PDVSwitch sw))) \<Rightarrow>
          if k = KindDVSwitch then map (\<lambda>n. (AttachedTo, n, ''host '' @ n)) (filter (\<lambda>n. trim_space n \<noteq> []) (dsHosts sw)) else []
      | (k, Some (ObsRes (PPool p))) \<Rightarrow>
          if k = KindResourcePool
          then map (\<lambda>n. (Contains, n, ''VM reference '' @ n)) (filter (\<lambda>n. trim_space (after_last_colon (trim_space n)) \<noteq> []) (rpVMRefs p))
          else []
      | _ \<Rightarrow> [])"

lemma accounted_disk:
  assumes "i < length (grRecords g)" and "rcKind (grRecords g ! i) \<noteq> KindDatastore"
    and "SplitDatastorePath p = Some (name, rel)" and "name \<noteq> []" and "rel \<noteq> []"
    and "trim_space (datastorePathSpelling p name) \<noteq> []"
  shows "accounted (add_disk i p g) i StoredOn p (''datastore '' @ datastorePathSpelling p name)"
proof -
  have "accounted (if namedCandidates KindDatastore (ndContext (rec_node g i)) name [] g = []
      then addUnresolvedEdge i KindDatastore (datastorePathSpelling p name) StoredOn BasisDiskPath EdgeUnresolved p g
      else addCandidates i (namedCandidates KindDatastore (ndContext (rec_node g i)) name [] g) StoredOn BasisDiskPath
        EdgeConfirmed p (''datastore '' @ datastorePathSpelling p name) g) i StoredOn p
      (''datastore '' @ datastorePathSpelling p name)"
    by (rule accounted_cases) (use assms label_not_blank in \<open>auto simp: is_space_def dest: namedCandidates_kind\<close>)
  then show ?thesis using assms by (simp add: add_disk_def Let_def)
qed

lemma accounted_datastore_name:
  assumes "i < length (grRecords g)" and "rcKind (grRecords g ! i) \<noteq> KindDatastore" and "trim_space n \<noteq> []"
  shows "accounted (add_datastore_name i n g) i StoredOn n (''datastore '' @ n)"
  unfolding add_datastore_name_def Let_def
  by (rule accounted_cases) (use assms label_not_blank in \<open>auto simp: is_space_def dest: namedCandidates_kind\<close>)

lemma accounted_nic:
  assumes "i < length (grRecords g)" and "rcKind (grRecords g ! i) \<noteq> KindNetwork"
    and "trim_space (if niNetwork n = [] then niNetworkID n else niNetwork n) \<noteq> []"
  shows "accounted (add_nic i n g) i AttachedTo (niNetworkID n) (trim_space (''network '' @ niNetwork n))"
proof -
  obtain cs b e where c: "networkCandidates (ndContext (rec_node g i)) n g = (cs, b, e)" by (metis prod_cases3)
  have "accounted (if cs = []
      then addUnresolvedEdge i KindNetwork (if niNetwork n = [] then niNetworkID n else niNetwork n) AttachedTo b
        EdgeUnresolved (niNetworkID n) g
      else addCandidates i cs AttachedTo b e (niNetworkID n) (trim_space (''network '' @ niNetwork n)) g)
    i AttachedTo (niNetworkID n) (trim_space (''network '' @ niNetwork n))"
    by (rule accounted_cases) (use assms networkCandidates_kind [OF c] label_not_blank in \<open>auto simp: is_space_def\<close>)
  moreover have "(if niNetwork n = [] then niNetworkID n else niNetwork n) \<noteq> []" using assms(3) by (metis trim_space_empty)
  ultimately show ?thesis unfolding add_nic_def c prod.case Let_def by (simp only: if_True not_False_eq_True)
qed

lemma accounted_lun:
  assumes "i < length (grRecords g)" and "rcKind (grRecords g ! i) \<noteq> KindDatastore" and "trim_space n \<noteq> []"
  shows "accounted (add_lun i n g) i Presents n ''datastore''"
proof -
  have "norm n \<noteq> []" using assms(3) by (simp add: norm_Nil_iff)
  moreover have "accounted (if lun_candidates i (norm n) g = []
      then addUnresolvedEdge i KindDatastore n Presents BasisBackingIdentity EdgeUnresolved n g
      else addCandidates i (lun_candidates i (norm n) g) Presents BasisBackingIdentity EdgeConfirmed n ''datastore'' g)
    i Presents n ''datastore''"
    by (rule accounted_cases) (use assms label_not_blank in \<open>auto simp: is_space_def lun_candidates_def\<close>)
  ultimately show ?thesis by (simp add: add_lun_def Let_def)
qed

lemma accounted_port_group:
  assumes "i < length (grRecords g)" and "rcKind (grRecords g ! i) \<noteq> KindNetwork" and "trim_space (hpName pg) \<noteq> []"
  shows "accounted (add_port_group i pg g) i Presents (itoa (hpVLAN pg)) (''network '' @ hpName pg)"
  unfolding add_port_group_def Let_def
  by (rule accounted_cases)
    (use assms label_not_blank in \<open>auto simp: is_space_def dest: namedCandidates_kind split: if_splits\<close>)

lemma accounted_vm_ref:
  assumes "i < length (grRecords g)" and "rcKind (grRecords g ! i) \<noteq> KindVM" and "rcKind (grRecords g ! i) \<noteq> KindTemplate"
    and "trim_space (after_last_colon (trim_space n)) \<noteq> []"
  shows "accounted (add_vm_ref i n g) i Contains n (''VM reference '' @ n)"
  unfolding add_vm_ref_def Let_def
  by (rule accounted_cases)
    (use assms label_not_blank in \<open>auto simp: is_space_def dest: morefCandidates_kind split: if_splits\<close>)

abbreviation accounts :: "graph \<Rightarrow> nat \<Rightarrow> reference list \<Rightarrow> bool" where
  "accounts g i refs \<equiv> \<forall>x \<in> set refs. accounted g i (fst x) (fst (snd x)) (snd (snd x))"

lemma accounts_extends: "accounts g i refs \<Longrightarrow> extends g h \<Longrightarrow> accounts h i refs"
  using accounted_extends by blast

text \<open>A fold over references of one sort accounts for those that \<open>P\<close> holds of.\<close>

lemma fold_accounts_refs:
  assumes "\<And>x g h. extends g h \<Longrightarrow> extends g (f x h)"
    and "\<And>x g. x \<in> set xs \<Longrightarrow> extends g0 g \<Longrightarrow> P x \<Longrightarrow> accounted (f x g) i r (d x) (l x)"
    and "extends g0 g"
  shows "accounts (fold f xs g) i (map (\<lambda>x. (r, d x, l x)) (filter P xs))"
proof -
  have "\<forall>x \<in> set xs. P x \<longrightarrow> accounted (fold f xs g) i r (d x) (l x)"
  proof (rule fold_accounts [OF assms(1)])
    show "P x \<longrightarrow> accounted h i r (d x) (l x)" if "P x \<longrightarrow> accounted g i r (d x) (l x)" "extends g h" for x g h
      using that accounted_extends by blast
  qed (use assms(2,3) in auto)
  then show ?thesis by auto
qed

lemma stays:
  assumes "extends g0 g" and "i < length (grRecords g0)"
  shows "i < length (grRecords g)" and "rcKind (grRecords g ! i) = rcKind (grRecords g0 ! i)"
  using extends_length [OF assms(1)] extends_record [OF assms] assms(2) by auto

lemma accounted_named_if:
  assumes "i < length (grRecords g)" and "rcKind (grRecords g ! i) \<noteq> kind" and "p \<noteq> []" and "\<not> is_space (hd p)"
  shows "accounts (if name \<noteq> [] then addNamedReference i kind name r bs c (p @ name) g else g) i
    (if trim_space name \<noteq> [] then [(r, name, p @ name)] else [])"
  using accounted_named [OF assms(1,2), of name "p @ name"] trim_space_prefix [OF assms(3,4), of name] by auto

definition disk_reference :: "string \<Rightarrow> bool" where
  "disk_reference p \<longleftrightarrow> (case SplitDatastorePath p of None \<Rightarrow> False
     | Some (name, rel) \<Rightarrow> rel \<noteq> [] \<and> trim_space (datastorePathSpelling p name) \<noteq> [] \<and> name \<noteq> [])"

definition disk_label :: "string \<Rightarrow> string" where
  "disk_label p = (case SplitDatastorePath p of None \<Rightarrow> [] | Some (name, rel) \<Rightarrow> ''datastore '' @ datastorePathSpelling p name)"

lemma disk_references:
  "concat (map (\<lambda>p. case SplitDatastorePath p of None \<Rightarrow> []
       | Some (name, rel) \<Rightarrow> if rel \<noteq> [] \<and> trim_space (datastorePathSpelling p name) \<noteq> [] \<and> name \<noteq> []
           then [(StoredOn, p, ''datastore '' @ datastorePathSpelling p name)] else []) ps) =
   map (\<lambda>p. (StoredOn, p, disk_label p)) (filter disk_reference ps)"
  by (induction ps) (auto simp: disk_reference_def disk_label_def split: option.splits prod.splits)

lemma vm_accounts:
  assumes i: "i < length (grRecords g)" and k: "rcKind (grRecords g ! i) \<in> {KindVM, KindTemplate}"
    and v: "resourceValue i g = Some (ObsVM v)"
  shows "accounts (addVMRelationships i g) i (vm_references v)"
proof -
  define g1 where "g1 = (if vmHost v \<noteq> [] then addNamedReference i KindHost (vmHost v) RunsOn BasisName EdgeInferred (''host '' @ vmHost v) g else g)"
  define g2 where "g2 = (if vmCluster v \<noteq> [] then addNamedReference i KindCluster (vmCluster v) RunsOn BasisName EdgeInferred (''cluster '' @ vmCluster v) g1 else g1)"
  define g3 where "g3 = fold (add_disk i) (map dkPath (vmDisks v)) g2"
  define g4 where "g4 = fold (add_datastore_name i) (vmDatastores v) g3"
  define g5 where "g5 = fold (add_nic i) (vmNICs v) g4"
  have res: "addVMRelationships i g = g5"
    by (simp add: addVMRelationships_def v g1_def g2_def g3_def g4_def g5_def Let_def)
  have e1: "extends g g1" unfolding g1_def by (intro growth extends_refl)
  have e12: "extends g1 g2" unfolding g2_def by (intro growth extends_refl)
  have e23: "extends g2 g3" unfolding g3_def by (intro growth extends_fold extends_refl)
  have e34: "extends g3 g4" unfolding g4_def by (intro growth extends_fold extends_refl)
  have e45: "extends g4 g5" unfolding g5_def by (intro growth extends_fold extends_refl)
  have e2: "extends g g2" and e3: "extends g g3" and e4: "extends g g4"
    using e1 e12 e23 e34 extends_trans by blast+
  have e15: "extends g1 g5" and e25: "extends g2 g5" and e35: "extends g3 g5"
    using e12 e23 e34 e45 extends_trans by blast+
  have kd: "rcKind (grRecords h ! i) \<noteq> KindHost" "rcKind (grRecords h ! i) \<noteq> KindCluster"
    "rcKind (grRecords h ! i) \<noteq> KindDatastore" "rcKind (grRecords h ! i) \<noteq> KindNetwork" "i < length (grRecords h)"
    if "extends g h" for h
    using stays [OF that i] k by auto
  have "accounts g1 i (if trim_space (vmHost v) \<noteq> [] then [(RunsOn, vmHost v, ''host '' @ vmHost v)] else [])"
    unfolding g1_def using accounted_named_if [of i g KindHost "''host ''"] kd [OF extends_refl] by (simp add: is_space_def)
  then have a1: "accounts g5 i (if trim_space (vmHost v) \<noteq> [] then [(RunsOn, vmHost v, ''host '' @ vmHost v)] else [])"
    by (rule accounts_extends [OF _ e15])
  have "accounts g2 i (if trim_space (vmCluster v) \<noteq> [] then [(RunsOn, vmCluster v, ''cluster '' @ vmCluster v)] else [])"
    unfolding g2_def using accounted_named_if [of i g1 KindCluster "''cluster ''"] kd [OF e1] by (simp add: is_space_def)
  then have a2: "accounts g5 i (if trim_space (vmCluster v) \<noteq> [] then [(RunsOn, vmCluster v, ''cluster '' @ vmCluster v)] else [])"
    by (rule accounts_extends [OF _ e25])
  have "accounts g3 i (map (\<lambda>p. (StoredOn, p, disk_label p)) (filter disk_reference (map dkPath (vmDisks v))))"
    unfolding g3_def
  proof (rule fold_accounts_refs [OF _ _ e2])
    show "accounted (add_disk i p h) i StoredOn p (disk_label p)" if "extends g h" "disk_reference p" for p h
      using that(2) kd [OF that(1)] accounted_disk [of i h p]
      by (auto simp: disk_reference_def disk_label_def split: option.splits)
  qed (rule growth)
  then have a3: "accounts g5 i (map (\<lambda>p. (StoredOn, p, disk_label p)) (filter disk_reference (map dkPath (vmDisks v))))"
    by (rule accounts_extends [OF _ e35])
  have "accounts g4 i (map (\<lambda>n. (StoredOn, n, ''datastore '' @ n)) (filter (\<lambda>n. trim_space n \<noteq> []) (vmDatastores v)))"
    unfolding g4_def
    by (rule fold_accounts_refs [OF _ _ e3]) (use kd accounted_datastore_name in \<open>auto intro: growth\<close>)
  then have a4: "accounts g5 i (map (\<lambda>n. (StoredOn, n, ''datastore '' @ n)) (filter (\<lambda>n. trim_space n \<noteq> []) (vmDatastores v)))"
    by (rule accounts_extends [OF _ e45])
  have a5: "accounts g5 i (map (\<lambda>n. (AttachedTo, niNetworkID n, trim_space (''network '' @ niNetwork n)))
       (filter (\<lambda>n. trim_space (if niNetwork n = [] then niNetworkID n else niNetwork n) \<noteq> []) (vmNICs v)))"
    unfolding g5_def
    by (rule fold_accounts_refs [OF _ _ e4]) (rule growth, assumption, rule accounted_nic, use kd in auto)
  show ?thesis
    unfolding res vm_references_def disk_references set_append ball_Un using a1 a2 a3 a4 a5 by blast
qed

lemma host_accounts:
  assumes i: "i < length (grRecords g)" and k: "rcKind (grRecords g ! i) = KindHost"
    and v: "resourceValue i g = Some (ObsRes (PHost v))"
  shows "accounts (addHostRelationships i g) i (host_references v)"
proof -
  define g1 where "g1 = (if hoCluster v \<noteq> [] then addNamedReference i KindCluster (hoCluster v) MemberOf BasisName EdgeInferred (''cluster '' @ hoCluster v) g else g)"
  define g2 where "g2 = fold (add_lun i) (hoLUNs v) g1"
  define g3 where "g3 = fold (add_port_group i) (hoPortGroups v) g2"
  have res: "addHostRelationships i g = g3"
    by (simp add: addHostRelationships_def v g1_def g2_def g3_def Let_def)
  have e1: "extends g g1" unfolding g1_def by (intro growth extends_refl)
  have e12: "extends g1 g2" unfolding g2_def by (intro growth extends_fold extends_refl)
  have e23: "extends g2 g3" unfolding g3_def by (intro growth extends_fold extends_refl)
  have e2: "extends g g2" and e13: "extends g1 g3" using e1 e12 e23 extends_trans by blast+
  have kd: "rcKind (grRecords h ! i) \<noteq> KindCluster" "rcKind (grRecords h ! i) \<noteq> KindDatastore"
    "rcKind (grRecords h ! i) \<noteq> KindNetwork" "i < length (grRecords h)" if "extends g h" for h
    using stays [OF that i] k by auto
  have "accounts g1 i (if trim_space (hoCluster v) \<noteq> [] then [(MemberOf, hoCluster v, ''cluster '' @ hoCluster v)] else [])"
    unfolding g1_def using accounted_named_if [of i g KindCluster "''cluster ''"] kd [OF extends_refl] by (simp add: is_space_def)
  then have a1: "accounts g3 i (if trim_space (hoCluster v) \<noteq> [] then [(MemberOf, hoCluster v, ''cluster '' @ hoCluster v)] else [])"
    by (rule accounts_extends [OF _ e13])
  have "accounts g2 i (map (\<lambda>n. (Presents, n, ''datastore'')) (filter (\<lambda>n. trim_space n \<noteq> []) (hoLUNs v)))"
    unfolding g2_def
    by (rule fold_accounts_refs [OF _ _ e1]) (rule growth, assumption, rule accounted_lun, use kd in auto)
  then have a2: "accounts g3 i (map (\<lambda>n. (Presents, n, ''datastore'')) (filter (\<lambda>n. trim_space n \<noteq> []) (hoLUNs v)))"
    by (rule accounts_extends [OF _ e23])
  have a3: "accounts g3 i (map (\<lambda>pg. (Presents, itoa (hpVLAN pg), ''network '' @ hpName pg)) (filter (\<lambda>pg. trim_space (hpName pg) \<noteq> []) (hoPortGroups v)))"
    unfolding g3_def
    by (rule fold_accounts_refs [OF _ _ e2]) (rule growth, assumption, rule accounted_port_group, use kd in auto)
  show ?thesis unfolding res host_references_def set_append ball_Un using a1 a2 a3 by blast
qed

lemma relate_accounts:
  assumes i: "i < length (grRecords g)" and el: "rcEligible (grRecords g ! i)"
  shows "accounts (relate i g) i (references g i)"
proof (cases "resourceValue i g")
  case (Some val)
  let ?k = "rcKind (grRecords g ! i)"
  have stay: "rcKind (grRecords h ! i) = ?k" "i < length (grRecords h)" if "extends g h" for h
    using stays [OF that i] by auto
  have hosts: "accounts (fold (\<lambda>name. addNamedReference i KindHost name AttachedTo BasisName EdgeInferred (''host '' @ name)) xs g) i
      (map (\<lambda>n. (AttachedTo, n, ''host '' @ n)) (filter (\<lambda>n. trim_space n \<noteq> []) xs))" if "?k = KindDVSwitch" for xs
    by (rule fold_accounts_refs [OF _ _ extends_refl])
      (rule growth, assumption, rule accounted_named, use stay that label_not_blank in \<open>auto simp: is_space_def\<close>)
  have vms: "accounts (fold (add_vm_ref i) xs g) i
      (map (\<lambda>n. (Contains, n, ''VM reference '' @ n)) (filter (\<lambda>n. trim_space (after_last_colon (trim_space n)) \<noteq> []) xs))"
    if "?k = KindResourcePool" for xs
    by (rule fold_accounts_refs [OF _ _ extends_refl])
      (rule growth, assumption, rule accounted_vm_ref, use stay that in auto)
  consider v where "val = ObsVM v" | h where "val = ObsRes (PHost h)" | sw where "val = ObsRes (PDVSwitch sw)"
    | p where "val = ObsRes (PPool p)" | "references g i = []"
    using Some by (cases val; simp add: references_def; cases "case val of ObsRes q \<Rightarrow> q") (auto split: payload.split)
  then show ?thesis
  proof cases
    case 1
    with Some vm_accounts [OF i] el show ?thesis by (auto simp: references_def relate_def Let_def)
  next
    case 2
    with Some host_accounts [OF i] el show ?thesis by (auto simp: references_def relate_def Let_def)
  next
    case 3
    with Some hosts el show ?thesis by (auto simp: references_def relate_def Let_def addDVSwitchRelationships_def)
  next
    case 4
    with Some vms el show ?thesis by (auto simp: references_def relate_def Let_def addResourcePoolRelationships_def)
  qed simp
qed (simp add: references_def)

lemma references_extends: "extends g h \<Longrightarrow> i < length (grRecords g) \<Longrightarrow> references h i = references g i"
  by (simp only: references_def extends_record extends_value)

section \<open>The best evidence\<close>

lemma same_key_refl [simp]: "same_key e e"
  by (simp add: same_key_def)

lemma same_key_sym: "same_key a b \<Longrightarrow> same_key b a"
  by (simp add: same_key_def)

lemma same_key_trans: "same_key a b \<Longrightarrow> same_key b c \<Longrightarrow> same_key a c"
  by (simp add: same_key_def)

lemma not_beats_refl [simp]: "\<not> beats e e"
  by (simp add: beats_def)

lemma not_beats_trans: "\<not> beats a b \<Longrightarrow> \<not> beats b c \<Longrightarrow> \<not> beats a c"
  by (auto simp: beats_def)

lemma beats_asym: "beats a b \<Longrightarrow> \<not> beats b a"
  by (auto simp: beats_def)

definition one_per_key :: "graph_edge list \<Rightarrow> bool" where
  "one_per_key xs \<longleftrightarrow> distinct xs \<and> (\<forall>a \<in> set xs. \<forall>b \<in> set xs. same_key a b \<longrightarrow> a = b)"

lemma keep_best_set: "set (keep_best e xs) \<subseteq> insert e (set xs)"
  by (induction e xs rule: keep_best.induct) auto

lemma keep_best_keys: "(\<exists>y \<in> set (keep_best e xs). same_key z y) \<longleftrightarrow> same_key z e \<or> (\<exists>x \<in> set xs. same_key z x)"
  by (induction e xs rule: keep_best.induct) (auto simp: same_key_def)

lemma keep_best_one: "one_per_key xs \<Longrightarrow> one_per_key (keep_best e xs)"
proof (induction e xs rule: keep_best.induct)
  case (1 e)
  then show ?case by (simp add: one_per_key_def)
next
  case (2 e x xs)
  have xs: "one_per_key xs" and x: "\<not> (\<exists>y \<in> set xs. same_key x y)"
    using 2(2) by (auto simp: one_per_key_def)
  show ?case
  proof (cases "same_key e x")
    case True
    then have "\<not> (\<exists>y \<in> set xs. same_key e y)" using x same_key_sym same_key_trans by blast
    then show ?thesis using True x xs same_key_sym by (auto simp: one_per_key_def)
  next
    case False
    then have "\<not> (\<exists>y \<in> set (keep_best e xs). same_key x y)"
      using x unfolding keep_best_keys by (auto dest: same_key_sym)
    then show ?thesis using 2(1) [OF False xs] False same_key_sym same_key_refl by (auto simp: one_per_key_def)
  qed
qed

lemma keep_best_dominates:
  "z = e \<or> (\<exists>x \<in> set xs. same_key z x \<and> \<not> beats z x) \<Longrightarrow>
   \<exists>y \<in> set (keep_best e xs). same_key z y \<and> \<not> beats z y"
proof (induction e xs rule: keep_best.induct)
  case (2 e x xs)
  show ?case
  proof (cases "same_key e x")
    case True
    define w where "w = (if beats e x then e else x)"
    have w: "same_key e w" "same_key x w" "\<not> beats e w" "\<not> beats x w"
      using True same_key_sym beats_asym by (auto simp: w_def)
    have res: "keep_best e (x # xs) = w # xs" using True by (simp add: w_def)
    from 2(2) consider "z = e" | "same_key z x" "\<not> beats z x" | y where "y \<in> set xs" "same_key z y" "\<not> beats z y" by auto
    then have "(same_key z w \<and> \<not> beats z w) \<or> (\<exists>y \<in> set xs. same_key z y \<and> \<not> beats z y)"
      using w same_key_trans not_beats_trans by cases blast+
    then show ?thesis unfolding res by auto
  next
    case False
    then show ?thesis using 2 by auto
  qed
qed simp

lemma fold_keep_best:
  "one_per_key acc \<Longrightarrow>
   one_per_key (fold keep_best es acc) \<and> set (fold keep_best es acc) \<subseteq> set es \<union> set acc \<and>
   (\<forall>z. z \<in> set es \<or> (\<exists>x \<in> set acc. same_key z x \<and> \<not> beats z x) \<longrightarrow>
     (\<exists>y \<in> set (fold keep_best es acc). same_key z y \<and> \<not> beats z y))"
proof (induction es arbitrary: acc)
  case (Cons e es)
  have IH: "one_per_key (fold keep_best es (keep_best e acc))"
    "set (fold keep_best es (keep_best e acc)) \<subseteq> set es \<union> set (keep_best e acc)"
    "\<And>z. z \<in> set es \<or> (\<exists>x \<in> set (keep_best e acc). same_key z x \<and> \<not> beats z x) \<Longrightarrow>
      \<exists>y \<in> set (fold keep_best es (keep_best e acc)). same_key z y \<and> \<not> beats z y"
    using Cons.IH [OF keep_best_one [OF Cons.prems, of e]] by blast+
  have "\<exists>y \<in> set (fold keep_best es (keep_best e acc)). same_key z y \<and> \<not> beats z y"
    if z: "z \<in> set (e # es) \<or> (\<exists>x \<in> set acc. same_key z x \<and> \<not> beats z x)" for z
  proof (cases "z \<in> set es")
    case False
    then have "z = e \<or> (\<exists>x \<in> set acc. same_key z x \<and> \<not> beats z x)" using z by auto
    from keep_best_dominates [OF this] show ?thesis using IH(3) by blast
  qed (use IH(3) in blast)
  then show ?case using IH(1,2) keep_best_set [of e acc] by auto
qed simp

lemma finalize_correct:
  "(\<forall>e \<in> set (grEdges g). \<exists>x \<in> set (grEdges (finalizeEdges g)). same_key e x \<and> \<not> beats e x) \<and>
   one_per_key (grEdges (finalizeEdges g)) \<and> set (grEdges (finalizeEdges g)) \<subseteq> set (grEdges g) \<and>
   (\<forall>n k. (k \<in> set (grOutgoing (finalizeEdges g) n) \<longleftrightarrow>
        k < length (grEdges (finalizeEdges g)) \<and> geFrom (grEdges (finalizeEdges g) ! k) = n) \<and>
      (k \<in> set (grIncoming (finalizeEdges g) n) \<longleftrightarrow>
        k < length (grEdges (finalizeEdges g)) \<and> geTo (grEdges (finalizeEdges g) ! k) = n))"
proof -
  have f: "set (grEdges (finalizeEdges g)) = set (fold keep_best (grEdges g) [])"
    "distinct (grEdges (finalizeEdges g)) = distinct (fold keep_best (grEdges g) [])"
    by (simp_all add: finalizeEdges_def Let_def)
  have b: "one_per_key (fold keep_best (grEdges g) [])"
    "set (fold keep_best (grEdges g) []) \<subseteq> set (grEdges g)"
    "\<And>e. e \<in> set (grEdges g) \<Longrightarrow> \<exists>x \<in> set (fold keep_best (grEdges g) []). same_key e x \<and> \<not> beats e x"
    using fold_keep_best [of "[]" "grEdges g"] by (simp_all add: one_per_key_def)
  have "\<forall>n k. (k \<in> set (grOutgoing (finalizeEdges g) n) \<longleftrightarrow>
        k < length (grEdges (finalizeEdges g)) \<and> geFrom (grEdges (finalizeEdges g) ! k) = n) \<and>
      (k \<in> set (grIncoming (finalizeEdges g) n) \<longleftrightarrow>
        k < length (grEdges (finalizeEdges g)) \<and> geTo (grEdges (finalizeEdges g) ! k) = n)"
    by (auto simp: finalizeEdges_def Let_def)
  moreover have "one_per_key (grEdges (finalizeEdges g))" using b(1) f by (simp add: one_per_key_def)
  ultimately show ?thesis using b(2,3) f by blast
qed

section \<open>Properties\<close>


text \<open>
  C32: Collapsing the edges keeps the best evidence: of the edges with one source, target and relation exactly
  one is left, an original edge that none of them beats in evidence or, at equal evidence, in the order of
  the details; every original edge has its representative; and the two adjacency lists hold exactly the
  edges that leave and that reach a node.
\<close>

theorem edges_collapsed_to_best:
  "(\<forall>e \<in> set (grEdges g). \<exists>x \<in> set (grEdges (finalizeEdges g)). same_key e x \<and> \<not> beats e x) \<and>
   one_per_key (grEdges (finalizeEdges g)) \<and> set (grEdges (finalizeEdges g)) \<subseteq> set (grEdges g) \<and>
   (\<forall>n k. (k \<in> set (grOutgoing (finalizeEdges g) n) \<longleftrightarrow>
        k < length (grEdges (finalizeEdges g)) \<and> geFrom (grEdges (finalizeEdges g) ! k) = n) \<and>
      (k \<in> set (grIncoming (finalizeEdges g) n) \<longleftrightarrow>
        k < length (grEdges (finalizeEdges g)) \<and> geTo (grEdges (finalizeEdges g) ! k) = n))"
  by (rule finalize_correct)

definition sample_edges :: graph where
  "sample_edges = (sample_graph [])\<lparr>grEdges := [plain_edge 0 1 StoredOn BasisName EdgeInferred ''b'',
     plain_edge 0 1 StoredOn BasisDiskPath EdgeConfirmed ''a'']\<rparr>"

theorem edges_collapsed_to_best_witness:
  "\<exists>x \<in> set (grEdges (finalizeEdges sample_edges)). same_key (hd (grEdges sample_edges)) x \<and> \<not> beats (hd (grEdges sample_edges)) x"
proof -
  have "hd (grEdges sample_edges) \<in> set (grEdges sample_edges)" by (simp add: sample_edges_def)
  then show ?thesis using edges_collapsed_to_best [of sample_edges] by blast
qed

definition sample_guest :: vm where
  "sample_guest = \<lparr>vmLocation = \<lparr>loContext = ''prod'', loDatacenter = [], loPath = []\<rparr>, vmID = ''vm-1'', vmName = ''web'',
     vmInstanceUUID = [], vmBIOSUUID = [], vmIsTemplate = False, vmHost = ''esx1'', vmCluster = [], vmDatastores = [],
     vmDisks = [], vmNICs = [], vmPowerState = ''poweredOff'', vmConnectionState = ''connected'', vmConfigurationAvailable = True,
     vmCDROMs = [], vmUSBs = [], vmSnapshots = [], vmRules = None\<rparr>"

definition sample_guest_graph :: graph where
  "sample_guest_graph =
     (empty_graph (sample_export\<lparr>exVMs := [\<lparr>obVCenter = ''vc'', obContext = ''prod'', obVM = sample_guest, obSnapshots = []\<rparr>]\<rparr>))
     \<lparr>grRecords := [\<lparr>rcNode = \<lparr>ndKind = KindVM, ndName = ''web'', ndID = ''vm-1'', ndContext = ''prod'', ndVCenter = ''vc'',
          ndDatacenter = [], ndPath = []\<rparr>, rcKind = KindVM, rcKeys = [], rcWeak = weakKey KindVM ''prod'' ''web'' [],
        rcNetwork = no_identity, rcLocal = False, rcEligible = True, rcReconstructed = False\<rparr>]\<rparr>"


text \<open>
  The second pass is meant to add host-to-datastore edges where a virtual machine is placed. Every edge it
  adds leaves the virtual machine itself; none leaves a host.
\<close>

theorem placement_edges_leave_the_vm:
  assumes "e \<in> set (grEdges (placement i g)) - set (grEdges g)"
  shows "geFrom e = i \<and> geRelation e = Presents \<and> rcKind (grRecords g ! i) \<in> {KindVM, KindTemplate}"
proof -
  define new where "new g h \<longleftrightarrow> (\<forall>e \<in> set (grEdges h) - set (grEdges g). geFrom e = i \<and> geRelation e = Presents)"
    for g h :: graph
  have fold_new: "new g (fold f xs g)" if f: "\<And>x g. new g (f x g)" for f :: "graph_edge \<Rightarrow> graph \<Rightarrow> graph" and xs g
  proof (induction xs arbitrary: g)
    case (Cons x xs)
    from f [of g x] Cons.IH [of "f x g"] show ?case by (auto simp: new_def)
  qed (simp add: new_def)
  have add: "new g (addEdge i t Presents BasisName EdgeInferred n g)" for t n g
    by (auto simp: new_def addEdge_def push_edge_def plain_edge_def)
  let ?step = "\<lambda>t h g. if geFrom h = i \<and> geRelation h = RunsOn
      then addEdge (geFrom h) t Presents BasisName EdgeInferred (ndName (rec_node g i)) g else g"
  have step: "new g (?step t h g)" for h t g
    using add [of g t "ndName (rec_node g i)"] by (cases "geFrom h = i \<and> geRelation h = RunsOn") (auto simp: new_def)
  have refl: "new g g" for g by (simp add: new_def)
  have pe: "new g (placement_edges i x g)" for x g
    unfolding placement_edges_def using fold_new [of "?step (geTo x)", OF step, of g "grEdges g"] refl [of g]
    by (simp only: split: if_split) blast
  have "new g (placement i g)"
    unfolding placement_def using fold_new [of "placement_edges i", OF pe, of g "grEdges g"] refl [of g]
    by (simp only: split: if_split) blast
  with assms show ?thesis by (auto simp: new_def placement_def split: if_splits)
qed

end
