(* ===== verification/TopoQuery.thy ===== *)
theory TopoQuery
  imports Relations
begin

text \<open>
  The queries of the topology graph (internal/topology/query.go and the end of graph.go): resolving a name
  to subjects, the ancestors and attachments of a subject, the bounded traversal in both directions, and
  the confidence of a result with the contexts that were blind. The set of visited nodes is a list. The loop
  that climbs from a node to its container has no bound in the code: it is a partial function, and a
  property shows that it returns on every graph \<open>Build_graph\<close> makes.
\<close>

section \<open>Data\<close>

record edge_value =
  evFrom :: node
  evTo :: node
  evRelation :: relation
  evBasis :: basis
  evConfidence :: edge_confidence
  evDetail :: string

record blind_context =
  bcContext :: string
  bcReason :: string

datatype result_confidence = ConfidenceComplete | ConfidencePartial | ConfidenceUnknown

record subject_result =
  rtSubject :: subject
  rtAncestors :: "edge_value list"
  rtEdges :: "edge_value list"
  rtConfidence :: result_confidence
  rtBlind :: "blind_context list"
  rtUnresolved :: "string list"

section \<open>Resolving a name\<close>

definition subjectMatches :: "subject \<Rightarrow> string \<Rightarrow> bool" where
  "subjectMatches s query \<longleftrightarrow> equal_fold (sjName s) query \<or>
     list_ex (\<lambda>k. equal_fold k query \<or>
       (case str_index '':'' k of None \<Rightarrow> False | Some i \<Rightarrow> equal_fold (drop (i + 1) k) query)) (sjIdentity s) \<or>
     list_ex (\<lambda>m. equal_fold (ndName m) query \<or> (ndID m \<noteq> [] \<and> equal_fold (ndID m) query)) (sjMembers s)"

definition subjectInContexts :: "subject \<Rightarrow> string list \<Rightarrow> bool" where
  "subjectInContexts s contexts \<longleftrightarrow> list_ex (\<lambda>m. to_lower (ndContext m) \<in> set contexts) (sjMembers s)"

definition Resolve_subjects :: "graph \<Rightarrow> string \<Rightarrow> string \<Rightarrow> string list \<Rightarrow> subject list" where
  "Resolve_subjects g kind raw contexts =
     (let query = trim_space raw; allowed = map norm contexts
      in sort_key subjectSortKey (filter (\<lambda>s. equal_fold (sjKind s) kind \<and> subjectMatches s query \<and>
           (allowed = [] \<or> subjectInContexts s allowed)) (map srSubject (grSubjects g))))"

section \<open>Coverage of a query\<close>

definition network_needs :: "graph \<Rightarrow> string list \<Rightarrow> string list" where
  "network_needs g ks = (if 12 \<le> grSchema g then ks @ [''network''] else ks)"

definition query_needs :: "graph \<Rightarrow> string \<Rightarrow> string list" where
  "query_needs g kind =
     (if kind = KindVM \<or> kind = KindTemplate
      then network_needs g [''vm'', ''host'', ''cluster'', ''datastore'', ''resourcepool'', ''dvswitch'']
      else if kind = KindDatastore then [''datastore'', ''vm'', ''host'']
      else if kind = KindNetwork then network_needs g [''vm'', ''host'', ''dvswitch'']
      else if kind = KindHost then network_needs g [''host'', ''cluster'', ''datastore'', ''dvswitch'', ''vm'']
      else if kind = KindCluster then [''cluster'', ''host'', ''vm'']
      else if kind = KindResourcePool then [''resourcepool'', ''vm'']
      else if kind = KindDVSwitch then network_needs g [''dvswitch'', ''host'', ''vm'']
      else [])"

definition intersects :: "string list \<Rightarrow> string list \<Rightarrow> bool" where
  "intersects a b \<longleftrightarrow> list_ex (\<lambda>x. x \<in> set a) b"

text \<open>The contexts where an object of this kind and name could be the same one.\<close>

definition candidate_contexts :: "graph \<Rightarrow> nat \<Rightarrow> string list" where
  "candidate_contexts g i =
     (let r = grRecords g ! i
      in map (\<lambda>x. ndContext (rcNode x)) (filter (\<lambda>x. rcEligible x \<and> rcKind x = rcKind r \<and>
           equal_fold (ndName (rcNode x)) (ndName (rcNode r)) \<and> ndContext (rcNode x) \<noteq> ndContext (rcNode r) \<and>
           (rcKeys r = [] \<or> rcKeys x = [] \<or> intersects (rcKeys r) (rcKeys x))) (grRecords g)))"

definition sortedContexts :: "string list \<Rightarrow> string list" where
  "sortedContexts vs = sort (first_by id [] (filter (\<lambda>v. v \<noteq> []) vs))"

definition subject_contexts :: "graph \<Rightarrow> subject_record \<Rightarrow> string list" where
  "subject_contexts g s =
     sortedContexts (map (\<lambda>i. ndContext (rec_node g i)) (srNodes s) @ concat (map (candidate_contexts g) (srNodes s)) @
       BlindContexts (exContexts (grData g)) (query_needs g (sjKind (srSubject s))))"

definition uniqueBlind :: "blind_context list \<Rightarrow> blind_context list" where
  "uniqueBlind bs = sort_key bcContext (sort_key bcReason (first_by (\<lambda>b. bcContext b @ NUL @ bcReason b) [] bs))"

definition predates :: string where
  "predates = ''inventory schema predates network inventory''"

definition query_blindness :: "graph \<Rightarrow> string list \<Rightarrow> string \<Rightarrow> blind_context list" where
  "query_blindness g checked kind =
     (let cs = exContexts (grData g); needs = query_needs g kind
      in uniqueBlind
        ((if grSchema g < 12
          then map (\<lambda>c. \<lparr>bcContext = c, bcReason = predates\<rparr>)
            (filter (\<lambda>c. c \<in> set (grLegacy g) \<or> kind = KindNetwork) checked) else []) @
         map (\<lambda>c. \<lparr>bcContext = c, bcReason = reason_text (CoverageReason cs c needs)\<rparr>)
           (filter (\<lambda>c. c \<in> set checked) (BlindContexts cs needs))))"

definition Unknown :: "graph \<Rightarrow> string \<Rightarrow> string \<Rightarrow> string list \<Rightarrow> subject_result" where
  "Unknown g kind name contexts =
     (let checked = sortedContexts (if contexts = [] then grContexts g else contexts)
      in \<lparr>rtSubject = \<lparr>sjKind = kind, sjName = name, sjMembers = [], sjIdentity = [], sjBasis = BasisName\<rparr>, rtAncestors = [],
          rtEdges = [], rtConfidence = ConfidenceUnknown, rtBlind = query_blindness g checked kind, rtUnresolved = []\<rparr>)"

section \<open>The subject of a query\<close>

definition members_overlap :: "node \<Rightarrow> node \<Rightarrow> bool" where
  "members_overlap a b \<longleftrightarrow> equal_fold (ndContext a) (ndContext b) \<and>
     (if ndID a \<noteq> [] \<and> ndID b \<noteq> [] then equal_fold (ndID a) (ndID b) else equal_fold (ndName a) (ndName b))"

definition subjectMembersOverlap :: "node list \<Rightarrow> node list \<Rightarrow> bool" where
  "subjectMembersOverlap as bs \<longleftrightarrow> list_ex (\<lambda>a. list_ex (members_overlap a) bs) as"

definition subjectIndex :: "graph \<Rightarrow> subject \<Rightarrow> nat option" where
  "subjectIndex g s =
     find_index (\<lambda>c. equal_fold (sjKind (srSubject c)) (sjKind s) \<and>
       \<not> (sjName s \<noteq> [] \<and> \<not> equal_fold (sjName (srSubject c)) (sjName s) \<and>
          \<not> subjectMembersOverlap (sjMembers (srSubject c)) (sjMembers s)) \<and>
       subjectMembersOverlap (sjMembers (srSubject c)) (sjMembers s)) (grSubjects g)"

definition subjectLocal :: "graph \<Rightarrow> nat \<Rightarrow> bool" where
  "subjectLocal g si \<longleftrightarrow>
     list_ex (\<lambda>n. n < length (grRecords g) \<and> rcLocal (grRecords g ! n)) (srNodes (grSubjects g ! si))"

definition subjectUsesReconstructedNetwork :: "graph \<Rightarrow> nat \<Rightarrow> bool" where
  "subjectUsesReconstructedNetwork g si \<longleftrightarrow>
     list_ex (\<lambda>n. rcReconstructed (grRecords g ! n) \<or>
       list_ex (\<lambda>k. geTo (grEdges g ! k) < length (grRecords g) \<and> rcReconstructed (grRecords g ! geTo (grEdges g ! k)))
         (grOutgoing g n)) (srNodes (grSubjects g ! si))"

definition query_verdict :: "graph \<Rightarrow> subject_result \<Rightarrow> nat \<Rightarrow> string list \<Rightarrow> result_confidence" where
  "query_verdict g result si checked =
     (let coverageBlind = length (filter (\<lambda>b. \<not> str_contains ''predates network inventory'' (bcReason b)) (rtBlind result))
      in if srNodes (grSubjects g ! si) = [] then ConfidenceUnknown
         else if checked \<noteq> [] \<and> length checked \<le> coverageBlind then ConfidenceUnknown
         else if sjKind (rtSubject result) = KindDatastore \<and> 11 \<le> grSchema g \<and> sjIdentity (rtSubject result) = [] \<and>
           \<not> subjectLocal g si then ConfidenceUnknown
         else if rtBlind result \<noteq> [] \<or> rtUnresolved result \<noteq> [] \<or> subjectUsesReconstructedNetwork g si
         then ConfidencePartial else ConfidenceComplete)"

definition newSubjectResult :: "subject \<Rightarrow> subject_result" where
  "newSubjectResult s =
     \<lparr>rtSubject = s, rtAncestors = [], rtEdges = [], rtConfidence = ConfidenceUnknown, rtBlind = [], rtUnresolved = []\<rparr>"

section \<open>Output lists\<close>

definition edgeValue :: "graph \<Rightarrow> graph_edge \<Rightarrow> edge_value" where
  "edgeValue g e = \<lparr>evFrom = rec_node g (geFrom e), evTo = rec_node g (geTo e), evRelation = geRelation e,
     evBasis = geBasis e, evConfidence = geConfidence e, evDetail = geDetail e\<rparr>"

definition outputEdgeKey :: "edge_value \<Rightarrow> string" where
  "outputEdgeKey e = str_join NUL [nodeSortKey (evFrom e), nodeSortKey (evTo e), relation_text (evRelation e),
     basis_text (evBasis e), confidence_text (evConfidence e), evDetail e]"

definition same_output :: "edge_value \<Rightarrow> edge_value \<Rightarrow> bool" where
  "same_output a b \<longleftrightarrow> nodeSortKey (evFrom a) = nodeSortKey (evFrom b) \<and> nodeSortKey (evTo a) = nodeSortKey (evTo b) \<and>
     evRelation a = evRelation b \<and> evBasis a = evBasis b \<and> evDetail a = evDetail b"

definition add_unique_edge :: "edge_value \<Rightarrow> edge_value list \<Rightarrow> edge_value list" where
  "add_unique_edge e es = (if list_ex (\<lambda>x. same_output x e) es then es else es @ [e])"

definition appendUniqueEdges :: "edge_value list \<Rightarrow> edge_value list \<Rightarrow> edge_value list" where
  "appendUniqueEdges vs additions = sort_key outputEdgeKey (fold add_unique_edge additions vs)"

definition appendUniqueString :: "string list \<Rightarrow> string \<Rightarrow> string list" where
  "appendUniqueString vs v = (if v \<in> set vs then vs else vs @ [v])"

definition append_context :: "string \<Rightarrow> string list \<Rightarrow> string list" where
  "append_context v vs = (if v \<noteq> [] \<and> v \<notin> set vs then vs @ [v] else vs)"

definition appendContext :: "string list \<Rightarrow> string list \<Rightarrow> string list" where
  "appendContext vs additions = fold append_context additions vs"

definition edge_contexts :: "graph \<Rightarrow> graph_edge \<Rightarrow> string list" where
  "edge_contexts g e = [ndContext (rec_node g (geFrom e)), ndContext (rec_node g (geTo e))]"

definition add_labels :: "graph \<Rightarrow> nat \<Rightarrow> string list \<Rightarrow> string list" where
  "add_labels g n ls = fold (\<lambda>u ls. appendUniqueString ls (urLabel u)) (grUnresolved g n) ls"

section \<open>Traversal\<close>

record traversal =
  tvEdges :: "edge_value list"
  tvChecked :: "string list"
  tvUnresolved :: "string list"
  tvVisited :: "nat list"
  tvNext :: "nat list"

definition adjacency :: "graph \<Rightarrow> nat \<Rightarrow> bool \<Rightarrow> nat list" where
  "adjacency g n reverse = (if reverse then grIncoming g n else grOutgoing g n)"

definition visit_edge :: "graph \<Rightarrow> bool \<Rightarrow> nat \<Rightarrow> traversal \<Rightarrow> traversal" where
  "visit_edge g reverse k t =
     (let e = grEdges g ! k
      in if geRelation e = Contains then t
         else (let t = t\<lparr>tvEdges := appendUniqueEdges (tvEdges t) [edgeValue g e],
                      tvChecked := appendContext (tvChecked t) (edge_contexts g e)\<rparr>;
                   neighbor = (if reverse then geFrom e else geTo e)
               in if neighbor \<in> set (tvVisited t) then t
                  else t\<lparr>tvVisited := tvVisited t @ [neighbor], tvNext := tvNext t @ [neighbor]\<rparr>))"

definition visit_node :: "graph \<Rightarrow> bool \<Rightarrow> nat \<Rightarrow> traversal \<Rightarrow> traversal" where
  "visit_node g reverse n t =
     (let t = fold (visit_edge g reverse) (adjacency g n reverse) t
      in t\<lparr>tvUnresolved := add_labels g n (tvUnresolved t)\<rparr>)"

fun visit_levels :: "graph \<Rightarrow> bool \<Rightarrow> nat \<Rightarrow> nat list \<Rightarrow> traversal \<Rightarrow> traversal" where
  "visit_levels g reverse 0 frontier t = t"
| "visit_levels g reverse (Suc depth) frontier t =
     (if frontier = [] then t
      else (let t = fold (visit_node g reverse) frontier (t\<lparr>tvNext := []\<rparr>)
            in visit_levels g reverse depth (tvNext t) t))"

definition clamp_depth :: "int \<Rightarrow> nat" where
  "clamp_depth d = nat (let d = (if d \<le> 0 then 1 else d) in if 5 < d then 5 else d)"

definition traverse :: "graph \<Rightarrow> subject \<Rightarrow> int \<Rightarrow> bool \<Rightarrow> subject_result" where
  "traverse g s depth reverse =
     (case subjectIndex g s of
        None \<Rightarrow> newSubjectResult s
      | Some si \<Rightarrow>
          (let start = srNodes (grSubjects g ! si);
               t = visit_levels g reverse (clamp_depth depth) start
                 \<lparr>tvEdges = [], tvChecked = subject_contexts g (grSubjects g ! si), tvUnresolved = [],
                  tvVisited = start, tvNext = []\<rparr>;
               labels = sort (fold (add_labels g) (tvVisited t) (tvUnresolved t));
               checked = sortedContexts (tvChecked t);
               result = (newSubjectResult s)\<lparr>rtEdges := tvEdges t, rtUnresolved := labels,
                 rtBlind := query_blindness g checked (sjKind s)\<rparr>
           in result\<lparr>rtConfidence := query_verdict g result si checked\<rparr>))"

definition Dependencies :: "graph \<Rightarrow> subject \<Rightarrow> int \<Rightarrow> subject_result" where
  "Dependencies g s depth = traverse g s depth False"

definition BlastRadius :: "graph \<Rightarrow> subject \<Rightarrow> int \<Rightarrow> subject_result" where
  "BlastRadius g s depth = traverse g s depth True"

section \<open>Ancestors and attachments\<close>

definition parent_edge :: "graph \<Rightarrow> nat \<Rightarrow> graph_edge option" where
  "parent_edge g n = find (\<lambda>e. geRelation e = Contains) (map (\<lambda>k. grEdges g ! k) (grIncoming g n))"

partial_function (option) climb_chain :: "graph \<Rightarrow> nat \<Rightarrow> edge_value list \<Rightarrow> edge_value list option" where
  "climb_chain g n chain =
     (case parent_edge g n of
        None \<Rightarrow> Some chain
      | Some e \<Rightarrow> climb_chain g (geFrom e) (edgeValue g e # chain))"

fun collect_ancestors :: "graph \<Rightarrow> nat list \<Rightarrow> edge_value list \<times> string list \<Rightarrow> (edge_value list \<times> string list) option" where
  "collect_ancestors g [] acc = Some acc"
| "collect_ancestors g (n # ns) (edges, labels) =
     (case climb_chain g n [] of
        None \<Rightarrow> None
      | Some chain \<Rightarrow> collect_ancestors g ns (appendUniqueEdges edges chain, add_labels g n labels))"

definition edgeTouchesSubject :: "graph_edge \<Rightarrow> nat list \<Rightarrow> bool" where
  "edgeTouchesSubject e ns \<longleftrightarrow> geFrom e \<in> set ns \<or> geTo e \<in> set ns"

definition Topology :: "graph \<Rightarrow> subject \<Rightarrow> subject_result option" where
  "Topology g s =
     (case subjectIndex g s of
        None \<Rightarrow> Some (newSubjectResult s)
      | Some si \<Rightarrow>
          (let r = grSubjects g ! si;
               touching = filter (\<lambda>e. geRelation e \<noteq> Contains \<and> edgeTouchesSubject e (srNodes r)) (grEdges g);
               checked = sortedContexts (fold (\<lambda>e cs. appendContext cs (edge_contexts g e)) touching (subject_contexts g r))
           in case collect_ancestors g (srNodes r) ([], []) of
                None \<Rightarrow> None
              | Some (ancestors, labels) \<Rightarrow>
                  (let result = (newSubjectResult s)\<lparr>rtEdges := map (edgeValue g) touching, rtAncestors := ancestors,
                         rtUnresolved := sort labels, rtBlind := uniqueBlind (query_blindness g checked (sjKind s))\<rparr>
                   in Some (result\<lparr>rtConfidence := query_verdict g result si checked\<rparr>))))"

text \<open>What a subject itself refers to that was not found, by the kind of the object referred to.\<close>

definition UnresolvedReferences :: "graph \<Rightarrow> subject \<Rightarrow> (string \<times> string list) list option" where
  "UnresolvedReferences g s =
     (case subjectIndex g s of
        None \<Rightarrow> None
      | Some si \<Rightarrow>
          (let us = concat (map (grUnresolved g) (srNodes (grSubjects g ! si)))
           in Some (map (\<lambda>k. (k, sort (first_by id [] (map urLabel (filter (\<lambda>u. urKind u = k) us)))))
                 (first_by id [] (map urKind us)))))"

section \<open>Lemmas on the output lists\<close>

lemma same_output_refl [simp]: "same_output a a"
  by (simp add: same_output_def)

lemma fold_add_unique:
  "set vs \<subseteq> set (fold add_unique_edge xs vs) \<and> set (fold add_unique_edge xs vs) \<subseteq> set vs \<union> set xs \<and>
   (\<forall>x \<in> set xs. \<exists>y \<in> set (fold add_unique_edge xs vs). same_output y x)"
proof (induction xs arbitrary: vs)
  case (Cons x xs)
  have "\<exists>y \<in> set (add_unique_edge x vs). same_output y x" by (auto simp: add_unique_edge_def list_ex_iff)
  then have "\<exists>y \<in> set (fold add_unique_edge xs (add_unique_edge x vs)). same_output y x"
    using Cons.IH [of "add_unique_edge x vs"] by blast
  moreover have "set vs \<subseteq> set (add_unique_edge x vs)" "set (add_unique_edge x vs) \<subseteq> insert x (set vs)"
    by (auto simp: add_unique_edge_def)
  ultimately show ?case using Cons.IH [of "add_unique_edge x vs"] by auto
qed simp

lemma appendUniqueEdges_set:
  "set vs \<subseteq> set (appendUniqueEdges vs xs)" "set (appendUniqueEdges vs xs) \<subseteq> set vs \<union> set xs"
  "x \<in> set xs \<Longrightarrow> \<exists>y \<in> set (appendUniqueEdges vs xs). same_output y x"
  using fold_add_unique [of vs xs] by (auto simp: appendUniqueEdges_def)

lemma set_add_labels [simp]: "set (add_labels g n ls) = set ls \<union> urLabel ` set (grUnresolved g n)"
proof -
  have "set (fold (\<lambda>u ls. appendUniqueString ls (urLabel u)) us ls) = set ls \<union> urLabel ` set us" for us
    by (induction us arbitrary: ls) (auto simp: appendUniqueString_def)
  then show ?thesis by (simp add: add_labels_def)
qed

lemma set_fold_labels: "set (fold (add_labels g) ns ls) = set ls \<union> (\<Union>n \<in> set ns. urLabel ` set (grUnresolved g n))"
  by (induction ns arbitrary: ls) auto

lemma set_sortedContexts [simp]: "set (sortedContexts vs) = set vs - {[]}"
  by (auto simp: sortedContexts_def set_first_by_id)

section \<open>The traversal visits what is within reach\<close>

definition far_end :: "bool \<Rightarrow> graph_edge \<Rightarrow> nat" where
  "far_end reverse e = (if reverse then geFrom e else geTo e)"

text \<open>The edges that lead away from a node in the direction of the traversal.\<close>

definition leads :: "graph \<Rightarrow> bool \<Rightarrow> nat \<Rightarrow> graph_edge set" where
  "leads g reverse n = {grEdges g ! k | k. k \<in> set (adjacency g n reverse) \<and> geRelation (grEdges g ! k) \<noteq> Contains}"

fun reach :: "graph \<Rightarrow> bool \<Rightarrow> nat \<Rightarrow> nat list \<Rightarrow> nat set" where
  "reach g reverse 0 start = set start"
| "reach g reverse (Suc d) start =
     reach g reverse d start \<union> (\<Union>n \<in> reach g reverse d start. far_end reverse ` leads g reverse n)"

text \<open>What a series of visits over the edges \<open>es\<close> and labels \<open>ls\<close> does to the state.\<close>

definition visits :: "graph \<Rightarrow> bool \<Rightarrow> graph_edge set \<Rightarrow> string set \<Rightarrow> traversal \<Rightarrow> traversal \<Rightarrow> bool" where
  "visits g reverse es ls t t' \<longleftrightarrow>
     set (tvVisited t') = set (tvVisited t) \<union> far_end reverse ` es \<and>
     set (tvNext t') \<subseteq> far_end reverse ` es \<union> set (tvNext t) \<and>
     set (tvVisited t') - set (tvVisited t) \<subseteq> set (tvNext t') \<and> set (tvNext t) \<subseteq> set (tvNext t') \<and>
     set (tvEdges t) \<subseteq> set (tvEdges t') \<and> set (tvEdges t') \<subseteq> set (tvEdges t) \<union> edgeValue g ` es \<and>
     (\<forall>e \<in> es. \<exists>x \<in> set (tvEdges t'). same_output x (edgeValue g e)) \<and>
     set (tvUnresolved t') = set (tvUnresolved t) \<union> ls"

lemma visits_refl: "visits g reverse {} {} t t"
  by (simp add: visits_def)

lemma visitsD:
  assumes "visits g reverse es ls t t'"
  shows "set (tvVisited t') = set (tvVisited t) \<union> far_end reverse ` es"
    and "set (tvNext t') \<subseteq> far_end reverse ` es \<union> set (tvNext t)"
    and "set (tvVisited t') - set (tvVisited t) \<subseteq> set (tvNext t')" and "set (tvNext t) \<subseteq> set (tvNext t')"
    and "set (tvEdges t) \<subseteq> set (tvEdges t')" and "set (tvEdges t') \<subseteq> set (tvEdges t) \<union> edgeValue g ` es"
    and "\<And>e. e \<in> es \<Longrightarrow> \<exists>x \<in> set (tvEdges t'). same_output x (edgeValue g e)"
    and "set (tvUnresolved t') = set (tvUnresolved t) \<union> ls"
  using assms unfolding visits_def by blast+

lemma visits_trans:
  assumes "visits g reverse es ls t u" and "visits g reverse fs ms u v"
  shows "visits g reverse (es \<union> fs) (ls \<union> ms) t v"
proof -
  note a = visitsD [OF assms(1)] and b = visitsD [OF assms(2)]
  have "\<exists>x \<in> set (tvEdges v). same_output x (edgeValue g e)" if "e \<in> es \<union> fs" for e
    using that a(7) [of e] b(5) b(7) [of e] by blast
  moreover have "set (tvNext v) \<subseteq> far_end reverse ` (es \<union> fs) \<union> set (tvNext t)"
    using a(2) b(2) by (simp only: image_Un) blast
  moreover have "set (tvVisited v) - set (tvVisited t) \<subseteq> set (tvNext v)" using a(3) b(3,4) by blast
  moreover have "set (tvEdges v) \<subseteq> set (tvEdges t) \<union> edgeValue g ` (es \<union> fs)"
    using a(6) b(6) by (simp only: image_Un) blast
  moreover have "set (tvVisited v) = set (tvVisited t) \<union> far_end reverse ` (es \<union> fs)"
    "set (tvUnresolved v) = set (tvUnresolved t) \<union> (ls \<union> ms)"
    using a(1,8) b(1,8) by (simp_all only: image_Un Un_assoc)
  moreover have "set (tvNext t) \<subseteq> set (tvNext v)" "set (tvEdges t) \<subseteq> set (tvEdges v)"
    using a(4,5) b(4,5) by (simp_all only: subset_trans)
  ultimately show ?thesis unfolding visits_def by (intro conjI ballI) simp_all
qed

lemma visits_edge:
  "visits g reverse (if geRelation (grEdges g ! k) = Contains then {} else {grEdges g ! k}) {} t (visit_edge g reverse k t)"
proof (cases "geRelation (grEdges g ! k) = Contains")
  case False
  let ?e = "grEdges g ! k"
  have a: "set (tvEdges t) \<subseteq> set (appendUniqueEdges (tvEdges t) [edgeValue g ?e])"
    "set (appendUniqueEdges (tvEdges t) [edgeValue g ?e]) \<subseteq> insert (edgeValue g ?e) (set (tvEdges t))"
    "\<exists>y \<in> set (appendUniqueEdges (tvEdges t) [edgeValue g ?e]). same_output y (edgeValue g ?e)"
    using appendUniqueEdges_set [where vs = "tvEdges t" and xs = "[edgeValue g ?e]"] by auto
  show ?thesis
    using a False by (auto simp: visits_def visit_edge_def Let_def far_end_def)
qed (simp add: visit_edge_def visits_refl)

lemma visits_edges:
  "visits g reverse {grEdges g ! k | k. k \<in> set ks \<and> geRelation (grEdges g ! k) \<noteq> Contains} {} t
     (fold (visit_edge g reverse) ks t)"
proof (induction ks arbitrary: t)
  case (Cons k ks)
  have "{grEdges g ! j | j. j \<in> set (k # ks) \<and> geRelation (grEdges g ! j) \<noteq> Contains} =
      (if geRelation (grEdges g ! k) = Contains then {} else {grEdges g ! k}) \<union>
      {grEdges g ! j | j. j \<in> set ks \<and> geRelation (grEdges g ! j) \<noteq> Contains}" by auto
  with visits_trans [OF visits_edge [of g reverse k t] Cons.IH [of "visit_edge g reverse k t"]]
  show ?case by simp
qed (simp add: visits_refl)

definition labels_of :: "graph \<Rightarrow> nat set \<Rightarrow> string set" where
  "labels_of g ns = (\<Union>n \<in> ns. urLabel ` set (grUnresolved g n))"

lemma visits_node:
  "visits g reverse (leads g reverse n) (labels_of g {n}) t (visit_node g reverse n t)"
proof -
  let ?u = "fold (visit_edge g reverse) (adjacency g n reverse) t"
  have "visits g reverse {} (labels_of g {n}) ?u (?u\<lparr>tvUnresolved := add_labels g n (tvUnresolved ?u)\<rparr>)"
    by (simp add: visits_def labels_of_def)
  from visits_trans [OF visits_edges [of g reverse "adjacency g n reverse" t] this]
  show ?thesis by (simp add: visit_node_def leads_def Let_def)
qed

lemma visits_nodes:
  "visits g reverse (\<Union>n \<in> set ns. leads g reverse n) (labels_of g (set ns)) t (fold (visit_node g reverse) ns t)"
proof (induction ns arbitrary: t)
  case Nil
  show ?case by (simp add: visits_def labels_of_def)
next
  case (Cons n ns)
  from visits_trans [OF visits_node [of g reverse n t] Cons.IH [of "visit_node g reverse n t"]]
  show ?case by (simp add: labels_of_def)
qed

text \<open>
  The loop invariant before level \<open>j\<close>: what is within \<open>j\<close> steps was visited, all of it but the frontier was
  expanded, and the edges and labels are those of the expanded nodes.
\<close>

fun expanded :: "graph \<Rightarrow> bool \<Rightarrow> nat \<Rightarrow> nat list \<Rightarrow> nat set" where
  "expanded g reverse 0 start = {}"
| "expanded g reverse (Suc d) start = reach g reverse d start"

definition level_inv :: "graph \<Rightarrow> bool \<Rightarrow> nat list \<Rightarrow> nat \<Rightarrow> nat list \<Rightarrow> traversal \<Rightarrow> bool" where
  "level_inv g reverse start j frontier t \<longleftrightarrow>
     set (tvVisited t) = reach g reverse j start \<and> set frontier \<subseteq> reach g reverse j start \<and>
     reach g reverse j start - set frontier \<subseteq> expanded g reverse j start \<and>
     set (tvEdges t) \<subseteq> edgeValue g ` (\<Union>n \<in> expanded g reverse j start. leads g reverse n) \<and>
     (\<forall>e \<in> (\<Union>n \<in> expanded g reverse j start. leads g reverse n).
        \<exists>x \<in> set (tvEdges t). same_output x (edgeValue g e)) \<and>
     set (tvUnresolved t) = labels_of g (expanded g reverse j start)"

lemma level_invD:
  assumes "level_inv g reverse start j frontier t"
  shows "set (tvVisited t) = reach g reverse j start" and "set frontier \<subseteq> reach g reverse j start"
    and "reach g reverse j start - set frontier \<subseteq> expanded g reverse j start"
    and "set (tvEdges t) \<subseteq> edgeValue g ` (\<Union>n \<in> expanded g reverse j start. leads g reverse n)"
    and "\<And>e. e \<in> (\<Union>n \<in> expanded g reverse j start. leads g reverse n) \<Longrightarrow>
        \<exists>x \<in> set (tvEdges t). same_output x (edgeValue g e)"
    and "set (tvUnresolved t) = labels_of g (expanded g reverse j start)"
  using assms unfolding level_inv_def by blast+

lemma labels_of_Un: "labels_of g (a \<union> b) = labels_of g a \<union> labels_of g b"
  by (simp add: labels_of_def)

lemma expanded_reach: "expanded g reverse j start \<subseteq> reach g reverse j start"
  by (cases j) auto

lemma level_step:
  assumes inv: "level_inv g reverse start j frontier t"
    and t': "t' = fold (visit_node g reverse) frontier (t\<lparr>tvNext := []\<rparr>)"
  shows "level_inv g reverse start (Suc j) (tvNext t') t'"
proof -
  let ?R = "reach g reverse j start" and ?X = "expanded g reverse j start"
  let ?L = "\<lambda>ns. \<Union>n \<in> ns. leads g reverse n"
  note i = level_invD [OF inv]
  note v = visitsD [OF visits_nodes [of g reverse frontier "t\<lparr>tvNext := []\<rparr>", folded t']]
  have all: "?R = ?X \<union> set frontier" using i(2,3) expanded_reach [of g reverse j start] by blast
  then have L: "?L ?R = ?L ?X \<union> ?L (set frontier)" by (simp only: UN_Un)
  have inX: "far_end reverse ` ?L ?X \<subseteq> ?R" by (cases j) auto
  have "reach g reverse (Suc j) start = ?R \<union> far_end reverse ` ?L ?R" by (simp add: image_UN)
  also have "\<dots> = ?R \<union> far_end reverse ` ?L (set frontier)" using inX unfolding L image_Un by blast
  finally have R': "reach g reverse (Suc j) start = ?R \<union> far_end reverse ` ?L (set frontier)" .
  have v1: "set (tvVisited t') = set (tvVisited t) \<union> far_end reverse ` ?L (set frontier)" using v(1) by simp
  have vis: "set (tvVisited t') = reach g reverse (Suc j) start" using v1 i(1) R' by simp
  have nxt: "set (tvNext t') \<subseteq> reach g reverse (Suc j) start" using v(2) R' by auto
  have v3: "set (tvVisited t') - set (tvVisited t) \<subseteq> set (tvNext t')" using v(3) by simp
  have rest: "reach g reverse (Suc j) start - set (tvNext t') \<subseteq> expanded g reverse (Suc j) start"
    using v3 unfolding vis i(1) expanded.simps by blast
  have v6: "set (tvEdges t') \<subseteq> set (tvEdges t) \<union> edgeValue g ` ?L (set frontier)" using v(6) by simp
  have snd: "set (tvEdges t') \<subseteq> edgeValue g ` ?L ?R" using v6 i(4) unfolding L image_Un by blast
  have v5: "set (tvEdges t) \<subseteq> set (tvEdges t')" using v(5) by simp
  have "\<exists>x \<in> set (tvEdges t'). same_output x (edgeValue g e)" if e: "e \<in> ?L ?R" for e
  proof (cases "e \<in> ?L (set frontier)")
    case True
    then show ?thesis by (rule v(7))
  next
    case False
    then have "e \<in> ?L ?X" using e unfolding L by blast
    from i(5) [OF this] show ?thesis using v5 by blast
  qed
  moreover have "set (tvUnresolved t') = labels_of g ?R"
    using v(8) i(6) unfolding all labels_of_Un by simp
  ultimately show ?thesis
    unfolding level_inv_def expanded.simps using vis nxt rest [unfolded expanded.simps] snd by (intro conjI ballI) simp_all
qed

lemma level_stop:
  assumes "level_inv g reverse start j [] t"
  shows "level_inv g reverse start (j + i) [] t"
proof (induction i)
  case (Suc i)
  note s = Suc.IH [unfolded level_inv_def]
  let ?R = "reach g reverse (j + i) start" and ?X = "expanded g reverse (j + i) start"
  have X: "?X = ?R" using s expanded_reach [of g reverse "j + i" start] by auto
  have "reach g reverse (Suc (j + i)) start = ?R"
  proof (cases "j + i")
    case 0
    then show ?thesis using X by simp
  next
    case (Suc m)
    then have "reach g reverse m start = ?R" using X by simp
    then show ?thesis using Suc by (metis reach.simps(2))
  qed
  then show ?case using s X unfolding level_inv_def add_Suc_right expanded.simps by simp
qed (use assms in simp)

lemma levels_inv:
  "level_inv g reverse start j frontier t \<Longrightarrow>
   \<exists>frontier'. level_inv g reverse start (j + d) frontier' (visit_levels g reverse d frontier t)"
proof (induction d arbitrary: j frontier t)
  case (Suc d)
  show ?case
  proof (cases "frontier = []")
    case True
    then show ?thesis using level_stop [of g reverse start j t "Suc d"] Suc.prems by auto
  next
    case False
    from Suc.IH [OF level_step [OF Suc.prems refl]] False show ?thesis by (simp add: Let_def)
  qed
qed auto

lemma traverse_correct:
  assumes "subjectIndex g s = Some si" and "start = srNodes (grSubjects g ! si)" and "d = clamp_depth depth"
  shows "1 \<le> d \<and> d \<le> 5 \<and>
    set (rtEdges (traverse g s depth reverse)) \<subseteq> edgeValue g ` (\<Union>n \<in> reach g reverse (d - 1) start. leads g reverse n) \<and>
    (\<forall>e \<in> (\<Union>n \<in> reach g reverse (d - 1) start. leads g reverse n).
       \<exists>x \<in> set (rtEdges (traverse g s depth reverse)). same_output x (edgeValue g e)) \<and>
    set (rtUnresolved (traverse g s depth reverse)) = labels_of g (reach g reverse d start)"
proof -
  let ?t0 = "\<lparr>tvEdges = [], tvChecked = subject_contexts g (grSubjects g ! si), tvUnresolved = [], tvVisited = start, tvNext = []\<rparr>"
  have d: "1 \<le> d" "d \<le> 5" by (auto simp: assms(3) clamp_depth_def Let_def)
  then obtain m where m: "d = Suc m" by (cases d) auto
  have "level_inv g reverse start 0 start ?t0" by (simp add: level_inv_def labels_of_def)
  from levels_inv [OF this, of d] obtain fr where
    inv: "level_inv g reverse start d fr (visit_levels g reverse d start ?t0)" by auto
  define t where "t = visit_levels g reverse d start ?t0"
  note i = level_invD [OF inv [folded t_def]]
  have X: "expanded g reverse d start = reach g reverse (d - 1) start" by (simp add: m)
  have e: "rtEdges (traverse g s depth reverse) = tvEdges t"
    and l: "rtUnresolved (traverse g s depth reverse) = sort (fold (add_labels g) (tvVisited t) (tvUnresolved t))"
    unfolding t_def by (simp_all add: traverse_def assms Let_def newSubjectResult_def)
  have sub: "labels_of g (expanded g reverse d start) \<subseteq> labels_of g (reach g reverse d start)"
    using expanded_reach [of g reverse d start] unfolding labels_of_def by blast
  have "set (rtUnresolved (traverse g s depth reverse)) =
      labels_of g (expanded g reverse d start) \<union> labels_of g (reach g reverse d start)"
    unfolding l set_sort set_fold_labels i(1,6) by (simp only: labels_of_def)
  with sub have "set (rtUnresolved (traverse g s depth reverse)) = labels_of g (reach g reverse d start)" by blast
  then show ?thesis unfolding e
    by (intro conjI ballI) (rule d(1), rule d(2), rule i(4) [unfolded X], erule i(5) [unfolded X])
qed

lemma traversal_one_step:
  assumes "subjectIndex g s = Some si"
  shows "set (rtEdges (traverse g s 1 reverse)) \<subseteq> edgeValue g ` (\<Union>n \<in> set (srNodes (grSubjects g ! si)). leads g reverse n) \<and>
    (\<forall>e \<in> (\<Union>n \<in> set (srNodes (grSubjects g ! si)). leads g reverse n).
       \<exists>x \<in> set (rtEdges (traverse g s 1 reverse)). same_output x (edgeValue g e))"
  using traverse_correct [OF assms refl, of 1 1 reverse] by (simp add: clamp_depth_def)

section \<open>Properties\<close>

definition sample_host_context :: context_run where
  "sample_host_context = \<lparr>ctName = ''a'', ctDatacenter = [], ctVCenter = ''v'', ctVMStatus = ''success'', ctError = [],
     ctCollections = map (\<lambda>k. \<lparr>coKind = k, coStatus = ''success'', coError = []\<rparr>)
       [''host'', ''cluster'', ''datastore'', ''dvswitch'', ''network'']\<rparr>"

definition sample_object :: "string \<Rightarrow> string \<Rightarrow> node" where
  "sample_object k n = \<lparr>ndKind = k, ndName = n, ndID = n, ndContext = ''a'', ndVCenter = ''v'', ndDatacenter = [], ndPath = []\<rparr>"

definition sample_node_record :: "string \<Rightarrow> string \<Rightarrow> node_record" where
  "sample_node_record k n = \<lparr>rcNode = sample_object k n, rcKind = k, rcKeys = [], rcWeak = [], rcNetwork = no_identity,
     rcLocal = False, rcEligible = True, rcReconstructed = False\<rparr>"

definition sample_subject :: "string \<Rightarrow> string \<Rightarrow> subject" where
  "sample_subject k n = \<lparr>sjKind = k, sjName = n, sjMembers = [sample_object k n], sjIdentity = [], sjBasis = BasisName\<rparr>"

text \<open>A virtual machine that runs on a host, in a context collected in full.\<close>

definition sample_topology :: graph where
  "sample_topology =
     \<lparr>grData = sample_export\<lparr>exContexts := [sample_host_context]\<rparr>,
      grRecords = [sample_node_record KindVM ''w'', sample_node_record KindHost ''h''],
      grEdges = [plain_edge 0 1 RunsOn BasisName EdgeInferred []], grUnresolved = (\<lambda>_. []),
      grSubjects = [\<lparr>srSubject = sample_subject KindVM ''w'', srNodes = [0]\<rparr>,
        \<lparr>srSubject = sample_subject KindHost ''h'', srNodes = [1]\<rparr>],
      grNodeSubject = [Some 0, Some 1], grIncoming = (\<lambda>n. if n = 1 then [0] else []),
      grOutgoing = (\<lambda>n. if n = 0 then [0] else []), grContexts = [''a''], grSchema = 12, grLegacy = []\<rparr>"

text \<open>
  C1: A traversal is exact within its depth, which is between 1 and 5: it reports an edge for each edge,
  other than containment, that leaves a node less than that many steps from the subject in the direction of
  the traversal, up to observations that read the same; it reports no other edge; and its unresolved
  references are those of the nodes within that many steps.
\<close>

theorem traversal_exact:
  assumes "subjectIndex g s = Some si" and "start = srNodes (grSubjects g ! si)" and "d = clamp_depth depth"
  shows "1 \<le> d \<and> d \<le> 5 \<and>
    set (rtEdges (traverse g s depth reverse)) \<subseteq> edgeValue g ` (\<Union>n \<in> reach g reverse (d - 1) start. leads g reverse n) \<and>
    (\<forall>e \<in> (\<Union>n \<in> reach g reverse (d - 1) start. leads g reverse n).
       \<exists>x \<in> set (rtEdges (traverse g s depth reverse)). same_output x (edgeValue g e)) \<and>
    set (rtUnresolved (traverse g s depth reverse)) = labels_of g (reach g reverse d start)"
  using traverse_correct [OF assms] .

theorem traversal_exact_witness:
  "set (rtEdges (traverse sample_topology (sample_subject KindHost ''h'') 9 True)) \<subseteq>
     edgeValue sample_topology ` (\<Union>n \<in> reach sample_topology True 4 [1]. leads sample_topology True n)"
proof -
  have "subjectIndex sample_topology (sample_subject KindHost ''h'') = Some 1" by code_simp
  moreover have "srNodes (grSubjects sample_topology ! 1) = [1]" by (simp add: sample_topology_def)
  moreover have "clamp_depth 9 = 5" by (simp add: clamp_depth_def)
  ultimately show ?thesis
    using traversal_exact [of sample_topology "sample_subject KindHost ''h''" 1 "[1]" 5 9 True] by simp
qed

lemma uniqueBlind_Nil: "uniqueBlind bs = [] \<longleftrightarrow> bs = []"
proof -
  have "set (uniqueBlind bs) = set (first_by (\<lambda>b. bcContext b @ NUL @ bcReason b) [] bs)" by (simp add: uniqueBlind_def)
  moreover have "first_by k [] bs = [] \<longleftrightarrow> bs = []" for k :: "blind_context \<Rightarrow> string" by (cases bs) auto
  ultimately show ?thesis by (metis set_empty)
qed

lemma set_appendContext: "set vs \<subseteq> set (appendContext vs cs)"
proof (induction cs arbitrary: vs)
  case (Cons c cs)
  have "set vs \<subseteq> set (append_context c vs)" by (auto simp: append_context_def)
  with Cons.IH [of "append_context c vs"] show ?case by (simp add: appendContext_def)
qed (simp add: appendContext_def)

lemma checked_visit_edge: "set (tvChecked t) \<subseteq> set (tvChecked (visit_edge g reverse k t))"
  using set_appendContext by (auto simp: visit_edge_def Let_def)

lemma checked_fold:
  "(\<And>x t. set (tvChecked t) \<subseteq> set (tvChecked (f x t))) \<Longrightarrow> set (tvChecked t) \<subseteq> set (tvChecked (fold f xs t))"
proof (induction xs arbitrary: t)
  case (Cons x xs)
  from Cons.prems [of t x] Cons.IH [of "f x t"] Cons.prems show ?case by auto
qed simp

lemma checked_levels: "set (tvChecked t) \<subseteq> set (tvChecked (visit_levels g reverse d frontier t))"
proof (induction d arbitrary: frontier t)
  case (Suc d)
  have node: "set (tvChecked t) \<subseteq> set (tvChecked (visit_node g reverse n t))" for n t
    using checked_fold [of "visit_edge g reverse" t "adjacency g n reverse", OF checked_visit_edge] by (simp add: visit_node_def Let_def)
  let ?t = "fold (visit_node g reverse) frontier (t\<lparr>tvNext := []\<rparr>)"
  have "set (tvChecked t) \<subseteq> set (tvChecked ?t)" using checked_fold [of "visit_node g reverse" "t\<lparr>tvNext := []\<rparr>" frontier, OF node] by simp
  with Suc.IH [of ?t "tvNext ?t"] show ?case by (auto simp: Let_def)
qed simp

definition all_covered :: "graph \<Rightarrow> string \<Rightarrow> bool" where
  "all_covered g kind \<longleftrightarrow>
     list_all (\<lambda>c. ctName c = [] \<or> ContextComplete c (query_needs g kind)) (exContexts (grData g))"

lemma no_blindness:
  assumes "query_blindness g checked (sjKind s) = []" and "set (subject_contexts g r) \<subseteq> set checked"
    and "sjKind (srSubject r) = sjKind s"
  shows "all_covered g (sjKind s)"
  unfolding all_covered_def list_all_iff
proof (rule ballI, rule ccontr)
  fix c assume c': "c \<in> set (exContexts (grData g))" "\<not> (ctName c = [] \<or> ContextComplete c (query_needs g (sjKind s)))"
  then have c: "c \<in> set (exContexts (grData g))" "ctName c \<noteq> []" and n: "\<not> ContextComplete c (query_needs g (sjKind s))"
    by auto
  show False
  proof -
    from n have "query_needs g (sjKind s) \<noteq> []" by (auto simp: ContextComplete_def)
    with n c have b: "ctName c \<in> set (BlindContexts (exContexts (grData g)) (query_needs g (sjKind s)))"
      by (auto simp: set_BlindContexts)
    then have "ctName c \<in> set checked" using assms(2,3) c(2) by (auto simp: subject_contexts_def)
    with b show False using assms(1) by (auto simp: query_blindness_def Let_def uniqueBlind_Nil filter_empty_conv)
  qed
qed

lemma verdict_complete:
  "query_verdict g result si checked = ConfidenceComplete \<Longrightarrow>
     rtBlind result = [] \<and> rtUnresolved result = [] \<and> \<not> subjectUsesReconstructedNetwork g si"
  by (auto simp: query_verdict_def Let_def split: if_splits)

text \<open>How a result is put together: the contexts checked include those of the subject.\<close>

definition put_together :: "graph \<Rightarrow> subject \<Rightarrow> nat \<Rightarrow> subject_result \<Rightarrow> bool" where
  "put_together g s si r \<longleftrightarrow> (\<exists>result checked.
     r = result\<lparr>rtConfidence := query_verdict g result si checked\<rparr> \<and>
     (rtBlind result = [] \<longrightarrow> query_blindness g checked (sjKind s) = []) \<and>
     set (subject_contexts g (grSubjects g ! si)) \<subseteq> set checked)"

lemma traverse_put_together:
  assumes "subjectIndex g s = Some si"
  shows "put_together g s si (traverse g s depth reverse)"
proof -
  define start where "start = srNodes (grSubjects g ! si)"
  define t where "t = visit_levels g reverse (clamp_depth depth) start
    \<lparr>tvEdges = [], tvChecked = subject_contexts g (grSubjects g ! si), tvUnresolved = [], tvVisited = start, tvNext = []\<rparr>"
  define checked where "checked = sortedContexts (tvChecked t)"
  define result where "result = (newSubjectResult s)\<lparr>rtEdges := tvEdges t,
    rtUnresolved := sort (fold (add_labels g) (tvVisited t) (tvUnresolved t)),
    rtBlind := query_blindness g checked (sjKind s)\<rparr>"
  have r: "traverse g s depth reverse = result\<lparr>rtConfidence := query_verdict g result si checked\<rparr>"
    unfolding traverse_def assms option.case Let_def start_def [symmetric] t_def [symmetric] checked_def [symmetric] result_def ..
  have "set (subject_contexts g (grSubjects g ! si)) \<subseteq> set (tvChecked t)"
    unfolding t_def using checked_levels [of "\<lparr>tvEdges = [], tvChecked = subject_contexts g (grSubjects g ! si),
      tvUnresolved = [], tvVisited = start, tvNext = []\<rparr>" g reverse "clamp_depth depth" start] by simp
  then have "set (subject_contexts g (grSubjects g ! si)) \<subseteq> set checked"
    by (auto simp: checked_def subject_contexts_def)
  moreover have "rtBlind result = query_blindness g checked (sjKind s)" by (simp add: result_def)
  ultimately show ?thesis unfolding put_together_def using r by (intro exI [of _ result] exI [of _ checked]) simp
qed

lemma Topology_put_together:
  assumes "subjectIndex g s = Some si" and r: "Topology g s = Some r"
  shows "put_together g s si r"
proof -
  let ?r = "grSubjects g ! si"
  define touching where "touching = filter (\<lambda>e. geRelation e \<noteq> Contains \<and> edgeTouchesSubject e (srNodes ?r)) (grEdges g)"
  define cs where "cs = fold (\<lambda>e cs. appendContext cs (edge_contexts g e)) touching (subject_contexts g ?r)"
  define checked where "checked = sortedContexts cs"
  obtain ancestors labels where anc: "collect_ancestors g (srNodes ?r) ([], []) = Some (ancestors, labels)"
    using r unfolding Topology_def assms(1) option.case Let_def by (cases "collect_ancestors g (srNodes ?r) ([], [])") auto
  define result where "result = (newSubjectResult s)\<lparr>rtEdges := map (edgeValue g) touching, rtAncestors := ancestors,
    rtUnresolved := sort labels, rtBlind := uniqueBlind (query_blindness g checked (sjKind s))\<rparr>"
  have "Some r = Some (result\<lparr>rtConfidence := query_verdict g result si checked\<rparr>)"
    using r unfolding Topology_def assms(1) option.case Let_def touching_def [symmetric] cs_def [symmetric] checked_def [symmetric]
      anc prod.case result_def [symmetric] by simp
  then have "r = result\<lparr>rtConfidence := query_verdict g result si checked\<rparr>" by simp
  moreover have "rtBlind result = [] \<longrightarrow> query_blindness g checked (sjKind s) = []"
    by (simp add: result_def uniqueBlind_Nil)
  moreover have "set cs' \<subseteq> set (fold (\<lambda>e cs. appendContext cs (edge_contexts g e)) es cs')" for es cs'
  proof (induction es arbitrary: cs')
    case (Cons e es)
    from Cons.IH [of "appendContext cs' (edge_contexts g e)"] set_appendContext [of cs' "edge_contexts g e"]
    show ?case by simp
  qed simp
  then have "set (subject_contexts g ?r) \<subseteq> set cs" by (simp add: cs_def)
  then have "set (subject_contexts g ?r) \<subseteq> set checked" by (auto simp: checked_def subject_contexts_def)
  ultimately show ?thesis unfolding put_together_def by blast
qed

lemma put_together_covered:
  assumes "put_together g s si r" and "rtBlind r = []" and "sjKind (srSubject (grSubjects g ! si)) = sjKind s"
  shows "all_covered g (sjKind s)"
proof -
  obtain result checked where "r = result\<lparr>rtConfidence := query_verdict g result si checked\<rparr>"
    "rtBlind result = [] \<longrightarrow> query_blindness g checked (sjKind s) = []"
    "set (subject_contexts g (grSubjects g ! si)) \<subseteq> set checked"
    using assms(1) unfolding put_together_def by blast
  then show ?thesis using no_blindness [OF _ _ assms(3)] assms(2) by simp
qed

text \<open>
  C5: A complete answer is complete: a traversal or an ancestry with complete confidence, for a subject of the
  kind it is recorded under, has no unresolved reference and no blind context, and every context of the
  assessment, checked or not, has all the collections the kind needs - so nothing was missed because a
  collection failed.
\<close>

theorem complete_means_covered:
  assumes "subjectIndex g s = Some si" and "sjKind (srSubject (grSubjects g ! si)) = sjKind s"
    and "r = traverse g s depth reverse \<or> Topology g s = Some r" and "rtConfidence r = ConfidenceComplete"
  shows "all_covered g (sjKind s) \<and> rtBlind r = [] \<and> rtUnresolved r = [] \<and> \<not> subjectUsesReconstructedNetwork g si"
proof -
  have p: "put_together g s si r"
    using assms(3) traverse_put_together [OF assms(1)] Topology_put_together [OF assms(1)] by blast
  then obtain result checked where "r = result\<lparr>rtConfidence := query_verdict g result si checked\<rparr>"
    unfolding put_together_def by blast
  then have "rtBlind r = [] \<and> rtUnresolved r = [] \<and> \<not> subjectUsesReconstructedNetwork g si"
    using verdict_complete [of g result si checked] assms(4) by simp
  with put_together_covered [OF p _ assms(2)] show ?thesis by simp
qed

theorem complete_means_covered_witness:
  "all_covered sample_topology KindHost \<and>
     rtBlind (traverse sample_topology (sample_subject KindHost ''h'') 1 True) = []"
proof -
  have "subjectIndex sample_topology (sample_subject KindHost ''h'') = Some 1"
    "sjKind (srSubject (grSubjects sample_topology ! 1)) = sjKind (sample_subject KindHost ''h'')"
    "rtConfidence (traverse sample_topology (sample_subject KindHost ''h'') 1 True) = ConfidenceComplete"
    by code_simp+
  from complete_means_covered [OF this(1,2) disjI1 [OF refl] this(3)]
  show ?thesis by (simp add: sample_subject_def)
qed

end
