(* ===== verification/Containment.thy ===== *)
theory Containment
  imports TopoQuery
begin

text \<open>
  Containment in the topology graph is well-founded: the loop of internal/topology/query.go that climbs from
  an object to its container has no bound in the code, and it returns on every graph \<open>Build_graph\<close> makes. The
  invariant orders the kinds: containers hold later containers or objects, objects hold port groups and
  virtual machines.
\<close>

section \<open>The order of containment\<close>

definition kind_level :: "string \<Rightarrow> nat" where
  "kind_level k =
     (if k \<in> {''vcenter'', ''datacenter'', ''folder''} then 0
      else if k \<in> {KindNetwork, KindVM, KindTemplate} then 2 else 1)"

definition kinds :: "graph \<Rightarrow> string list" where
  "kinds g = map rcKind (grRecords g)"

definition descends :: "string list \<Rightarrow> nat \<Rightarrow> nat \<Rightarrow> bool" where
  "descends ks a b \<longleftrightarrow> a < length ks \<and> b < length ks \<and>
     (kind_level (ks ! a) < kind_level (ks ! b) \<or> (kind_level (ks ! a) = 0 \<and> kind_level (ks ! b) = 0 \<and> a < b))"

text \<open>The kinds of observed objects; only their records are eligible.\<close>

definition object_kinds :: "string set" where
  "object_kinds = {KindHost, KindCluster, KindDatastore, KindResourcePool, KindDVSwitch, KindNetwork, KindVM, KindTemplate}"

definition well_kinded :: "node_record \<Rightarrow> bool" where
  "well_kinded r \<longleftrightarrow> ndKind (rcNode r) = rcKind r \<and> (rcEligible r \<longrightarrow> rcKind r \<in> object_kinds)"

definition well_contained :: "graph \<Rightarrow> bool" where
  "well_contained g \<longleftrightarrow> (\<forall>r \<in> set (grRecords g). well_kinded r) \<and>
     (\<forall>e \<in> set (grEdges g). geRelation e = Contains \<longrightarrow> descends (kinds g) (geFrom e) (geTo e))"

definition kinds_le :: "graph \<Rightarrow> graph \<Rightarrow> bool" where
  "kinds_le g h \<longleftrightarrow> (\<exists>ks. kinds h = kinds g @ ks)"

text \<open>\<open>keeps g h\<close>: \<open>h\<close> is a well-contained graph of the same assessment that has the objects of \<open>g\<close>.\<close>

definition keeps :: "graph \<Rightarrow> graph \<Rightarrow> bool" where
  "keeps g h \<longleftrightarrow> well_contained h \<and> kinds_le g h \<and> grData h = grData g"

lemma keeps_refl: "well_contained g \<Longrightarrow> keeps g g"
  by (simp add: keeps_def kinds_le_def)

lemma keeps_trans: "keeps g h \<Longrightarrow> keeps h k \<Longrightarrow> keeps g k"
  by (auto simp: keeps_def kinds_le_def)

lemma keeps_well: "keeps g h \<Longrightarrow> well_contained h"
  by (simp add: keeps_def)

lemma keeps_kind: "keeps g h \<Longrightarrow> i < length (grRecords g) \<Longrightarrow>
    i < length (grRecords h) \<and> rcKind (grRecords h ! i) = rcKind (grRecords g ! i)"
proof -
  assume "keeps g h" and i: "i < length (grRecords g)"
  then obtain ks where k: "kinds h = kinds g @ ks" by (auto simp: keeps_def kinds_le_def)
  then have l: "length (grRecords h) = length (grRecords g) + length ks"
    unfolding kinds_def by (metis length_append length_map)
  have "kinds h ! i = kinds g ! i" using k i by (simp add: nth_append kinds_def)
  with l i show ?thesis by (simp add: kinds_def)
qed

lemma keeps_if: "(c \<Longrightarrow> keeps g a) \<Longrightarrow> (\<not> c \<Longrightarrow> keeps g b) \<Longrightarrow> keeps g (if c then a else b)"
  by simp

lemma keeps_fold:
  "(\<And>x h. x \<in> set xs \<Longrightarrow> keeps g h \<Longrightarrow> keeps h (f x h)) \<Longrightarrow> keeps g h \<Longrightarrow> keeps g (fold f xs h)"
proof (induction xs arbitrary: h)
  case (Cons x xs)
  have "keeps g (f x h)" using Cons.prems by (metis keeps_trans list.set_intros(1))
  with Cons show ?case by simp
qed simp

lemma descends_append: "descends ks a b \<Longrightarrow> descends (ks @ xs) a b"
  by (auto simp: descends_def nth_append)

lemma keeps_record:
  assumes "well_contained g" and "well_kinded r"
  shows "keeps g (g\<lparr>grRecords := grRecords g @ [r]\<rparr>)"
  using assms descends_append [of "kinds g" _ _ "[rcKind r]"]
  by (auto simp: keeps_def well_contained_def kinds_le_def kinds_def)

lemma keeps_push:
  assumes "well_contained g" and "geRelation e = Contains \<Longrightarrow> descends (kinds g) (geFrom e) (geTo e)"
  shows "keeps g (push_edge e g)"
  using assms by (auto simp: keeps_def well_contained_def kinds_le_def kinds_def push_edge_def)

section \<open>Containers\<close>

definition container :: "graph \<Rightarrow> nat \<Rightarrow> bool" where
  "container g i \<longleftrightarrow> i < length (grRecords g) \<and> kind_level (rcKind (grRecords g ! i)) = 0"

lemma container_keeps: "container g i \<Longrightarrow> keeps g h \<Longrightarrow> container h i"
  using keeps_kind by (auto simp: container_def)

lemma keeps_synthetic:
  assumes "well_contained g" and "addSynthetic n key g = (i, h)"
  shows "keeps g h" and "i = length (grRecords g)" and "i < length (grRecords h)" and "rcKind (grRecords h ! i) = ndKind n"
  using assms keeps_record [of g] by (auto simp: addSynthetic_def well_kinded_def)

lemma found_container:
  assumes "well_contained g" and "find_synthetic kind key g = Some i" and "kind_level kind = 0"
  shows "container g i"
proof -
  have "i < length (grRecords g)" "ndKind (rcNode (grRecords g ! i)) = kind"
    using assms(2) find_index_Some unfolding find_synthetic_def by blast+
  with assms(1,3) show ?thesis by (auto simp: container_def well_contained_def well_kinded_def)
qed

lemma new_container:
  assumes "well_contained g" and "container g parent" and "addSynthetic n key g = (i, h)" and "kind_level (ndKind n) = 0"
  shows "keeps g (push_edge (plain_edge parent i r b c d) h) \<and> container (push_edge (plain_edge parent i r b c d) h) i"
proof -
  note s = keeps_synthetic [OF assms(1,3)]
  have p: "container h parent" using container_keeps [OF assms(2) s(1)] .
  have "descends (kinds h) parent i"
    using p s assms(2,4) by (simp add: descends_def container_def kinds_def)
  then have "keeps h (push_edge (plain_edge parent i r b c d) h)"
    using keeps_push [OF keeps_well [OF s(1)]] by (simp add: plain_edge_def)
  moreover have "container h i" using s assms(4) by (simp add: container_def)
  ultimately show ?thesis using keeps_trans [OF s(1)] container_keeps by blast
qed

lemma vcenter_kept:
  assumes "well_contained g" and "ensureVCenter ctx vc g = (i, h)"
  shows "keeps g h \<and> container h i"
proof (cases "find_synthetic ''vcenter'' (''vcenter'' @ NUL @ to_lower ctx @ NUL @ vc) g")
  case None
  with assms(2) have "addSynthetic \<lparr>ndKind = ''vcenter'', ndName = ctx, ndID = vc, ndContext = ctx, ndVCenter = vc,
      ndDatacenter = [], ndPath = []\<rparr> (''vcenter'' @ NUL @ to_lower ctx @ NUL @ vc) g = (i, h)"
    by (simp add: ensureVCenter_def Let_def)
  from keeps_synthetic [OF assms(1) this] show ?thesis by (simp add: container_def kind_level_def)
next
  case (Some j)
  with assms found_container [OF assms(1) Some] keeps_refl show ?thesis
    by (auto simp: ensureVCenter_def Let_def kind_level_def)
qed

lemma datacenter_kept:
  assumes "well_contained g" and "container g parent" and "ensureDatacenter parent ctx vc dc g = (i, h)"
  shows "keeps g h \<and> container h i"
  using assms(3) found_container [OF assms(1), of "''datacenter''"] keeps_refl [OF assms(1)] new_container [OF assms(1,2)]
  unfolding ensureDatacenter_def Let_def
  by (auto simp: kind_level_def split: option.splits prod.splits)

lemma folder_kept:
  assumes "well_contained g" and "container g parent" and "ensureFolder parent ctx vc name path g = (i, h)"
  shows "keeps g h \<and> container h i"
  using assms(3) found_container [OF assms(1), of "''folder''"] keeps_refl [OF assms(1)] new_container [OF assms(1,2)]
  unfolding ensureFolder_def Let_def
  by (auto simp: kind_level_def split: option.splits prod.splits)

lemma folder_loop_kept:
  "well_contained g \<Longrightarrow> container g parent \<Longrightarrow> folder_loop n parent current parts g = (i, h) \<Longrightarrow> keeps g h \<and> container h i"
proof (induction n parent current parts g rule: folder_loop.induct)
  case (2 n parent current part rest g)
  show ?case
  proof (cases "(rest = [] \<and> equal_fold part (ndName n)) \<or> part = []")
    case True
    then show ?thesis using 2 keeps_refl by (auto split: if_splits)
  next
    case False
    obtain p k where e: "ensureFolder parent (ndContext n) (ndVCenter n) part (''/'' @ (current @ ''/'' @ part)) g = (p, k)"
      by fastforce
    note f = folder_kept [OF 2(3,4) e]
    have "folder_loop n p (current @ ''/'' @ part) rest k = (i, h)" using 2(5) False e by (auto simp: Let_def)
    then have "keeps k h \<and> container h i" using 2(2) [OF _ _ refl e [symmetric]] f False keeps_well by blast
    then show ?thesis using f keeps_trans by blast
  qed
qed (simp add: keeps_refl)

lemma container_of_kept:
  assumes "well_contained g" and "container_of n g = (i, h)"
  shows "keeps g h \<and> container h i"
proof -
  obtain p1 g1 where 1: "ensureVCenter (ndContext n) (ndVCenter n) g = (p1, g1)" by fastforce
  note v = vcenter_kept [OF assms(1) 1]
  obtain p2 g2 where 2: "(if ndDatacenter n \<noteq> [] then ensureDatacenter p1 (ndContext n) (ndVCenter n) (ndDatacenter n) g1
      else (p1, g1)) = (p2, g2)" by fastforce
  have d: "keeps g1 g2 \<and> container g2 p2"
    using 2 v datacenter_kept [of g1 p1] keeps_refl keeps_well by (auto split: if_splits)
  let ?parts = "split_on CHR ''/'' (trim_char CHR ''/'' (slashes (ndPath n)))"
  have "(if 1 < length ?parts \<and> ndDatacenter n \<noteq> [] \<and> equal_fold (hd ?parts) (ndDatacenter n)
      then folder_loop n p2 (hd ?parts) (tl ?parts) g2 else (p2, g2)) = (i, h)"
    using assms(2) unfolding container_of_def 1 prod.case 2 Let_def by simp
  then have "keeps g2 h \<and> container h i"
    using d folder_loop_kept [of g2 p2] keeps_refl keeps_well by (auto split: if_splits)
  then show ?thesis using v d keeps_trans by blast
qed

lemma addContainment_kept:
  assumes "well_contained g" and "child < length (grRecords g)" and "kind_level (rcKind (grRecords g ! child)) \<noteq> 0"
  shows "keeps g (addContainment child g)"
proof (cases "ndContext (rec_node g child) = []")
  case False
  obtain p h where c: "container_of (rec_node g child) g = (p, h)" by fastforce
  note k = container_of_kept [OF assms(1) c]
  have "descends (kinds h) p child"
    using k keeps_kind [of g h child] assms(2,3) by (simp add: descends_def container_def kinds_def)
  then have "keeps h (push_edge (plain_edge p child Contains BasisMoref EdgeConfirmed []) h)"
    using keeps_push [of h "plain_edge p child Contains BasisMoref EdgeConfirmed []"] keeps_well [of g h] k
    by (simp add: plain_edge_def)
  with k False c show ?thesis using keeps_trans by (auto simp: addContainment_def)
qed (simp add: addContainment_def keeps_refl assms(1))

section \<open>Objects\<close>

lemma object_level:
  "kind_level KindHost = 1" "kind_level KindCluster = 1" "kind_level KindDatastore = 1" "kind_level KindResourcePool = 1"
  "kind_level KindDVSwitch = 1" "kind_level KindNetwork = 2" "kind_level KindVM = 2" "kind_level KindTemplate = 2"
  by (simp_all add: kind_level_def)

lemma object_kind:
  "KindHost \<in> object_kinds" "KindCluster \<in> object_kinds" "KindDatastore \<in> object_kinds" "KindResourcePool \<in> object_kinds"
  "KindDVSwitch \<in> object_kinds" "KindNetwork \<in> object_kinds" "KindVM \<in> object_kinds" "KindTemplate \<in> object_kinds"
  by (simp_all add: object_kinds_def)

lemma object_kind_level: "k \<in> object_kinds \<Longrightarrow> kind_level k \<noteq> 0"
  by (auto simp: object_kinds_def kind_level_def)

lemma filled_kind [simp]: "ndKind (fill_context cs (fill_vcenter cs (fill_datacenter cs n))) = ndKind n"
  by (auto simp: fill_context_def fill_vcenter_def fill_datacenter_def split: option.split)

lemma addRecord_kept:
  assumes "well_contained g" and "well_kinded r" and "addRecord r g = (i, h)"
  shows "keeps g h" and "i < length (grRecords h)" and "rcKind (grRecords h ! i) = rcKind r"
  using assms keeps_record [OF assms(1)] by (auto simp: addRecord_def Let_def well_kinded_def)

lemma contained_record:
  assumes "well_contained g" and "ndKind (rcNode r) = rcKind r" and "rcKind r \<in> object_kinds"
  shows "keeps g (case addRecord r g of (i, h) \<Rightarrow> addContainment i h)"
proof (cases "addRecord r g")
  case (Pair i h)
  have "well_kinded r" using assms(2,3) by (simp add: well_kinded_def)
  note a = addRecord_kept [OF assms(1) this Pair]
  show ?thesis
    using keeps_trans [OF a(1) addContainment_kept [OF keeps_well [OF a(1)] a(2)]] a(3) object_kind_level [OF assms(3)] Pair by simp
qed

lemma add_object_kept:
  assumes "well_contained g" and "kind \<in> object_kinds" and "add_object r kind n keys g = (i, h)"
  shows "keeps g h"
proof -
  obtain x where x: "(case addRecord x g of (i, h) \<Rightarrow> (i, addContainment i h)) = (i, h)"
    "ndKind (rcNode x) = rcKind x" "rcKind x = kind"
    by (rule that [OF assms(3) [unfolded add_object_def Let_def]]) simp_all
  then have "h = (case addRecord x g of (i, h) \<Rightarrow> addContainment i h)" by (auto split: prod.splits)
  then show ?thesis using contained_record [OF assms(1) x(2)] x(3) assms(2) by simp
qed

lemma update_kept:
  assumes "\<And>x. rcNode (f x) = rcNode x" and "\<And>x. rcKind (f x) = rcKind x" and "\<And>x. rcEligible (f x) = rcEligible x"
    and "well_contained g"
  shows "keeps g (update_record i f g)"
proof -
  let ?h = "update_record i f g"
  have k: "kinds ?h = kinds g"
    by (cases "i < length (grRecords g)") (simp_all add: kinds_def update_record_def map_update assms(2) list_update_beyond,
      metis length_map list_update_id nth_map)
  have "well_kinded r" if "r \<in> set (grRecords ?h)" for r
  proof (cases "r \<in> set (grRecords g)")
    case False
    with that have "r = f (grRecords g ! i) \<and> i < length (grRecords g)"
      using set_update_subset_insert [of "grRecords g" i "f (grRecords g ! i)"]
      by (cases "i < length (grRecords g)") (auto simp: update_record_def list_update_beyond)
    with assms show ?thesis by (simp add: well_contained_def well_kinded_def)
  qed (use assms(4) in \<open>simp add: well_contained_def\<close>)
  moreover have "grEdges ?h = grEdges g" "grData ?h = grData g" by (simp_all add: update_record_def)
  ultimately show ?thesis using k assms(4) by (auto simp: keeps_def well_contained_def kinds_le_def)
qed

lemma object_then_update:
  assumes "well_contained g" and "kind \<in> object_kinds" and "add_object r kind n keys g = (i, h)"
    and "\<And>x. rcNode (f x) = rcNode x" and "\<And>x. rcKind (f x) = rcKind x" and "\<And>x. rcEligible (f x) = rcEligible x"
  shows "keeps g (update_record i f h)"
  using add_object_kept [OF assms(1-3)] update_kept [of f, OF assms(4-6)] keeps_trans keeps_well by blast

lemma addResource_kept: "well_contained g \<Longrightarrow> keeps g (addResource r g)"
proof -
  assume w: "well_contained g"
  have o1: "keeps g (snd (add_object r kind n keys g))" if "kind \<in> object_kinds" for kind n keys
    using add_object_kept [OF w that] by (metis prod.collapse)
  have o2: "keeps g (case add_object r kind n keys g of (i, h) \<Rightarrow> update_record i f h)"
    if "kind \<in> object_kinds" "\<And>x. rcNode (f x) = rcNode x" "\<And>x. rcKind (f x) = rcKind x" "\<And>x. rcEligible (f x) = rcEligible x"
    for kind n keys f
    using object_then_update [OF w that(1) _ that(2-4)] by (auto split: prod.split)
  show ?thesis
    unfolding addResource_def Let_def
    by (intro keeps_if) (auto split: option.split intro!: keeps_refl [OF w] o1 o2 object_kind)
qed

lemma addVM_kept: "well_contained g \<Longrightarrow> keeps g (addVM ob g)"
proof -
  assume w: "well_contained g"
  show ?thesis unfolding addVM_def Let_def by (rule contained_record [OF w]) (simp_all add: object_kind)
qed

lemma keeps_fold_all:
  assumes "\<And>x h. well_contained h \<Longrightarrow> keeps h (f x h)" and "well_contained g"
  shows "keeps g (fold f xs g)"
  by (rule keeps_fold [OF _ keeps_refl [OF assms(2)]]) (rule assms(1), rule keeps_well)

lemma observe_kept: "keeps (empty_graph d) (observe d)"
proof -
  have "well_contained (empty_graph d)" by (simp add: empty_graph_def well_contained_def)
  from keeps_fold_all [OF addResource_kept this]
  have r: "keeps (empty_graph d) (fold addResource (exResources d) (empty_graph d))" .
  from keeps_trans [OF r keeps_fold_all [OF addVM_kept keeps_well [OF r]]] show ?thesis unfolding observe_def .
qed

section \<open>Derived networks\<close>

lemma network_record_kept:
  assumes "well_contained g" and "ndKind n = KindNetwork" and "addNetworkRecord n ident rb g = (i, h)"
  shows "keeps g h" and "i < length (grRecords h)" and "rcKind (grRecords h ! i) = KindNetwork"
proof -
  have *: "keeps g (g\<lparr>grRecords := grRecords g @ [r], grLegacy := l\<rparr>)" if "well_kinded r" for r l
    using keeps_record [OF assms(1) that] by (auto simp: keeps_def well_contained_def kinds_le_def kinds_def)
  show "keeps g h" using assms(2,3) * by (auto simp: addNetworkRecord_def well_kinded_def object_kind)
  show "i < length (grRecords h)" and "rcKind (grRecords h ! i) = KindNetwork"
    using assms(3) by (auto simp: addNetworkRecord_def)
qed

lemma network_edge_kept:
  assumes "well_contained g" and "ndKind n = KindNetwork"
    and "r = Contains \<Longrightarrow> parent < length (grRecords g) \<and> kind_level (rcKind (grRecords g ! parent)) < 2"
  shows "keeps g (case addNetworkRecord n ident rb g of (i, h) \<Rightarrow> push_edge (plain_edge parent i r b c d) h)"
proof (cases "addNetworkRecord n ident rb g")
  case (Pair i h)
  note n = network_record_kept [OF assms(1,2) Pair]
  have "descends (kinds h) parent i" if "r = Contains"
    using n keeps_kind [OF n(1), of parent] assms(3) [OF that] by (simp add: descends_def kinds_def object_level)
  then have "keeps h (push_edge (plain_edge parent i r b c d) h)"
    using keeps_push [OF keeps_well [OF n(1)], of "plain_edge parent i r b c d"] by (simp add: plain_edge_def)
  then show ?thesis using keeps_trans [OF n(1)] Pair by simp
qed

lemma dv_port_group_kept:
  assumes "well_contained g" and "parent < length (grRecords g)" and "rcKind (grRecords g ! parent) = KindDVSwitch"
  shows "keeps g (add_dv_port_group parent p sw pg g)"
  unfolding add_dv_port_group_def Let_def
  by (rule network_edge_kept [OF assms(1)]) (use assms(2,3) in \<open>simp_all add: derived_node_def object_level\<close>)

lemma host_port_group_kept: "well_contained g \<Longrightarrow> keeps g (add_host_port_group parent p pg g)"
  unfolding add_host_port_group_def Let_def by (rule network_edge_kept) (simp_all add: derived_node_def)

lemma derived_kept:
  assumes "well_contained g" and "parent < length (grRecords g)"
  shows "keeps g (addDerivedNetworks parent g)"
proof -
  have dv: "keeps g (fold (add_dv_port_group parent p sw) pgs g)" if "rcKind (grRecords g ! parent) = KindDVSwitch" for p sw pgs
    by (rule keeps_fold [OF _ keeps_refl [OF assms(1)]])
      (use that keeps_kind assms(2) in \<open>auto intro!: dv_port_group_kept dest: keeps_well\<close>)
  have ho: "keeps g (fold (add_host_port_group parent p) pgs g)" for p pgs
    by (rule keeps_fold_all [OF host_port_group_kept assms(1)])
  show ?thesis unfolding addDerivedNetworks_def Let_def
    using assms(1) by (auto split: option.split observed.split payload.split simp: keeps_refl intro: dv ho)
qed

lemma legacy_kept: "well_contained g \<Longrightarrow> keeps g (addLegacyVMNetworks parent g)"
proof -
  have nic: "keeps g (add_legacy_nic parent nic g)" if w: "well_contained g" for nic g
  proof -
    have "keeps g (snd (addNetworkRecord n ident rb g))" if "ndKind n = KindNetwork" for n ident rb
      using network_record_kept(1) [OF w that] by (metis prod.collapse)
    then show ?thesis using keeps_refl [OF w] by (auto simp: add_legacy_nic_def Let_def)
  qed
  assume w: "well_contained g"
  have "keeps g (fold (add_legacy_nic parent) nics g)" for nics
    by (rule keeps_fold_all [OF nic w])
  then show ?thesis using keeps_refl [OF w] by (auto simp: addLegacyVMNetworks_def split: option.split observed.split)
qed

lemma build_records_kept: "keeps (empty_graph d) (build_records d)"
proof -
  have d: "keeps g (derive_networks g)" if "well_contained g" for g
    unfolding derive_networks_def
  proof (rule keeps_fold [OF _ keeps_refl [OF that]])
    fix i h assume i: "i \<in> set [0..<length (grRecords g)]" and k: "keeps g h"
    have "keeps h (addDerivedNetworks i h)" using derived_kept [OF keeps_well [OF k]] keeps_kind [OF k] i by simp
    with k show "keeps h (if rcEligible (grRecords h ! i) then addDerivedNetworks i h else h)"
      using keeps_refl keeps_well by auto
  qed
  have l: "keeps g (legacy_networks g)" if "well_contained g" for g
  proof -
    have "keeps g (fold (\<lambda>i g. if rcKind (grRecords g ! i) = KindVM \<and> rcEligible (grRecords g ! i) then addLegacyVMNetworks i g
        else g) xs g)" for xs
      by (rule keeps_fold_all [OF _ that]) (simp add: legacy_kept keeps_refl)
    then show ?thesis using keeps_refl [OF that] by (simp add: legacy_networks_def)
  qed
  have e: "keeps (empty_graph d) (derive_networks (observe d))"
    using keeps_trans [OF observe_kept d [OF keeps_well [OF observe_kept]]] .
  from keeps_trans [OF e l [OF keeps_well [OF e]]] show ?thesis unfolding build_records_def .
qed

section \<open>Relationships\<close>

lemma addUnresolved_kept: "well_contained g \<Longrightarrow> keeps g (addUnresolved i k v g)"
  by (auto simp: addUnresolved_def Let_def keeps_def well_contained_def kinds_le_def kinds_def)

lemma addEdge_kept:
  assumes "well_contained g" and "r = Contains \<Longrightarrow> descends (kinds g) a b"
  shows "keeps g (addEdge a b r bs c d g)"
  using keeps_push [OF assms(1), of "plain_edge a b r bs c d"] assms(2) keeps_refl [OF assms(1)]
  by (auto simp: addEdge_def plain_edge_def)

definition may_hold :: "graph \<Rightarrow> nat \<Rightarrow> relation \<Rightarrow> bool" where
  "may_hold g i r \<longleftrightarrow> (r = Contains \<longrightarrow> i < length (grRecords g) \<and> kind_level (rcKind (grRecords g ! i)) < 2)"

lemma may_hold_other: "r \<noteq> Contains \<Longrightarrow> may_hold g i r"
  by (simp add: may_hold_def)

lemma unresolved_edge_kept:
  assumes "well_contained g" and "may_hold g i r" and "r = Contains \<Longrightarrow> kind_level k = 2"
  shows "keeps g (addUnresolvedEdge i k v r bs c d g)"
proof -
  have "keeps g (case addSynthetic n key g of (t, h) \<Rightarrow> addUnresolved i k w (addEdge i t r bs c d h))" if "ndKind n = k" for n key w
  proof (cases "addSynthetic n key g")
    case (Pair t h)
    note s = keeps_synthetic [OF assms(1) Pair]
    have "descends (kinds h) i t" if "r = Contains"
      using s keeps_kind [OF s(1), of i] assms(2,3) that \<open>ndKind n = k\<close> by (simp add: descends_def kinds_def may_hold_def)
    then have "keeps h (addEdge i t r bs c d h)" by (rule addEdge_kept [OF keeps_well [OF s(1)]])
    then show ?thesis using s(1) addUnresolved_kept keeps_well keeps_trans Pair by (metis prod.case)
  qed
  then show ?thesis using keeps_refl [OF assms(1)] by (simp add: addUnresolvedEdge_def Let_def)
qed

lemma candidates_kept:
  assumes "well_contained g" and "may_hold g i r"
    and "r = Contains \<Longrightarrow> \<forall>c \<in> set cs. c < length (grRecords g) \<and> kind_level (rcKind (grRecords g ! c)) = 2"
  shows "keeps g (addCandidates i cs r bs c d u g)"
proof (cases "uniqueNodeCandidates cs g = []")
  case False
  then have "canonical (uniqueNodeCandidates cs g) g \<in> set cs"
    using canonical_in [OF False] by (auto simp: set_uniqueNodeCandidates)
  with assms(2,3) have "r = Contains \<Longrightarrow> descends (kinds g) i (canonical (uniqueNodeCandidates cs g) g)"
    by (auto simp: descends_def kinds_def may_hold_def)
  then have "keeps g (addEdge i (canonical (uniqueNodeCandidates cs g) g) r bs c d g)" by (rule addEdge_kept [OF assms(1)])
  then show ?thesis using False addUnresolved_kept [OF assms(1)] keeps_refl [OF assms(1)]
    by (simp add: addCandidates_def Let_def)
qed (simp add: addCandidates_def keeps_refl assms(1))

lemma named_kept: "well_contained g \<Longrightarrow> r \<noteq> Contains \<Longrightarrow> keeps g (addNamedReference i kind name r bs c u g)"
  unfolding addNamedReference_def Let_def
  by (intro keeps_if unresolved_edge_kept candidates_kept may_hold_other) simp_all

lemma disk_kept: "well_contained g \<Longrightarrow> keeps g (add_disk i p g)"
  unfolding add_disk_def Let_def
  by (auto split: option.split prod.split intro!: keeps_refl unresolved_edge_kept candidates_kept may_hold_other)

lemma datastore_name_kept: "well_contained g \<Longrightarrow> keeps g (add_datastore_name i n g)"
  unfolding add_datastore_name_def Let_def
  by (intro keeps_if unresolved_edge_kept candidates_kept may_hold_other) simp_all

lemma nic_kept: "well_contained g \<Longrightarrow> keeps g (add_nic i n g)"
  unfolding add_nic_def Let_def case_prod_beta
  by (intro keeps_if keeps_refl unresolved_edge_kept candidates_kept may_hold_other) simp_all

lemma lun_kept: "well_contained g \<Longrightarrow> keeps g (add_lun i n g)"
  unfolding add_lun_def Let_def
  by (intro keeps_if keeps_refl unresolved_edge_kept candidates_kept may_hold_other) simp_all

lemma port_group_kept: "well_contained g \<Longrightarrow> keeps g (add_port_group i pg g)"
  unfolding add_port_group_def Let_def
  by (intro keeps_if unresolved_edge_kept candidates_kept may_hold_other) simp_all

lemma vm_ref_kept:
  assumes "well_contained g" and "i < length (grRecords g)" and "rcKind (grRecords g ! i) = KindResourcePool"
  shows "keeps g (add_vm_ref i n g)"
proof -
  have "may_hold g i Contains" using assms(2,3) by (simp add: may_hold_def object_level)
  moreover have "c < length (grRecords g) \<and> kind_level (rcKind (grRecords g ! c)) = 2"
    if "c \<in> set (morefCandidates KindVM vc ident g) \<or> c \<in> set (morefCandidates KindTemplate vc ident g)" for c vc ident
    using that morefCandidates_kind [of c _ vc ident g] by (auto simp: object_level)
  ultimately show ?thesis unfolding add_vm_ref_def Let_def
    by (intro keeps_if unresolved_edge_kept candidates_kept assms(1)) (auto simp: object_level split: if_splits)
qed

lemma then_fold: "keeps g h \<Longrightarrow> (\<And>x h. well_contained h \<Longrightarrow> keeps h (f x h)) \<Longrightarrow> keeps g (fold f xs h)"
  using keeps_fold_all [of f h xs] keeps_trans keeps_well by blast

lemma then_named:
  "keeps g h \<Longrightarrow> r \<noteq> Contains \<Longrightarrow> keeps g (addNamedReference i k x r bs c u h)"
  using named_kept keeps_trans keeps_well by blast

lemma vm_kept: "well_contained g \<Longrightarrow> keeps g (addVMRelationships i g)"
  unfolding addVMRelationships_def Let_def
  by (auto split: option.split observed.split
      intro!: keeps_refl then_fold then_named disk_kept datastore_name_kept nic_kept)

lemma host_kept: "well_contained g \<Longrightarrow> keeps g (addHostRelationships i g)"
  unfolding addHostRelationships_def Let_def
  by (auto split: option.split observed.split payload.split
      intro!: keeps_refl then_fold then_named lun_kept port_group_kept)

lemma relate_kept:
  assumes "well_contained g" and "i < length (grRecords g)"
  shows "keeps g (relate i g)"
proof -
  have dv: "keeps g (addDVSwitchRelationships i g)"
    unfolding addDVSwitchRelationships_def
    using assms(1) by (auto split: option.split observed.split payload.split intro!: keeps_refl keeps_fold_all named_kept)
  have rp: "keeps g (addResourcePoolRelationships i g)" if k: "rcKind (grRecords g ! i) = KindResourcePool"
  proof -
    have "keeps g (fold (add_vm_ref i) xs g)" for xs
      by (rule keeps_fold [OF _ keeps_refl [OF assms(1)]])
        (use k keeps_kind assms(2) in \<open>auto intro!: vm_ref_kept dest: keeps_well\<close>)
    then show ?thesis unfolding addResourcePoolRelationships_def
      using assms(1) by (auto split: option.split observed.split payload.split simp: keeps_refl)
  qed
  show ?thesis unfolding relate_def Let_def
    using keeps_refl [OF assms(1)] vm_kept [OF assms(1)] host_kept [OF assms(1)] dv rp by simp
qed

lemma placement_kept: "well_contained g \<Longrightarrow> keeps g (placement i g)"
proof -
  have add: "well_contained g \<Longrightarrow> keeps g (addEdge a b Presents bs c d g)" for a b bs c d g
    by (rule addEdge_kept) simp_all
  have "well_contained g \<Longrightarrow> keeps g (placement_edges i e g)" for e g
    unfolding placement_edges_def by (intro keeps_if keeps_refl keeps_fold_all add)
  then show "well_contained g \<Longrightarrow> keeps g (placement i g)"
    unfolding placement_def by (intro keeps_if keeps_refl keeps_fold_all)
qed

lemma Build_kept: "well_contained (Build_graph d)"
proof -
  have "well_contained (makeSubjects (build_records d))"
    using keeps_well [OF build_records_kept [of d]] by (simp add: makeSubjects_def Let_def well_contained_def kinds_def)
  moreover have "well_contained (addRelationships g)" if w: "well_contained g" for g
  proof -
    have k: "keeps g (fold relate [0..<length (grRecords g)] g)"
      by (rule keeps_fold [OF _ keeps_refl [OF w]]) (auto intro!: relate_kept dest: keeps_well keeps_kind)
    show ?thesis unfolding addRelationships_def Let_def
      by (rule keeps_well [OF keeps_fold_all [OF placement_kept keeps_well [OF k]]])
  qed
  moreover have "well_contained (finalizeEdges g)" if "well_contained g" for g
  proof -
    have "grRecords (finalizeEdges g) = grRecords g" by (simp add: finalizeEdges_def Let_def)
    with that finalize_correct [of g] show ?thesis unfolding well_contained_def kinds_def by auto
  qed
  ultimately show ?thesis by (simp add: Build_graph_def)
qed

text \<open>The subjects of a built graph: of a known kind, with members, and made of its own objects.\<close>

lemma Build_parts:
  "grData (Build_graph d) = d" "grSubjects (Build_graph d) = grSubjects (makeSubjects (build_records d))"
proof -
  let ?g = "makeSubjects (build_records d)"
  have "extends ?g (addRelationships ?g)" unfolding addRelationships_def Let_def by (intro extends_fold growth extends_refl)
  moreover have "grData ?g = d"
    using build_records_kept [of d] by (simp add: makeSubjects_def Let_def keeps_def empty_graph_def)
  ultimately show "grData (Build_graph d) = d" "grSubjects (Build_graph d) = grSubjects ?g"
    by (simp_all add: Build_graph_def finalizeEdges_def Let_def extends_def)
qed

lemma first_by_Nil: "first_by k [] xs = [] \<longleftrightarrow> xs = []"
  by (cases xs) auto

lemma sort_key_Nil: "sort_key k xs = [] \<longleftrightarrow> xs = []"
  by (metis set_empty set_sort)

lemma subject_of_objects:
  assumes "s \<in> set (grSubjects (Build_graph d))"
  shows "sjKind (srSubject s) \<in> object_kinds" and "sjMembers (srSubject s) \<noteq> []"
proof -
  let ?rs = "grRecords (build_records d)"
  let ?d = "partition_records (strong_groups ?rs) (weak_groups ?rs) ?rs"
  have rep: "represents ?d (all_links ?rs) (length ?rs)" by (rule partition_represents) simp_all
  obtain vs where vs: "vs \<in> set (root_groups ?rs ?d)" and s: "s = makeSubject vs ?rs"
    using assms unfolding Build_parts(2) by (auto simp: makeSubjects_def Let_def set_subjects_of)
  note el = root_groups_elim [OF rep vs]
  define ws where "ws = sort_key (\<lambda>i. memberRecordSortKey (?rs ! i)) vs"
  have ws: "ws \<noteq> []" "set ws = set vs" using el by (simp_all add: ws_def sort_key_Nil)
  have m: "sjMembers (srSubject s) = sort_key nodeSortKey (first_by (\<lambda>n. to_lower (ndContext n)) [] (map rcNode (map (\<lambda>i. ?rs ! i) ws)))"
    and k: "sjKind (srSubject s) = ndKind (rcNode (hd (map (\<lambda>i. ?rs ! i) ws)))"
    by (simp_all add: s makeSubject_def Let_def ws_def)
  show "sjMembers (srSubject s) \<noteq> []" unfolding m sort_key_Nil first_by_Nil using ws(1) by simp
  have "hd ws \<in> set vs" using ws hd_in_set by blast
  then have "hd ws < length ?rs" "rcEligible (?rs ! hd ws)" using el by (auto simp: set_eligible)
  moreover have "well_contained (build_records d)" using keeps_well [OF build_records_kept] .
  ultimately show "sjKind (srSubject s) \<in> object_kinds"
    using ws(1) unfolding k by (simp add: well_contained_def well_kinded_def hd_map)
qed

lemma object_kind_lower: "k \<in> object_kinds \<Longrightarrow> to_lower k = k"
  by (auto simp: object_kinds_def to_lower_def lower_char_def)

section \<open>The climb ends\<close>

text \<open>The height of a node: each step of the climb goes to a lower one.\<close>

definition height :: "graph \<Rightarrow> nat \<Rightarrow> nat" where
  "height g n = (if kind_level (kinds g ! n) = 0 then n else length (grRecords g) + kind_level (kinds g ! n))"

lemma descends_height: "descends (kinds g) a b \<Longrightarrow> height g a < height g b"
  by (auto simp: descends_def height_def kinds_def)

definition indexed :: "graph \<Rightarrow> bool" where
  "indexed g \<longleftrightarrow> (\<forall>n. \<forall>k \<in> set (grIncoming g n). k < length (grEdges g) \<and> geTo (grEdges g ! k) = n)"

lemma indexed_Build: "indexed (Build_graph d)"
  using finalize_correct [of "addRelationships (makeSubjects (build_records d))"]
  by (simp add: indexed_def Build_graph_def)

lemma parent_lower:
  assumes "well_contained g" and "indexed g" and "parent_edge g n = Some e"
  shows "e \<in> set (grEdges g) \<and> geRelation e = Contains \<and> geTo e = n \<and> height g (geFrom e) < height g n"
proof -
  have "e \<in> set (map (\<lambda>k. grEdges g ! k) (grIncoming g n))" and c: "geRelation e = Contains"
    using assms(3) by (auto simp: parent_edge_def find_Some_iff)
  then obtain k where "k \<in> set (grIncoming g n)" "e = grEdges g ! k" by auto
  then have e: "e \<in> set (grEdges g)" "geTo e = n" using assms(2) by (auto simp: indexed_def)
  then have "descends (kinds g) (geFrom e) (geTo e)" using c assms(1) by (auto simp: well_contained_def)
  then show ?thesis using descends_height e c by simp
qed

definition containments :: "graph \<Rightarrow> edge_value set" where
  "containments g = edgeValue g ` {e \<in> set (grEdges g). geRelation e = Contains}"

lemma climb_returns:
  assumes "well_contained g" and "indexed g"
  shows "set chain \<subseteq> containments g \<Longrightarrow> \<exists>c. climb_chain g n chain = Some c \<and> set c \<subseteq> containments g"
proof (induction "height g n" arbitrary: n chain rule: less_induct)
  case less
  show ?case
  proof (cases "parent_edge g n")
    case None
    then show ?thesis using less(2) by (simp add: climb_chain.simps)
  next
    case (Some e)
    note p = parent_lower [OF assms Some]
    then have "set (edgeValue g e # chain) \<subseteq> containments g" using less(2) by (auto simp: containments_def)
    then show ?thesis using less(1) p Some by (simp add: climb_chain.simps)
  qed
qed

lemma ancestors_return:
  assumes "well_contained g" and "indexed g"
  shows "set vs \<subseteq> containments g \<Longrightarrow> \<exists>a l. collect_ancestors g ns (vs, ls) = Some (a, l) \<and> set a \<subseteq> containments g"
proof (induction ns arbitrary: vs ls)
  case (Cons n ns)
  obtain c where c: "climb_chain g n [] = Some c" "set c \<subseteq> containments g" using climb_returns [OF assms, of "[]" n] by auto
  have "set (appendUniqueEdges vs c) \<subseteq> containments g"
    using fold_add_unique [where xs = c and vs = vs] c(2) Cons.prems by (auto simp: appendUniqueEdges_def)
  from Cons.IH [OF this] c show ?case by simp
qed simp

section \<open>Properties\<close>

text \<open>
  C26: The climb from an object to its containers ends: on every graph built from a stored assessment, the
  ancestry of any subject is returned, and every ancestor it lists is a containment edge of the graph.
\<close>

theorem topology_returns:
  "\<exists>r. Topology (Build_graph d) s = Some r \<and> set (rtAncestors r) \<subseteq> containments (Build_graph d)"
proof (cases "subjectIndex (Build_graph d) s")
  case None
  then show ?thesis by (simp add: Topology_def newSubjectResult_def)
next
  case (Some si)
  obtain a l where "collect_ancestors (Build_graph d) (srNodes (grSubjects (Build_graph d) ! si)) ([], []) = Some (a, l)"
    "set a \<subseteq> containments (Build_graph d)"
    using ancestors_return [OF Build_kept indexed_Build, of "[]" d "srNodes (grSubjects (Build_graph d) ! si)" "[]"] by auto
  with Some show ?thesis by (simp add: Topology_def Let_def newSubjectResult_def)
qed

text \<open>
  A datacenter is looked up by its name, but the identity of a datacenter node starts with the vCenter's:
  two clusters of one datacenter get a datacenter node each.
\<close>

definition sample_site_cluster :: "string \<Rightarrow> resource" where
  "sample_site_cluster n = \<lparr>reVCenter = ''v'', reContext = ''k'', reKind = ''cluster'', reID = n, reName = n,
     rePayload = PCluster \<lparr>cuLocation = \<lparr>loContext = ''k'', loDatacenter = ''dc'', loPath = []\<rparr>, cuID = n, cuName = n\<rparr>\<rparr>"

theorem datacenter_made_twice:
  "map (\<lambda>r. ndID (rcNode r)) (filter (\<lambda>r. rcKind r = ''datacenter'')
     (grRecords (observe (sample_export\<lparr>exResources := [sample_site_cluster ''c'', sample_site_cluster ''d'']\<rparr>)))) =
   [''v:datacenter:dc'', ''v:datacenter:dc'']"
  by code_simp

end
