(* ===== verification/Compare.thy ===== *)
theory Compare
  imports NetCompare Containment
begin

text \<open>
  The comparison of two clusters (internal/network/compare.go, \<open>Compare\<close>): it resolves the clusters in the
  topology graph, matches the networks their hosts reach, and finds the virtual machines on the networks
  that the target lacks by a traversal of the graph.
\<close>

section \<open>Clusters\<close>

definition clusterReference :: "export_data \<Rightarrow> subject \<Rightarrow> cluster_ref" where
  "clusterReference d s =
     (let ref = (case sjMembers s of
            [] \<Rightarrow> \<lparr>crfName = sjName s, crfContext = [], crfVCenter = [], crfHosts = 0, crfResolved = True\<rparr>
          | m # _ \<Rightarrow> \<lparr>crfName = sjName s, crfContext = ndContext m, crfVCenter = ndVCenter m, crfHosts = 0, crfResolved = True\<rparr>)
      in ref\<lparr>crfHosts := int (length (List.map_filter (in_cluster ref)
           (filter (\<lambda>r. sameContext (reContext r) (crfContext ref)) (exResources d))))\<rparr>)"

definition containsClusterRef :: "cluster_ref list \<Rightarrow> cluster_ref \<Rightarrow> bool" where
  "containsClusterRef vs w \<longleftrightarrow> list_ex (\<lambda>v. eq_trim (crfName v) (crfName w) \<and> eq_trim (crfContext v) (crfContext w)) vs"

text \<open>\<open>%010d\<close> of a count.\<close>

definition pad10 :: "int \<Rightarrow> string" where
  "pad10 n = replicate (10 - length (itoa n)) CHR ''0'' @ itoa n"

definition clusterSortKey :: "cluster_ref \<Rightarrow> string" where
  "clusterSortKey c =
     objectSortKey [crfName c, crfContext c, crfVCenter c, pad10 (crfHosts c), bool_text (crfResolved c)]"

definition sortClusterRefs :: "cluster_ref list \<Rightarrow> cluster_ref list" where
  "sortClusterRefs cs = sort_key clusterSortKey cs"

definition add_candidate :: "cluster_ref \<Rightarrow> cluster_ref list \<Rightarrow> cluster_ref list" where
  "add_candidate c cs = (if containsClusterRef cs c then cs else cs @ [c])"

definition cluster_candidates :: "export_data \<Rightarrow> subject list \<Rightarrow> subject list \<Rightarrow> cluster_ref list" where
  "cluster_candidates d ss ts =
     (let cs = (if 1 < length ss then map (clusterReference d) ss else []);
          cs = (if 1 < length ts then fold add_candidate (map (clusterReference d) ts) cs else cs)
      in sortClusterRefs cs)"

section \<open>Attached virtual machines\<close>

definition attached_key :: "edge_value \<Rightarrow> string" where
  "attached_key e = to_lower (ndContext (evFrom e) @ NUL @ ndID (evFrom e) @ NUL @ ndName (evFrom e))"

definition attached_of :: "edge_value \<Rightarrow> attached_vm" where
  "attached_of e = \<lparr>avName = ndName (evFrom e), avID = ndID (evFrom e), avContext = ndContext (evFrom e),
     avVCenter = ndVCenter (evFrom e), avConfidence = confidence_text (evConfidence e), avBasis = basis_text (evBasis e)\<rparr>"

definition attachedVMs :: "graph \<Rightarrow> network_summary \<Rightarrow> string \<Rightarrow> attached_vm list \<times> bool" where
  "attachedVMs g n ctx =
     (case Resolve_subjects g KindNetwork (nsName n) [ctx] of
        [s] \<Rightarrow>
          (let result = BlastRadius g s 1;
               es = first_by attached_key [] (filter (\<lambda>e. equal_fold (ndKind (evFrom e)) KindVM) (rtEdges result))
           in (sort_key (\<lambda>a. objectSortKey [avContext a, avName a, avID a]) (map attached_of es), rtUnresolved result = []))
      | _ \<Rightarrow> ([], False))"

section \<open>The comparison\<close>

definition initial_comparison :: "export_data \<Rightarrow> string \<Rightarrow> string \<Rightarrow> string list \<Rightarrow> comparison" where
  "initial_comparison d source target contexts =
     (let named = (\<lambda>n. \<lparr>crfName = trim_space n, crfContext = [], crfVCenter = [], crfHosts = 0, crfResolved = False\<rparr>)
      in \<lparr>cmSchema = inventorySchema (ruSchema (exRun d)), cmRun = ruID (exRun d), cmSource = named source,
          cmTarget = named target, cmMatched = [], cmGaps = [], cmTargetOnly = [], cmDifferences = [], cmConfidence = [],
          cmChecked = checkedContexts (exContexts d) contexts, cmBlind = [], cmAmbiguous = False, cmCandidates = []\<rparr>)"

definition mapping_gap_of :: "graph \<Rightarrow> string \<Rightarrow> network_summary \<Rightarrow> mapping_gap" where
  "mapping_gap_of g ctx n =
     (case attachedVMs g n ctx of
        (attached, resolved) \<Rightarrow>
          \<lparr>mgNetwork = n, mgVMs = attached, mgResolved = resolved,
           mgSeverity = (if attached \<noteq> [] then severityBlocker else severityAdvisory)\<rparr>)"

definition gap_needs :: "mapping_gap list \<Rightarrow> string list" where
  "gap_needs gaps = [''host'', ''dvswitch''] @ (if gaps \<noteq> [] then [''vm''] else [])"

definition judge :: "export_data \<Rightarrow> string list \<Rightarrow> comparison \<Rightarrow> comparison" where
  "judge d selected c =
     (let partial = cmSchema c < 12 \<or> list_ex (\<lambda>g. \<not> mgResolved g) (cmGaps c);
          c = c\<lparr>cmBlind := comparisonBlindness (exContexts d) selected (gap_needs (cmGaps c))\<rparr>
      in if cmBlind c \<noteq> []
         then c\<lparr>cmDifferences := map (\<lambda>x. x\<lparr>dfSeverity := severityAdvisory\<rparr>) (cmDifferences c),
                cmGaps := map (\<lambda>x. x\<lparr>mgSeverity := severityAdvisory\<rparr>) (cmGaps c), cmConfidence := ''unknown''\<rparr>
         else c\<lparr>cmConfidence := (if partial then ''partial'' else ''complete'')\<rparr>)"

definition compare_clusters :: "export_data \<Rightarrow> graph \<Rightarrow> string list \<Rightarrow> comparison \<Rightarrow> comparison" where
  "compare_clusters d g selected c =
     (case matchNetworks (reachableNetworks d (cmSource c)) (reachableNetworks d (cmTarget c)) of
        (pairs, sourceOnly, targetOnly) \<Rightarrow>
          judge d selected (c\<lparr>cmMatched := pairs, cmDifferences := concat (map networkDifferences pairs),
            cmTargetOnly := targetOnly, cmGaps := map (mapping_gap_of g (crfContext (cmSource c))) sourceOnly\<rparr>))"

definition Compare :: "export_data \<Rightarrow> string \<Rightarrow> string \<Rightarrow> string list \<Rightarrow> comparison" where
  "Compare d source target contexts =
     (let c = initial_comparison d source target contexts; g = Build_graph d; selected = normalizeContexts contexts;
          ss = Resolve_subjects g KindCluster source contexts; ts = Resolve_subjects g KindCluster target contexts;
          c = (if length ss = 1 then c\<lparr>cmSource := clusterReference d (hd ss)\<rparr> else c);
          c = (if length ts = 1 then c\<lparr>cmTarget := clusterReference d (hd ts)\<rparr> else c)
      in if length ss \<noteq> 1 \<or> length ts \<noteq> 1
         then c\<lparr>cmAmbiguous := (1 < length ss \<or> 1 < length ts), cmCandidates := cluster_candidates d ss ts,
                cmBlind := comparisonBlindness (exContexts d) selected [''host'', ''dvswitch''], cmConfidence := ''unknown''\<rparr>
         else compare_clusters d g selected c)"

section \<open>Lemmas\<close>

lemma clusterReference_resolved [simp]: "crfResolved (clusterReference d s)"
  by (simp add: clusterReference_def Let_def split: list.split)

lemma comparisonBlindness_Nil:
  "comparisonBlindness runs selected needs = [] \<longleftrightarrow>
     (\<forall>c \<in> set (BlindContexts runs needs). selected \<noteq> [] \<and> to_lower c \<notin> to_lower ` set selected)"
  by (auto simp: comparisonBlindness_def Let_def filter_empty_conv)

lemma judge_parts:
  "cmMatched (judge d sel c) = cmMatched c \<and> map mgNetwork (cmGaps (judge d sel c)) = map mgNetwork (cmGaps c) \<and>
   map mgVMs (cmGaps (judge d sel c)) = map mgVMs (cmGaps c) \<and> cmTargetOnly (judge d sel c) = cmTargetOnly c \<and>
   cmSource (judge d sel c) = cmSource c \<and> cmTarget (judge d sel c) = cmTarget c \<and> cmAmbiguous (judge d sel c) = cmAmbiguous c"
  by (simp add: judge_def Let_def comp_def)

lemma mapping_gap_of_network [simp]: "mgNetwork (mapping_gap_of g ctx n) = n"
  by (simp add: mapping_gap_of_def split: prod.split)

lemma mapping_gap_of_VMs [simp]: "mgVMs (mapping_gap_of g ctx n) = fst (attachedVMs g n ctx)"
  by (simp add: mapping_gap_of_def split: prod.split)

lemma mapping_gap_of_severity [simp]:
  "mgSeverity (mapping_gap_of g ctx n) = (if fst (attachedVMs g n ctx) \<noteq> [] then severityBlocker else severityAdvisory)"
  by (simp add: mapping_gap_of_def split: prod.split)

lemma severities_differ [simp]: "severityAdvisory \<noteq> severityBlocker" "severityBlocker \<noteq> severityAdvisory"
  by simp_all

text \<open>A site of one cluster, in a context collected in full.\<close>

definition sample_site :: export_data where
  "sample_site = \<lparr>exRun = \<lparr>ruID = 1, ruSchema = ''12''\<rparr>, exContexts = [sample_host_context\<lparr>ctName := ''k''\<rparr>], exVMs = [],
     exResources = [\<lparr>reVCenter = ''v'', reContext = ''k'', reKind = ''cluster'', reID = ''c'', reName = ''c'',
       rePayload = PCluster \<lparr>cuLocation = \<lparr>loContext = ''k'', loDatacenter = [], loPath = []\<rparr>, cuID = ''c'', cuName = ''c''\<rparr>\<rparr>],
     exPerformance = []\<rparr>"

definition sample_cluster :: subject where
  "sample_cluster = \<lparr>sjKind = ''cluster'', sjName = ''c'', sjMembers = [\<lparr>ndKind = ''cluster'', ndName = ''c'', ndID = ''c'',
     ndContext = ''k'', ndVCenter = ''v'', ndDatacenter = [], ndPath = []\<rparr>], sjIdentity = [], sjBasis = BasisName\<rparr>"

lemma sample_resolves: "Resolve_subjects (Build_graph sample_site) KindCluster ''c'' [] = [sample_cluster]"
  by code_simp

section \<open>Properties\<close>

lemma Compare_resolved:
  assumes "Resolve_subjects (Build_graph d) KindCluster source contexts = [s]" and "Resolve_subjects (Build_graph d) KindCluster target contexts = [t]"
    and "matchNetworks (reachableNetworks d (clusterReference d s)) (reachableNetworks d (clusterReference d t)) = (ps, so, tos)"
  shows "Compare d source target contexts =
    judge d (normalizeContexts contexts)
      ((initial_comparison d source target contexts)\<lparr>cmSource := clusterReference d s, cmTarget := clusterReference d t,
        cmMatched := ps, cmDifferences := concat (map networkDifferences ps), cmTargetOnly := tos,
        cmGaps := map (mapping_gap_of (Build_graph d) (crfContext (clusterReference d s))) so\<rparr>)"
  using assms(3) by (simp add: Compare_def compare_clusters_def Let_def assms(1,2))

lemma Compare_unresolved:
  assumes "\<not> (length (Resolve_subjects (Build_graph d) KindCluster source contexts) = 1 \<and>
    length (Resolve_subjects (Build_graph d) KindCluster target contexts) = 1)"
  shows "cmConfidence (Compare d source target contexts) = ''unknown''"
  using assms by (simp only: Compare_def Let_def) auto

lemma judge_confident:
  assumes "cmConfidence (judge d sel c) \<noteq> ''unknown''"
  shows "comparisonBlindness (exContexts d) sel (gap_needs (cmGaps c)) = [] \<and> cmDifferences (judge d sel c) = cmDifferences c \<and>
    cmGaps (judge d sel c) = cmGaps c"
  using assms by (auto simp: judge_def Let_def split: if_splits)

lemma single_iff: "length xs = 1 \<longleftrightarrow> (\<exists>x. xs = [x])"
  by (cases xs) auto

lemma blind_weaken:
  assumes "comparisonBlindness runs sel (gap_needs gaps) = []"
  shows "comparisonBlindness runs sel [''host'', ''dvswitch''] = []"
proof -
  have "set (BlindContexts runs [''host'', ''dvswitch'']) \<subseteq> set (BlindContexts runs (gap_needs gaps))"
    by (auto simp: set_BlindContexts gap_needs_def ContextComplete_def)
  with assms show ?thesis unfolding comparisonBlindness_Nil by blast
qed

text \<open>
  A comparison of two resolved clusters loses no network and invents none: each network the source
  cluster reaches is matched once or is a mapping gap, each network of the target is matched once or is
  listed as the target's only, every pair has the basis it states, and a gap's virtual machines are those
  the graph attaches to that network.
\<close>

theorem comparison_accounts:
  assumes "Resolve_subjects (Build_graph d) KindCluster source contexts = [s]" and "Resolve_subjects (Build_graph d) KindCluster target contexts = [t]"
    and "c = Compare d source target contexts"
  shows "mset (map nmSource (cmMatched c)) + mset (map mgNetwork (cmGaps c)) = mset (reachableNetworks d (cmSource c)) \<and>
    mset (map nmTarget (cmMatched c)) + mset (cmTargetOnly c) = mset (reachableNetworks d (cmTarget c)) \<and>
    (\<forall>p \<in> set (cmMatched c). nmBasis p = ''vlan'' \<and> same_vlan (nmSource p) (nmTarget p) \<or>
       nmBasis p = ''name'' \<and> same_name (nmSource p) (nmTarget p)) \<and>
    (\<forall>x \<in> set (cmGaps c). mgVMs x = fst (attachedVMs (Build_graph d) (mgNetwork x) (crfContext (cmSource c))))"
proof -
  obtain ps so tos where m: "matchNetworks (reachableNetworks d (clusterReference d s))
      (reachableNetworks d (clusterReference d t)) = (ps, so, tos)" by (metis prod_cases3)
  note C = Compare_resolved [OF assms(1,2) m, folded assms(3)]
  let ?c0 = "(initial_comparison d source target contexts)\<lparr>cmSource := clusterReference d s, cmTarget := clusterReference d t,
        cmMatched := ps, cmDifferences := concat (map networkDifferences ps), cmTargetOnly := tos,
        cmGaps := map (mapping_gap_of (Build_graph d) (crfContext (clusterReference d s))) so\<rparr>"
  have parts: "cmMatched c = ps" "map mgNetwork (cmGaps c) = so" "cmTargetOnly c = tos" "cmSource c = clusterReference d s"
    "cmTarget c = clusterReference d t"
    "map mgVMs (cmGaps c) = map (\<lambda>n. fst (attachedVMs (Build_graph d) n (crfContext (clusterReference d s)))) so"
    using judge_parts [of d "normalizeContexts contexts" ?c0] unfolding C by (simp_all add: comp_def)
  have "map mgVMs (cmGaps c) = map (\<lambda>x. fst (attachedVMs (Build_graph d) (mgNetwork x) (crfContext (clusterReference d s)))) (cmGaps c)"
    using parts(6) unfolding parts(2) [symmetric] by (simp add: comp_def)
  then have "\<forall>x \<in> set (cmGaps c). mgVMs x = fst (attachedVMs (Build_graph d) (mgNetwork x) (crfContext (cmSource c)))"
    unfolding parts(4) by simp
  with matchNetworks_correct [OF m] show ?thesis by (simp add: parts(1-5))
qed

theorem comparison_accounts_witness:
  "mset (map nmSource (cmMatched (Compare sample_site ''c'' ''c'' []))) +
     mset (map mgNetwork (cmGaps (Compare sample_site ''c'' ''c'' []))) =
   mset (reachableNetworks sample_site (cmSource (Compare sample_site ''c'' ''c'' [])))"
  using comparison_accounts [OF sample_resolves sample_resolves refl] by blast



text \<open>The separator of the composite keys is in none of a node's texts.\<close>

definition separable :: "node \<Rightarrow> bool" where
  "separable n \<longleftrightarrow> list_all (\<lambda>s. CHR 0x00 \<notin> set s) [ndKind n, ndContext n, ndName n, ndID n, ndPath n]"

lemma to_lower_join: "to_lower (str_join NUL xs) = str_join NUL (map to_lower xs)"
  by (induction NUL xs rule: str_join.induct) (simp_all add: NUL_def lower_char_def)

lemma sort_key_separable:
  assumes "nodeSortKey a = nodeSortKey b" and "separable a" and "separable b"
  shows "equal_fold (ndKind a) (ndKind b) \<and> to_lower (ndContext a) = to_lower (ndContext b) \<and>
    to_lower (ndName a) = to_lower (ndName b) \<and> to_lower (ndID a) = to_lower (ndID b)"
proof -
  let ?f = "\<lambda>n. map to_lower [ndKind n, ndContext n, ndName n, ndID n, ndPath n]"
  have "split_on (CHR 0x00) (str_join NUL (?f n)) = ?f n" if "separable n" for n
    unfolding NUL_def by (rule split_on_join) (use that in \<open>auto simp: separable_def to_lower_NUL\<close>)
  moreover have "str_join NUL (?f a) = str_join NUL (?f b)"
    using assms(1) unfolding nodeSortKey_def to_lower_join .
  ultimately have "?f a = ?f b" using assms(2,3) by metis
  then show ?thesis by (simp add: equal_fold_def)
qed

lemma attached_same_output:
  assumes "same_output x y" and "separable (evFrom x)" and "separable (evFrom y)"
  shows "attached_key x = attached_key y \<and> (equal_fold (ndKind (evFrom x)) KindVM \<longleftrightarrow> equal_fold (ndKind (evFrom y)) KindVM)"
  using sort_key_separable [OF _ assms(2,3)] assms(1)
  by (auto simp: same_output_def attached_key_def equal_fold_def)

text \<open>
  The virtual machines of a gap are exact: when the network's name resolves to one subject that the
  graph finds, and no text of a node has the separator of the keys in it, a virtual machine has an edge
  other than containment into a node of that subject just when its context, id and name (in any case) are
  those of a virtual machine that is listed.
\<close>

theorem attached_exact:
  assumes "Resolve_subjects g KindNetwork (nsName n) [ctx] = [s]" and "subjectIndex g s = Some si"
    and "to_vms = {e \<in> \<Union>x \<in> set (srNodes (grSubjects g ! si)). leads g True x.
      equal_fold (ndKind (rec_node g (geFrom e))) KindVM}"
    and "\<And>x e. x \<in> set (srNodes (grSubjects g ! si)) \<Longrightarrow> e \<in> leads g True x \<Longrightarrow> separable (rec_node g (geFrom e))"
  shows "(\<lambda>a. to_lower (avContext a @ NUL @ avID a @ NUL @ avName a)) ` set (fst (attachedVMs g n ctx)) =
    (\<lambda>e. attached_key (edgeValue g e)) ` to_vms"
proof -
  let ?vm = "\<lambda>e. equal_fold (ndKind (evFrom e)) KindVM"
  let ?es = "rtEdges (BlastRadius g s 1)"
  let ?in = "\<Union>x \<in> set (srNodes (grSubjects g ! si)). leads g True x"
  have ex: "set ?es \<subseteq> edgeValue g ` ?in" "\<forall>e \<in> ?in. \<exists>y \<in> set ?es. same_output y (edgeValue g e)"
    using traversal_one_step [OF assms(2), of True] by (simp_all add: BlastRadius_def)
  have sep: "separable (evFrom y)" if "y \<in> set ?es \<or> y \<in> edgeValue g ` ?in" for y
    using that ex(1) assms(4) unfolding edgeValue_def by fastforce
  have "fst (attachedVMs g n ctx) = sort_key (\<lambda>a. objectSortKey [avContext a, avName a, avID a])
      (map attached_of (first_by attached_key [] (filter ?vm ?es)))"
    by (simp add: attachedVMs_def assms(1) Let_def)
  then have "(\<lambda>a. to_lower (avContext a @ NUL @ avID a @ NUL @ avName a)) ` set (fst (attachedVMs g n ctx)) =
      attached_key ` set (first_by attached_key [] (filter ?vm ?es))"
    by (simp add: image_image attached_of_def attached_key_def)
  also have "\<dots> = attached_key ` {e \<in> set ?es. ?vm e}" unfolding set_first_by_key by simp
  also have "\<dots> = attached_key ` {e \<in> edgeValue g ` ?in. ?vm e}"
  proof
    show "attached_key ` {e \<in> set ?es. ?vm e} \<subseteq> attached_key ` {e \<in> edgeValue g ` ?in. ?vm e}" using ex(1) by blast
    show "attached_key ` {e \<in> edgeValue g ` ?in. ?vm e} \<subseteq> attached_key ` {e \<in> set ?es. ?vm e}"
    proof
      fix k assume "k \<in> attached_key ` {e \<in> edgeValue g ` ?in. ?vm e}"
      then obtain e where e: "e \<in> ?in" "?vm (edgeValue g e)" "k = attached_key (edgeValue g e)" by blast
      with ex(2) obtain y where y: "y \<in> set ?es" "same_output y (edgeValue g e)" by blast
      have "attached_key y = k \<and> ?vm y"
        using attached_same_output [OF y(2) sep sep] y(1) e by blast
      with y(1) show "k \<in> attached_key ` {e \<in> set ?es. ?vm e}" by blast
    qed
  qed
  also have "{e \<in> edgeValue g ` ?in. ?vm e} = edgeValue g ` to_vms"
    unfolding assms(3) by (auto simp: edgeValue_def)
  finally show ?thesis by (simp add: image_image)
qed

text \<open>A network with one virtual machine on it.\<close>

definition sample_segment :: graph where
  "sample_segment = sample_topology
     \<lparr>grRecords := [sample_node_record KindVM ''w'', sample_node_record KindNetwork ''n''],
      grEdges := [plain_edge 0 1 AttachedTo BasisName EdgeInferred []],
      grSubjects := [\<lparr>srSubject = sample_subject KindVM ''w'', srNodes = [0]\<rparr>,
        \<lparr>srSubject = sample_subject KindNetwork ''n'', srNodes = [1]\<rparr>]\<rparr>"

theorem attached_exact_witness:
  "(\<lambda>a. to_lower (avContext a @ NUL @ avID a @ NUL @ avName a)) `
     set (fst (attachedVMs sample_segment (sample_net ''n'' []) ''a'')) =
   (\<lambda>e. attached_key (edgeValue sample_segment e)) `
     {e \<in> \<Union>x \<in> {1}. leads sample_segment True x. equal_fold (ndKind (rec_node sample_segment (geFrom e))) KindVM}"
proof -
  have s: "Resolve_subjects sample_segment KindNetwork (nsName (sample_net ''n'' [])) [''a''] = [sample_subject KindNetwork ''n'']"
    and i: "subjectIndex sample_segment (sample_subject KindNetwork ''n'') = Some 1" by code_simp+
  have one: "set (srNodes (grSubjects sample_segment ! 1)) = {1}" by (simp add: sample_segment_def)
  have "leads sample_segment True 1 = {plain_edge 0 1 AttachedTo BasisName EdgeInferred []}"
    by (auto simp: leads_def adjacency_def sample_segment_def sample_topology_def plain_edge_def)
  moreover have "separable (rec_node sample_segment 0)" by code_simp
  ultimately have "separable (rec_node sample_segment (geFrom e))"
    if "x \<in> set (srNodes (grSubjects sample_segment ! 1))" "e \<in> leads sample_segment True x" for x e
    using that one by (auto simp: plain_edge_def)
  from attached_exact [OF s i refl this] show ?thesis unfolding one .
qed

end
