(* ===== verification/Query.thy ===== *)
theory Query
  imports Prelude
begin

text \<open>
  The predicate language of internal/query (query.go): parsing a predicate, the schema check, the match of
  a filter and its three-valued evaluation, and the subject made of a stored object. Floating point numbers
  are a type parameter with the operations the code uses; the table of fields that the code derives from the
  Go types by reflection, and the order in which it walks that Go map, are an argument.
\<close>

section \<open>Data\<close>

datatype value_kind = StringValue | NumberValue | BoolValue

text \<open>Go's \<open>float64\<close>: \<open>flShow\<close> is \<open>fmt.Sprint\<close>, \<open>flInt32\<close> the conversion \<open>int32(x)\<close>.\<close>

record 'f floats =
  flParse :: "string \<Rightarrow> 'f option"
  flShow :: "'f \<Rightarrow> string"
  flEq :: "'f \<Rightarrow> 'f \<Rightarrow> bool"
  flLess :: "'f \<Rightarrow> 'f \<Rightarrow> bool"
  flLessEq :: "'f \<Rightarrow> 'f \<Rightarrow> bool"
  flSub :: "'f \<Rightarrow> 'f \<Rightarrow> 'f"
  flDiv :: "'f \<Rightarrow> 'f \<Rightarrow> 'f"
  flMul :: "'f \<Rightarrow> 'f \<Rightarrow> 'f"
  flZero :: 'f
  flHundred :: 'f
  flInt32 :: "'f \<Rightarrow> int"

record 'f predicate =
  pdField :: string
  pdQualifier :: string
  pdOperator :: string
  pdValue :: string
  pdKind :: "value_kind option"
  pdNumeric :: "'f option"
  pdBoolean :: bool

type_synonym 'f filter = "'f predicate list"

text \<open>A decoded JSON value; numbers keep their text (\<open>UseNumber\<close>), \<open>JOther\<close> is an array or object by its \<open>fmt.Sprint\<close>.\<close>

datatype json =
    JNull | JBool bool | JNumber string | JString string | JArray "json list" string | JObject "(string \<times> json) list" string

datatype 'f field = FJson json | FFloat 'f

record tag =
  tgID :: string
  tgName :: string
  tgCategoryID :: string
  tgCategory :: string

record attribute =
  atKey :: int
  atName :: string
  atValue :: string

record 'f item =
  itKind :: string
  itFields :: "(string \<times> 'f field) list"
  itTags :: "tag list"
  itAttributes :: "attribute list"
  itTagsAvailable :: bool
  itCustomAvailable :: bool
  itTagsStatus :: string
  itCustomStatus :: string

text \<open>The table of fields: the kinds in the order the map is walked, and the kind of a field's values.\<close>

record schema =
  scKinds :: "string list"
  scField :: "string \<Rightarrow> string \<Rightarrow> value_kind option"

datatype query_error =
    EmptyExpression | InvalidExpression string | DidYouMeanNotEqual string | EmptyValue | QuoteMisplaced
  | UnterminatedQuote | InvalidEscape | TrailingEscape | CustomNeedsName | NeedsName string | TagOperators
  | UnknownField string | NeedsNumericField string | NotNumeric string | NotBoolean string

section \<open>Parsing a predicate\<close>

definition is_quote :: "char \<Rightarrow> bool" where
  "is_quote c \<longleftrightarrow> c = CHR 0x27 \<or> c = CHR 0x22"

fun unescape :: "char \<Rightarrow> bool \<Rightarrow> string \<Rightarrow> query_error + string" where
  "unescape q escaped [] = (if escaped then Inl TrailingEscape else Inr [])"
| "unescape q escaped (c # cs) =
     (if escaped then (if c \<noteq> q \<and> c \<noteq> CHR 0x5C then Inl InvalidEscape
        else (case unescape q False cs of Inl e \<Rightarrow> Inl e | Inr s \<Rightarrow> Inr (c # s)))
      else if c = CHR 0x5C then unescape q True cs
      else (case unescape q False cs of Inl e \<Rightarrow> Inl e | Inr s \<Rightarrow> Inr (c # s)))"

definition parseValue :: "string \<Rightarrow> query_error + string" where
  "parseValue raw =
     (let raw = trim_space raw
      in if raw = [] then Inl EmptyValue
         else if \<not> is_quote (hd raw) then (if list_ex is_quote raw then Inl QuoteMisplaced else Inr raw)
         else if length raw < 2 \<or> last raw \<noteq> hd raw then Inl UnterminatedQuote
         else unescape (hd raw) False (butlast (tl raw)))"

definition operators :: "string list" where
  "operators = [''<='', ''>='', ''!='', ''='', ''<'', ''>'']"

text \<open>The first operator: the leftmost, and among those the first of the list.\<close>

definition better_operator :: "string \<Rightarrow> string \<Rightarrow> (nat \<times> string) option \<Rightarrow> (nat \<times> string) option" where
  "better_operator e candidate best =
     (case str_index candidate e of
        None \<Rightarrow> best
      | Some i \<Rightarrow> (case best of None \<Rightarrow> Some (i, candidate) | Some (j, old) \<Rightarrow> if i < j then Some (i, candidate) else best))"

definition find_operator :: "string \<Rightarrow> (nat \<times> string) option" where
  "find_operator e = fold (better_operator e) operators None"

definition name_field :: "string \<Rightarrow> query_error + string \<times> string" where
  "name_field field =
     (let lower = to_lower field
      in if lower = ''tag'' then Inr (''tag'', [])
         else if has_prefix ''tag.'' lower then Inr (''tag'', drop 4 field)
         else if lower = ''custom'' then Inl CustomNeedsName
         else if has_prefix ''custom.'' lower then Inr (''custom'', drop 7 field)
         else Inr (lower, []))"

definition parseOne :: "string \<Rightarrow> query_error + 'f predicate" where
  "parseOne raw =
     (let e = trim_space raw
      in if e = [] then Inl EmptyExpression
         else (case find_operator e of
                 None \<Rightarrow> Inl (InvalidExpression e)
               | Some (position, operator) \<Rightarrow>
                   if position = 0 then Inl (InvalidExpression e)
                   else (let field = trim_space (take position e)
                         in if has_suffix ''!'' field \<and> operator = ''='' then Inl (DidYouMeanNotEqual e)
                            else (case parseValue (drop (position + length operator) e) of
                                    Inl x \<Rightarrow> Inl x
                                  | Inr v \<Rightarrow>
                                      (case name_field field of
                                         Inl x \<Rightarrow> Inl x
                                       | Inr (f, q) \<Rightarrow>
                                           if (f = ''tag'' \<or> f = ''custom'') \<and> str_contains ''.'' field \<and> trim_space q = []
                                           then Inl (NeedsName f)
                                           else if f = ''tag'' \<and> q = [] \<and> operator \<noteq> ''='' \<and> operator \<noteq> ''!=''
                                           then Inl TagOperators
                                           else Inr \<lparr>pdField = f, pdQualifier = q, pdOperator = operator, pdValue = v,
                                                  pdKind = None, pdNumeric = None, pdBoolean = False\<rparr>)))))"

section \<open>Checking it against the schema\<close>

definition field_kind :: "schema \<Rightarrow> string list \<Rightarrow> string \<Rightarrow> value_kind option" where
  "field_kind sch allowed f = (case find (\<lambda>k. scField sch k f \<noteq> None) allowed of None \<Rightarrow> None | Some k \<Rightarrow> scField sch k f)"

text \<open>\<open>strconv.ParseBool\<close> on a text in lower case.\<close>

definition parse_bool :: "string \<Rightarrow> bool option" where
  "parse_bool s = (if s \<in> {''1'', ''t'', ''true''} then Some True else if s \<in> {''0'', ''f'', ''false''} then Some False else None)"

definition check_predicate :: "'f floats \<Rightarrow> schema \<Rightarrow> string list \<Rightarrow> 'f predicate \<Rightarrow> query_error + 'f predicate" where
  "check_predicate fl sch allowed p =
     (let kind = (if pdField p \<noteq> ''tag'' \<and> pdField p \<noteq> ''custom'' then field_kind sch allowed (pdField p) else Some StringValue)
      in case kind of
           None \<Rightarrow> Inl (UnknownField (pdField p))
         | Some k \<Rightarrow>
             (let p = p\<lparr>pdKind := Some k\<rparr>
              in if pdOperator p \<noteq> ''='' \<and> pdOperator p \<noteq> ''!='' \<and> k \<noteq> NumberValue then Inl (NeedsNumericField (pdOperator p))
                 else (case k of
                         NumberValue \<Rightarrow>
                           (case flParse fl (pdValue p) of None \<Rightarrow> Inl (NotNumeric (pdValue p)) | Some n \<Rightarrow> Inr (p\<lparr>pdNumeric := Some n\<rparr>))
                       | BoolValue \<Rightarrow>
                           (case parse_bool (to_lower (pdValue p)) of None \<Rightarrow> Inl (NotBoolean (pdValue p)) | Some b \<Rightarrow> Inr (p\<lparr>pdBoolean := b\<rparr>))
                       | StringValue \<Rightarrow> Inr p)))"

fun parse_all :: "'f floats \<Rightarrow> schema \<Rightarrow> string list \<Rightarrow> string list \<Rightarrow> query_error + 'f filter" where
  "parse_all fl sch allowed [] = Inr []"
| "parse_all fl sch allowed (e # es) =
     (case parseOne e of
        Inl x \<Rightarrow> Inl x
      | Inr p \<Rightarrow>
          (case check_predicate fl sch allowed p of
             Inl x \<Rightarrow> Inl x
           | Inr p \<Rightarrow> (case parse_all fl sch allowed es of Inl x \<Rightarrow> Inl x | Inr ps \<Rightarrow> Inr (p # ps))))"

definition Parse :: "'f floats \<Rightarrow> schema \<Rightarrow> string list \<Rightarrow> string list \<Rightarrow> query_error + 'f filter" where
  "Parse fl sch expressions kinds =
     (if expressions = [] then Inr []
      else parse_all fl sch (if kinds = [] then scKinds sch else kinds) expressions)"

definition predicate_string :: "'f predicate \<Rightarrow> string" where
  "predicate_string p =
     (if pdQualifier p \<noteq> [] then pdField p @ ''.'' @ pdQualifier p else pdField p) @ pdOperator p @ pdValue p"

definition KnownField :: "schema \<Rightarrow> string \<Rightarrow> string list \<Rightarrow> bool" where
  "KnownField sch field kinds =
     list_ex (\<lambda>k. scField sch k (to_lower field) \<noteq> None) (if kinds = [] then scKinds sch else kinds)"

section \<open>Matching\<close>

definition sprint :: "'f floats \<Rightarrow> 'f field \<Rightarrow> string" where
  "sprint fl v =
     (case v of
        FFloat x \<Rightarrow> flShow fl x
      | FJson j \<Rightarrow> (case j of JNull \<Rightarrow> ''<nil>'' | JBool b \<Rightarrow> (if b then ''true'' else ''false'') | JNumber s \<Rightarrow> s
          | JString s \<Rightarrow> s | JArray _ s \<Rightarrow> s | JObject _ s \<Rightarrow> s))"

definition field_number :: "'f floats \<Rightarrow> 'f field \<Rightarrow> 'f option" where
  "field_number fl v = (case v of FFloat x \<Rightarrow> Some x | FJson (JNumber s) \<Rightarrow> flParse fl s | _ \<Rightarrow> None)"

definition compare_numbers :: "'f floats \<Rightarrow> string \<Rightarrow> 'f \<Rightarrow> 'f \<Rightarrow> bool" where
  "compare_numbers fl op n m =
     (if op = ''='' then flEq fl n m
      else if op = ''!='' then \<not> flEq fl n m
      else if op = ''<'' then flLess fl n m
      else if op = ''<='' then flLessEq fl n m
      else if op = ''>'' then flLess fl m n
      else if op = ''>='' then flLessEq fl m n
      else False)"

definition match_tag :: "'f predicate \<Rightarrow> tag list \<Rightarrow> bool" where
  "match_tag p ts \<longleftrightarrow>
     (list_ex (\<lambda>t. tgName t = pdValue p \<and> (pdQualifier p = [] \<or> tgCategory t = pdQualifier p)) ts) = (pdOperator p = ''='')"

definition names_attribute :: "'f predicate \<Rightarrow> attribute \<Rightarrow> bool" where
  "names_attribute p a \<longleftrightarrow> pdQualifier p = ''#'' @ itoa (atKey a) \<or> (pdQualifier p \<noteq> [] \<and> atName a = pdQualifier p)"

definition match_custom :: "'f predicate \<Rightarrow> attribute list \<Rightarrow> bool" where
  "match_custom p as =
     (case find (names_attribute p) as of
        None \<Rightarrow> False
      | Some a \<Rightarrow> if pdOperator p = ''!='' then atValue a \<noteq> pdValue p else atValue a = pdValue p)"

definition match_field :: "'f floats \<Rightarrow> 'f predicate \<Rightarrow> 'f field \<Rightarrow> bool" where
  "match_field fl p v =
     (case pdKind p of
        Some NumberValue \<Rightarrow>
          (case (field_number fl v, pdNumeric p) of
             (Some n, m) \<Rightarrow> compare_numbers fl (pdOperator p) n (case m of Some m \<Rightarrow> m | None \<Rightarrow> flZero fl)
           | (None, _) \<Rightarrow> False)
      | Some BoolValue \<Rightarrow>
          (case v of FJson (JBool b) \<Rightarrow> (if pdOperator p = ''!='' then b \<noteq> pdBoolean p else b = pdBoolean p) | _ \<Rightarrow> False)
      | _ \<Rightarrow> (if pdOperator p = ''!='' then sprint fl v \<noteq> pdValue p else sprint fl v = pdValue p))"

definition matchPredicate :: "'f floats \<Rightarrow> 'f predicate \<Rightarrow> 'f item \<Rightarrow> bool" where
  "matchPredicate fl p s =
     (if pdField p = ''tag'' then itTagsAvailable s \<and> match_tag p (itTags s)
      else if pdField p = ''custom'' then itCustomAvailable s \<and> match_custom p (itAttributes s)
      else (case map_of (itFields s) (pdField p) of
              None \<Rightarrow> False
            | Some v \<Rightarrow> v \<noteq> FJson JNull \<and> match_field fl p v))"

definition filter_Match :: "'f floats \<Rightarrow> 'f filter \<Rightarrow> 'f item \<Rightarrow> bool" where
  "filter_Match fl ps s \<longleftrightarrow> list_all (\<lambda>p. matchPredicate fl p s) ps"

datatype outcome = NoMatch | Matched | Undetermined

definition unreadableSource :: "'f predicate \<Rightarrow> 'f item \<Rightarrow> string option" where
  "unreadableSource p s =
     (if pdField p = ''tag'' \<and> \<not> itTagsAvailable s then Some ''tags''
      else if pdField p = ''custom'' \<and> \<not> itCustomAvailable s then Some ''custom''
      else None)"

fun evaluate_loop :: "'f floats \<Rightarrow> 'f item \<Rightarrow> string list \<Rightarrow> 'f filter \<Rightarrow> outcome \<times> string list" where
  "evaluate_loop fl s unknown [] = (if unknown \<noteq> [] then (Undetermined, unknown) else (Matched, []))"
| "evaluate_loop fl s unknown (p # ps) =
     (case unreadableSource p s of
        Some source \<Rightarrow> evaluate_loop fl s (if source \<in> set unknown then unknown else unknown @ [source]) ps
      | None \<Rightarrow> if matchPredicate fl p s then evaluate_loop fl s unknown ps else (NoMatch, []))"

definition Evaluate :: "'f floats \<Rightarrow> 'f filter \<Rightarrow> 'f item \<Rightarrow> outcome \<times> string list" where
  "Evaluate fl ps s = evaluate_loop fl s [] ps"

section \<open>The subject of a stored object\<close>

definition MetadataStatus :: "string \<Rightarrow> string" where
  "MetadataStatus s = (if s = [] then ''not_recorded'' else s)"

definition metaString :: "(string \<times> json) list \<Rightarrow> string \<Rightarrow> string" where
  "metaString m key = (case map_of m key of Some (JString s) \<Rightarrow> s | _ \<Rightarrow> [])"

definition tag_of :: "(string \<times> json) list \<Rightarrow> tag" where
  "tag_of b = \<lparr>tgID = metaString b ''id'', tgName = metaString b ''name'', tgCategoryID = metaString b ''category_id'',
     tgCategory = metaString b ''category''\<rparr>"

definition attribute_of :: "'f floats \<Rightarrow> (string \<times> json) list \<Rightarrow> attribute" where
  "attribute_of fl b =
     \<lparr>atKey = (case Option.bind (map_of b ''key'') (\<lambda>j. field_number fl (FJson j)) of None \<Rightarrow> flInt32 fl (flZero fl) | Some x \<Rightarrow> flInt32 fl x),
      atName = metaString b ''name'', atValue = metaString b ''value''\<rparr>"

definition objects_of :: "(string \<times> json) list \<Rightarrow> string \<Rightarrow> (string \<times> json) list list" where
  "objects_of m key =
     (case map_of m key of
        Some (JArray vs _) \<Rightarrow> List.map_filter (\<lambda>v. case v of JObject b _ \<Rightarrow> Some b | _ \<Rightarrow> None) vs
      | _ \<Rightarrow> [])"

definition set_field :: "string \<Rightarrow> 'f field \<Rightarrow> (string \<times> 'f field) list \<Rightarrow> (string \<times> 'f field) list" where
  "set_field k v fs = (k, v) # fs"

definition percent_fields :: "'f floats \<Rightarrow> (string \<times> 'f field) list \<Rightarrow> (string \<times> 'f field) list" where
  "percent_fields fl fs =
     (case (Option.bind (map_of fs ''capacity_bytes'') (field_number fl), Option.bind (map_of fs ''free_bytes'') (field_number fl)) of
        (Some capacity, Some free) \<Rightarrow>
          if flLess fl (flZero fl) capacity
          then set_field ''used_percent'' (FFloat (flMul fl (flDiv fl (flSub fl capacity free) capacity) (flHundred fl)))
                 (set_field ''free_percent'' (FFloat (flMul fl (flDiv fl free capacity) (flHundred fl))) fs)
          else fs
      | _ \<Rightarrow> fs)"

datatype item_error = NotAnObject | NilMapPanic

text \<open>The argument is the decoded payload. The text \<open>null\<close> decodes to a nil map, and a write to it panics.\<close>

definition SubjectFromJSON :: "'f floats \<Rightarrow> string \<Rightarrow> json \<Rightarrow> item_error + 'f item" where
  "SubjectFromJSON fl kind raw =
     (case raw of
        JNull \<Rightarrow> Inl NilMapPanic
      | JObject ms _ \<Rightarrow>
          (let fs = map (\<lambda>p. (fst p, FJson (snd p))) ms;
               fs = (if kind = ''datastore'' then percent_fields fl fs else fs);
               fs = (if map_of fs ''kind'' = None then set_field ''kind'' (FJson (JString kind)) fs else fs);
               meta = (case map_of ms ''metadata'' of Some (JObject b _) \<Rightarrow> b | _ \<Rightarrow> []);
               ts = MetadataStatus (metaString meta ''tags_status''); cs = MetadataStatus (metaString meta ''custom_attributes_status'')
           in Inr \<lparr>itKind = kind, itFields = fs, itTags = map tag_of (objects_of meta ''tags''),
                itAttributes = map (attribute_of fl) (objects_of meta ''custom_attributes''), itTagsAvailable = (ts = ''available''),
                itCustomAvailable = (cs = ''available''), itTagsStatus = ts, itCustomStatus = cs\<rparr>)
      | _ \<Rightarrow> Inl NotAnObject)"

section \<open>Lemmas on the evaluation\<close>

lemma unreadable_not_matched: "unreadableSource p s \<noteq> None \<Longrightarrow> \<not> matchPredicate fl p s"
  by (auto simp: unreadableSource_def matchPredicate_def split: if_splits)

lemma evaluate_loop_cases:
  "evaluate_loop fl s unknown ps =
     (if list_ex (\<lambda>p. unreadableSource p s = None \<and> \<not> matchPredicate fl p s) ps then (NoMatch, [])
      else let us = fold (\<lambda>x us. if x \<in> set us then us else us @ [x]) (List.map_filter (\<lambda>p. unreadableSource p s) ps) unknown
           in if us \<noteq> [] then (Undetermined, us) else (Matched, []))"
proof (induction ps arbitrary: unknown)
  case (Cons p ps)
  then show ?case by (cases "unreadableSource p s") (auto simp: Let_def map_filter_simps)
qed (simp add: map_filter_simps)

lemma fold_seen: "set (fold (\<lambda>x us. if x \<in> set us then us else us @ [x]) xs us) = set us \<union> set xs"
  by (induction xs arbitrary: us) auto

lemma distinct_fold_seen: "distinct us \<Longrightarrow> distinct (fold (\<lambda>x us. if x \<in> set us then us else us @ [x]) xs us)"
  by (induction xs arbitrary: us) auto

lemma set_sources: "set (List.map_filter (\<lambda>p. unreadableSource p s) ps) = {x. \<exists>p \<in> set ps. unreadableSource p s = Some x}"
  by (force simp: List.map_filter_def)

lemma Evaluate_NoMatch:
  "fst (Evaluate fl ps s) = NoMatch \<longleftrightarrow> (\<exists>p \<in> set ps. unreadableSource p s = None \<and> \<not> matchPredicate fl p s)"
  by (auto simp: Evaluate_def evaluate_loop_cases Let_def list_ex_iff)

lemma Evaluate_Matched:
  "fst (Evaluate fl ps s) = Matched \<longleftrightarrow> (\<forall>p \<in> set ps. unreadableSource p s = None \<and> matchPredicate fl p s)"
proof -
  have "fold (\<lambda>x us. if x \<in> set us then us else us @ [x]) xs [] = [] \<longleftrightarrow> xs = []" for xs :: "string list"
    by (simp only: set_empty [symmetric] fold_seen) simp
  moreover have "List.map_filter (\<lambda>p. unreadableSource p s) ps = [] \<longleftrightarrow> (\<forall>p \<in> set ps. unreadableSource p s = None)"
    by (auto simp: List.map_filter_def filter_empty_conv)
  ultimately have "fst (Evaluate fl ps s) = Matched \<longleftrightarrow>
      \<not> list_ex (\<lambda>p. unreadableSource p s = None \<and> \<not> matchPredicate fl p s) ps \<and> (\<forall>p \<in> set ps. unreadableSource p s = None)"
    by (simp add: Evaluate_def evaluate_loop_cases Let_def)
  then show ?thesis by (auto simp: list_ex_iff)
qed

text \<open>\<open>reveals s s'\<close>: the same object, where sources that \<open>s\<close> could not read may have been read.\<close>

definition reveals :: "'f item \<Rightarrow> 'f item \<Rightarrow> bool" where
  "reveals s s' \<longleftrightarrow> itFields s' = itFields s \<and>
     (itTagsAvailable s \<longrightarrow> itTagsAvailable s' \<and> itTags s' = itTags s) \<and>
     (itCustomAvailable s \<longrightarrow> itCustomAvailable s' \<and> itAttributes s' = itAttributes s)"

lemma reveals_readable:
  "reveals s s' \<Longrightarrow> unreadableSource p s = None \<Longrightarrow> matchPredicate fl p s' \<longleftrightarrow> matchPredicate fl p s"
  by (auto simp: reveals_def unreadableSource_def matchPredicate_def split: if_splits)

section \<open>Properties of the evaluation\<close>

text \<open>
  C14: The three-valued evaluation is sound for what could not be read: an object excluded stays excluded and an
  object matched stays matched whatever its unread tags and attributes turn out to be; the outcome is matched
  exactly when the plain match says so; and it is undetermined exactly when no readable predicate is false and
  some predicate needs an unreadable source, which are then listed once each.
\<close>

theorem evaluation_sound:
  assumes "Evaluate fl ps s = (result, sources)" and "reveals s s'"
  shows "(result = NoMatch \<longrightarrow> \<not> filter_Match fl ps s') \<and> (result = Matched \<longrightarrow> filter_Match fl ps s') \<and>
    (filter_Match fl ps s \<longleftrightarrow> result = Matched) \<and> distinct sources \<and>
    (result = Undetermined \<longleftrightarrow> sources \<noteq> []) \<and>
    set sources = (if result = Undetermined then {x. \<exists>p \<in> set ps. unreadableSource p s = Some x} else {})"
proof -
  note r = reveals_readable [OF assms(2)]
  have res: "result = fst (Evaluate fl ps s)" "sources = snd (Evaluate fl ps s)" using assms(1) by simp_all
  have "result = NoMatch \<longrightarrow> \<not> filter_Match fl ps s'" "result = Matched \<longrightarrow> filter_Match fl ps s'"
    unfolding res Evaluate_NoMatch Evaluate_Matched filter_Match_def list_all_iff using r by blast+
  moreover have "filter_Match fl ps s \<longleftrightarrow> result = Matched"
    unfolding res Evaluate_Matched filter_Match_def list_all_iff using unreadable_not_matched by blast
  moreover have "distinct sources" "result = Undetermined \<longleftrightarrow> sources \<noteq> []"
    "set sources = (if result = Undetermined then {x. \<exists>p \<in> set ps. unreadableSource p s = Some x} else {})"
    unfolding res Evaluate_def evaluate_loop_cases Let_def
    using distinct_fold_seen [of "[]"] by (auto simp: fold_seen set_sources)
  ultimately show ?thesis by blast
qed

text \<open>Whole numbers as floating point numbers, enough for a witness.\<close>

definition whole :: "int floats" where
  "whole = \<lparr>flParse = atoi, flShow = itoa, flEq = (=), flLess = (<), flLessEq = (\<le>), flSub = (-), flDiv = (div), flMul = (*),
     flZero = 0, flHundred = 100, flInt32 = id\<rparr>"

definition sample_item :: "int item" where
  "sample_item = \<lparr>itKind = ''vm'', itFields = [(''cpu'', FFloat 4)], itTags = [], itAttributes = [], itTagsAvailable = False,
     itCustomAvailable = True, itTagsStatus = ''error'', itCustomStatus = ''available''\<rparr>"

definition sample_schema :: schema where
  "sample_schema = \<lparr>scKinds = [''vm''], scField = (\<lambda>k f. if f = ''cpu'' then Some NumberValue else None)\<rparr>"

definition tag_predicate :: "int predicate" where
  "tag_predicate = \<lparr>pdField = ''tag'', pdQualifier = ''env'', pdOperator = ''='', pdValue = ''prod'', pdKind = Some StringValue,
     pdNumeric = None, pdBoolean = False\<rparr>"

definition cpu_predicate :: "int predicate" where
  "cpu_predicate = \<lparr>pdField = ''cpu'', pdQualifier = [], pdOperator = ''>='', pdValue = ''8'', pdKind = Some NumberValue,
     pdNumeric = Some 8, pdBoolean = False\<rparr>"

theorem evaluation_sound_witness:
  "\<not> filter_Match whole [tag_predicate, cpu_predicate] (sample_item\<lparr>itTagsAvailable := True, itTags := [tag_of []]\<rparr>)"
proof -
  have "Evaluate whole [tag_predicate, cpu_predicate] sample_item = (NoMatch, [])" by code_simp
  moreover have "reveals sample_item (sample_item\<lparr>itTagsAvailable := True, itTags := [tag_of []]\<rparr>)"
    by (simp add: reveals_def sample_item_def)
  ultimately show ?thesis using evaluation_sound by blast
qed

section \<open>Printing and parsing\<close>

lemma str_index_prefix: "str_index sub s = Some i \<Longrightarrow> has_prefix sub (drop i s)"
proof -
  assume i: "str_index sub s = Some i"
  then have "i \<le> length s" using str_index_less by fastforce
  then have "drop i s = sub @ drop (i + length sub) s"
    using arg_cong [OF str_index_split [OF i], of "drop i"] by simp
  then show ?thesis by (metis has_prefix_append)
qed

lemma has_prefix_str_index: "has_prefix sub (drop i s) \<Longrightarrow> \<exists>k \<le> i. str_index sub s = Some k"
proof (induction s arbitrary: i)
  case (Cons c cs)
  show ?case
  proof (cases "has_prefix sub (c # cs)")
    case False
    with Cons.prems obtain j where j: "i = Suc j" by (cases i) auto
    with Cons have "\<exists>k \<le> j. str_index sub cs = Some k" by simp
    with False j show ?thesis by auto
  qed auto
qed (cases sub; simp)

lemma find_append: "find P (xs @ ys) = (case find P xs of None \<Rightarrow> find P ys | Some x \<Rightarrow> Some x)"
  by (induction xs) auto

lemma fold_better:
  "(fold (better_operator e) os None = None \<longleftrightarrow> (\<forall>x \<in> set os. str_index x e = None)) \<and>
   (\<forall>i x. fold (better_operator e) os None = Some (i, x) \<longrightarrow> str_index x e = Some i \<and>
     (\<forall>y \<in> set os. \<forall>j. str_index y e = Some j \<longrightarrow> i \<le> j) \<and> find (\<lambda>y. str_index y e = Some i) os = Some x)"
proof (induction os rule: rev_induct)
  case (snoc y os)
  show ?case
  proof (cases "str_index y e")
    case None
    then show ?thesis using snoc by (auto simp: better_operator_def find_append)
  next
    case (Some j)
    show ?thesis
    proof (cases "fold (better_operator e) os None")
      case None
      then have "find (\<lambda>y. str_index y e = Some j) os = None" using snoc by (auto simp: find_None_iff)
      then show ?thesis using None snoc Some by (auto simp: better_operator_def find_append)
    next
      case (Some b)
      obtain k x where b: "b = (k, x)" by fastforce
      note s = snoc [THEN conjunct2, rule_format, OF Some [unfolded b]]
      have "find (\<lambda>y. str_index y e = Some j) os = None" if "j < k" using s that by (force simp: find_None_iff)
      moreover have "fold (better_operator e) (os @ [y]) None = (if j < k then Some (j, y) else Some (k, x))"
        using Some b \<open>str_index y e = Some j\<close> by (simp add: better_operator_def [of e y])
      moreover have "\<forall>z \<in> set os. \<forall>l. str_index z e = Some l \<longrightarrow> j \<le> l" if "j < k"
        using s that by (meson le_trans less_imp_le)
      ultimately show ?thesis using s \<open>str_index y e = Some j\<close> by (cases "j < k") (simp_all add: find_append)
    qed
  qed
qed simp

definition operator_chars :: "char set" where
  "operator_chars = {CHR ''<'', CHR ''>'', CHR ''=''}"

lemma operators_set: "set operators = {''<='', ''>='', ''!='', ''='', ''<'', ''>''}"
  by (simp add: operators_def)

lemma find_operator_Some:
  assumes "find_operator e = Some (i, op)"
  shows "op \<in> set operators" and "has_prefix op (drop i e)" and "operator_chars \<inter> set (take i e) = {}"
proof -
  have f: "str_index op e = Some i" "\<forall>y \<in> set operators. \<forall>j. str_index y e = Some j \<longrightarrow> i \<le> j"
    "find (\<lambda>y. str_index y e = Some i) operators = Some op"
    using fold_better [of e operators] assms unfolding find_operator_def by blast+
  show "op \<in> set operators" using f(3) by (auto simp: find_Some_iff)
  show "has_prefix op (drop i e)" by (rule str_index_prefix [OF f(1)])
  have "c \<notin> set (take i e)" if "[c] \<in> set operators" for c
  proof
    assume "c \<in> set (take i e)"
    then obtain k where k: "k < i" "k < length e" "e ! k = c" by (auto simp: in_set_conv_nth)
    then have "has_prefix [c] (drop k e)" by (simp add: Cons_nth_drop_Suc [symmetric])
    then obtain j where "j \<le> k" "str_index [c] e = Some j" using has_prefix_str_index by blast
    with f(2) that k(1) show False by fastforce
  qed
  then show "operator_chars \<inter> set (take i e) = {}" by (auto simp: operator_chars_def operators_set)
qed

lemma no_operator_before:
  assumes "operator_chars \<inter> set F = {}" and "\<not> (has_suffix ''!'' F \<and> op = ''='')" and "op \<in> set operators"
    and "x \<in> set operators" and "has_prefix x (drop j (F @ op @ V))"
  shows "length F \<le> j"
proof (rule ccontr)
  assume "\<not> length F \<le> j"
  then have j: "j < length F" by simp
  then have d: "drop j (F @ op @ V) = F ! j # drop (Suc j) F @ op @ V" by (simp add: Cons_nth_drop_Suc [symmetric])
  have Fj: "F ! j \<notin> operator_chars" using assms(1) j nth_mem by blast
  with assms(4,5) d have x: "x = ''!=''" "F ! j = CHR ''!''" by (auto simp: operators_set operator_chars_def)
  show False
  proof (cases "Suc j < length F")
    case True
    then have "drop (Suc j) F = F ! Suc j # drop (Suc (Suc j)) F" by (simp add: Cons_nth_drop_Suc)
    then have "F ! Suc j = CHR ''=''" using assms(5) d x by simp
    then show False using assms(1) True nth_mem by (fastforce simp: operator_chars_def)
  next
    case False
    then have l: "Suc j = length F" using j by simp
    then have F: "F = butlast F @ [CHR ''!'']" using x(2) by (metis append_butlast_last_id diff_Suc_1 last_conv_nth length_0_conv nat.distinct(1))
    have "has_suffix ''!'' F" by (subst F) (simp add: has_suffix_def)
    moreover have "op = ''=''" using assms(3,5) d x l by (auto simp: operators_set)
    ultimately show False using assms(2) by blast
  qed
qed

lemma two_chars_first:
  "find P operators = Some x \<Longrightarrow> P y \<Longrightarrow> y \<in> {''<='', ''>='', ''!=''} \<Longrightarrow> x \<in> {''<='', ''>='', ''!=''}"
  by (auto simp: operators_def split: if_splits)

lemma find_operator_print:
  assumes "operator_chars \<inter> set F = {}" and "\<not> (has_suffix ''!'' F \<and> op = ''='')" and "op \<in> set operators"
    and "op \<in> {''<'', ''>''} \<longrightarrow> \<not> has_prefix ''='' V"
  shows "find_operator (F @ op @ V) = Some (length F, op)"
proof -
  let ?e = "F @ op @ V"
  note before = no_operator_before [OF assms(1-3), of _ _ V]
  have "has_prefix op (drop (length F) ?e)" by simp
  then have op: "str_index op ?e = Some (length F)"
    using has_prefix_str_index before [OF assms(3)] str_index_prefix by (metis le_antisym)
  then obtain i x where f: "find_operator ?e = Some (i, x)"
    using fold_better [of ?e operators] assms(3) unfolding find_operator_def by (metis option.distinct(1) option.exhaust prod.exhaust)
  then have m: "str_index x ?e = Some i" "\<forall>y \<in> set operators. \<forall>j. str_index y ?e = Some j \<longrightarrow> i \<le> j"
    "find (\<lambda>y. str_index y ?e = Some i) operators = Some x"
    using fold_better [of ?e operators] unfolding find_operator_def by blast+
  have "i = length F"
    using m op assms(3) before [OF find_operator_Some(1) [OF f] find_operator_Some(2) [OF f]] by (meson le_antisym)
  moreover have "x = op"
  proof (rule ccontr)
    assume ne: "x \<noteq> op"
    have px: "has_prefix x (op @ V)" using find_operator_Some(2) [OF f] \<open>i = length F\<close> by simp
    have "op \<in> {''<='', ''>='', ''!=''} \<and> x \<in> {''='', ''<'', ''>''}"
      using find_operator_Some(1) [OF f] assms(3) ne px assms(4) unfolding operators_set by (elim insertE emptyE) simp_all
    moreover have "x \<in> {''<='', ''>='', ''!=''}" if "op \<in> {''<='', ''>='', ''!=''}"
      by (rule two_chars_first [OF m(3) _ that]) (simp add: op \<open>i = length F\<close>)
    ultimately show False by auto
  qed
  ultimately show ?thesis using f by simp
qed

lemma is_space_lower: "is_space (lower_char c) \<longleftrightarrow> is_space c"
proof (cases "65 \<le> (of_char c :: nat) \<and> of_char c \<le> (90 :: nat)")
  case True
  have n: "\<not> is_space d" if "33 \<le> (of_char d :: nat)" for d using that by (auto simp: is_space_def)
  have "(of_char (lower_char c) :: nat) = of_char c + 32" using True by (simp add: lower_char_def)
  then show ?thesis using True n [of c] n [of "lower_char c"] by simp
qed (auto simp: lower_char_def)

lemma lower_char_fixed: "(of_char d :: nat) < 65 \<Longrightarrow> lower_char c = d \<longleftrightarrow> c = d"
proof (cases "65 \<le> (of_char c :: nat) \<and> of_char c \<le> (90 :: nat)")
  case True
  then have "(of_char (lower_char c) :: nat) = of_char c + 32" by (simp add: lower_char_def)
  with True show "(of_char d :: nat) < 65 \<Longrightarrow> lower_char c = d \<longleftrightarrow> c = d" by auto
qed (auto simp: lower_char_def)

lemma lower_char_operator: "lower_char c \<in> operator_chars \<longleftrightarrow> c \<in> operator_chars" "lower_char c = CHR ''!'' \<longleftrightarrow> c = CHR ''!''"
  by (simp_all add: operator_chars_def lower_char_fixed)

text \<open>
  \<open>name_text f q\<close> is the field as \<open>predicate_string\<close> writes it, and it names the same field; \<open>same_shape\<close> is
  what it keeps of the field as written.
\<close>

definition name_text :: "string \<Rightarrow> string \<Rightarrow> string" where
  "name_text f q = (if q \<noteq> [] then f @ ''.'' @ q else f)"

definition same_shape :: "string \<Rightarrow> string \<Rightarrow> bool" where
  "same_shape a b \<longleftrightarrow> a \<noteq> [] \<and> is_space (hd b) = is_space (hd a) \<and> is_space (last b) = is_space (last a) \<and>
     (has_suffix ''!'' b \<longleftrightarrow> has_suffix ''!'' a) \<and> (operator_chars \<inter> set b = {} \<longleftrightarrow> operator_chars \<inter> set a = {}) \<and> b \<noteq> []"

lemma suffix_last: "s \<noteq> [] \<Longrightarrow> has_suffix [c] s \<longleftrightarrow> last s = c"
  by (cases s rule: rev_cases) (auto simp: has_suffix_def)

lemma same_shape_lower: "s \<noteq> [] \<Longrightarrow> same_shape s (to_lower s)"
proof -
  assume s: "s \<noteq> []"
  then have l: "to_lower s \<noteq> []" "hd (to_lower s) = lower_char (hd s)" "last (to_lower s) = lower_char (last s)"
    by (simp_all add: to_lower_def hd_map last_map)
  have "operator_chars \<inter> set (to_lower s) = {} \<longleftrightarrow> operator_chars \<inter> set s = {}"
    using lower_char_operator(1) by (fastforce simp: to_lower_def)
  then show ?thesis using s l suffix_last [OF s] suffix_last [OF l(1)] by (simp add: same_shape_def is_space_lower lower_char_operator)
qed

lemma dotted_name:
  assumes p: "has_prefix (n @ ''.'') (to_lower s)" and n: "n \<in> {''tag'', ''custom''}" and k: "k = length n + 1"
    and q: "trim_space (drop k s) \<noteq> []"
  shows "same_shape s (n @ ''.'' @ drop k s) \<and> to_lower (n @ ''.'' @ drop k s) = to_lower s"
proof -
  let ?q = "drop k s" and ?w = "n @ ''.'' @ drop k s"
  from q have q0: "?q \<noteq> []" by auto
  then have s0: "s \<noteq> []" and len: "k < length s" by auto
  have tk: "to_lower (take k s) = n @ ''.''"
    using p len k by (auto simp: has_prefix_iff to_lower_def take_map [symmetric])
  moreover have "to_lower s = to_lower (take k s) @ to_lower ?q"
    using arg_cong [OF append_take_drop_id [of k s, symmetric], of to_lower] by (simp only: to_lower_simps)
  moreover have "to_lower (n @ ''.'') = n @ ''.''" using n by (auto simp: to_lower_def lower_char_def)
  ultimately have low: "to_lower ?w = to_lower s" by (simp only: append_assoc [symmetric] to_lower_simps)
  have "lower_char (hd s) = hd n" using tk len n k by (cases s) (auto simp: to_lower_def)
  moreover have "hd ?w = hd n" "?w \<noteq> []" using n by auto
  ultimately have hd: "is_space (hd ?w) = is_space (hd s)" using is_space_lower by metis
  have last: "last ?w = last s" using q0 by simp
  have suf: "has_suffix ''!'' ?w \<longleftrightarrow> has_suffix ''!'' s"
    using suffix_last [OF s0] suffix_last [OF \<open>?w \<noteq> []\<close>] last by (simp only:)
  have "operator_chars \<inter> set ?w = {} \<longleftrightarrow> operator_chars \<inter> set s = {}"
    using same_shape_lower [OF s0] same_shape_lower [OF \<open>?w \<noteq> []\<close>] unfolding low same_shape_def by blast
  with hd last suf s0 \<open>?w \<noteq> []\<close> low show ?thesis unfolding same_shape_def by metis
qed

lemma name_field_print:
  assumes "name_field s = Inr (f, q)" and "s \<noteq> []"
    and "\<not> ((f = ''tag'' \<or> f = ''custom'') \<and> str_contains ''.'' s \<and> trim_space q = [])"
  shows "same_shape s (name_text f q) \<and> name_field (name_text f q) = Inr (f, q) \<and>
    \<not> ((f = ''tag'' \<or> f = ''custom'') \<and> str_contains ''.'' (name_text f q) \<and> trim_space q = [])"
proof -
  let ?l = "to_lower s"
  have dot: "str_contains ''.'' s" if "has_prefix (n @ ''.'') ?l" for n
  proof -
    have "CHR ''.'' \<in> set ?l" using that by (auto simp: has_prefix_iff)
    then obtain c where c: "c \<in> set s" "lower_char c = CHR ''.''" unfolding to_lower_def set_map by (metis imageE)
    then have "CHR ''.'' \<in> set s" by (simp add: lower_char_fixed)
    then show ?thesis by (simp add: str_contains_def str_index_char_None)
  qed
  consider "?l = ''tag''" | "has_prefix ''tag.'' ?l" | "has_prefix ''custom.'' ?l" "\<not> has_prefix ''tag.'' ?l"
    | "?l \<noteq> ''tag''" "?l \<noteq> ''custom''" "\<not> has_prefix ''tag.'' ?l" "\<not> has_prefix ''custom.'' ?l"
    using assms(1) by (auto simp: name_field_def Let_def split: if_splits)
  then show ?thesis
  proof cases
    case 1
    then have "f = ''tag''" "q = []" using assms(1) by (simp_all add: name_field_def)
    then show ?thesis using 1 same_shape_lower [OF assms(2)] by (simp add: name_text_def name_field_def str_contains_def to_lower_def lower_char_def)
  next
    case 2
    then have fq: "f = ''tag''" "q = drop 4 s" using assms(1) by (auto simp: name_field_def Let_def split: if_splits)
    with 2 dot [of "''tag''"] assms(3) have t: "trim_space (drop 4 s) \<noteq> []" by simp
    have d: "same_shape s (''tag'' @ ''.'' @ drop 4 s) \<and> to_lower (''tag'' @ ''.'' @ drop 4 s) = ?l"
      by (rule dotted_name) (use 2 t in simp_all)
    have "drop 4 s \<noteq> []" using t by auto
    then have n: "name_text f q = ''tag'' @ ''.'' @ drop 4 s" using fq by (simp add: name_text_def)
    have "?l \<noteq> ''tag''" using 2 by auto
    then have "name_field (name_text f q) = Inr (f, q)" unfolding n name_field_def Let_def d [THEN conjunct2] using 2 fq by simp
    then show ?thesis using d n t fq by simp
  next
    case 3
    then have fq: "f = ''custom''" "q = drop 7 s" using assms(1) by (auto simp: name_field_def Let_def split: if_splits)
    with 3 dot [of "''custom''"] assms(3) have t: "trim_space (drop 7 s) \<noteq> []" by simp
    have d: "same_shape s (''custom'' @ ''.'' @ drop 7 s) \<and> to_lower (''custom'' @ ''.'' @ drop 7 s) = ?l"
      by (rule dotted_name) (use 3 t in simp_all)
    have "drop 7 s \<noteq> []" using t by auto
    then have n: "name_text f q = ''custom'' @ ''.'' @ drop 7 s" using fq by (simp add: name_text_def)
    have "?l \<noteq> ''tag''" "?l \<noteq> ''custom''" using 3 by auto
    then have "name_field (name_text f q) = Inr (f, q)" unfolding n name_field_def Let_def d [THEN conjunct2] using 3 fq by simp
    then show ?thesis using d n t fq by simp
  next
    case 4
    then have fq: "f = ?l" "q = []" using assms(1) by (auto simp: name_field_def Let_def)
    then show ?thesis using 4 same_shape_lower [OF assms(2)] by (simp add: name_text_def name_field_def Let_def)
  qed
qed

lemma trim_space_prefix_blank: "trim_space s = [] \<Longrightarrow> \<forall>c \<in> set s. is_space c"
proof -
  assume "trim_space s = []"
  then have "dropWhile is_space s = [] \<or> (\<forall>c \<in> set (dropWhile is_space s). is_space c)"
    by (auto simp: trim_space_def trim_left_def trim_right_def dropWhile_eq_Nil_conv)
  then have "dropWhile is_space s = []" by (metis dropWhile_eq_Nil_conv hd_dropWhile hd_in_set)
  then show ?thesis by (simp add: dropWhile_eq_Nil_conv)
qed

lemma parseValue_plain:
  assumes "parseValue raw = Inr v" and "\<not> list_ex is_quote raw"
  shows "v = trim_space raw" and "v \<noteq> []" and "parseValue v = Inr v"
proof -
  have "\<not> list_ex is_quote (trim_space raw)" using assms(2) set_trim_space [of raw] by (auto simp: list_ex_iff)
  then have nq: "trim_space raw \<noteq> [] \<Longrightarrow> \<not> is_quote (hd (trim_space raw))" by (cases "trim_space raw") auto
  show v: "v = trim_space raw" "v \<noteq> []"
    using assms(1) nq by (auto simp: parseValue_def Let_def split: if_splits)
  then show "parseValue v = Inr v"
    using nq \<open>\<not> list_ex is_quote (trim_space raw)\<close> by (simp add: parseValue_def)
qed

lemma has_prefix_set: "has_prefix p s \<Longrightarrow> set p \<subseteq> set s"
  by (auto simp: has_prefix_iff)

text \<open>A parsed predicate without quotes, printed, parses to itself.\<close>

lemma parseOne_print:
  assumes "parseOne e = Inr p" and "\<not> list_ex is_quote e"
    and less: "pdOperator p \<in> {''<'', ''>''} \<longrightarrow> \<not> has_prefix ''='' (pdValue p)"
  shows "parseOne (predicate_string p) = Inr p"
proof -
  let ?e = "trim_space e"
  obtain i op where o: "find_operator ?e = Some (i, op)"
    using assms(1) by (cases "find_operator ?e") (auto simp: parseOne_def Let_def split: if_splits)
  define field where "field = trim_space (take i ?e)"
  define rest where "rest = drop (i + length op) ?e"
  have i: "i \<noteq> 0" and bang: "\<not> (has_suffix ''!'' field \<and> op = ''='')"
    using assms(1) o by (auto simp: parseOne_def Let_def field_def split: if_splits)
  have pv: "\<exists>v. parseValue rest = Inr v"
    using assms(1) o i bang by (cases "parseValue rest") (auto simp: parseOne_def Let_def field_def rest_def split: if_splits)
  then obtain v where v: "parseValue rest = Inr v" by blast
  obtain f q where n: "name_field field = Inr (f, q)"
    using assms(1) o i bang v by (cases "name_field field") (auto simp: parseOne_def Let_def field_def rest_def split: if_splits)
  have blank: "\<not> ((f = ''tag'' \<or> f = ''custom'') \<and> str_contains ''.'' field \<and> trim_space q = [])"
    and tago: "\<not> (f = ''tag'' \<and> q = [] \<and> op \<noteq> ''='' \<and> op \<noteq> ''!='')"
    and p: "p = \<lparr>pdField = f, pdQualifier = q, pdOperator = op, pdValue = v, pdKind = None, pdNumeric = None, pdBoolean = False\<rparr>"
    using assms(1) o i bang v n by (auto simp: parseOne_def Let_def field_def rest_def split: if_splits)
  note os = find_operator_Some [OF o]
  have ne: "?e \<noteq> []" using o i by (auto simp: find_operator_def operators_def better_operator_def)
  then have take: "take i ?e \<noteq> []" "\<not> is_space (hd (take i ?e))"
    using i trim_space_ends(1) [of e] by (simp_all add: hd_take)
  have f0: "field \<noteq> []"
  proof
    assume "field = []"
    then have "\<forall>c \<in> set (take i ?e). is_space c"
      using trim_space_prefix_blank [of "take i ?e"] by (simp add: field_def)
    then show False using take hd_in_set by blast
  qed
  have fo: "operator_chars \<inter> set field = {}" using os(3) set_trim_space [of "take i ?e"] by (auto simp: field_def)
  have fs: "\<not> is_space (hd field)" "\<not> is_space (last field)"
    using trim_space_ends [of "take i ?e"] f0 by (simp_all add: field_def)
  have "\<not> list_ex is_quote rest"
    using assms(2) set_trim_space [of e] set_drop_subset [of "i + length op" ?e] by (auto simp: rest_def list_ex_iff)
  note val = parseValue_plain [OF v this]
  define F where "F = name_text f q"
  note nf = name_field_print [OF n f0 blank, folded F_def]
  have F: "F \<noteq> []" "\<not> is_space (hd F)" "\<not> is_space (last F)" "operator_chars \<inter> set F = {}" "\<not> (has_suffix ''!'' F \<and> op = ''='')"
    using nf fs fo bang unfolding same_shape_def by blast+
  have str: "predicate_string p = F @ op @ v" by (simp add: predicate_string_def p F_def name_text_def)
  have "\<not> is_space (last v)" using trim_space_ends(2) [of rest] val by simp
  then have t: "trim_space (F @ op @ v) = F @ op @ v"
    using F val(2) by (intro trim_space_id) simp_all
  have fop: "find_operator (F @ op @ v) = Some (length F, op)"
    by (rule find_operator_print [OF F(4,5) os(1)]) (use less p in simp)
  have tF: "trim_space F = F" using F by (intro trim_space_id) simp_all
  show ?thesis
    unfolding str parseOne_def t Let_def fop option.case prod.case
    using F nf val tago tF p by (auto simp: val(3))
qed

lemma check_predicate_keeps:
  assumes "check_predicate fl sch allowed p0 = Inr p"
  shows "predicate_string p = predicate_string p0"
    and "pdOperator p0 \<in> {''<'', ''>''} \<Longrightarrow> \<exists>n. flParse fl (pdValue p0) = Some n"
  using assms by (auto simp: check_predicate_def Let_def predicate_string_def split: option.splits if_splits value_kind.splits)

text \<open>
  C38: A predicate prints to a text that parses to it: whatever a \<open>--where\<close> expression without quotes parses to
  under a schema, its printed form is accepted under the same schema and gives the same filter. Of floating
  point parsing it needs only that no number starts with an equals sign.
\<close>

theorem predicate_roundtrip:
  assumes "Parse fl sch [e] kinds = Inr ps" and "\<not> list_ex is_quote e" and "\<And>s. flParse fl (CHR ''='' # s) = None"
  shows "\<exists>p. ps = [p] \<and> Parse fl sch [predicate_string p] kinds = Inr ps"
proof -
  let ?ks = "if kinds = [] then scKinds sch else kinds"
  obtain p0 p where p0: "parseOne e = Inr p0" and p: "check_predicate fl sch ?ks p0 = Inr p" "ps = [p]"
    using assms(1) by (auto simp: Parse_def split: sum.splits)
  note k = check_predicate_keeps [OF p(1)]
  have "\<not> has_prefix ''='' (pdValue p0)" if "pdOperator p0 \<in> {''<'', ''>''}"
    using k(2) [OF that] assms(3) by (auto simp: has_prefix_iff)
  then have "parseOne (predicate_string p) = Inr p0"
    unfolding k(1) by (intro parseOne_print [OF p0 assms(2)]) blast
  then show ?thesis using p by (simp add: Parse_def)
qed

theorem predicate_roundtrip_witness:
  "\<exists>p. Parse whole sample_schema ['' CPU >= 8''] [''vm''] = Inr [p] \<and>
     Parse whole sample_schema [predicate_string p] [''vm''] = Inr [p]"
proof -
  have a: "Parse whole sample_schema ['' CPU >= 8''] [''vm''] = Inr [cpu_predicate]" by code_simp
  have q: "\<not> list_ex is_quote '' CPU >= 8''" by code_simp
  have "\<And>s. flParse whole (CHR ''='' # s) = None" by (simp add: whole_def atoi_def is_digit_iff Let_def)
  from predicate_roundtrip [OF a q this] a show ?thesis by blast
qed

end
