(* ===== verification/Selector.thy ===== *)
theory Selector
  imports Query
begin

text \<open>
  The selectors of the command line (internal/query/selector.go): label selectors over tags, field selectors
  in the predicate language, and the splitting of both at the commas outside quotes and parentheses.
\<close>

section \<open>Splitting\<close>

definition prepend :: "string \<Rightarrow> string list \<Rightarrow> string list" where
  "prepend w ps = (case ps of [] \<Rightarrow> [w] | p # qs \<Rightarrow> (w @ p) # qs)"

fun split_top :: "bool \<Rightarrow> int \<Rightarrow> char option \<Rightarrow> string \<Rightarrow> string list" where
  "split_top parens depth quote [] = [[]]"
| "split_top parens depth quote (c # cs) =
     (case quote of
        Some q \<Rightarrow> prepend [c] (split_top parens depth (if c = q then None else quote) cs)
      | None \<Rightarrow>
          if is_quote c then prepend [c] (split_top parens depth (Some c) cs)
          else if parens \<and> c = CHR ''('' then prepend [c] (split_top parens (depth + 1) None cs)
          else if parens \<and> c = CHR '')'' then prepend [c] (split_top parens (depth - 1) None cs)
          else if c = CHR '','' \<and> depth = 0 then [] # split_top parens depth None cs
          else prepend [c] (split_top parens depth None cs))"

definition splitTopLevel :: "string \<Rightarrow> bool \<Rightarrow> string list" where
  "splitTopLevel s parens = split_top parens 0 None s"

lemma length_dropWhile_less: "s \<noteq> [] \<Longrightarrow> P (hd s) \<Longrightarrow> length (dropWhile P s) < length s"
  by (cases s) (auto intro: le_imp_less_Suc length_dropWhile_le)

text \<open>\<open>strings.Fields\<close>.\<close>

function str_fields :: "string \<Rightarrow> string list" where
  "str_fields s =
     (let s = dropWhile is_space s
      in if s = [] then [] else takeWhile (\<lambda>c. \<not> is_space c) s # str_fields (dropWhile (\<lambda>c. \<not> is_space c) s))"
  by pat_completeness auto

termination
proof (relation "measure length", simp)
  fix s x :: string
  assume x: "x = dropWhile is_space s" "x \<noteq> []"
  then have "\<not> is_space (hd x)" using hd_dropWhile by blast
  with x(2) have "length (dropWhile (\<lambda>c. \<not> is_space c) x) < length x" by (intro length_dropWhile_less)
  also have "length x \<le> length s" using x(1) by (simp add: length_dropWhile_le)
  finally show "(dropWhile (\<lambda>c. \<not> is_space c) x, s) \<in> measure length" by simp
qed

declare str_fields.simps [simp del]

section \<open>Label selectors\<close>

record requirement =
  rqKey :: string
  rqOp :: string
  rqValues :: "string list"

datatype selector_error =
    EmptyRequirement | NeedsKeyAndValue string | NeedsKey string | NeedsParentheses string | NoValues string | NotARequirement string
  | EmptyPredicate | BadPredicate query_error | UseLabels string

definition cut_requirement :: "string \<Rightarrow> string \<Rightarrow> (selector_error + requirement) option" where
  "cut_requirement s op =
     (case str_cut op s of
        None \<Rightarrow> None
      | Some (key, v) \<Rightarrow>
          (let key = trim_space key; v = trim_space v
           in Some (if key = [] \<or> v = [] then Inl (NeedsKeyAndValue s)
                else Inr \<lparr>rqKey = key, rqOp = (if op = ''!='' then ''notin'' else ''in''), rqValues = [v]\<rparr>)))"

definition set_requirement :: "string \<Rightarrow> string \<Rightarrow> string \<Rightarrow> selector_error + requirement" where
  "set_requirement s key op =
     (let vs = trim_space (trim_prefix op (trim_space (drop (length key) s)))
      in if \<not> has_prefix ''('' vs \<or> \<not> has_suffix '')'' vs then Inl (NeedsParentheses s)
         else (let values = filter (\<lambda>v. v \<noteq> []) (map trim_space (split_on CHR '','' (butlast (tl vs))))
               in if values = [] then Inl (NoValues s) else Inr \<lparr>rqKey = key, rqOp = op, rqValues = values\<rparr>))"

definition parseRequirement :: "string \<Rightarrow> selector_error + requirement" where
  "parseRequirement s =
     (case cut_requirement s ''!='' of Some r \<Rightarrow> r
      | None \<Rightarrow> (case cut_requirement s ''=='' of Some r \<Rightarrow> r
      | None \<Rightarrow> (case cut_requirement s ''='' of Some r \<Rightarrow> r
      | None \<Rightarrow>
          (case str_fields s of
             [f] \<Rightarrow>
               (if has_prefix ''!'' f
                then (let key = trim_space (tl f) in if key = [] then Inl (NeedsKey s) else Inr \<lparr>rqKey = key, rqOp = ''!exists'', rqValues = []\<rparr>)
                else Inr \<lparr>rqKey = f, rqOp = ''exists'', rqValues = []\<rparr>)
           | key # op # _ \<Rightarrow> if op = ''in'' \<or> op = ''notin'' then set_requirement s key op else Inl (NotARequirement s)
           | [] \<Rightarrow> Inl (NotARequirement s)))))"

fun parse_requirements :: "string list \<Rightarrow> selector_error + requirement list" where
  "parse_requirements [] = Inr []"
| "parse_requirements (part # parts) =
     (let part = trim_space part
      in if part = [] then Inl EmptyRequirement
         else (case parseRequirement part of
                 Inl e \<Rightarrow> Inl e
               | Inr r \<Rightarrow> (case parse_requirements parts of Inl e \<Rightarrow> Inl e | Inr rs \<Rightarrow> Inr (r # rs))))"

definition ParseLabelSelector :: "string \<Rightarrow> selector_error + requirement list" where
  "ParseLabelSelector s = parse_requirements (splitTopLevel s True)"

definition in_category :: "requirement \<Rightarrow> (tag \<Rightarrow> bool) \<Rightarrow> tag list \<Rightarrow> bool" where
  "in_category r P ts \<longleftrightarrow> list_ex (\<lambda>t. tgCategory t = rqKey r \<and> P t) ts"

definition match_requirement :: "requirement \<Rightarrow> tag list \<Rightarrow> bool" where
  "match_requirement r ts =
     (if rqOp r = ''in'' then in_category r (\<lambda>t. tgName t \<in> set (rqValues r)) ts
      else if rqOp r = ''notin'' then \<not> in_category r (\<lambda>t. tgName t \<in> set (rqValues r)) ts
      else if rqOp r = ''exists'' then in_category r (\<lambda>_. True) ts
      else if rqOp r = ''!exists'' then \<not> in_category r (\<lambda>_. True) ts
      else False)"

definition label_Match :: "requirement list \<Rightarrow> 'f item \<Rightarrow> bool" where
  "label_Match rs s =
     (if rs = [] then True else if \<not> itTagsAvailable s then False else list_all (\<lambda>r. match_requirement r (itTags s)) rs)"

section \<open>Field selectors\<close>

definition replace_first :: "string \<Rightarrow> string \<Rightarrow> string \<Rightarrow> string" where
  "replace_first old new s = (case str_cut old s of None \<Rightarrow> s | Some (a, b) \<Rightarrow> a @ new @ b)"

definition ParseFieldSelector :: "'f floats \<Rightarrow> schema \<Rightarrow> string \<Rightarrow> string list \<Rightarrow> selector_error + 'f filter" where
  "ParseFieldSelector fl sch s kinds =
     (let parts = map trim_space (splitTopLevel s False)
      in if list_ex (\<lambda>p. p = []) parts then Inl EmptyPredicate
         else (case Parse fl sch (map (replace_first ''=='' ''='') parts) kinds of
                 Inl e \<Rightarrow> Inl (BadPredicate e)
               | Inr ps \<Rightarrow> (case find (\<lambda>p. pdField p = ''tag'') ps of None \<Rightarrow> Inr ps | Some p \<Rightarrow> Inl (UseLabels (predicate_string p)))))"

section \<open>Lemmas on the splitting\<close>

lemma prepend_simps [simp]: "prepend [] (p # ps) = p # ps" "prepend (c # w) (p # ps) = (c # w @ p) # ps"
  by (simp_all add: prepend_def)

lemma prepend_not_Nil [simp]: "prepend w ps \<noteq> []"
  by (simp add: prepend_def split: list.split)

lemma split_top_Cons: "\<exists>p ps. split_top b d q s = p # ps"
proof -
  have "split_top b d q s \<noteq> []" by (cases s) (simp_all split: option.split)
  then show ?thesis by (simp add: neq_Nil_conv)
qed

lemma prepend_prepend: "prepend [c] (prepend w ps) = prepend (c # w) ps"
  by (cases ps) (simp_all add: prepend_def)

text \<open>A text without quotes and parentheses, and without commas at the top level, is read through.\<close>

definition plain :: "string \<Rightarrow> bool" where
  "plain w \<longleftrightarrow> (\<forall>c \<in> set w. \<not> is_quote c \<and> c \<noteq> CHR ''('' \<and> c \<noteq> CHR '')'')"

lemma plain_append: "plain (v @ w) \<longleftrightarrow> plain v \<and> plain w"
  by (auto simp: plain_def)

lemma split_top_plain:
  assumes "plain w" and "d \<noteq> 0 \<or> CHR '','' \<notin> set w"
  shows "split_top b d None (w @ s) = prepend w (split_top b d None s)"
  using assms
proof (induction w)
  case Nil
  then show ?case using split_top_Cons [of b d None s] by auto
next
  case (Cons c w)
  then have "split_top b d None (w @ s) = prepend w (split_top b d None s)" by (auto simp: plain_def)
  then show ?case using Cons.prems by (auto simp: plain_def prepend_prepend)
qed

lemma split_top_join:
  assumes "ps \<noteq> []" and "\<And>p s. p \<in> set ps \<Longrightarrow> split_top b 0 None (p @ s) = prepend p (split_top b 0 None s)"
  shows "split_top b 0 None (str_join '','' ps) = ps"
  using assms
proof (induction "'',''" ps rule: str_join.induct)
  case (2 x)
  have "split_top b 0 None (x @ []) = prepend x (split_top b 0 None [])" by (rule 2(2)) simp
  then show ?case by (simp add: prepend_def)
next
  case (3 x y zs)
  have "split_top b 0 None (x @ CHR '','' # str_join '','' (y # zs)) =
      prepend x (split_top b 0 None (CHR '','' # str_join '','' (y # zs)))" by (rule 3(3)) simp
  then show ?case using 3 by (simp add: is_quote_def prepend_def)
qed simp

section \<open>Printing a requirement\<close>

definition print_requirement :: "requirement \<Rightarrow> string" where
  "print_requirement r =
     (if rqOp r = ''exists'' then rqKey r
      else if rqOp r = ''!exists'' then CHR ''!'' # rqKey r
      else rqKey r @ '' '' @ rqOp r @ '' ('' @ str_join '','' (rqValues r) @ '')'')"

definition legal_key :: "string \<Rightarrow> bool" where
  "legal_key k \<longleftrightarrow> k \<noteq> [] \<and> plain k \<and> hd k \<noteq> CHR ''!'' \<and> (\<forall>c \<in> set k. \<not> is_space c \<and> c \<noteq> CHR ''='' \<and> c \<noteq> CHR '','')"

definition legal_value :: "string \<Rightarrow> bool" where
  "legal_value v \<longleftrightarrow> v \<noteq> [] \<and> plain v \<and> trim_space v = v \<and> (\<forall>c \<in> set v. c \<noteq> CHR ''='' \<and> c \<noteq> CHR '','')"

definition legal_requirement :: "requirement \<Rightarrow> bool" where
  "legal_requirement r \<longleftrightarrow> legal_key (rqKey r) \<and>
     (rqOp r \<in> {''in'', ''notin''} \<and> rqValues r \<noteq> [] \<and> list_all legal_value (rqValues r) \<or>
      rqOp r \<in> {''exists'', ''!exists''} \<and> rqValues r = [])"

lemma join_values:
  "list_all legal_value vs \<Longrightarrow> c \<in> set (str_join '','' vs) \<Longrightarrow> \<not> is_quote c \<and> c \<notin> {CHR ''('', CHR '')'', CHR ''=''}"
proof (induction "'',''" vs rule: str_join.induct)
  case (3 x y zs)
  then show ?case by (fastforce simp: legal_value_def plain_def is_quote_def)
qed (auto simp: legal_value_def plain_def)

lemma split_print:
  assumes "legal_requirement r"
  shows "split_top True 0 None (print_requirement r @ s) = prepend (print_requirement r) (split_top True 0 None s)"
proof (cases "rqOp r \<in> {''exists'', ''!exists''}")
  case True
  with assms have "plain (print_requirement r)" "CHR '','' \<notin> set (print_requirement r)"
    by (auto simp: legal_requirement_def legal_key_def print_requirement_def plain_def is_quote_def)
  then show ?thesis by (intro split_top_plain) auto
next
  case False
  with assms have k: "legal_key (rqKey r)" and o: "rqOp r \<in> {''in'', ''notin''}" and v: "list_all legal_value (rqValues r)"
    by (auto simp: legal_requirement_def)
  let ?a = "rqKey r @ '' '' @ rqOp r @ '' ''" and ?v = "str_join '','' (rqValues r)"
  have p: "print_requirement r = ?a @ ''('' @ ?v @ '')''" using False by (simp add: print_requirement_def)
  have "plain ''in''" "plain ''notin''" "plain '' ''" by (simp_all add: plain_def is_quote_def)
  then have "plain (rqOp r)" "CHR '','' \<notin> set (rqOp r)" "plain '' ''" using o by auto
  then have a: "plain ?a" "CHR '','' \<notin> set ?a" using k by (simp_all only: legal_key_def plain_append) auto
  have vp: "plain ?v"
    using join_values [OF v] by (simp add: plain_def)
  have "split_top True 0 None (print_requirement r @ s) = prepend ?a (split_top True 0 None (''('' @ ?v @ '')'' @ s))"
    unfolding p append_assoc using split_top_plain [OF a(1) disjI2 [OF a(2)]] by simp
  also have "split_top True 0 None (''('' @ ?v @ '')'' @ s) = prepend ''('' (prepend ?v (prepend '')'' (split_top True 0 None s)))"
    using split_top_plain [OF vp, of 1] by (simp add: is_quote_def)
  also have "prepend ?a (prepend ''('' (prepend ?v (prepend '')'' (split_top True 0 None s)))) = prepend (print_requirement r) (split_top True 0 None s)"
    using split_top_Cons [of True 0 None s] unfolding p by (auto simp: prepend_def)
  finally show ?thesis .
qed

section \<open>Parsing what was printed\<close>

lemma str_cut_absent: "d \<in> set sub \<Longrightarrow> d \<notin> set s \<Longrightarrow> str_cut sub s = None"
  by (cases "str_cut sub s") (auto dest: str_cut_Some)

lemma no_cut:
  assumes "CHR ''='' \<notin> set s"
  shows "cut_requirement s ''!='' = None" "cut_requirement s ''=='' = None" "cut_requirement s ''='' = None"
  using assms by (simp_all add: cut_requirement_def str_cut_absent [of "CHR ''=''"])

lemma str_fields_empty [simp]: "str_fields [] = []"
  by (simp add: str_fields.simps)

lemma str_fields_space [simp]: "is_space c \<Longrightarrow> str_fields (c # s) = str_fields s"
  by (simp add: str_fields.simps [of "c # s"] str_fields.simps [of s])

lemma dropWhile_none: "(\<And>c. c \<in> set w \<Longrightarrow> \<not> P c) \<Longrightarrow> dropWhile P w = w"
  by (cases w) auto

lemma str_fields_word:
  assumes "w \<noteq> []" and "\<And>c. c \<in> set w \<Longrightarrow> \<not> is_space c"
  shows "str_fields w = [w]" and "is_space d \<Longrightarrow> str_fields (w @ d # s) = w # str_fields s"
proof -
  from assms(1) obtain c cs where w: "w = c # cs" by (cases w) auto
  then have c: "\<not> is_space c" using assms(2) by simp
  have t: "takeWhile (\<lambda>c. \<not> is_space c) w = w" "dropWhile (\<lambda>c. \<not> is_space c) w = []"
    using assms(2) by (auto simp: takeWhile_eq_all_conv dropWhile_eq_Nil_conv)
  have d: "dropWhile is_space w = w" using c by (simp add: w)
  show "str_fields w = [w]" using assms(1) by (simp add: str_fields.simps [of w] d t)
  assume sp: "is_space d"
  have dd: "dropWhile is_space (w @ d # s) = w @ d # s" using c by (simp add: w)
  have t2: "takeWhile (\<lambda>c. \<not> is_space c) (w @ d # s) = w" "dropWhile (\<lambda>c. \<not> is_space c) (w @ d # s) = d # s"
    using assms(2) sp by (simp_all add: takeWhile_append2 dropWhile_append2)
  then show "str_fields (w @ d # s) = w # str_fields s"
    using dd by (subst str_fields.simps) (simp add: t2 str_fields_space [OF sp])
qed

lemma legal_key_space: "legal_key k \<Longrightarrow> c \<in> set k \<Longrightarrow> \<not> is_space c"
  by (simp add: legal_key_def)

lemma no_equals:
  assumes "legal_requirement r"
  shows "CHR ''='' \<notin> set (print_requirement r)"
proof (cases "rqOp r \<in> {''exists'', ''!exists''}")
  case True
  with assms show ?thesis by (auto simp: print_requirement_def legal_requirement_def legal_key_def)
next
  case False
  with assms have v: "list_all legal_value (rqValues r)" and o: "rqOp r \<in> {''in'', ''notin''}" and k: "legal_key (rqKey r)"
    by (auto simp: legal_requirement_def)
  from k have "CHR ''='' \<notin> set (rqKey r)" by (auto simp: legal_key_def)
  moreover have "CHR ''='' \<notin> set (rqOp r)" using o by auto
  moreover have "CHR ''='' \<notin> set (str_join '','' (rqValues r))" using join_values [OF v] by blast
  ultimately show ?thesis using False by (simp add: print_requirement_def)
qed

lemma filter_values:
  assumes "list_all legal_value vs" and "vs \<noteq> []"
  shows "filter (\<lambda>v. v \<noteq> []) (map trim_space (split_on CHR '','' (str_join '','' vs))) = vs"
proof -
  have "split_on CHR '','' (str_join '','' vs) = vs"
    using assms by (intro split_on_join) (auto simp: list_all_iff legal_value_def)
  moreover have "map trim_space vs = vs" "filter (\<lambda>v. v \<noteq> []) vs = vs"
    using assms(1) by (auto simp: list_all_iff legal_value_def intro: map_idI)
  ultimately show ?thesis by simp
qed

lemma set_requirement_print:
  assumes o: "op \<in> {''in'', ''notin''}" and v: "list_all legal_value vs" "vs \<noteq> []"
  shows "set_requirement (k @ '' '' @ op @ '' ('' @ str_join '','' vs @ '')'') k op = Inr \<lparr>rqKey = k, rqOp = op, rqValues = vs\<rparr>"
proof -
  let ?v = "str_join '','' vs"
  have ends: "trim_space (CHR '' '' # w @ '')'') = w @ '')''" if "w \<noteq> []" "\<not> is_space (hd w)" for w
    using that trim_space_id [of "w @ '')''"] by (simp add: trim_space_def trim_left_def is_space_def)
  have t: "trim_space ('' '' @ op @ '' ('' @ ?v @ '')'') = op @ '' ('' @ ?v @ '')''"
    using o ends [of "op @ '' ('' @ ?v"] by (auto simp: is_space_def)
  have u: "trim_space ('' ('' @ ?v @ '')'') = ''('' @ ?v @ '')''"
    using ends [of "''('' @ ?v"] by (simp add: is_space_def)
  have p: "trim_prefix op (op @ s) = s" for s by (simp add: trim_prefix_def)
  have s: "has_suffix '')'' (CHR ''('' # ?v @ '')'')" unfolding has_suffix_iff by (metis append_Cons)
  have d: "drop (length k) (k @ '' '' @ op @ '' ('' @ ?v @ '')'') = '' '' @ op @ '' ('' @ ?v @ '')''" by simp
  show ?thesis
    unfolding set_requirement_def d t p u Let_def
    using s v filter_values [OF v] by (simp add: butlast_append)
qed

lemma parseRequirement_print:
  assumes "legal_requirement r"
  shows "parseRequirement (print_requirement r) = Inr r"
proof -
  obtain k op vs where r: "r = \<lparr>rqKey = k, rqOp = op, rqValues = vs\<rparr>" by (cases r) auto
  have k: "legal_key k" "k \<noteq> []" "hd k \<noteq> CHR ''!''" and ks: "\<And>c. c \<in> set k \<Longrightarrow> \<not> is_space c"
    using assms r by (auto simp: legal_requirement_def legal_key_def)
  have nb: "\<not> has_prefix ''!'' k" using k by (cases k) auto
  note n = no_cut [OF no_equals [OF assms]]
  consider "op = ''exists''" "vs = []" | "op = ''!exists''" "vs = []" | "op \<in> {''in'', ''notin''}" "list_all legal_value vs" "vs \<noteq> []"
    using assms r by (auto simp: legal_requirement_def)
  then show ?thesis
  proof cases
    case 1
    then have "str_fields (print_requirement r) = [k]" using str_fields_word(1) [OF k(2) ks] by (simp add: r print_requirement_def)
    then show ?thesis using n nb 1 by (simp add: parseRequirement_def r)
  next
    case 2
    then have "str_fields (print_requirement r) = [CHR ''!'' # k]"
      using str_fields_word(1) [of "CHR ''!'' # k"] ks by (auto simp: r print_requirement_def is_space_def)
    then show ?thesis using n 2 k(2) trim_space_no_space [OF ks] by (simp add: parseRequirement_def r)
  next
    case 3
    then have p: "print_requirement r = k @ '' '' @ op @ '' ('' @ str_join '','' vs @ '')''" by (auto simp: r print_requirement_def)
    have "str_fields (op @ CHR '' '' # s) = op # str_fields s" for s
      using 3(1) by (intro str_fields_word(2)) (auto simp: is_space_def)
    then have "str_fields (print_requirement r) = k # op # str_fields (''('' @ str_join '','' vs @ '')'')"
      unfolding p using str_fields_word(2) [OF k(2) ks, of "CHR '' ''"] by (simp add: is_space_def)
    moreover have "set_requirement (print_requirement r) k op = Inr r"
      using set_requirement_print [OF 3, of k] unfolding p [symmetric] r [symmetric] .
    ultimately show ?thesis using n 3(1) by (simp add: parseRequirement_def)
  qed
qed

lemma trim_print:
  assumes "legal_requirement r"
  shows "trim_space (print_requirement r) = print_requirement r" "print_requirement r \<noteq> []"
proof -
  have k: "rqKey r \<noteq> []" "\<not> is_space (hd (rqKey r))" "\<not> is_space (last (rqKey r))"
    using assms by (auto simp: legal_requirement_def legal_key_def)
  show "print_requirement r \<noteq> []" using k by (simp add: print_requirement_def)
  show "trim_space (print_requirement r) = print_requirement r"
    using k by (intro trim_space_id) (auto simp: print_requirement_def is_space_def)
qed

lemma parse_requirements_print:
  "list_all legal_requirement rs \<Longrightarrow> parse_requirements (map print_requirement rs) = Inr rs"
  by (induction rs) (simp_all add: trim_print parseRequirement_print)

section \<open>Properties of the selectors\<close>

text \<open>The meaning of a requirement over the set of tags of an object.\<close>

definition means :: "requirement \<Rightarrow> tag set \<Rightarrow> bool" where
  "means r T \<longleftrightarrow>
     (let named = (\<exists>t \<in> T. tgCategory t = rqKey r \<and> tgName t \<in> set (rqValues r)); present = (\<exists>t \<in> T. tgCategory t = rqKey r)
      in (rqOp r = ''in'' \<longrightarrow> named) \<and> (rqOp r = ''notin'' \<longrightarrow> \<not> named) \<and>
         (rqOp r = ''exists'' \<longrightarrow> present) \<and> (rqOp r = ''!exists'' \<longrightarrow> \<not> present))"

lemma match_means: "legal_requirement r \<Longrightarrow> match_requirement r ts \<longleftrightarrow> means r (set ts)"
  by (auto simp: match_requirement_def means_def in_category_def list_ex_iff Let_def legal_requirement_def)



text \<open>
  A field selector rewrites the first double equals sign of a predicate wherever it stands, also inside a quoted
  value, so that \<open>name='a==b'\<close> looks for \<open>a=b\<close>.
\<close>

definition name_schema :: schema where
  "name_schema = \<lparr>scKinds = [''vm''], scField = (\<lambda>k f. if f = ''name'' then Some StringValue else None)\<rparr>"

definition quoted_name :: string where
  "quoted_name = ''name='' @ [CHR 0x27] @ ''a==b'' @ [CHR 0x27]"

definition name_filter :: "string \<Rightarrow> int filter" where
  "name_filter v = [\<lparr>pdField = ''name'', pdQualifier = [], pdOperator = ''='', pdValue = v, pdKind = Some StringValue,
     pdNumeric = None, pdBoolean = False\<rparr>]"

theorem field_selector_alters_value:
  "Parse whole name_schema [quoted_name] [''vm''] = Inr (name_filter ''a==b'') \<and>
   ParseFieldSelector whole name_schema quoted_name [''vm''] = Inr (name_filter ''a=b'')"
  by code_simp

end
