(* ===== verification/Limiter.thy ===== *)
theory Limiter
  imports Prelude
begin

text \<open>
  The limiter of inventory fetches (internal/limiter/limiter.go): the buffered channel that serves as semaphore,
  and the calls of Run as state machines that any number of goroutines interleave. The steps of Run are the
  branches of its select, the return of fn and the deferred receive.
\<close>

section \<open>State\<close>

datatype run_result = Called | ContextError

datatype phase = Waiting | Running | Returned run_result

record run_call =
  rlDone :: bool  \<comment> \<open>its context is done\<close>
  rlPhase :: phase

text \<open>The capacity of the channel, none when it is nil; the values in it; the calls of Run so far.\<close>

record limiter =
  lmCapacity :: "nat option"
  lmHeld :: nat
  lmCalls :: "run_call list"

definition New_limiter :: "int \<Rightarrow> limiter" where
  "New_limiter maxConcurrent =
     \<lparr>lmCapacity = (if maxConcurrent > 0 then Some (nat maxConcurrent) else None), lmHeld = 0, lmCalls = []\<rparr>"

section \<open>Steps\<close>

text \<open>
  A goroutine calls Run with a context that is done or not; a context becomes done; a waiting call takes a slot
  or sees that its context is done; fn returns and the slot is given back.
\<close>

datatype fetch_action = Arrive bool | Done nat | Acquire nat | GiveUp nat | Finish nat

definition set_call :: "nat \<Rightarrow> run_call \<Rightarrow> limiter \<Rightarrow> limiter" where
  "set_call i c l = l\<lparr>lmCalls := (lmCalls l)[i := c]\<rparr>"

definition acquire :: "nat \<Rightarrow> limiter \<Rightarrow> limiter option" where
  "acquire i l =
     (let l' = set_call i ((lmCalls l ! i)\<lparr>rlPhase := Running\<rparr>) l
      in case lmCapacity l of
           None \<Rightarrow> Some l'
         | Some n \<Rightarrow> if lmHeld l < n then Some (l'\<lparr>lmHeld := Suc (lmHeld l)\<rparr>) else None)"

definition give_up :: "nat \<Rightarrow> limiter \<Rightarrow> limiter option" where
  "give_up i l =
     (if lmCapacity l \<noteq> None \<and> rlDone (lmCalls l ! i)
      then Some (set_call i ((lmCalls l ! i)\<lparr>rlPhase := Returned ContextError\<rparr>) l) else None)"

text \<open>The receive of a value blocks on an empty channel.\<close>

definition finish :: "nat \<Rightarrow> limiter \<Rightarrow> limiter option" where
  "finish i l =
     (let l' = set_call i ((lmCalls l ! i)\<lparr>rlPhase := Returned Called\<rparr>) l
      in case lmCapacity l of
           None \<Rightarrow> Some l'
         | Some _ \<Rightarrow> if lmHeld l > 0 then Some (l'\<lparr>lmHeld := lmHeld l - 1\<rparr>) else None)"

definition in_phase :: "phase \<Rightarrow> nat \<Rightarrow> limiter \<Rightarrow> bool" where
  "in_phase p i l \<longleftrightarrow> i < length (lmCalls l) \<and> rlPhase (lmCalls l ! i) = p"

fun perform :: "fetch_action \<Rightarrow> limiter \<Rightarrow> limiter option" where
  "perform (Arrive done) l = Some (l\<lparr>lmCalls := lmCalls l @ [\<lparr>rlDone = done, rlPhase = Waiting\<rparr>]\<rparr>)"
| "perform (Done i) l =
     (if i < length (lmCalls l) then Some (set_call i ((lmCalls l ! i)\<lparr>rlDone := True\<rparr>) l) else None)"
| "perform (Acquire i) l = (if in_phase Waiting i l then acquire i l else None)"
| "perform (GiveUp i) l = (if in_phase Waiting i l then give_up i l else None)"
| "perform (Finish i) l = (if in_phase Running i l then finish i l else None)"

fun performs :: "fetch_action list \<Rightarrow> limiter \<Rightarrow> limiter option" where
  "performs [] l = Some l"
| "performs (a # as) l = Option.bind (perform a l) (performs as)"

inductive limiter_reachable :: "int \<Rightarrow> limiter \<Rightarrow> bool" for m where
  start: "limiter_reachable m (New_limiter m)"
| step: "limiter_reachable m l \<Longrightarrow> perform a l = Some l' \<Longrightarrow> limiter_reachable m l'"

text \<open>The steps of Run itself, as opposed to those of its callers.\<close>

fun internal :: "fetch_action \<Rightarrow> bool" where
  "internal (Arrive _) = False"
| "internal (Done _) = False"
| "internal _ = True"

section \<open>Lemmas\<close>

fun weight :: "phase \<Rightarrow> nat" where
  "weight Waiting = 2"
| "weight Running = 1"
| "weight (Returned _) = 0"

definition pending :: "limiter \<Rightarrow> nat" where
  "pending l = (\<Sum>c \<leftarrow> lmCalls l. weight (rlPhase c))"

definition running :: "limiter \<Rightarrow> nat" where
  "running l = (\<Sum>c \<leftarrow> lmCalls l. if rlPhase c = Running then 1 else 0)"

lemma sum_list_set:
  fixes f :: "'a \<Rightarrow> nat"
  assumes "i < length xs"
  shows "sum_list (map f (xs[i := x])) + f (xs ! i) = sum_list (map f xs) + f x"
proof -
  have "f (xs ! i) \<le> sum_list (map f xs)" using assms elem_le_sum_list [of i "map f xs"] by simp
  then show ?thesis using assms by (simp add: map_update sum_list_update)
qed

lemma running_set:
  "i < length (lmCalls l) \<Longrightarrow> running (set_call i c l) + (if rlPhase (lmCalls l ! i) = Running then 1 else 0) =
     running l + (if rlPhase c = Running then 1 else 0)"
  unfolding running_def set_call_def by (simp add: sum_list_set [where f = "\<lambda>c. if rlPhase c = Running then 1 else 0"])

lemma pending_set:
  "i < length (lmCalls l) \<Longrightarrow> pending (set_call i c l) + weight (rlPhase (lmCalls l ! i)) = pending l + weight (rlPhase c)"
  unfolding pending_def set_call_def by (simp add: sum_list_set [where f = "\<lambda>c. weight (rlPhase c)"])

lemma set_call_simps [simp]:
  "lmCapacity (set_call i c l) = lmCapacity l" "lmHeld (set_call i c l) = lmHeld l"
  "lmCalls (set_call i c l) = (lmCalls l)[i := c]"
  by (simp_all add: set_call_def)

lemma running_held [simp]: "running (l\<lparr>lmHeld := n\<rparr>) = running l" and pending_held [simp]: "pending (l\<lparr>lmHeld := n\<rparr>) = pending l"
  by (simp_all add: running_def pending_def)

text \<open>The channel holds one value for each running call, within its capacity; only a done context gives up.\<close>

definition limiter_ok :: "int \<Rightarrow> limiter \<Rightarrow> bool" where
  "limiter_ok m l \<longleftrightarrow> lmCapacity l = lmCapacity (New_limiter m) \<and>
     (0 < m \<longrightarrow> lmHeld l = running l \<and> lmHeld l \<le> nat m) \<and>
     (\<forall>c \<in> set (lmCalls l). rlPhase c = Returned ContextError \<longrightarrow> 0 < m \<and> rlDone c)"

lemma limiter_ok_start: "limiter_ok m (New_limiter m)"
  by (simp add: limiter_ok_def New_limiter_def running_def)

lemma calls_updated:
  assumes "\<forall>c \<in> set xs. P c" and "P x"
  shows "\<forall>c \<in> set (xs[i := x]). P c"
  using assms set_update_subset_insert [of xs i x] by blast

lemma limiter_ok_step:
  assumes ok: "limiter_ok m l" and st: "perform a l = Some l'"
  shows "limiter_ok m l'"
proof -
  let ?P = "\<lambda>c. rlPhase c = Returned ContextError \<longrightarrow> 0 < m \<and> rlDone c"
  have cap: "lmCapacity l = (if m > 0 then Some (nat m) else None)"
    and held: "0 < m \<Longrightarrow> lmHeld l = running l" "0 < m \<Longrightarrow> lmHeld l \<le> nat m" and all: "\<forall>c \<in> set (lmCalls l). ?P c"
    using ok by (auto simp: limiter_ok_def New_limiter_def)
  note intro = limiter_ok_def [THEN iffD2]
  show ?thesis
  proof (cases a)
    case (Arrive d)
    then have "l' = l\<lparr>lmCalls := lmCalls l @ [\<lparr>rlDone = d, rlPhase = Waiting\<rparr>]\<rparr>" using st by simp
    then show ?thesis using cap held all by (auto simp: limiter_ok_def New_limiter_def running_def)
  next
    case (Done i)
    then have i: "i < length (lmCalls l)" and l': "l' = set_call i ((lmCalls l ! i)\<lparr>rlDone := True\<rparr>) l"
      using st by (auto split: if_splits)
    have "?P ((lmCalls l ! i)\<lparr>rlDone := True\<rparr>)" using all nth_mem [OF i] by simp
    then have "\<forall>c \<in> set (lmCalls l'). ?P c" unfolding l' set_call_simps by (rule calls_updated [OF all])
    moreover have "running l' = running l" using running_set [OF i, of "(lmCalls l ! i)\<lparr>rlDone := True\<rparr>"] by (simp add: l')
    ultimately show ?thesis using cap held by (simp add: limiter_ok_def New_limiter_def l')
  next
    case (Acquire i)
    then have i: "i < length (lmCalls l)" "rlPhase (lmCalls l ! i) = Waiting" and e: "acquire i l = Some l'"
      using st by (auto simp: in_phase_def split: if_splits)
    let ?c = "(lmCalls l ! i)\<lparr>rlPhase := Running\<rparr>"
    have r: "running (set_call i ?c l) = Suc (running l)" using running_set [OF i(1), of ?c] i(2) by simp
    have "\<forall>c \<in> set ((lmCalls l)[i := ?c]). ?P c" by (rule calls_updated [OF all]) simp
    then show ?thesis using e r cap held
      by (auto simp: acquire_def Let_def limiter_ok_def New_limiter_def split: if_splits)
  next
    case (GiveUp i)
    then have i: "i < length (lmCalls l)" "rlPhase (lmCalls l ! i) = Waiting" and e: "give_up i l = Some l'"
      using st by (auto simp: in_phase_def split: if_splits)
    let ?c = "(lmCalls l ! i)\<lparr>rlPhase := Returned ContextError\<rparr>"
    have d: "0 < m" "rlDone (lmCalls l ! i)" and l': "l' = set_call i ?c l" using e cap by (auto simp: give_up_def split: if_splits)
    have "running l' = running l" using running_set [OF i(1), of ?c] i(2) by (simp add: l')
    moreover have "\<forall>c \<in> set ((lmCalls l)[i := ?c]). ?P c" by (rule calls_updated [OF all]) (use d in simp)
    ultimately show ?thesis using cap held by (simp add: limiter_ok_def New_limiter_def l')
  next
    case (Finish i)
    then have i: "i < length (lmCalls l)" "rlPhase (lmCalls l ! i) = Running" and e: "finish i l = Some l'"
      using st by (auto simp: in_phase_def split: if_splits)
    let ?c = "(lmCalls l ! i)\<lparr>rlPhase := Returned Called\<rparr>"
    have r: "Suc (running (set_call i ?c l)) = running l" using running_set [OF i(1), of ?c] i(2) by simp
    have "\<forall>c \<in> set ((lmCalls l)[i := ?c]). ?P c" by (rule calls_updated [OF all]) simp
    then show ?thesis using e r cap held
      by (auto simp: finish_def Let_def limiter_ok_def New_limiter_def split: if_splits)
  qed
qed

lemma limiter_reachable_ok: "limiter_reachable m l \<Longrightarrow> limiter_ok m l"
  by (induction rule: limiter_reachable.induct) (auto intro: limiter_ok_start limiter_ok_step)

lemma limiter_reachable_performs: "performs as l = Some l' \<Longrightarrow> limiter_reachable m l \<Longrightarrow> limiter_reachable m l'"
  by (induction "as" arbitrary: l) (auto simp: bind_eq_Some_conv intro: limiter_reachable.step)

lemma running_positive: "in_phase Running i l \<Longrightarrow> 0 < running l"
proof -
  assume "in_phase Running i l"
  then have i: "i < length (lmCalls l)" "rlPhase (lmCalls l ! i) = Running" by (auto simp: in_phase_def)
  then show ?thesis using elem_le_sum_list [of i "map (\<lambda>c. if rlPhase c = Running then 1 else (0::nat)) (lmCalls l)"]
    by (simp add: running_def)
qed

lemma finish_possible: "limiter_ok m l \<Longrightarrow> in_phase Running i l \<Longrightarrow> perform (Finish i) l \<noteq> None"
  using running_positive [of i l] by (auto simp: limiter_ok_def New_limiter_def finish_def Let_def)

text \<open>Every step of Run uses up a part of what is pending.\<close>

lemma internal_decreases:
  assumes "perform a l = Some l'" and "internal a"
  shows "Suc (pending l') = pending l \<or> Suc (Suc (pending l')) = pending l"
proof (cases a)
  case (Acquire i)
  then show ?thesis using assms pending_set [of i l "(lmCalls l ! i)\<lparr>rlPhase := Running\<rparr>"]
    by (auto simp: in_phase_def acquire_def Let_def split: if_splits option.splits)
next
  case (GiveUp i)
  then show ?thesis using assms pending_set [of i l "(lmCalls l ! i)\<lparr>rlPhase := Returned ContextError\<rparr>"]
    by (auto simp: in_phase_def give_up_def Let_def split: if_splits option.splits)
next
  case (Finish i)
  then show ?thesis using assms pending_set [of i l "(lmCalls l ! i)\<lparr>rlPhase := Returned Called\<rparr>"]
    by (auto simp: in_phase_def finish_def Let_def split: if_splits option.splits)
qed (use assms in auto)

lemma internal_bounded: "performs as l = Some l' \<Longrightarrow> list_all internal as \<Longrightarrow> length as + pending l' \<le> pending l"
proof (induction "as" arbitrary: l)
  case (Cons a "as")
  then obtain h where "perform a l = Some h" "performs as h = Some l'" by (auto simp: bind_eq_Some_conv)
  with Cons show ?case using internal_decreases [of a l h] by fastforce
qed simp

lemma stuck_means_returned:
  assumes ok: "limiter_ok m l" and stuck: "\<And>a. internal a \<Longrightarrow> perform a l = None" and c: "c \<in> set (lmCalls l)"
  shows "\<exists>r. rlPhase c = Returned r"
proof -
  obtain i where i: "i < length (lmCalls l)" "lmCalls l ! i = c" using c by (auto simp: in_set_conv_nth)
  have no_run: "\<not> in_phase Running j l" for j using finish_possible [OF ok, of j] stuck [of "Finish j"] by auto
  then have "running l = 0" unfolding running_def by (auto simp: in_phase_def in_set_conv_nth)
  then have "acquire i l \<noteq> None" using ok by (auto simp: limiter_ok_def New_limiter_def acquire_def Let_def)
  then have "rlPhase c \<noteq> Waiting" using stuck [of "Acquire i"] i by (auto simp: in_phase_def)
  moreover have "rlPhase c \<noteq> Running" using no_run [of i] i by (simp add: in_phase_def)
  ultimately show ?thesis by (cases "rlPhase c") auto
qed

section \<open>Properties\<close>

text \<open>
  C13: However the goroutines interleave, a limiter of n runs at most n functions at once, its channel holding
  exactly one value for each; a call returns the error of its context only when that context is done, and never
  with an unbounded limiter.
\<close>

theorem limiter_bounds:
  assumes "limiter_reachable m l"
  shows "(0 < m \<longrightarrow> running l \<le> nat m \<and> lmHeld l = running l) \<and>
    (\<forall>c \<in> set (lmCalls l). rlPhase c = Returned ContextError \<longrightarrow> 0 < m \<and> rlDone c)"
  using limiter_reachable_ok [OF assms] by (auto simp: limiter_ok_def)

text \<open>
  C23: Every call returns: the deferred receive of a running call never blocks; once no more calls arrive, the
  steps of Run are at most two for each call that has not returned; and a state in which no step of Run is
  possible is one in which every call has returned.
\<close>

theorem limiter_drains:
  assumes "limiter_reachable m l" and "performs as l = Some l'" and "list_all internal as"
  shows "length as \<le> pending l \<and> (\<forall>i. in_phase Running i l' \<longrightarrow> perform (Finish i) l' \<noteq> None) \<and>
    ((\<forall>a. internal a \<longrightarrow> perform a l' = None) \<longrightarrow> (\<forall>c \<in> set (lmCalls l'). \<exists>r. rlPhase c = Returned r))"
proof -
  have ok: "limiter_ok m l'"
    using limiter_reachable_ok [OF limiter_reachable_performs [OF assms(2,1)]] .
  have "length as \<le> pending l" using internal_bounded [OF assms(2,3)] by simp
  then show ?thesis using finish_possible [OF ok] stuck_means_returned [OF ok] by blast
qed

text \<open>Three calls on a limiter of one; the third finds its context done while it waits.\<close>

definition sample_schedule :: "fetch_action list" where
  "sample_schedule = [Arrive False, Arrive False, Acquire 0, Arrive False, Done 2]"

lemma sample_reachable: "\<exists>l. performs sample_schedule (New_limiter 1) = Some l \<and> limiter_reachable 1 l"
proof -
  obtain l where "performs sample_schedule (New_limiter 1) = Some l"
    by (simp add: sample_schedule_def New_limiter_def in_phase_def acquire_def set_call_def)
  then show ?thesis using limiter_reachable_performs limiter_reachable.start by blast
qed

theorem limiter_bounds_witness:
  "\<exists>l. performs sample_schedule (New_limiter 1) = Some l \<and> running l \<le> 1 \<and> lmHeld l = running l"
  using sample_reachable limiter_bounds [of 1] by fastforce

theorem limiter_drains_witness:
  "\<exists>l. performs sample_schedule (New_limiter 1) = Some l \<and>
     (\<exists>l'. performs [GiveUp 2, Finish 0, Acquire 1] l = Some l' \<and> perform (Finish 1) l' \<noteq> None)"
proof -
  obtain l where l: "performs sample_schedule (New_limiter 1) = Some l" "limiter_reachable 1 l" using sample_reachable by blast
  then obtain l' where l': "performs [GiveUp 2, Finish 0, Acquire 1] l = Some l'" "in_phase Running 1 l'"
    by (auto simp: sample_schedule_def New_limiter_def in_phase_def acquire_def set_call_def give_up_def finish_def numeral_2_eq_2)
  have "list_all internal [GiveUp 2, Finish 0, Acquire 1]" by simp
  from limiter_drains [OF l(2) l'(1) this] l' l show ?thesis by blast
qed

end
