(* ===== verification/Vulngate.thy ===== *)
theory Vulngate
  imports Prelude "HOL-Library.Product_Lexorder" "HOL-Library.Multiset"
begin

text \<open>
  The vulnerability gate of the releases (internal/vulngate): the reviewed exceptions and their dates
  (exceptions.go), the verdict (gate.go) and the reduction of the output of govulncheck and grype to findings
  (govulncheck.go, grype.go, scan.go). An instant is its nanoseconds since 1970 UTC; a scanner's output is the
  stream of objects it decodes to; the parse of an RFC 3339 date is a parameter.
\<close>

section \<open>Findings and dates\<close>

record finding =
  fiID :: string
  fiAliases :: "string list"
  fiArtifact :: string
  fiVersion :: string
  fiFixed :: string
  fiSeverity :: string
  fiBlocking :: bool
  fiReason :: string

record scan =
  snScanner :: string
  snVersion :: string
  snTarget :: string
  snBuilt :: int
  snFindings :: "finding list"

definition IDs :: "finding \<Rightarrow> string list" where
  "IDs f = fiID f # fiAliases f"

definition finding_key :: "finding \<Rightarrow> bool \<times> string \<times> string \<times> string" where
  "finding_key f = (\<not> fiBlocking f, fiArtifact f, fiID f, fiVersion f)"

definition sortFindings :: "finding list \<Rightarrow> finding list" where
  "sortFindings = sort_key finding_key"

record local_date =
  ldYear :: int
  ldMonth :: int
  ldDay :: int

text \<open>\<open>time.Date\<close>: months and days out of range carry over.\<close>

definition is_leap :: "int \<Rightarrow> bool" where
  "is_leap y \<longleftrightarrow> y mod 4 = 0 \<and> (y mod 100 \<noteq> 0 \<or> y mod 400 = 0)"

definition days_before_year :: "int \<Rightarrow> int" where
  "days_before_year y = 365 * (y - 1970) + ((y - 1) div 4 - (y - 1) div 100 + (y - 1) div 400 - 477)"

definition month_days :: "int list" where
  "month_days = [0, 31, 59, 90, 120, 151, 181, 212, 243, 273, 304, 334]"

definition days_before_month :: "int \<Rightarrow> int \<Rightarrow> int" where
  "days_before_month y m = month_days ! nat (m - 1) + (if is_leap y \<and> 2 < m then 1 else 0)"

definition date_days :: "int \<Rightarrow> int \<Rightarrow> int \<Rightarrow> int" where
  "date_days y m d =
     (let y' = y + (m - 1) div 12; m' = (m - 1) mod 12 + 1 in days_before_year y' + days_before_month y' m' + (d - 1))"

definition second_ns :: int where "second_ns = 1000000000"

definition day_ns :: int where "day_ns = 24 * 3600 * second_ns"

text \<open>\<open>Time.Sub\<close> saturates at the ends of Duration.\<close>

definition sub_time :: "int \<Rightarrow> int \<Rightarrow> int" where
  "sub_time t u = max (- (2 ^ 63)) (min (2 ^ 63 - 1) (t - u))"

section \<open>Exceptions\<close>

record exception =
  ecID :: string
  ecAliases :: "string list"
  ecArtifact :: string
  ecVersions :: "string list"
  ecJustification :: string
  ecOwner :: string
  ecExpires :: local_date

definition MaxExceptionTerm :: int where "MaxExceptionTerm = 90 * day_ns"

definition no_date :: local_date where "no_date = \<lparr>ldYear = 0, ldMonth = 0, ldDay = 0\<rparr>"

definition expiresAt :: "exception \<Rightarrow> int" where
  "expiresAt e = date_days (ldYear (ecExpires e)) (ldMonth (ecExpires e)) (ldDay (ecExpires e) + 1) * day_ns"

datatype problem = Missing string | Expired local_date | TooFarAhead local_date

definition missing_fields :: "exception \<Rightarrow> problem list" where
  "missing_fields e =
     map (\<lambda>f. Missing (fst f))
       (filter (\<lambda>f. snd f = []) [(''id'', ecID e), (''artifact'', ecArtifact e), (''justification'', ecJustification e), (''owner'', ecOwner e)])"

definition problems :: "exception \<Rightarrow> int \<Rightarrow> problem list" where
  "problems e now =
     (let out = missing_fields e @ (if ecVersions e = [] \<or> [] \<in> set (ecVersions e) then [Missing ''versions''] else [])
      in if ecExpires e = no_date then out @ [Missing ''expires'']
         else if \<not> now < expiresAt e then out @ [Expired (ecExpires e)]
         else if sub_time (expiresAt e) now > MaxExceptionTerm + day_ns then out @ [TooFarAhead (ecExpires e)]
         else out)"

definition covers :: "exception \<Rightarrow> finding \<Rightarrow> bool" where
  "covers e f \<longleftrightarrow> ecArtifact e = fiArtifact f \<and> fiVersion f \<in> set (ecVersions e) \<and>
     list_ex (\<lambda>i. i \<in> set (IDs f)) (ecID e # ecAliases e)"

definition orUnknown :: "string \<Rightarrow> string" where
  "orUnknown s = (if s = [] then ''unknown'' else s)"

definition label :: "exception \<Rightarrow> string" where
  "label e = (if ecID e = [] then ''exception for '' @ orUnknown (ecArtifact e) else ecID e @ '' in '' @ orUnknown (ecArtifact e))"

section \<open>The verdict\<close>

datatype failure = StaleDatabase string int | UnusableException string "problem list"

record gate_result =
  gaScan :: scan
  gaNow :: int
  gaMaxAge :: int
  gaBlocking :: "finding list"
  gaExcepted :: "(finding \<times> exception) list"
  gaAdvisory :: "finding list"
  gaFailures :: "failure list"

definition firstCovering :: "exception list \<Rightarrow> finding \<Rightarrow> exception option" where
  "firstCovering es f = find (\<lambda>e. covers e f) es"

definition stale_failures :: "scan \<Rightarrow> int \<Rightarrow> int \<Rightarrow> failure list" where
  "stale_failures s maxAge now =
     (let age = sub_time now (snBuilt s) in if age > maxAge then [StaleDatabase (snScanner s) age] else [])"

text \<open>The loop over the exceptions: the failures and the exceptions that can be used.\<close>

fun use_exceptions :: "int \<Rightarrow> exception list \<Rightarrow> failure list \<times> exception list" where
  "use_exceptions now [] = ([], [])"
| "use_exceptions now (e # es) =
     (case use_exceptions now es of
        (fs, valid) \<Rightarrow> if problems e now \<noteq> [] then (UnusableException (label e) (problems e now) # fs, valid) else (fs, e # valid))"

definition place_finding :: "exception list \<Rightarrow> finding \<Rightarrow> gate_result \<Rightarrow> gate_result" where
  "place_finding valid f r =
     (case firstCovering valid f of
        Some e \<Rightarrow> r\<lparr>gaExcepted := gaExcepted r @ [(f, e)]\<rparr>
      | None \<Rightarrow> if fiBlocking f then r\<lparr>gaBlocking := gaBlocking r @ [f]\<rparr> else r\<lparr>gaAdvisory := gaAdvisory r @ [f]\<rparr>)"

definition Evaluate_gate :: "scan \<Rightarrow> exception list \<Rightarrow> int \<Rightarrow> int \<Rightarrow> gate_result" where
  "Evaluate_gate s es maxAge now =
     (case use_exceptions now es of
        (fs, valid) \<Rightarrow>
          fold (place_finding valid) (snFindings s)
            \<lparr>gaScan = s, gaNow = now, gaMaxAge = maxAge, gaBlocking = [], gaExcepted = [], gaAdvisory = [],
             gaFailures = stale_failures s maxAge now @ fs\<rparr>)"

text \<open>The error of a failed gate, with the counts its text gives.\<close>

definition gate_Err :: "gate_result \<Rightarrow> (nat \<times> nat) option" where
  "gate_Err r =
     (if gaBlocking r \<noteq> [] \<or> gaFailures r \<noteq> [] then Some (length (gaBlocking r), length (gaFailures r)) else None)"

section \<open>govulncheck\<close>

record gv_config =
  gvScannerVersion :: string
  gvDBLastModified :: string
  gvGoVersion :: string
  gvScanLevel :: string
  gvScanMode :: string

record gv_osv =
  goID :: string
  goAliases :: "string list"

record gv_frame =
  gfModule :: string
  gfVersion :: string
  gfPackage :: string
  gfFunction :: string
  gfReceiver :: string

record gv_finding =
  ggOSV :: string
  ggFixedVersion :: string
  ggTrace :: "gv_frame list"

record gv_message =
  gmConfig :: "gv_config option"
  gmOSV :: "gv_osv option"
  gmFinding :: "gv_finding option"

record gv_reach =
  gxLevel :: nat
  gxFrame :: gv_frame
  gxFixed :: string
  gxOSV :: string

datatype scan_error =
    DecodeFailed | NoAdvisoryOrTrace | NoConfig | WrongLevel string | BadDate string
  | NotGrype string | NoDatabaseStatus | InvalidDatabase string

definition symbol :: "gv_frame \<Rightarrow> string" where
  "symbol f =
     (let name = (if gfReceiver f \<noteq> [] then trim_prefix ''*'' (gfReceiver f) @ ''.'' @ gfFunction f else gfFunction f)
      in gfPackage f @ ''.'' @ name)"

definition levelModule :: nat where "levelModule = 1"
definition levelPackage :: nat where "levelPackage = 2"
definition levelUnverified :: nat where "levelUnverified = 3"
definition levelSymbol :: nat where "levelSymbol = 4"

definition frame_level :: "gv_frame \<Rightarrow> nat" where
  "frame_level f =
     (if has_suffix ''*'' (gfFunction f) then levelUnverified
      else if gfFunction f \<noteq> [] then levelSymbol
      else if gfPackage f \<noteq> [] then levelPackage
      else levelModule)"

definition gv_key :: "string \<Rightarrow> gv_frame \<Rightarrow> string" where
  "gv_key osv f = osv @ NUL @ gfModule f @ NUL @ gfVersion f"

text \<open>The variables of the loop: the configuration, the advisories, the keys in order and the best evidence of each.\<close>

record gv_state =
  gsConfig :: "gv_config option"
  gsOSVs :: "string \<Rightarrow> gv_osv option"
  gsOrder :: "string list"
  gsBest :: "string \<Rightarrow> gv_reach option"

definition gv_start :: gv_state where
  "gv_start = \<lparr>gsConfig = None, gsOSVs = (\<lambda>_. None), gsOrder = [], gsBest = (\<lambda>_. None)\<rparr>"

definition note_finding :: "gv_finding \<Rightarrow> gv_state \<Rightarrow> gv_state" where
  "note_finding f s =
     (let frame = hd (ggTrace f); level = frame_level frame; key = gv_key (ggOSV f) frame;
          new = \<lparr>gxLevel = level, gxFrame = frame, gxFixed = ggFixedVersion f, gxOSV = ggOSV f\<rparr>
      in case gsBest s key of
           None \<Rightarrow> s\<lparr>gsOrder := gsOrder s @ [key], gsBest := (gsBest s)(key \<mapsto> new)\<rparr>
         | Some prev \<Rightarrow> if level > gxLevel prev then s\<lparr>gsBest := (gsBest s)(key \<mapsto> new)\<rparr> else s)"

text \<open>One object of the stream, none when it does not decode.\<close>

fun read_messages :: "gv_message option list \<Rightarrow> gv_state \<Rightarrow> scan_error + gv_state" where
  "read_messages [] s = Inr s"
| "read_messages (None # ms) s = Inl DecodeFailed"
| "read_messages (Some msg # ms) s =
     (case gmConfig msg of
        Some c \<Rightarrow> read_messages ms (s\<lparr>gsConfig := Some c\<rparr>)
      | None \<Rightarrow> (case gmOSV msg of
          Some v \<Rightarrow> read_messages ms (s\<lparr>gsOSVs := (gsOSVs s)(goID v \<mapsto> v)\<rparr>)
        | None \<Rightarrow> (case gmFinding msg of
            None \<Rightarrow> read_messages ms s
          | Some f \<Rightarrow> if ggOSV f = [] \<or> ggTrace f = [] then Inl NoAdvisoryOrTrace else read_messages ms (note_finding f s))))"

definition reach_finding :: "(string \<Rightarrow> gv_osv option) \<Rightarrow> gv_reach \<Rightarrow> finding" where
  "reach_finding osvs b =
     \<lparr>fiID = gxOSV b, fiAliases = (case osvs (gxOSV b) of None \<Rightarrow> [] | Some v \<Rightarrow> goAliases v),
      fiArtifact = gfModule (gxFrame b), fiVersion = gfVersion (gxFrame b), fiFixed = gxFixed b, fiSeverity = [],
      fiBlocking = (gxLevel b = levelSymbol),
      fiReason =
        (if gxLevel b = levelSymbol then symbol (gxFrame b) @ '' is reachable''
         else if gxLevel b = levelUnverified
         then gfPackage (gxFrame b) @ '' may be linked; a stripped binary cannot show it, so the source scan decides''
         else if gxLevel b = levelPackage then ''package imported, vulnerable code not called''
         else ''module required, vulnerable package not imported'')\<rparr>"

definition cut_suffix :: "string \<Rightarrow> string \<Rightarrow> string" where
  "cut_suffix suf s = (if has_suffix suf s then take (length s - length suf) s else s)"

definition ParseGovulncheck :: "(string \<Rightarrow> int option) \<Rightarrow> gv_message option list \<Rightarrow> scan_error + scan" where
  "ParseGovulncheck rfc3339 ms =
     (case read_messages ms gv_start of
        Inl e \<Rightarrow> Inl e
      | Inr s \<Rightarrow>
          (case gsConfig s of
             None \<Rightarrow> Inl NoConfig
           | Some cfg \<Rightarrow>
               if gvScanLevel cfg \<noteq> ''symbol'' then Inl (WrongLevel (gvScanLevel cfg))
               else (case rfc3339 (gvDBLastModified cfg) of
                       None \<Rightarrow> Inl (BadDate (gvDBLastModified cfg))
                     | Some built \<Rightarrow>
                         Inr \<lparr>snScanner = ''govulncheck'', snVersion = gvScannerVersion cfg,
                           snTarget = cut_suffix '', '' (gvScanMode cfg @ '' scan, '' @ gvGoVersion cfg), snBuilt = built,
                           snFindings = sortFindings (map (\<lambda>k. reach_finding (gsOSVs s) (the (gsBest s k))) (gsOrder s))\<rparr>)))"

section \<open>grype\<close>

record grype_status =
  gyBuilt :: string
  gyValid :: bool
  gyError :: string

record grype_match =
  gyID :: string
  gySeverity :: string
  gyFixVersions :: "string list"
  gyFixState :: string
  gyRelated :: "string list"
  gyName :: string
  gyVersion :: string

record grype_document =
  gyMatches :: "grype_match list"
  gySource :: "(string \<times> string) option"
  gyDescriptor :: string
  gyDescriptorVersion :: string
  gyStatus :: "grype_status option"

definition grype_key :: "grype_match \<Rightarrow> string" where
  "grype_key m = gyID m @ NUL @ gyName m @ NUL @ gyVersion m"

definition high_or_critical :: "grype_match \<Rightarrow> bool" where
  "high_or_critical m \<longleftrightarrow> gySeverity m = ''High'' \<or> gySeverity m = ''Critical''"

definition grype_finding :: "grype_match \<Rightarrow> finding" where
  "grype_finding m =
     (let fixed = (gyFixState m = ''fixed'')
      in \<lparr>fiID = gyID m, fiAliases = filter (\<lambda>i. i \<noteq> gyID m) (gyRelated m), fiArtifact = gyName m, fiVersion = gyVersion m,
          fiFixed = str_join '', '' (gyFixVersions m), fiSeverity = gySeverity m, fiBlocking = (high_or_critical m \<and> fixed),
          fiReason =
            (if high_or_critical m \<and> fixed then ''fixable '' @ gySeverity m
             else if high_or_critical m then gySeverity m @ '', no fix ('' @ orUnknown (gyFixState m) @ '')''
             else orUnknown (gySeverity m) @ '' severity is below the gate'')\<rparr>)"

text \<open>The document is none when the output does not decode.\<close>

definition ParseGrype :: "(string \<Rightarrow> int option) \<Rightarrow> grype_document option \<Rightarrow> scan_error + scan" where
  "ParseGrype rfc3339 doc =
     (case doc of
        None \<Rightarrow> Inl DecodeFailed
      | Some d \<Rightarrow>
          if gyDescriptor d \<noteq> ''grype'' then Inl (NotGrype (gyDescriptor d))
          else (case gyStatus d of
                  None \<Rightarrow> Inl NoDatabaseStatus
                | Some st \<Rightarrow>
                    if \<not> gyValid st then Inl (InvalidDatabase (gyError st))
                    else (case rfc3339 (gyBuilt st) of
                            None \<Rightarrow> Inl (BadDate (gyBuilt st))
                          | Some built \<Rightarrow>
                              Inr \<lparr>snScanner = ''grype'', snVersion = gyDescriptorVersion d,
                                snTarget = (case gySource d of None \<Rightarrow> [] | Some (t, u) \<Rightarrow> t @ '' '' @ u), snBuilt = built,
                                snFindings = sortFindings (map grype_finding (first_by grype_key [] (gyMatches d)))\<rparr>)))"

section \<open>Lemmas on the verdict\<close>

lemma use_exceptions_eq:
  "use_exceptions now es =
     (map (\<lambda>e. UnusableException (label e) (problems e now)) (filter (\<lambda>e. problems e now \<noteq> []) es),
      filter (\<lambda>e. problems e now = []) es)"
  by (induction es) simp_all

lemma place_findings:
  "gaBlocking (fold (place_finding valid) fs r) =
     gaBlocking r @ filter (\<lambda>f. fiBlocking f \<and> firstCovering valid f = None) fs"
  "gaAdvisory (fold (place_finding valid) fs r) =
     gaAdvisory r @ filter (\<lambda>f. \<not> fiBlocking f \<and> firstCovering valid f = None) fs"
  "gaExcepted (fold (place_finding valid) fs r) =
     gaExcepted r @ List.map_filter (\<lambda>f. map_option (\<lambda>e. (f, e)) (firstCovering valid f)) fs"
  "gaFailures (fold (place_finding valid) fs r) = gaFailures r"
  by (induction fs arbitrary: r) (auto simp: place_finding_def map_filter_simps split: option.split)

lemma firstCovering_None: "firstCovering es f = None \<longleftrightarrow> (\<forall>e \<in> set es. \<not> covers e f)"
  by (auto simp: firstCovering_def find_None_iff)

lemma firstCovering_Some: "firstCovering es f = Some e \<Longrightarrow> e \<in> set es \<and> covers e f"
  by (auto simp: firstCovering_def find_Some_iff)

lemma mset_place:
  "mset (filter (\<lambda>f. P f \<and> c f = None) fs) + mset (map fst (List.map_filter (\<lambda>f. map_option (\<lambda>e. (f, e)) (c f)) fs)) +
   mset (filter (\<lambda>f. \<not> P f \<and> c f = None) fs) = mset fs"
  by (induction fs) (auto simp: map_filter_simps split: option.split)

lemma set_accepted: "(f, e) \<in> set (List.map_filter (\<lambda>f. map_option (\<lambda>e. (f, e)) (c f)) fs) \<longleftrightarrow> f \<in> set fs \<and> c f = Some e"
  by (induction fs) (auto simp: map_filter_simps split: option.split)

section \<open>Properties of the verdict\<close>

text \<open>
  C12: The gate passes exactly when the database is fresh, every exception can be used and every blocking finding is
  covered by an exception; and nothing is dropped: the blocking, the accepted and the advisory findings are together
  those of the scan, each accepted one with an exception in force that covers it.
\<close>

theorem gate_sound:
  assumes "r = Evaluate_gate s es maxAge now"
  shows "(gate_Err r = None \<longleftrightarrow> sub_time now (snBuilt s) \<le> maxAge \<and> (\<forall>e \<in> set es. problems e now = []) \<and>
      (\<forall>f \<in> set (snFindings s). fiBlocking f \<longrightarrow> (\<exists>e \<in> set es. covers e f))) \<and>
    mset (gaBlocking r) + mset (map fst (gaExcepted r)) + mset (gaAdvisory r) = mset (snFindings s) \<and>
    (\<forall>(f, e) \<in> set (gaExcepted r). e \<in> set es \<and> problems e now = [] \<and> covers e f)"
proof -
  let ?v = "filter (\<lambda>e. problems e now = []) es"
  have b: "gaBlocking r = filter (\<lambda>f. fiBlocking f \<and> firstCovering ?v f = None) (snFindings s)"
    and a: "gaAdvisory r = filter (\<lambda>f. \<not> fiBlocking f \<and> firstCovering ?v f = None) (snFindings s)"
    and x: "gaExcepted r = List.map_filter (\<lambda>f. map_option (\<lambda>e. (f, e)) (firstCovering ?v f)) (snFindings s)"
    and fl: "gaFailures r = stale_failures s maxAge now @
      map (\<lambda>e. UnusableException (label e) (problems e now)) (filter (\<lambda>e. problems e now \<noteq> []) es)"
    by (simp_all add: assms Evaluate_gate_def use_exceptions_eq place_findings)
  have f0: "gaFailures r = [] \<longleftrightarrow> sub_time now (snBuilt s) \<le> maxAge \<and> (\<forall>e \<in> set es. problems e now = [])"
    by (auto simp: fl stale_failures_def Let_def filter_empty_conv)
  have "gaBlocking r = [] \<longleftrightarrow> (\<forall>f \<in> set (snFindings s). fiBlocking f \<longrightarrow> (\<exists>e \<in> set es. covers e f))"
    if "\<forall>e \<in> set es. problems e now = []"
    using that by (auto simp: b filter_empty_conv firstCovering_None)
  with f0 have "gate_Err r = None \<longleftrightarrow> sub_time now (snBuilt s) \<le> maxAge \<and> (\<forall>e \<in> set es. problems e now = []) \<and>
      (\<forall>f \<in> set (snFindings s). fiBlocking f \<longrightarrow> (\<exists>e \<in> set es. covers e f))"
    by (auto simp: gate_Err_def)
  moreover have "mset (gaBlocking r) + mset (map fst (gaExcepted r)) + mset (gaAdvisory r) = mset (snFindings s)"
    unfolding a b x by (rule mset_place)
  moreover have "\<forall>(f, e) \<in> set (gaExcepted r). e \<in> set es \<and> problems e now = [] \<and> covers e f"
    by (auto simp: x set_accepted dest!: firstCovering_Some)
  ultimately show ?thesis by blast
qed

section \<open>Dates\<close>

definition valid_date :: "local_date \<Rightarrow> bool" where
  "valid_date d \<longleftrightarrow> 1 \<le> ldMonth d \<and> ldMonth d \<le> 12 \<and> 1 \<le> ldDay d \<and>
     ldDay d \<le> (if ldMonth d = 2 then if is_leap (ldYear d) then 29 else 28 else if ldMonth d \<in> {4, 6, 9, 11} then 30 else 31)"

lemma leap_count:
  fixes A B C :: bool
  assumes "C \<longrightarrow> B" and "B \<longrightarrow> A"
  shows "(if A then 1 else 0) - (if B then 1 else 0) + (if C then 1 else 0) = (if A \<and> (\<not> B \<or> C) then 1 else (0 :: int))"
  using assms by (cases A; cases B; cases C) simp_all

lemma year_length: "days_before_year (y + 1) = days_before_year y + (if is_leap y then 366 else 365)"
proof -
  have d: "y div k - (y - 1) div k = (if y mod k = 0 then 1 else 0)" if "0 < k" for k :: int
  proof (cases "y mod k = 0")
    case True
    define q where "q = y div k"
    have "y = k * q" using True mult_div_mod_eq [of k y] by (simp add: q_def)
    then have "y - 1 = k * (q - 1) + (k - 1)" by (simp add: algebra_simps)
    then have "(y - 1) div k = q - 1" by (rule int_div_pos_eq) (use that in simp_all)
    with True show ?thesis by (simp add: q_def)
  next
    case False
    have e: "y - 1 = k * (y div k) + (y mod k - 1)" using mult_div_mod_eq [of k y] by linarith
    have "0 \<le> y mod k" "y mod k < k" using that by simp_all
    with False have "0 \<le> y mod k - 1" "y mod k - 1 < k" by linarith+
    from int_div_pos_eq [OF e this] show ?thesis using False by (simp only: if_False diff_self)
  qed
  have regroup: "365 * (y + 1 - 1970) + (a - b + c - 477) =
      365 * (y - 1970) + (a' - b' + c' - 477) + 365 + ((a - a') - (b - b') + (c - c'))" for a b c a' b' c' :: int
    by (simp add: algebra_simps)
  have "days_before_year (y + 1) = days_before_year y + 365 +
      ((y div 4 - (y - 1) div 4) - (y div 100 - (y - 1) div 100) + (y div 400 - (y - 1) div 400))"
    unfolding days_before_year_def add_diff_cancel_right' by (rule regroup)
  moreover have "(y div 4 - (y - 1) div 4) - (y div 100 - (y - 1) div 100) + (y div 400 - (y - 1) div 400) = (if is_leap y then 1 else 0)"
  proof -
    have d4: "y div 4 - (y - 1) div 4 = (if y mod 4 = 0 then 1 else 0)"
      and d100: "y div 100 - (y - 1) div 100 = (if y mod 100 = 0 then 1 else 0)"
      and d400: "y div 400 - (y - 1) div 400 = (if y mod 400 = 0 then 1 else 0)" by (rule d, simp)+
    have "y mod 400 = 0 \<longrightarrow> y mod 100 = 0" "y mod 100 = 0 \<longrightarrow> y mod 4 = 0" by presburger+
    then show ?thesis unfolding d4 d100 d400 is_leap_def by (rule leap_count)
  qed
  ultimately show ?thesis by simp
qed

lemma years_apart: "y < y' \<Longrightarrow> days_before_year (y + 1) \<le> days_before_year y'"
proof (induction y' rule: int_gr_induct [of y])
  case (step i)
  then show ?case using year_length [of i] by (simp split: if_splits)
qed (simp_all add: )

lemma month_cases: "1 \<le> m \<Longrightarrow> m \<le> 12 \<Longrightarrow> m \<in> {1, 2, 3, 4, 5, 6, 7, 8, 9, 10, 11, 12 :: int}"
  by simp presburger

definition month_length :: "int \<Rightarrow> int \<Rightarrow> int" where
  "month_length y m = (if m = 2 then if is_leap y then 29 else 28 else if m \<in> {4, 6, 9, 11} then 30 else 31)"

lemma month_step: "1 \<le> m \<Longrightarrow> m \<le> 11 \<Longrightarrow> days_before_month y (m + 1) = days_before_month y m + month_length y m"
  using month_cases [of m]
  by simp (elim disjE; simp add: days_before_month_def month_days_def month_length_def)

lemma months_apart:
  assumes "1 \<le> m" and "m < m'" and "m' \<le> 12"
  shows "days_before_month y m + month_length y m \<le> days_before_month y m'"
  using assms(2,3)
proof (induction m' rule: int_gr_induct)
  case base
  then show ?case using month_step [of m y] assms(1) by simp
next
  case (step i)
  have "0 \<le> month_length y i" by (simp add: month_length_def)
  then show ?case using step month_step [of i y] assms(1) by simp
qed

definition year_day :: "local_date \<Rightarrow> int" where
  "year_day d = days_before_month (ldYear d) (ldMonth d) + (ldDay d - 1)"

lemma year_day_range:
  assumes "valid_date d"
  shows "0 \<le> year_day d" and "days_before_year (ldYear d) + year_day d < days_before_year (ldYear d + 1)"
proof -
  have m: "1 \<le> ldMonth d" "ldMonth d \<le> 12" "1 \<le> ldDay d" "ldDay d \<le> month_length (ldYear d) (ldMonth d)"
    using assms by (auto simp: valid_date_def month_length_def)
  have "days_before_month (ldYear d) 1 = 0" by (simp add: days_before_month_def month_days_def)
  then show "0 \<le> year_day d"
    using months_apart [of 1 "ldMonth d" "ldYear d"] m by (cases "ldMonth d = 1") (auto simp: year_day_def month_length_def)
  have "days_before_month (ldYear d) 12 + month_length (ldYear d) 12 = (if is_leap (ldYear d) then 366 else 365)"
    by (simp add: days_before_month_def month_days_def month_length_def nth_Cons')
  moreover have "days_before_month (ldYear d) (ldMonth d) + month_length (ldYear d) (ldMonth d) \<le>
      days_before_month (ldYear d) 12 + month_length (ldYear d) 12"
    using months_apart [of "ldMonth d" 12 "ldYear d"] m by (cases "ldMonth d = 12") (auto simp: month_length_def)
  ultimately show "days_before_year (ldYear d) + year_day d < days_before_year (ldYear d + 1)"
    using m by (simp add: year_day_def year_length)
qed

lemma date_days_valid:
  assumes "valid_date d"
  shows "date_days (ldYear d) (ldMonth d) (ldDay d + k) = days_before_year (ldYear d) + year_day d + k"
proof -
  have "(ldMonth d - 1) div 12 = 0" "(ldMonth d - 1) mod 12 = ldMonth d - 1"
    using assms by (auto simp: valid_date_def div_pos_pos_trivial mod_pos_pos_trivial)
  then show ?thesis by (simp add: date_days_def year_day_def Let_def)
qed

lemma expiresAt_valid:
  "valid_date (ecExpires e) \<Longrightarrow>
     expiresAt e = (days_before_year (ldYear (ecExpires e)) + year_day (ecExpires e) + 1) * day_ns"
  by (simp add: expiresAt_def date_days_valid)

definition date_key :: "local_date \<Rightarrow> int \<times> int \<times> int" where
  "date_key d = (ldYear d, ldMonth d, ldDay d)"

lemma days_less:
  assumes d: "valid_date d" and d': "valid_date d'" and less: "date_key d < date_key d'"
  shows "days_before_year (ldYear d) + year_day d < days_before_year (ldYear d') + year_day d'"
proof -
  consider "ldYear d < ldYear d'" | "ldYear d = ldYear d'" "ldMonth d < ldMonth d'"
    | "ldYear d = ldYear d'" "ldMonth d = ldMonth d'" "ldDay d < ldDay d'"
    using less by (auto simp: date_key_def le_less)
  then show ?thesis
  proof cases
    case 1
    then show ?thesis using year_day_range(2) [OF d] year_day_range(1) [OF d'] years_apart [OF 1] by simp
  next
    case 2
    have "ldDay d \<le> month_length (ldYear d) (ldMonth d)" "1 \<le> ldDay d'" "1 \<le> ldMonth d" "ldMonth d' \<le> 12"
      using d d' by (auto simp: valid_date_def month_length_def)
    then show ?thesis using 2 months_apart [of "ldMonth d" "ldMonth d'" "ldYear d"] by (simp add: year_day_def)
  next
    case 3
    then show ?thesis by (simp add: year_day_def)
  qed
qed

section \<open>Properties of the exceptions\<close>

text \<open>
  An exception without missing fields can be used exactly during the ninety-one days that end with its expiry day,
  whatever the clock says before or after, also where the difference of two instants saturates.
\<close>

theorem exception_window:
  assumes "problems e now = []"
  shows "problems e t = [] \<longleftrightarrow> expiresAt e - (MaxExceptionTerm + day_ns) \<le> t \<and> t < expiresAt e"
proof -
  have "missing_fields e = []" "\<not> (ecVersions e = [] \<or> [] \<in> set (ecVersions e))" "ecExpires e \<noteq> no_date"
    using assms by (auto simp: problems_def Let_def split: if_splits)
  then have "problems e t = [] \<longleftrightarrow> t < expiresAt e \<and> \<not> sub_time (expiresAt e) t > MaxExceptionTerm + day_ns"
    by (simp add: problems_def)
  moreover have "sub_time (expiresAt e) t > MaxExceptionTerm + day_ns \<longleftrightarrow> expiresAt e - t > MaxExceptionTerm + day_ns"
    by (auto simp: sub_time_def MaxExceptionTerm_def day_ns_def second_ns_def)
  ultimately show ?thesis by auto
qed

text \<open>
  A later calendar date expires later, leap years included, by a whole number of days: the instants are ordered
  as the dates are by year, month and day.
\<close>

theorem dates_ordered:
  assumes "valid_date (ecExpires e)" and "valid_date (ecExpires e')"
  shows "(expiresAt e < expiresAt e' \<longleftrightarrow> date_key (ecExpires e) < date_key (ecExpires e')) \<and>
    (\<exists>n. expiresAt e' - expiresAt e = n * day_ns)"
proof -
  let ?n = "\<lambda>e. days_before_year (ldYear (ecExpires e)) + year_day (ecExpires e)"
  have pos: "0 < day_ns" by (simp add: day_ns_def second_ns_def)
  have eq: "expiresAt e < expiresAt e' \<longleftrightarrow> ?n e < ?n e'"
    using assms by (simp only: expiresAt_valid mult_less_cancel_right_pos [OF pos]) (simp add: add1_zle_eq)
  have "?n e < ?n e'" if "date_key (ecExpires e) < date_key (ecExpires e')" by (rule days_less [OF assms that])
  moreover have "?n e' < ?n e" if "date_key (ecExpires e') < date_key (ecExpires e)" by (rule days_less [OF assms(2,1) that])
  moreover have "?n e = ?n e'" if "date_key (ecExpires e) = date_key (ecExpires e')"
    using that by (simp add: date_key_def year_day_def)
  ultimately have "expiresAt e < expiresAt e' \<longleftrightarrow> date_key (ecExpires e) < date_key (ecExpires e')"
    unfolding eq by (metis less_asym less_irrefl linorder_less_linear)
  moreover have "expiresAt e' - expiresAt e = (?n e' - ?n e) * day_ns" using assms by (simp add: expiresAt_valid algebra_simps)
  ultimately show ?thesis by blast
qed

text \<open>An exception until the end of February in a leap year, one until the first of March, and instants in 2028.\<close>

definition sample_exception :: exception where
  "sample_exception = \<lparr>ecID = ''CVE-1'', ecAliases = [], ecArtifact = ''stdlib'', ecVersions = [''v1.26.0''],
     ecJustification = ''not reachable'', ecOwner = ''ops'', ecExpires = \<lparr>ldYear = 2028, ldMonth = 2, ldDay = 29\<rparr>\<rparr>"

definition in_2028 :: "int \<Rightarrow> int" where
  "in_2028 day = (days_before_year 2028 + day) * day_ns"

theorem exception_window_witness:
  "problems sample_exception (in_2028 59) = [] \<and> problems sample_exception (in_2028 60) \<noteq> []"
proof -
  have a: "problems sample_exception (in_2028 40) = []" by code_simp
  have "expiresAt sample_exception = in_2028 60" by code_simp
  moreover have "in_2028 60 - (MaxExceptionTerm + day_ns) \<le> in_2028 59" "in_2028 59 < in_2028 60" by code_simp+
  ultimately show ?thesis
    using exception_window [OF a, of "in_2028 59"] exception_window [OF a, of "in_2028 60"] by simp
qed

theorem dates_ordered_witness:
  "expiresAt sample_exception < expiresAt (sample_exception\<lparr>ecExpires := \<lparr>ldYear = 2028, ldMonth = 3, ldDay = 1\<rparr>\<rparr>)"
proof -
  let ?e = "sample_exception\<lparr>ecExpires := \<lparr>ldYear = 2028, ldMonth = 3, ldDay = 1\<rparr>\<rparr>"
  have "valid_date (ecExpires sample_exception)" "valid_date (ecExpires ?e)"
    "date_key (ecExpires sample_exception) < date_key (ecExpires ?e)"
    by (simp_all add: sample_exception_def valid_date_def is_leap_def date_key_def)
  then show ?thesis using dates_ordered [of sample_exception ?e] by blast
qed

definition sample_finding :: "string \<Rightarrow> finding" where
  "sample_finding i = \<lparr>fiID = i, fiAliases = [''CVE-1''], fiArtifact = ''stdlib'', fiVersion = ''v1.26.0'', fiFixed = [],
     fiSeverity = [], fiBlocking = True, fiReason = []\<rparr>"

definition sample_scan :: scan where
  "sample_scan = \<lparr>snScanner = ''govulncheck'', snVersion = [], snTarget = [], snBuilt = in_2028 39,
     snFindings = [sample_finding ''GO-1'']\<rparr>"

theorem gate_sound_witness:
  "gate_Err (Evaluate_gate sample_scan [sample_exception] day_ns (in_2028 40)) = None"
proof -
  have "sub_time (in_2028 40) (snBuilt sample_scan) \<le> day_ns" "problems sample_exception (in_2028 40) = []"
    "covers sample_exception (sample_finding ''GO-1'')" by code_simp+
  then show ?thesis
    using gate_sound [OF refl, of sample_scan "[sample_exception]" day_ns "in_2028 40"] by (simp add: sample_scan_def)
qed

section \<open>What a scanner's output says\<close>

fun stream_findings :: "gv_message option list \<Rightarrow> gv_finding list" where
  "stream_findings [] = []"
| "stream_findings (None # ms) = []"
| "stream_findings (Some msg # ms) =
     (if gmConfig msg = None \<and> gmOSV msg = None then (case gmFinding msg of None \<Rightarrow> [] | Some f \<Rightarrow> [f]) else []) @ stream_findings ms"

definition reported_key :: "gv_finding \<Rightarrow> string" where
  "reported_key f = gv_key (ggOSV f) (hd (ggTrace f))"

definition reported_level :: "gv_finding \<Rightarrow> nat" where
  "reported_level f = frame_level (hd (ggTrace f))"

definition key_of_finding :: "finding \<Rightarrow> string" where
  "key_of_finding f = fiID f @ NUL @ fiArtifact f @ NUL @ fiVersion f"

definition reach_of :: "gv_finding \<Rightarrow> gv_reach" where
  "reach_of f = \<lparr>gxLevel = reported_level f, gxFrame = hd (ggTrace f), gxFixed = ggFixedVersion f, gxOSV = ggOSV f\<rparr>"

text \<open>After the findings \<open>fs\<close>, each key has the first of the strongest evidence for it.\<close>

definition best_of :: "gv_finding list \<Rightarrow> gv_state \<Rightarrow> bool" where
  "best_of fs s \<longleftrightarrow> distinct (gsOrder s) \<and> set (gsOrder s) = reported_key ` set fs \<and>
     (\<forall>k. k \<notin> set (gsOrder s) \<longrightarrow> gsBest s k = None) \<and>
     (\<forall>k \<in> set (gsOrder s). \<exists>f \<in> set fs. reported_key f = k \<and> gsBest s k = Some (reach_of f) \<and>
        (\<forall>g \<in> set fs. reported_key g = k \<longrightarrow> reported_level g \<le> reported_level f))"

lemma note_finding_best:
  assumes "best_of fs s"
  shows "best_of (fs @ [f]) (note_finding f s)"
proof -
  let ?k = "reported_key f"
  have new: "\<lparr>gxLevel = frame_level (hd (ggTrace f)), gxFrame = hd (ggTrace f), gxFixed = ggFixedVersion f, gxOSV = ggOSV f\<rparr> = reach_of f"
    by (simp add: reach_of_def reported_level_def)
  show ?thesis
  proof (cases "?k \<in> set (gsOrder s)")
    case False
    then have "gsBest s ?k = None" "?k \<notin> reported_key ` set fs" using assms by (auto simp: best_of_def)
    then have n: "note_finding f s = s\<lparr>gsOrder := gsOrder s @ [?k], gsBest := (gsBest s)(?k \<mapsto> reach_of f)\<rparr>"
      using new by (simp add: note_finding_def Let_def reported_key_def)
    show ?thesis using assms False unfolding n best_of_def by (auto 0 4)
  next
    case True
    then obtain h where h: "h \<in> set fs" "reported_key h = ?k" "gsBest s ?k = Some (reach_of h)"
      "\<And>g. g \<in> set fs \<Longrightarrow> reported_key g = ?k \<Longrightarrow> reported_level g \<le> reported_level h"
      using assms unfolding best_of_def by blast
    have n: "note_finding f s =
        (if reported_level f > reported_level h then s\<lparr>gsBest := (gsBest s)(?k \<mapsto> reach_of f)\<rparr> else s)"
      using h(3) new by (simp add: note_finding_def Let_def reported_key_def reach_of_def reported_level_def)
    define b where "b = (if reported_level f > reported_level h then f else h)"
    have b: "b \<in> set (fs @ [f])" "reported_key b = ?k" "gsBest (note_finding f s) ?k = Some (reach_of b)"
      using h(1,2,3) by (auto simp: n b_def)
    have max: "reported_level g \<le> reported_level b" if "g \<in> set (fs @ [f])" "reported_key g = ?k" for g
      using h(4) [of g] that by (auto simp: b_def)
    have same: "gsOrder (note_finding f s) = gsOrder s" "k \<noteq> ?k \<Longrightarrow> gsBest (note_finding f s) k = gsBest s k" for k
      by (simp_all add: n)
    have "\<exists>g \<in> set (fs @ [f]). reported_key g = k \<and> gsBest (note_finding f s) k = Some (reach_of g) \<and>
        (\<forall>g' \<in> set (fs @ [f]). reported_key g' = k \<longrightarrow> reported_level g' \<le> reported_level g)"
      if k: "k \<in> set (gsOrder s)" for k
    proof (cases "k = ?k")
      case True
      then show ?thesis using b max by (intro bexI [of _ b]) auto
    next
      case False
      from k obtain g where "g \<in> set fs" "reported_key g = k" "gsBest s k = Some (reach_of g)"
        "\<forall>g' \<in> set fs. reported_key g' = k \<longrightarrow> reported_level g' \<le> reported_level g"
        using assms unfolding best_of_def by blast
      then show ?thesis using False same(2) [OF False] by (intro bexI [of _ g]) auto
    qed
    moreover have "set (gsOrder s) = reported_key ` set (fs @ [f])" "distinct (gsOrder s)"
      "k \<notin> set (gsOrder s) \<Longrightarrow> gsBest (note_finding f s) k = None" for k
      using True assms same(2) [of k] by (auto simp: best_of_def)
    ultimately show ?thesis unfolding best_of_def same(1) by blast
  qed
qed

lemma read_messages_best:
  "read_messages ms s = Inr s' \<Longrightarrow> best_of fs s \<Longrightarrow> best_of (fs @ stream_findings ms) s'"
proof (induction ms s arbitrary: fs rule: read_messages.induct)
  case (3 msg ms s)
  have unrelated: "best_of fs (s\<lparr>gsConfig := c\<rparr>)" "best_of fs (s\<lparr>gsOSVs := v\<rparr>)" for c v
    using 3(6) by (simp_all add: best_of_def)
  show ?case
  proof (cases "gmConfig msg")
    case (Some c)
    with 3(5) have "read_messages ms (s\<lparr>gsConfig := Some c\<rparr>) = Inr s'" by simp
    from 3(4) [OF Some this unrelated(1)] Some show ?thesis by simp
  next
    case None
    note c = this
    show ?thesis
    proof (cases "gmOSV msg")
      case (Some v)
      with 3(5) c have "read_messages ms (s\<lparr>gsOSVs := (gsOSVs s)(goID v \<mapsto> v)\<rparr>) = Inr s'" by simp
      from 3(3) [OF c Some this unrelated(2)] Some show ?thesis by simp
    next
      case None
      show ?thesis
      proof (cases "gmFinding msg")
        case (Some f)
        with 3(5) c None have f: "\<not> (ggOSV f = [] \<or> ggTrace f = [])" "read_messages ms (note_finding f s) = Inr s'"
          by (auto split: if_splits)
        from 3(2) [OF c None Some f note_finding_best [OF 3(6)]] Some c None show ?thesis by simp
      next
        case none: None
        with 3(5) c None have "read_messages ms s = Inr s'" by simp
        from 3(1) [OF c None none this 3(6)] none c None show ?thesis by simp
      qed
    qed
  qed
qed simp_all

lemma frame_level_max: "frame_level f \<le> levelSymbol"
  by (simp add: frame_level_def levelModule_def levelPackage_def levelUnverified_def levelSymbol_def)

lemma frame_level_symbol:
  "frame_level f = levelSymbol \<longleftrightarrow> gfFunction f \<noteq> [] \<and> \<not> has_suffix ''*'' (gfFunction f)"
  by (simp add: frame_level_def levelModule_def levelPackage_def levelUnverified_def levelSymbol_def)

text \<open>A finding of the stream that names a symbol the program reaches.\<close>

definition reaches_symbol :: "gv_finding \<Rightarrow> bool" where
  "reaches_symbol f \<longleftrightarrow> gfFunction (hd (ggTrace f)) \<noteq> [] \<and> \<not> has_suffix ''*'' (gfFunction (hd (ggTrace f)))"

text \<open>
  The findings of a govulncheck scan are exactly the advisories of its stream, one for each advisory, module and
  version however often the stream reports it; and one blocks exactly when some report of it reaches a symbol, a
  wildcard in a stripped binary not counting, whatever the order of the reports.
\<close>

theorem govulncheck_exact:
  assumes "ParseGovulncheck rfc3339 ms = Inr s"
  shows "distinct (map key_of_finding (snFindings s)) \<and>
    key_of_finding ` set (snFindings s) = reported_key ` set (stream_findings ms) \<and>
    (\<forall>f \<in> set (snFindings s). fiBlocking f \<longleftrightarrow>
       (\<exists>g \<in> set (stream_findings ms). reported_key g = key_of_finding f \<and> reaches_symbol g))"
proof -
  obtain g where g: "read_messages ms gv_start = Inr g"
    and s: "snFindings s = sortFindings (map (\<lambda>k. reach_finding (gsOSVs g) (the (gsBest g k))) (gsOrder g))"
    using assms by (auto simp: ParseGovulncheck_def split: sum.splits option.splits if_splits)
  let ?F = "\<lambda>k. reach_finding (gsOSVs g) (the (gsBest g k))"
  have "best_of [] gv_start" by (simp add: best_of_def gv_start_def)
  from read_messages_best [OF g this] have b: "best_of (stream_findings ms) g" by simp
  then have o: "distinct (gsOrder g)" "set (gsOrder g) = reported_key ` set (stream_findings ms)" by (simp_all add: best_of_def)
  have each: "key_of_finding (?F k) = k \<and> (fiBlocking (?F k) \<longleftrightarrow>
      (\<exists>h \<in> set (stream_findings ms). reported_key h = k \<and> reaches_symbol h))" if k: "k \<in> set (gsOrder g)" for k
  proof -
    obtain f where f: "f \<in> set (stream_findings ms)" "reported_key f = k" "gsBest g k = Some (reach_of f)"
      "\<And>h. h \<in> set (stream_findings ms) \<Longrightarrow> reported_key h = k \<Longrightarrow> reported_level h \<le> reported_level f"
      using b k unfolding best_of_def by blast
    have "key_of_finding (?F k) = k"
      using f(2,3) by (simp add: key_of_finding_def reach_finding_def reach_of_def reported_key_def gv_key_def)
    moreover have "fiBlocking (?F k) \<longleftrightarrow> reported_level f = levelSymbol"
      using f(3) by (simp add: reach_finding_def reach_of_def)
    moreover have "reported_level f = levelSymbol \<longleftrightarrow> (\<exists>h \<in> set (stream_findings ms). reported_key h = k \<and> reported_level h = levelSymbol)"
      using f frame_level_max by (metis le_antisym reported_level_def)
    ultimately show ?thesis by (simp add: reported_level_def frame_level_symbol reaches_symbol_def)
  qed
  have m: "map key_of_finding (map ?F (gsOrder g)) = gsOrder g" using each by (simp add: map_idI)
  have "set (snFindings s) = ?F ` set (gsOrder g)" by (simp add: s sortFindings_def)
  moreover have "distinct (map key_of_finding (snFindings s))"
  proof -
    have "mset (map key_of_finding (snFindings s)) = mset (map key_of_finding (map ?F (gsOrder g)))"
      by (simp only: s sortFindings_def mset_map mset_sort)
    then show ?thesis using o(1) mset_eq_imp_distinct_iff unfolding m by blast
  qed
  moreover have "key_of_finding ` ?F ` set (gsOrder g) = set (gsOrder g)" using m by (metis set_map)
  ultimately show ?thesis using each o(2) by auto
qed

text \<open>A configuration and two reports of one advisory: the module is required, and then a symbol is reached.\<close>

definition sample_frame :: "string \<Rightarrow> gv_frame" where
  "sample_frame f = \<lparr>gfModule = ''m'', gfVersion = ''v1'', gfPackage = [], gfFunction = f, gfReceiver = []\<rparr>"

definition sample_report :: "string \<Rightarrow> gv_message" where
  "sample_report f = \<lparr>gmConfig = None, gmOSV = None,
     gmFinding = Some \<lparr>ggOSV = ''GO-1'', ggFixedVersion = ''v2'', ggTrace = [sample_frame f]\<rparr>\<rparr>"

definition sample_stream :: "gv_message option list" where
  "sample_stream = [Some \<lparr>gmConfig = Some \<lparr>gvScannerVersion = ''v1'', gvDBLastModified = ''d'', gvGoVersion = [],
     gvScanLevel = ''symbol'', gvScanMode = ''source''\<rparr>, gmOSV = None, gmFinding = None\<rparr>,
     Some (sample_report []), Some (sample_report ''Decode'')]"

theorem govulncheck_exact_witness:
  "\<exists>s. ParseGovulncheck (\<lambda>_. Some 0) sample_stream = Inr s \<and> (\<exists>f \<in> set (snFindings s). fiBlocking f)"
proof -
  have "isl (ParseGovulncheck (\<lambda>_. Some 0) sample_stream) = False" by code_simp
  then obtain s where s: "ParseGovulncheck (\<lambda>_. Some 0) sample_stream = Inr s" by (metis sum.collapse(2))
  have k: "stream_findings sample_stream = [the (gmFinding (sample_report [])), the (gmFinding (sample_report ''Decode''))]"
    "reported_key (the (gmFinding (sample_report []))) = reported_key (the (gmFinding (sample_report ''Decode'')))"
    "reaches_symbol (the (gmFinding (sample_report ''Decode'')))" by code_simp+
  from govulncheck_exact [OF s] k have "\<exists>f \<in> set (snFindings s). fiBlocking f"
    by (metis (no_types, lifting) image_iff list.set_intros(1,2))
  with s show ?thesis by blast
qed

text \<open>
  Of two matches for one advisory, package and version only the first is kept, so that a fixable critical one after
  an unfixed one does not block.
\<close>

definition sample_match :: "string \<Rightarrow> grype_match" where
  "sample_match st = \<lparr>gyID = ''CVE-2'', gySeverity = ''Critical'', gyFixVersions = [], gyFixState = st, gyRelated = [],
     gyName = ''openssl'', gyVersion = ''3.0.1''\<rparr>"

definition sample_document :: "grype_match list \<Rightarrow> grype_document" where
  "sample_document ms = \<lparr>gyMatches = ms, gySource = None, gyDescriptor = ''grype'', gyDescriptorVersion = [],
     gyStatus = Some \<lparr>gyBuilt = [], gyValid = True, gyError = []\<rparr>\<rparr>"

definition gate_of_matches :: "grype_match list \<Rightarrow> (nat \<times> nat) option" where
  "gate_of_matches ms =
     (case ParseGrype (\<lambda>_. Some 0) (Some (sample_document ms)) of
        Inl _ \<Rightarrow> Some (0, 0)
      | Inr s \<Rightarrow> gate_Err (Evaluate_gate s [] day_ns 0))"

theorem grype_first_match_decides:
  "gate_of_matches [sample_match ''not-fixed'', sample_match ''fixed''] = None \<and>
   gate_of_matches [sample_match ''fixed'', sample_match ''not-fixed''] = Some (1, 0)"
  by code_simp

end
