(* ===== verification/Decommission.thy ===== *)
theory Decommission
  imports Containment
begin

text \<open>
  The decommissioning review of a stored virtual machine (internal/decommission/check.go, cluster_rules.go): its
  checks on the observations and on the topology of the machine, and the verdict. A message is the list of its
  pieces; a quoted piece is the \<open>%q\<close> of the format.
\<close>

section \<open>Data\<close>

datatype piece = Plain string | Quoted string | ScopeProblem scope_error

type_synonym message = "piece list"

datatype check_status = StatusPass | StatusFail | StatusUnknown | StatusNotAssessed

datatype check_impact = ImpactBlocker | ImpactUnknown | ImpactAdvisory

datatype review_verdict = VerdictNoBlockers | VerdictBlocked | VerdictUnknown

record evidence =
  edField :: string
  edObserved :: string
  edExpected :: string

record check =
  ckID :: string
  ckStatus :: check_status
  ckImpact :: check_impact
  ckMessage :: message
  ckEvidence :: "evidence list"

record subject_report =
  spSubject :: subject
  spVerdict :: review_verdict
  spChecks :: "check list"
  spDependencies :: "edge_value list"
  spUnresolved :: "string list"
  spBlind :: "blind_context list"

record review =
  rvSchema :: int
  rvRun :: int
  rvQuery :: string
  rvVerdict :: review_verdict
  rvAmbiguous :: bool
  rvChecked :: "string list"
  rvBlind :: "blind_context list"
  rvSubjects :: "subject_report list"

section \<open>Helpers\<close>

definition text_message :: "string \<Rightarrow> message" where
  "text_message s = [Plain s]"

definition simple_check :: "string \<Rightarrow> check_status \<Rightarrow> check_impact \<Rightarrow> message \<Rightarrow> check" where
  "simple_check i s m t = \<lparr>ckID = i, ckStatus = s, ckImpact = m, ckMessage = t, ckEvidence = []\<rparr>"

definition unknownCheck :: "string \<Rightarrow> message \<Rightarrow> check" where
  "unknownCheck i t = simple_check i StatusUnknown ImpactUnknown t"

definition nonblank :: "string \<Rightarrow> string \<Rightarrow> string" where
  "nonblank v fallback = (if trim_space v = [] then fallback else v)"

definition observationContext :: "observation \<Rightarrow> string" where
  "observationContext o1 = (if obContext o1 \<noteq> [] then obContext o1 else loContext (vmLocation (obVM o1)))"

text \<open>\<open>fmt.Sscanf\<close> with \<open>%d\<close>: an optional sign and the digits that follow; 0 when there are none or too many.\<close>

definition scanned_schema :: "string \<Rightarrow> int" where
  "scanned_schema v =
     (let s = trim_space v; negative = has_prefix ''-'' s;
          digits = takeWhile is_digit (if negative \<or> has_prefix ''+'' s then tl s else s)
      in if digits = [] then 0
         else (case atoi ((if negative then ''-'' else []) @ digits) of None \<Rightarrow> 0 | Some n \<Rightarrow> n))"

definition add_fold_unique :: "string \<Rightarrow> string list \<Rightarrow> string list" where
  "add_fold_unique a vs = (if list_ex (\<lambda>v. equal_fold v a) vs \<or> a = [] then vs else vs @ [a])"

definition appendUnique :: "string list \<Rightarrow> string list \<Rightarrow> string list" where
  "appendUnique vs additions = fold add_fold_unique additions vs"

definition add_blind :: "blind_context \<Rightarrow> blind_context list \<Rightarrow> blind_context list" where
  "add_blind a vs = (if list_ex (\<lambda>v. bcContext v = bcContext a \<and> bcReason v = bcReason a) vs then vs else vs @ [a])"

definition appendUniqueBlind :: "blind_context list \<Rightarrow> blind_context list \<Rightarrow> blind_context list" where
  "appendUniqueBlind vs additions = fold add_blind additions vs"

definition subjectContexts :: "subject \<Rightarrow> string list" where
  "subjectContexts s = fold (\<lambda>m cs. if ndContext m \<noteq> [] then appendUnique cs [ndContext m] else cs) (sjMembers s) []"

definition sort_blind :: "blind_context list \<Rightarrow> blind_context list" where
  "sort_blind bs = sort_key bcContext (sort_key bcReason bs)"

section \<open>The checks\<close>

definition power_state_of :: "observation \<Rightarrow> check option" where
  "power_state_of o1 =
     (let state = trim_space (vmPowerState (obVM o1))
      in if state = ''poweredOff'' then None
         else if state = ''poweredOn'' \<or> state = ''suspended''
         then Some \<lparr>ckID = ''power-state'', ckStatus = StatusFail, ckImpact = ImpactBlocker, ckMessage = text_message (''VM is '' @ state),
                ckEvidence = [\<lparr>edField = ''power_state'', edObserved = state, edExpected = ''poweredOff''\<rparr>]\<rparr>
         else Some (unknownCheck ''power-state'' (text_message ''VM power state is missing'')))"

definition powerStateCheck :: "observation list \<Rightarrow> check" where
  "powerStateCheck obs =
     (if obs = [] then unknownCheck ''power-state'' (text_message ''power-state evidence is unavailable'')
      else (case first_some power_state_of obs of
              Some c \<Rightarrow> c
            | None \<Rightarrow> simple_check ''power-state'' StatusPass ImpactBlocker (text_message ''all matched observations are powered off'')))"

definition connection_state_of :: "observation \<Rightarrow> check option" where
  "connection_state_of o1 =
     (let state = trim_space (vmConnectionState (obVM o1))
      in if state = ''connected'' then None
         else if state = [] then Some (unknownCheck ''connection-state'' (text_message ''VM connection state is missing''))
         else Some \<lparr>ckID = ''connection-state'', ckStatus = StatusFail, ckImpact = ImpactBlocker,
                ckMessage = text_message (''VM connection state is '' @ state),
                ckEvidence = [\<lparr>edField = ''connection_state'', edObserved = state, edExpected = ''connected''\<rparr>]\<rparr>)"

definition connectionStateCheck :: "observation list \<Rightarrow> check" where
  "connectionStateCheck obs =
     (if obs = [] then unknownCheck ''connection-state'' (text_message ''VM connection state evidence is unavailable'')
      else (case first_some connection_state_of obs of
              Some c \<Rightarrow> c
            | None \<Rightarrow> simple_check ''connection-state'' StatusPass ImpactBlocker (text_message ''all matched observations are connected'')))"

definition snapshots_of :: "observation \<Rightarrow> vm_snapshot list" where
  "snapshots_of o1 = (if obSnapshots o1 = [] then vmSnapshots (obVM o1) else obSnapshots o1)"

definition snapshot_of :: "observation \<Rightarrow> check option" where
  "snapshot_of o1 =
     (let n = itoa (int (length (snapshots_of o1)))
      in if snapshots_of o1 = [] then None
         else Some \<lparr>ckID = ''snapshots'', ckStatus = StatusFail, ckImpact = ImpactBlocker,
                ckMessage = text_message (''VM has '' @ n @ '' snapshot(s)''),
                ckEvidence = [\<lparr>edField = ''snapshot_count'', edObserved = n, edExpected = ''0''\<rparr>]\<rparr>)"

definition snapshotCheck :: "observation list \<Rightarrow> check" where
  "snapshotCheck obs =
     (if obs = [] then unknownCheck ''snapshots'' (text_message ''snapshot evidence is unavailable'')
      else (case first_some snapshot_of obs of
              Some c \<Rightarrow> c
            | None \<Rightarrow> simple_check ''snapshots'' StatusPass ImpactBlocker (text_message ''no snapshots are recorded'')))"

definition media_of :: "string \<Rightarrow> string \<Rightarrow> string \<Rightarrow> vm_device \<Rightarrow> check option" where
  "media_of what unnamed missing d =
     (let name = nonblank (dvLabel d) unnamed
      in case dvConnected d of
           Some True \<Rightarrow>
             Some \<lparr>ckID = ''mounted-media'', ckStatus = StatusFail, ckImpact = ImpactBlocker,
               ckMessage = [Plain what, Quoted name, Plain '' is connected''],
               ckEvidence = [\<lparr>edField = ''device'', edObserved = name, edExpected = []\<rparr>,
                 \<lparr>edField = ''connected'', edObserved = ''true'', edExpected = ''false''\<rparr>]\<rparr>
         | Some False \<Rightarrow> None
         | None \<Rightarrow> Some (unknownCheck ''mounted-media'' (text_message missing)))"

definition vm_media_of :: "observation \<Rightarrow> check option" where
  "vm_media_of o1 =
     (let v = obVM o1
      in if \<not> vmConfigurationAvailable v
         then Some (unknownCheck ''mounted-media'' (text_message ''VM hardware configuration is unavailable''))
         else (case first_some (media_of ''CD-ROM '' ''unnamed CD-ROM'' ''CD-ROM connection state is missing'') (vmCDROMs v) of
                 Some c \<Rightarrow> Some c
               | None \<Rightarrow> first_some (media_of ''USB device '' ''unnamed USB device'' ''USB connection state is missing'') (vmUSBs v)))"

definition mediaCheck :: "export_data \<Rightarrow> observation list \<Rightarrow> check" where
  "mediaCheck d obs =
     (if obs = [] then unknownCheck ''mounted-media'' (text_message ''CD-ROM and USB evidence is unavailable'')
      else if scanned_schema (ruSchema (exRun d)) < 6
      then unknownCheck ''mounted-media'' (text_message ''CD-ROM and USB evidence was not collected by this run'')
      else (case first_some vm_media_of obs of
              Some c \<Rightarrow> c
            | None \<Rightarrow> simple_check ''mounted-media'' StatusPass ImpactBlocker (text_message ''no connected CD-ROM or USB devices are recorded'')))"

definition disk_gap :: "vm_disk \<Rightarrow> check option" where
  "disk_gap k =
     (let name = nonblank (dkLabel k) ''unnamed disk'';
          unresolved = Some (unknownCheck ''disk-references'' [Plain ''disk '', Quoted name, Plain '' has an unresolved backing path''])
      in if dkPath k = [] then Some (unknownCheck ''disk-references'' [Plain ''disk '', Quoted name, Plain '' has no backing path''])
         else (case SplitDatastorePath (dkPath k) of
                 None \<Rightarrow> unresolved
               | Some (_, relative) \<Rightarrow> if relative = [] then unresolved else None))"

definition vm_disk_gap :: "observation \<Rightarrow> check option" where
  "vm_disk_gap o1 =
     (if \<not> vmConfigurationAvailable (obVM o1)
      then Some (unknownCheck ''disk-references'' (text_message ''VM disk configuration is unavailable''))
      else first_some disk_gap (vmDisks (obVM o1)))"

definition diskReferenceCheck :: "observation list \<Rightarrow> check" where
  "diskReferenceCheck obs =
     (if obs = [] then unknownCheck ''disk-references'' (text_message ''disk evidence is unavailable'')
      else (case first_some vm_disk_gap obs of
              Some c \<Rightarrow> c
            | None \<Rightarrow> simple_check ''disk-references'' StatusPass ImpactUnknown
                (text_message ''all recorded virtual disks have datastore backing paths'')))"

definition rawDiskGaps :: "observation list \<Rightarrow> message list" where
  "rawDiskGaps obs =
     map (\<lambda>k. [Plain ''disk '', Quoted (nonblank (dkLabel k) ''unnamed disk''), Plain '' is a raw device mapping, and its LUN is not tracked''])
       (filter dkRaw (concat (map (\<lambda>o1. vmDisks (obVM o1)) obs)))"

definition dependency_needed :: "string \<Rightarrow> observation \<Rightarrow> bool" where
  "dependency_needed kind o1 \<longleftrightarrow>
     (if kind = KindDatastore then vmDatastores (obVM o1) \<noteq> [] \<or> vmDisks (obVM o1) \<noteq> [] else vmNICs (obVM o1) \<noteq> [])"

fun join_messages :: "string \<Rightarrow> message list \<Rightarrow> message" where
  "join_messages sep [] = []"
| "join_messages sep [m] = m"
| "join_messages sep (m # ms) = m @ [Plain sep] @ join_messages sep ms"

definition dependency_gaps :: "string \<Rightarrow> observation list \<Rightarrow> subject_result \<Rightarrow> string list \<Rightarrow> message list" where
  "dependency_gaps kind obs dependencies unresolved =
     (let why = map (\<lambda>b. text_message (bcContext b @ '': '' @ bcReason b)) (rtBlind dependencies) @
            (if unresolved \<noteq> [] then [text_message (''could not resolve '' @ str_join '', '' unresolved)] else []) @
            (if kind = KindDatastore then rawDiskGaps obs else []);
          matched = list_ex (\<lambda>e. equal_fold (ndKind (evTo e)) kind \<and> evConfidence e \<noteq> EdgeUnresolved) (rtEdges dependencies)
      in if \<not> matched \<and> why = [] then [text_message (''no '' @ kind @ '' relationship was recorded'')] else why)"

definition dependencyCheck :: "string \<Rightarrow> string \<Rightarrow> observation list \<Rightarrow> subject_result \<Rightarrow> string list \<Rightarrow> check" where
  "dependencyCheck i kind obs dependencies unresolved =
     (if obs = [] then unknownCheck i (text_message ''dependency evidence is unavailable'')
      else if \<not> list_ex (dependency_needed kind) obs
      then simple_check i StatusPass ImpactUnknown (text_message (''no '' @ kind @ '' dependencies are recorded''))
      else (let why = dependency_gaps kind obs dependencies unresolved
            in if why \<noteq> [] then unknownCheck i (Plain (kind @ '' dependency relationships are incomplete: '') # join_messages ''; '' why)
               else simple_check i StatusPass ImpactUnknown (text_message (kind @ '' dependencies are resolved''))))"

text \<open>The loop of the cluster rules; none when some machine of a cluster has no rules on record.\<close>

fun enabled_rules :: "observation list \<Rightarrow> cluster_rule list option" where
  "enabled_rules [] = Some []"
| "enabled_rules (o1 # obs) =
     (case vmRules (obVM o1) of
        None \<Rightarrow> if vmCluster (obVM o1) \<noteq> [] \<or> \<not> vmConfigurationAvailable (obVM o1) then None else enabled_rules obs
      | Some rs \<Rightarrow> map_option (\<lambda>qs. filter ruleEnabled rs @ qs) (enabled_rules obs))"

definition clusterRuleCheck :: "observation list \<Rightarrow> check" where
  "clusterRuleCheck obs =
     (case enabled_rules obs of
        None \<Rightarrow> simple_check ''cluster-rules'' StatusNotAssessed ImpactAdvisory (text_message ''cluster rules were not collected by this capture'')
      | Some rs \<Rightarrow>
          if rs = [] then simple_check ''cluster-rules'' StatusPass ImpactAdvisory (text_message ''no enabled cluster rule names the VM'')
          else \<lparr>ckID = ''cluster-rules'', ckStatus = StatusFail, ckImpact = ImpactAdvisory,
            ckMessage = text_message (''VM is named in cluster rule '' @ str_join '', '' (map ruleName rs) @
              ''; review what the rule enforces for its other VMs before removing it''),
            ckEvidence = map (\<lambda>r. \<lparr>edField = ''cluster_rule'', edObserved = ruleName r @ '' ('' @ ruleKind r @ '')'', edExpected = []\<rparr>) rs\<rparr>)"

definition coverage_gap :: "export_data \<Rightarrow> observation \<Rightarrow> check option" where
  "coverage_gap d o1 =
     (let name = observationContext o1
      in first_some (\<lambda>c.
           if ctName c \<noteq> name \<or> Successful (ctVMStatus c) then None
           else Some (unknownCheck ''coverage'' [Plain ''VM collection for context '', Quoted name,
                  Plain ('' is '' @ nonblank (ctVMStatus c) ''not recorded'')])) (exContexts d))"

definition coverageCheck :: "export_data \<Rightarrow> observation list \<Rightarrow> check" where
  "coverageCheck d obs =
     (case first_some (coverage_gap d) obs of
        Some c \<Rightarrow> c
      | None \<Rightarrow> simple_check ''coverage'' StatusPass ImpactUnknown (text_message ''VM collection completed for every matched context''))"

section \<open>The review of a subject\<close>

definition matches_member :: "observation \<Rightarrow> node \<Rightarrow> bool" where
  "matches_member o1 m \<longleftrightarrow> equal_fold (observationContext o1) (ndContext m) \<and>
     (if ndID m \<noteq> [] then equal_fold (ndID m) (vmID (obVM o1)) else equal_fold (ndName m) (vmName (obVM o1)))"

definition observationsFor :: "export_data \<Rightarrow> subject \<Rightarrow> observation list" where
  "observationsFor d s =
     filter (\<lambda>o1. \<not> vmIsTemplate (obVM o1) \<and> list_ex (matches_member o1) (sjMembers s)) (exVMs d)"

type_synonym unresolved_map = "(string \<times> string list) list option"

definition unresolved_of :: "unresolved_map \<Rightarrow> string \<Rightarrow> string list" where
  "unresolved_of u kind = (case u of None \<Rightarrow> [] | Some m \<Rightarrow> (case map_of m kind of None \<Rightarrow> [] | Some ls \<Rightarrow> ls))"

definition allUnresolved :: "unresolved_map \<Rightarrow> string list" where
  "allUnresolved u = sort (concat (map snd (case u of None \<Rightarrow> [] | Some m \<Rightarrow> m)))"

definition verdict_step :: "check \<Rightarrow> review_verdict \<Rightarrow> review_verdict" where
  "verdict_step c v =
     (case ckStatus c of
        StatusFail \<Rightarrow> if ckImpact c = ImpactBlocker then VerdictBlocked else v
      | StatusUnknown \<Rightarrow> if v \<noteq> VerdictBlocked then VerdictUnknown else v
      | _ \<Rightarrow> v)"

definition placement_checks :: "unresolved_map \<Rightarrow> check list" where
  "placement_checks u =
     (let missing = unresolved_of u KindHost @ unresolved_of u KindCluster
      in if missing \<noteq> []
         then [unknownCheck ''placement'' (text_message (''host or cluster placement is incomplete: could not resolve '' @ str_join '', '' missing))]
         else [])"

definition coverage_checks :: "export_data \<Rightarrow> subject_result \<Rightarrow> observation list \<Rightarrow> check list" where
  "coverage_checks d dependencies obs =
     (if obs = [] then [unknownCheck ''coverage'' (text_message ''matched VM identity has no observation in the selected run'')]
      else if rtBlind dependencies \<noteq> [] then [unknownCheck ''coverage'' (text_message ''relationship coverage is incomplete'')]
      else (let c = coverageCheck d obs in if ckStatus c \<noteq> StatusPass then [c] else []))"

definition subject_checks :: "export_data \<Rightarrow> subject_result \<Rightarrow> unresolved_map \<Rightarrow> observation list \<Rightarrow> check list" where
  "subject_checks d dependencies u obs =
     [powerStateCheck obs, connectionStateCheck obs, snapshotCheck obs, mediaCheck d obs, diskReferenceCheck obs,
      dependencyCheck ''datastore-dependencies'' KindDatastore obs dependencies (unresolved_of u KindDatastore),
      dependencyCheck ''network-relationships'' KindNetwork obs dependencies (unresolved_of u KindNetwork),
      clusterRuleCheck obs,
      simple_check ''ownership'' StatusNotAssessed ImpactAdvisory (text_message ''ownership metadata is not collected by this capture''),
      simple_check ''backup-policy'' StatusNotAssessed ImpactAdvisory (text_message ''backup-policy metadata is not collected by this capture''),
      simple_check ''application-dependencies'' StatusNotAssessed ImpactAdvisory
        (text_message ''application and business dependencies are not observable from inventory and are not assessed'')] @
     placement_checks u @ coverage_checks d dependencies obs"

definition evaluateSubject :: "export_data \<Rightarrow> subject \<Rightarrow> subject_result \<Rightarrow> unresolved_map \<Rightarrow> observation list \<Rightarrow> subject_report" where
  "evaluateSubject d s dependencies u obs =
     (let checks = subject_checks d dependencies u obs
      in \<lparr>spSubject = s, spVerdict = fold verdict_step checks VerdictNoBlockers, spChecks = checks,
          spDependencies = rtEdges dependencies, spUnresolved = allUnresolved u, spBlind = rtBlind dependencies\<rparr>)"

section \<open>The review\<close>

definition review_schema :: int where "review_schema = 2"

definition unmatched :: "string \<Rightarrow> check \<Rightarrow> subject_report" where
  "unmatched query c =
     \<lparr>spSubject = \<lparr>sjKind = KindVM, sjName = query, sjMembers = [], sjIdentity = [], sjBasis = BasisName\<rparr>,
      spVerdict = VerdictUnknown, spChecks = [c], spDependencies = [], spUnresolved = [], spBlind = []\<rparr>"

fun overall :: "subject_report list \<Rightarrow> review_verdict \<Rightarrow> review_verdict" where
  "overall [] v = v"
| "overall (s # ss) v =
     (if spVerdict s = VerdictBlocked then VerdictBlocked
      else overall ss (if spVerdict s = VerdictUnknown then VerdictUnknown else v))"

definition no_match :: "export_data \<Rightarrow> string \<Rightarrow> review" where
  "no_match d query =
     \<lparr>rvSchema = review_schema, rvRun = ruID (exRun d), rvQuery = query, rvVerdict = VerdictUnknown, rvAmbiguous = False,
      rvChecked = sort (map ctName (exContexts d)),
      rvBlind = sort_blind (map (\<lambda>c. \<lparr>bcContext = c, bcReason = reason_text (CoverageReason (exContexts d) c [''vm''])\<rparr>)
        (BlindContexts (exContexts d) [''vm''])),
      rvSubjects = [unmatched query (unknownCheck ''identity'' [Plain ''no stored VM matched '', Quoted query])]\<rparr>"

definition review_subject :: "export_data \<Rightarrow> graph \<Rightarrow> subject \<Rightarrow> subject_report" where
  "review_subject d g s = evaluateSubject d s (Dependencies g s 1) (UnresolvedReferences g s) (observationsFor d s)"

definition Evaluate_review :: "export_data \<Rightarrow> string \<Rightarrow> string list \<Rightarrow> review" where
  "Evaluate_review d raw contexts =
     (let query = trim_space raw
      in case ScopeExportDataChecked d contexts of
           Inl e \<Rightarrow>
             \<lparr>rvSchema = review_schema, rvRun = ruID (exRun d), rvQuery = query, rvVerdict = VerdictUnknown, rvAmbiguous = False,
              rvChecked = [], rvBlind = [],
              rvSubjects = [unmatched query (unknownCheck ''context'' [ScopeProblem e])]\<rparr>
         | Inr d \<Rightarrow>
             (let g = Build_graph d; subjects = Resolve_subjects g KindVM query contexts
              in if subjects = [] then no_match d query
                 else (let reports = map (review_subject d g) subjects; ambiguous = 1 < length subjects; v = overall reports VerdictNoBlockers
                       in \<lparr>rvSchema = review_schema, rvRun = ruID (exRun d), rvQuery = query,
                           rvVerdict = (if ambiguous \<and> v = VerdictNoBlockers then VerdictUnknown else v), rvAmbiguous = ambiguous,
                           rvChecked = sort (fold (\<lambda>s cs. appendUnique cs (subjectContexts s)) subjects []),
                           rvBlind = sort_blind (fold (\<lambda>r bs. appendUniqueBlind bs (spBlind r)) reports []),
                           rvSubjects = reports\<rparr>)))"

section \<open>Lemmas on the checks\<close>

lemma first_some_None: "first_some f xs = None \<longleftrightarrow> (\<forall>x \<in> set xs. f x = None)"
  by (induction xs) (auto split: option.split)

lemma unknownCheck_status [simp]: "ckStatus (unknownCheck i m) = StatusUnknown"
  by (simp add: unknownCheck_def simple_check_def)

lemma simple_check_status [simp]: "ckStatus (simple_check i s m t) = s" "ckImpact (simple_check i s m t) = m"
  by (simp_all add: simple_check_def)

text \<open>A check that holds the verdict back.\<close>

definition holds_back :: "check \<Rightarrow> bool" where
  "holds_back c \<longleftrightarrow> ckStatus c = StatusUnknown \<or> (ckStatus c = StatusFail \<and> ckImpact c = ImpactBlocker)"

definition blocks :: "check \<Rightarrow> bool" where
  "blocks c \<longleftrightarrow> ckStatus c = StatusFail \<and> ckImpact c = ImpactBlocker"

lemma verdict_blocked: "fold verdict_step cs v = VerdictBlocked \<longleftrightarrow> v = VerdictBlocked \<or> (\<exists>c \<in> set cs. blocks c)"
  by (induction cs arbitrary: v) (auto simp: verdict_step_def blocks_def split: check_status.splits)

lemma verdict_clear: "fold verdict_step cs v = VerdictNoBlockers \<longleftrightarrow> v = VerdictNoBlockers \<and> (\<forall>c \<in> set cs. \<not> holds_back c)"
  by (induction cs arbitrary: v) (auto simp: verdict_step_def holds_back_def split: check_status.splits)

lemma overall_clear: "overall rs v = VerdictNoBlockers \<longleftrightarrow> v = VerdictNoBlockers \<and> (\<forall>r \<in> set rs. spVerdict r = VerdictNoBlockers)"
proof (induction rs arbitrary: v)
  case (Cons r rs)
  then show ?case by (cases "spVerdict r") simp_all
qed simp

lemma overall_blocked: "v \<noteq> VerdictBlocked \<Longrightarrow> overall rs v = VerdictBlocked \<longleftrightarrow> (\<exists>r \<in> set rs. spVerdict r = VerdictBlocked)"
proof (induction rs arbitrary: v)
  case (Cons r rs)
  then show ?case by (cases "spVerdict r") simp_all
qed simp

lemma first_some_Some: "first_some f xs = Some c \<Longrightarrow> \<exists>x \<in> set xs. f x = Some c"
proof (induction xs)
  case (Cons x xs)
  then show ?case by (cases "f x") auto
qed simp

lemma check_found:
  assumes "\<not> holds_back (case first_some f obs of Some c \<Rightarrow> c | None \<Rightarrow> d)" and "\<And>x c. f x = Some c \<Longrightarrow> holds_back c"
    and "o1 \<in> set obs"
  shows "f o1 = None"
proof (cases "first_some f obs")
  case None
  then show ?thesis using assms(3) by (simp add: first_some_None)
next
  case (Some c)
  then have "holds_back c" using first_some_Some [OF Some] assms(2) by blast
  then show ?thesis using Some assms(1) by simp
qed

lemma holds_back_simps [simp]:
  "holds_back (unknownCheck i m)" "holds_back (simple_check i s m' t) \<longleftrightarrow> s = StatusUnknown \<or> (s = StatusFail \<and> m' = ImpactBlocker)"
  by (simp_all add: holds_back_def)

lemma power_state_held: "power_state_of x = Some c \<Longrightarrow> holds_back c"
  by (auto simp: power_state_of_def Let_def holds_back_def split: if_splits)

lemma connection_state_held: "connection_state_of x = Some c \<Longrightarrow> holds_back c"
  by (auto simp: connection_state_of_def Let_def holds_back_def split: if_splits)

lemma snapshot_held: "snapshot_of x = Some c \<Longrightarrow> holds_back c"
  by (auto simp: snapshot_of_def Let_def holds_back_def split: if_splits)

lemma media_held: "media_of w u m v = Some c \<Longrightarrow> holds_back c"
  by (auto simp: media_of_def Let_def holds_back_def split: option.splits bool.splits)

lemma vm_media_held: "vm_media_of x = Some c \<Longrightarrow> holds_back c"
  by (auto simp: vm_media_of_def Let_def split: if_splits option.splits dest: first_some_Some media_held)

lemma disk_held: "disk_gap k = Some c \<Longrightarrow> holds_back c"
  by (auto simp: disk_gap_def Let_def split: if_splits option.splits prod.splits)

lemma vm_disk_held: "vm_disk_gap x = Some c \<Longrightarrow> holds_back c"
  by (auto simp: vm_disk_gap_def split: if_splits dest!: first_some_Some disk_held)

lemma coverage_held: "coverage_gap d x = Some c \<Longrightarrow> holds_back c"
  by (auto simp: coverage_gap_def Let_def dest!: first_some_Some split: if_splits)

lemma media_clear: "media_of w u m v = None \<Longrightarrow> dvConnected v = Some False"
  by (auto simp: media_of_def Let_def split: option.splits bool.splits)

text \<open>What a machine is like when no check on it holds the verdict back.\<close>

definition quiet :: "export_data \<Rightarrow> observation \<Rightarrow> bool" where
  "quiet d o1 \<longleftrightarrow> trim_space (vmPowerState (obVM o1)) = ''poweredOff'' \<and> trim_space (vmConnectionState (obVM o1)) = ''connected'' \<and>
     obSnapshots o1 = [] \<and> vmSnapshots (obVM o1) = [] \<and> vmConfigurationAvailable (obVM o1) \<and>
     (\<forall>v \<in> set (vmCDROMs (obVM o1) @ vmUSBs (obVM o1)). dvConnected v = Some False) \<and>
     (\<forall>k \<in> set (vmDisks (obVM o1)). \<not> dkRaw k \<and> (\<exists>name relative. SplitDatastorePath (dkPath k) = Some (name, relative) \<and> relative \<noteq> [])) \<and>
     (\<forall>c \<in> set (exContexts d). ctName c = observationContext o1 \<longrightarrow> Successful (ctVMStatus c))"

text \<open>What the references of one kind are like then.\<close>

definition resolved :: "string \<Rightarrow> observation list \<Rightarrow> subject_result \<Rightarrow> string list \<Rightarrow> bool" where
  "resolved kind obs dependencies unresolved \<longleftrightarrow>
     (list_ex (dependency_needed kind) obs \<longrightarrow> unresolved = [] \<and>
        (\<exists>e \<in> set (rtEdges dependencies). equal_fold (ndKind (evTo e)) kind \<and> evConfidence e \<noteq> EdgeUnresolved))"

lemma dependency_clear:
  assumes "\<not> holds_back (dependencyCheck i kind obs dependencies unresolved)" and "obs \<noteq> []"
  shows "resolved kind obs dependencies unresolved \<and> (kind = KindDatastore \<longrightarrow> (\<forall>o1 \<in> set obs. \<forall>k \<in> set (vmDisks (obVM o1)). \<not> dkRaw k))"
proof (cases "list_ex (dependency_needed kind) obs")
  case True
  then have g: "dependency_gaps kind obs dependencies unresolved = []"
    using assms by (auto simp: dependencyCheck_def Let_def split: if_splits)
  then have "unresolved = []" "kind = KindDatastore \<Longrightarrow> rawDiskGaps obs = []"
    "list_ex (\<lambda>e. equal_fold (ndKind (evTo e)) kind \<and> evConfidence e \<noteq> EdgeUnresolved) (rtEdges dependencies)"
    by (auto simp: dependency_gaps_def Let_def split: if_splits)
  then show ?thesis by (auto simp: resolved_def rawDiskGaps_def list_ex_iff filter_empty_conv)
next
  case False
  then show ?thesis by (auto simp: resolved_def list_ex_iff dependency_needed_def)
qed

lemma subject_clear:
  assumes "\<forall>c \<in> set (subject_checks d dependencies u obs). \<not> holds_back c"
  shows "obs \<noteq> [] \<and> (\<forall>o1 \<in> set obs. quiet d o1) \<and> rtBlind dependencies = [] \<and>
    resolved KindDatastore obs dependencies (unresolved_of u KindDatastore) \<and>
    resolved KindNetwork obs dependencies (unresolved_of u KindNetwork) \<and>
    unresolved_of u KindHost = [] \<and> unresolved_of u KindCluster = []"
proof -
  have h: "\<not> holds_back (powerStateCheck obs)" "\<not> holds_back (connectionStateCheck obs)" "\<not> holds_back (snapshotCheck obs)"
    "\<not> holds_back (mediaCheck d obs)" "\<not> holds_back (diskReferenceCheck obs)"
    and dep: "\<not> holds_back (dependencyCheck ''datastore-dependencies'' KindDatastore obs dependencies (unresolved_of u KindDatastore))"
    "\<not> holds_back (dependencyCheck ''network-relationships'' KindNetwork obs dependencies (unresolved_of u KindNetwork))"
    and pl: "\<forall>c \<in> set (placement_checks u). \<not> holds_back c" and cov: "\<forall>c \<in> set (coverage_checks d dependencies obs). \<not> holds_back c"
    using assms by (simp_all add: subject_checks_def)
  have ne: "obs \<noteq> []" using h(1) by (auto simp: powerStateCheck_def)
  have b: "rtBlind dependencies = []" using cov ne by (auto simp: coverage_checks_def split: if_splits)
  have cc: "\<not> holds_back (coverageCheck d obs)"
    using cov ne b by (cases "ckStatus (coverageCheck d obs) = StatusPass") (auto simp: coverage_checks_def Let_def holds_back_def)
  have quiet: "quiet d o1" if x: "o1 \<in> set obs" for o1
  proof -
    have p: "power_state_of o1 = None"
      by (rule check_found [OF _ power_state_held x]) (use h(1) ne in \<open>simp add: powerStateCheck_def\<close>)
    have c: "connection_state_of o1 = None"
      by (rule check_found [OF _ connection_state_held x]) (use h(2) ne in \<open>simp add: connectionStateCheck_def\<close>)
    have sn: "snapshot_of o1 = None"
      by (rule check_found [OF _ snapshot_held x]) (use h(3) ne in \<open>simp add: snapshotCheck_def\<close>)
    have md: "vm_media_of o1 = None"
      by (rule check_found [OF _ vm_media_held x]) (use h(4) ne in \<open>auto simp: mediaCheck_def split: if_splits\<close>)
    have dk: "vm_disk_gap o1 = None"
      by (rule check_found [OF _ vm_disk_held x]) (use h(5) ne in \<open>simp add: diskReferenceCheck_def\<close>)
    have cg: "coverage_gap d o1 = None"
      by (rule check_found [OF _ coverage_held x]) (use cc in \<open>simp add: coverageCheck_def\<close>)
    have raw: "\<forall>k \<in> set (vmDisks (obVM o1)). \<not> dkRaw k" using dependency_clear [OF dep(1) ne] x by blast
    have "trim_space (vmPowerState (obVM o1)) = ''poweredOff''" "trim_space (vmConnectionState (obVM o1)) = ''connected''"
      using p c by (auto simp: power_state_of_def connection_state_of_def Let_def split: if_splits)
    moreover have "obSnapshots o1 = []" "vmSnapshots (obVM o1) = []"
      using sn by (auto simp: snapshot_of_def snapshots_of_def Let_def split: if_splits)
    moreover have a: "vmConfigurationAvailable (obVM o1)"
      and "\<forall>v \<in> set (vmCDROMs (obVM o1) @ vmUSBs (obVM o1)). dvConnected v = Some False"
      using md by (auto simp: vm_media_of_def Let_def first_some_None split: if_splits option.splits dest: media_clear)
    moreover have "\<forall>k \<in> set (vmDisks (obVM o1)). \<exists>name relative. SplitDatastorePath (dkPath k) = Some (name, relative) \<and> relative \<noteq> []"
      using dk a by (fastforce simp: vm_disk_gap_def first_some_None disk_gap_def Let_def split: if_splits option.splits prod.splits)
    moreover have "\<forall>c \<in> set (exContexts d). ctName c = observationContext o1 \<longrightarrow> Successful (ctVMStatus c)"
      using cg by (auto simp: coverage_gap_def Let_def first_some_None split: if_splits)
    ultimately show ?thesis using raw unfolding quiet_def by blast
  qed
  have "unresolved_of u KindHost = []" "unresolved_of u KindCluster = []"
    using pl by (auto simp: placement_checks_def Let_def split: if_splits)
  then show ?thesis using ne b quiet dependency_clear [OF dep(1) ne] dependency_clear [OF dep(2) ne] by blast
qed

section \<open>The subject of a review is in the graph\<close>

lemma equal_fold_objects: "equal_fold a b \<Longrightarrow> a \<in> object_kinds \<Longrightarrow> b \<in> object_kinds \<Longrightarrow> a = b"
  using object_kind_lower by (simp add: equal_fold_def)

lemma resolved_subject:
  assumes "s \<in> set (Resolve_subjects (Build_graph d) KindVM query contexts)"
  shows "sjKind s = KindVM" and "\<exists>si. subjectIndex (Build_graph d) s = Some si \<and> sjKind (srSubject (grSubjects (Build_graph d) ! si)) = sjKind s"
proof -
  let ?g = "Build_graph d"
  obtain x where x: "x \<in> set (grSubjects ?g)" "s = srSubject x" "equal_fold (sjKind s) KindVM"
    using assms by (auto simp: Resolve_subjects_def Let_def)
  note o1 = subject_of_objects [OF x(1), folded x(2)]
  show k: "sjKind s = KindVM" using equal_fold_objects [OF x(3) o1(1) object_kind(7)] .
  have "subjectMembersOverlap (sjMembers s) (sjMembers s)"
    using o1(2) by (cases "sjMembers s") (auto simp: subjectMembersOverlap_def members_overlap_def)
  then have "subjectIndex ?g s \<noteq> None" using x(1,2) unfolding subjectIndex_def find_index_None by (auto intro!: bexI [of _ x])
  then obtain si where si: "subjectIndex ?g s = Some si" by auto
  then have "si < length (grSubjects ?g)" "equal_fold (sjKind (srSubject (grSubjects ?g ! si))) (sjKind s)"
    using find_index_Some unfolding subjectIndex_def by blast+
  then have "sjKind (srSubject (grSubjects ?g ! si)) = sjKind s"
    using equal_fold_objects subject_of_objects(1) o1(1) nth_mem by blast
  with si show "\<exists>si. subjectIndex ?g s = Some si \<and> sjKind (srSubject (grSubjects ?g ! si)) = sjKind s" by blast
qed

section \<open>Properties\<close>

text \<open>
  C3: A review without blockers is safe: the query names exactly one virtual machine of the selected contexts, it was
  observed, and every observation of it is powered off, connected, without snapshots or connected media, its disks
  on datastores; its host, cluster, datastore and network references are all resolved; and every context of the
  selection was collected in full for every kind of object a machine can depend on.
\<close>

theorem no_blockers_is_safe:
  assumes "rvVerdict (Evaluate_review d query contexts) = VerdictNoBlockers"
  shows "\<exists>d' s. ScopeExportDataChecked d contexts = Inr d' \<and>
    Resolve_subjects (Build_graph d') KindVM (trim_space query) contexts = [s] \<and>
    observationsFor d' s \<noteq> [] \<and> (\<forall>o1 \<in> set (observationsFor d' s). quiet d' o1) \<and>
    all_covered (Build_graph d') KindVM \<and>
    (let u = UnresolvedReferences (Build_graph d') s; r = Dependencies (Build_graph d') s 1
     in unresolved_of u KindHost = [] \<and> unresolved_of u KindCluster = [] \<and>
        resolved KindDatastore (observationsFor d' s) r (unresolved_of u KindDatastore) \<and>
        resolved KindNetwork (observationsFor d' s) r (unresolved_of u KindNetwork))"
proof -
  obtain d' where d': "ScopeExportDataChecked d contexts = Inr d'"
    using assms by (cases "ScopeExportDataChecked d contexts") (simp_all add: Evaluate_review_def Let_def)
  let ?g = "Build_graph d'" and ?ss = "Resolve_subjects (Build_graph d') KindVM (trim_space query) contexts"
  have ne: "?ss \<noteq> []" using assms d' by (auto simp: Evaluate_review_def Let_def no_match_def)
  with assms d' have v: "\<not> 1 < length ?ss" "\<forall>s \<in> set ?ss. spVerdict (review_subject d' ?g s) = VerdictNoBlockers"
    by (auto simp: Evaluate_review_def Let_def overall_clear split: if_splits)
  with ne obtain s where s: "?ss = [s]" by (cases ?ss; cases "tl ?ss") auto
  let ?r = "Dependencies ?g s 1"
  have "\<forall>c \<in> set (subject_checks d' ?r (UnresolvedReferences ?g s) (observationsFor d' s)). \<not> holds_back c"
    using v(2) unfolding s by (simp add: review_subject_def evaluateSubject_def Let_def verdict_clear)
  note c = subject_clear [OF this]
  obtain si where si: "subjectIndex ?g s = Some si" "sjKind (srSubject (grSubjects ?g ! si)) = sjKind s" and k: "sjKind s = KindVM"
    using resolved_subject [of s d' "trim_space query" contexts] s by auto
  have "all_covered ?g KindVM"
    using put_together_covered [OF traverse_put_together [OF si(1), of 1 False] _ si(2)] c k by (simp add: Dependencies_def)
  then show ?thesis using d' s c unfolding Let_def by blast
qed

text \<open>
  C30: A review is blocked exactly when some check of some matching virtual machine fails as a blocker: no unknown of
  another machine and no ambiguity hides a blocker, and nothing else blocks.
\<close>

theorem blocked_exactly:
  "rvVerdict (Evaluate_review d query contexts) = VerdictBlocked \<longleftrightarrow>
     (\<exists>d'. ScopeExportDataChecked d contexts = Inr d' \<and>
       (\<exists>s \<in> set (Resolve_subjects (Build_graph d') KindVM (trim_space query) contexts).
          \<exists>c \<in> set (spChecks (review_subject d' (Build_graph d') s)). ckStatus c = StatusFail \<and> ckImpact c = ImpactBlocker))"
proof (cases "ScopeExportDataChecked d contexts")
  case (Inr d')
  let ?ss = "Resolve_subjects (Build_graph d') KindVM (trim_space query) contexts"
  have one: "spVerdict (review_subject d' g s) = VerdictBlocked \<longleftrightarrow> (\<exists>c \<in> set (spChecks (review_subject d' g s)). blocks c)" for g s
    by (simp add: review_subject_def evaluateSubject_def Let_def verdict_blocked)
  have "rvVerdict (Evaluate_review d query contexts) = VerdictBlocked \<longleftrightarrow>
      overall (map (review_subject d' (Build_graph d')) ?ss) VerdictNoBlockers = VerdictBlocked"
    using Inr by (auto simp: Evaluate_review_def Let_def no_match_def)
  also have "\<dots> \<longleftrightarrow> (\<exists>s \<in> set ?ss. \<exists>c \<in> set (spChecks (review_subject d' (Build_graph d') s)). blocks c)"
    by (simp add: overall_blocked one)
  finally show ?thesis using Inr by (simp add: blocks_def)
qed (simp add: Evaluate_review_def Let_def)

text \<open>A machine that is powered off in a context collected in full.\<close>

definition retired_guest :: vm where
  "retired_guest = sample_guest\<lparr>vmHost := []\<rparr>"

definition review_site :: export_data where
  "review_site = \<lparr>exRun = \<lparr>ruID = 7, ruSchema = ''12''\<rparr>,
     exContexts = [sample_host_context\<lparr>ctCollections := map (\<lambda>k. \<lparr>coKind = k, coStatus = ''success'', coError = []\<rparr>)
       [''host'', ''cluster'', ''datastore'', ''resourcepool'', ''dvswitch'', ''network'']\<rparr>],
     exVMs = [\<lparr>obVCenter = ''v'', obContext = ''a'', obVM = retired_guest, obSnapshots = []\<rparr>], exResources = [], exPerformance = []\<rparr>"

theorem no_blockers_is_safe_witness:
  "\<exists>d' s. ScopeExportDataChecked review_site [] = Inr d' \<and>
     Resolve_subjects (Build_graph d') KindVM (trim_space (vmName retired_guest)) [] = [s] \<and>
     observationsFor d' s \<noteq> [] \<and> (\<forall>o1 \<in> set (observationsFor d' s). quiet d' o1)"
proof -
  have "rvVerdict (Evaluate_review review_site (vmName retired_guest) []) = VerdictNoBlockers" by code_simp
  from no_blockers_is_safe [OF this] show ?thesis by blast
qed

end
