(* ===== verification/Runs.thy ===== *)
theory Runs
  imports Estate
begin

text \<open>
  The types of the comparison of captures and of a machine's history (internal/assessment/types.go,
  internal/vsphere/types.go), each with the fields that the comparison reads: a virtual machine here is the projection of the
  same \<open>VM\<close> that Estate projects for the topology. An instant is its nanoseconds since 1970 UTC. A sub-structure that is compared only
  through its JSON form is that form, a \<open>jvalue\<close>; a nil pointer or slice is \<open>JNull\<close> there and None elsewhere.
\<close>

text \<open>A decoded JSON value. The numbers of the modelled documents are integers that a float64 holds exactly.\<close>

datatype jvalue =
    JNull | JBool bool | JInt int | JText string | JArray "jvalue list" | JObject "(string \<times> jvalue) list"

record timed_run = run +
  tmSource :: string
  tmStatus :: string
  tmStarted :: int
  tmFinished :: int
  tmOffsets :: "(string \<times> int) list"  \<comment> \<open>\<open>ClockOffsetsMS\<close>\<close>

record meta_tag =
  mtID :: string
  mtName :: string
  mtCategoryID :: string
  mtCategory :: string

record meta_attribute =
  maKey :: int
  maName :: string
  maValue :: string

record metadata =
  mdTags :: "meta_tag list"
  mdAttributes :: "meta_attribute list"
  mdTagsStatus :: string
  mdAttributesStatus :: string

record vm_files =
  vfVMPath :: string
  vfLogDirectory :: string
  vfSnapshotDirectory :: string
  vfSuspendDirectory :: string

record drs_rule =
  drName :: string
  drKind :: string
  drEnabled :: bool
  drMandatory :: bool
  drHostGroup :: string
  drHostAntiAffine :: bool

record vm_cluster_config =
  ccRules :: "drs_rule list"
  ccHARestartPriority :: string
  ccHAIsolationResponse :: string
  ccHAVMMonitoring :: string

record allocation =
  alReservation :: "int option"
  alLimit :: "int option"

record diff_disk =
  ddKey :: int
  ddCapacityBytes :: int
  ddUUID :: string
  ddBackingType :: string
  ddRaw :: bool
  ddDiskMode :: string
  ddSharing :: string
  ddThinProvisioned :: "bool option"
  ddEagerlyScrub :: "bool option"
  ddSharedBus :: string
  ddRawLUNID :: string
  ddRawCompatibilityMode :: string

record diff_nic =
  dnKey :: int
  dnLabel :: string
  dnAdapter :: string
  dnMACAddress :: string
  dnMACAddressType :: string
  dnUPTCompatible :: "bool option"

text \<open>What decides about a migration: the part of a machine that \<open>migrationConfig\<close> reads.\<close>

record hardware =
  hwConfigurationAvailable :: bool
  hwGuestID :: string
  hwFirmware :: string
  hwHardwareVersion :: string
  hwSecureBootEnabled :: "bool option"
  hwCoresPerSocket :: int
  hwCPUSockets :: int
  hwAutoCoresPerSocket :: "bool option"
  hwCPUAllocation :: "allocation option"
  hwMemoryAllocation :: "allocation option"
  hwMemoryReservationLockedToMax :: "bool option"
  hwManagedBy :: jvalue
  hwDisks :: "diff_disk list"
  hwNICs :: "diff_nic list"
  hwTPMs :: jvalue
  hwPCIDevices :: jvalue
  hwFloppies :: jvalue

text \<open>
  The machine itself. Its fields stand in the flat \<open>VM\<close> of the code, those of \<open>dmHardware\<close> among them.
  \<open>dmStorageGB\<close> is the number's text with three decimals, the only form the comparison reads.
\<close>

record diff_vm =
  dmMetadata :: metadata
  dmID :: string
  dmInstanceUUID :: string
  dmBIOSUUID :: string
  dmName :: string
  dmPowerState :: string
  dmCPU :: int
  dmMemoryMB :: int
  dmGuestOS :: string
  dmGuestState :: string
  dmToolsState :: string
  dmIPAddress :: string
  dmHost :: string
  dmCluster :: string
  dmFolder :: string
  dmDatastores :: "string list"
  dmStorageGB :: string
  dmProvisionedBytes :: "int option"
  dmUnsharedBytes :: "int option"
  dmFiles :: "vm_files option"
  dmConsolidationNeeded :: "bool option"
  dmSettings :: "jvalue option"
  dmState :: "jvalue option"
  dmClusterConfig :: "vm_cluster_config option"
  dmAnnotation :: string
  dmHardware :: hardware

record diff_snapshot =
  dsnID :: string
  dsnName :: string
  dsnDescription :: string
  dsnCreateTime :: int
  dsnCurrent :: bool

record diff_observation =
  doVCenterID :: string
  doContext :: string
  doVM :: diff_vm

record field_change =
  fcField :: string
  fcName :: string
  fcBefore :: string
  fcAfter :: string

record vm_history_event =
  heKind :: string
  heRun :: timed_run
  heContext :: string
  heName :: string
  heChanges :: "field_change list"
  heObservation :: "diff_observation option"
  heSnapshots :: "diff_snapshot list"

text \<open>\<open>Imported\<close>: a run that was read from a workbook.\<close>

definition run_Imported :: "timed_run \<Rightarrow> bool" where
  "run_Imported r \<longleftrightarrow> tmSource r = ''rvtools-import''"

end
