(* ===== verification/EventMatch.thy ===== *)
theory EventMatch
  imports Runs "HOL-Library.Multiset" "HOL-Library.Product_Lexorder"
begin

text \<open>
  The stored history of a virtual machine lined up with the event log of its vCenter
  (internal/assessment/event_match.go): the spans between the runs that saw it, the placing of the events, the choice of
  the events that account for a change, and the repair across the edges of a run whose clock offset is unknown.
  An instant is its nanoseconds since 1970 UTC and has no bound; a duration has 64 bits.
\<close>

section \<open>Data\<close>

record vm_event =
  evContext :: string
  evKey :: int
  evTime :: int
  evExplains :: string
  evResult :: string
  evFields :: "string list"
  evFromHost :: string
  evToHost :: string
  evNewName :: string
  evSetCPU :: int
  evSetMemoryMB :: int
  evSetName :: string

record explained_change =
  ecChange :: vm_history_event
  ecEvents :: "vm_event list"

record event_span =
  spFrom :: "timed_run option"
  spTo :: "timed_run option"
  spChanges :: "explained_change list"
  spUnexplained :: "vm_event list"

section \<open>Clocks\<close>

definition ClockOffset :: "timed_run \<Rightarrow> string \<Rightarrow> int option" where
  "ClockOffset r ctx = map_option (\<lambda>ms. wrap64 (ms * 1000000)) (map_of (tmOffsets r) ctx)"

definition boundaryTolerance :: int where
  "boundaryTolerance = 5 * 1000000000"

definition onRunClock :: "vm_event \<Rightarrow> timed_run \<Rightarrow> int \<times> bool" where
  "onRunClock e r =
     (case ClockOffset r (evContext e) of
        Some offset \<Rightarrow> (evTime e + wrap64 (- offset), True)
      | None \<Rightarrow> (evTime e, False))"

definition toleranceAt :: "vm_event \<Rightarrow> timed_run \<Rightarrow> int" where
  "toleranceAt e r = (case ClockOffset r (evContext e) of Some _ \<Rightarrow> 0 | None \<Rightarrow> boundaryTolerance)"

definition runEnd :: "timed_run \<Rightarrow> int" where
  "runEnd r = (if tmFinished r > tmStarted r then tmFinished r else tmStarted r)"

definition SortVMEvents :: "vm_event list \<Rightarrow> vm_event list" where
  "SortVMEvents = sort_key (\<lambda>e. (evTime e, evKey e))"

text \<open>\<open>sort.Search\<close> of Go's library, between two bounds.\<close>

function search :: "(nat \<Rightarrow> bool) \<Rightarrow> nat \<Rightarrow> nat \<Rightarrow> nat" where
  "search f i j =
     (if i < j
      then (let h = (i + j) div 2 in if \<not> f h then search f (Suc h) j else search f i h)
      else i)"
  by pat_completeness auto

termination
  by (relation "measure (\<lambda>(f, i, j). j - i)") auto

declare search.simps [simp del]

section \<open>What explains a change\<close>

definition ExplainedBy :: "string \<Rightarrow> string" where
  "ExplainedBy kind =
     (if kind = ''first_seen'' \<or> kind = ''appeared'' then ''created''
      else if kind = ''vanished'' then ''removed''
      else if kind = ''moved'' then ''moved''
      else if kind = ''renamed'' then ''renamed''
      else if kind = ''modified'' then ''modified''
      else if kind = ''snapshot-created'' then ''snapshot-created''
      else if kind = ''snapshot-removed'' then ''snapshot-removed''
      else [])"

definition isNameReconfiguration :: "vm_event \<Rightarrow> bool" where
  "isNameReconfiguration e \<longleftrightarrow>
     evExplains e = ''modified'' \<and> length (evFields e) = 1 \<and> evFields e ! 0 = ''name''"

definition fieldBefore :: "vm_history_event \<Rightarrow> string \<Rightarrow> string" where
  "fieldBefore c name =
     (case List.find (\<lambda>f. fcField f = name) (heChanges c) of Some f \<Rightarrow> fcBefore f | None \<Rightarrow> [])"

definition fieldAfter :: "vm_history_event \<Rightarrow> string \<Rightarrow> string" where
  "fieldAfter c name =
     (case List.find (\<lambda>f. fcField f = name) (heChanges c) of Some f \<Rightarrow> fcAfter f | None \<Rightarrow> [])"

definition fields_intersect :: "string list \<Rightarrow> string list \<Rightarrow> bool" where
  "fields_intersect a b = list_ex (\<lambda>x. list_ex (\<lambda>y. x = y) b) a"

definition reconfigurable_field :: "field_change \<Rightarrow> string list" where
  "reconfigurable_field f =
     (if has_prefix ''metadata.'' (fcField f) then []
      else if fcField f \<in> {''cpu'', ''memory'', ''annotation'', ''guest_os'', ''name''} then [fcField f]
      else [''devices''])"

definition reconfigurableFields :: "vm_history_event \<Rightarrow> string list" where
  "reconfigurableFields c = concat (map reconfigurable_field (heChanges c))"

definition setValue :: "vm_event \<Rightarrow> string \<Rightarrow> string option" where
  "setValue e field =
     (if field = ''cpu'' \<and> evSetCPU e \<noteq> 0 then Some (itoa (evSetCPU e))
      else if field = ''memory'' \<and> evSetMemoryMB e \<noteq> 0 then Some (itoa (evSetMemoryMB e))
      else None)"

definition hasKind :: "vm_event list \<Rightarrow> string \<Rightarrow> bool" where
  "hasKind events kind = list_ex (\<lambda>e. evExplains e = kind) events"

text \<open>The loops of the three choices run from the last candidate to the first.\<close>

definition moved_to :: "vm_history_event \<Rightarrow> string" where
  "moved_to c =
     (let after = fieldAfter c ''host''
      in case heObservation c of Some ob \<Rightarrow> if after = [] then dmHost (doVM ob) else after | None \<Rightarrow> after)"

definition pickMigration :: "vm_history_event \<Rightarrow> vm_event list \<Rightarrow> nat list \<Rightarrow> nat list" where
  "pickMigration c events candidates =
     (let before = fieldBefore c ''host''; after = moved_to c
      in case List.find (\<lambda>k. before \<noteq> [] \<and> evFromHost (events ! k) = before \<and> evToHost (events ! k) = after)
                (rev candidates) of
           Some k \<Rightarrow> [k]
         | None \<Rightarrow>
             (case List.find (\<lambda>k. evToHost (events ! k) = [] \<or> evToHost (events ! k) = after) (rev candidates) of
                Some k \<Rightarrow> [k]
              | None \<Rightarrow> []))"

fun pick_renames :: "string \<Rightarrow> vm_event list \<Rightarrow> bool \<Rightarrow> nat list \<Rightarrow> nat list" where
  "pick_renames after events renamed [] = []"
| "pick_renames after events renamed (k # ks) =
     (let e = events ! k
      in if isNameReconfiguration e
         then (if after = [] \<or> evSetName e = after then k # pick_renames after events renamed ks
               else pick_renames after events renamed ks)
         else if \<not> renamed \<and> (evNewName e = [] \<or> after = [] \<or> evNewName e = after)
         then k # pick_renames after events True ks
         else pick_renames after events renamed ks)"

text \<open>
  The causes: the event credited with bringing each field to its recorded value, and the fields an event of the gap
  was credited for.
\<close>

type_synonym causes = "(string \<rightharpoonup> nat) \<times> string list"

definition credit :: "vm_history_event \<Rightarrow> vm_event list \<Rightarrow> string list \<Rightarrow> nat \<Rightarrow> nat \<Rightarrow> string \<Rightarrow> causes \<Rightarrow> causes" where
  "credit c events changed gap i f cs =
     (case setValue (events ! i) f of
        None \<Rightarrow> cs
      | Some value \<Rightarrow>
          if \<not> fields_intersect [f] changed \<or> value \<noteq> fieldAfter c f then cs
          else if i < gap then ((fst cs)(f \<mapsto> i), f # snd cs)
          else if f \<notin> set (snd cs) then ((fst cs)(f \<mapsto> i), snd cs)
          else cs)"

definition credited :: "vm_history_event \<Rightarrow> vm_event list \<Rightarrow> string list \<Rightarrow> nat \<Rightarrow> nat list \<Rightarrow> causes" where
  "credited c events changed gap ordered =
     fold (\<lambda>i. fold (credit c events changed gap i) (evFields (events ! i))) ordered (Map.empty, [])"

definition touches :: "vm_event list \<Rightarrow> string list \<Rightarrow> (string \<rightharpoonup> nat) \<Rightarrow> nat \<Rightarrow> string \<Rightarrow> bool" where
  "touches events changed cause i f \<longleftrightarrow>
     fields_intersect [f] changed \<and> (setValue (events ! i) f = None \<or> cause f = Some i)"

definition pickReconfigurations :: "vm_history_event \<Rightarrow> vm_event list \<Rightarrow> nat list \<Rightarrow> nat \<Rightarrow> nat list" where
  "pickReconfigurations c events candidates gap =
     (let changed = reconfigurableFields c
      in if changed = [] then []
         else let ordered = sort_key (\<lambda>i. evTime (events ! i)) candidates;
                  cause = fst (credited c events changed gap ordered)
              in filter (\<lambda>i. evFields (events ! i) = [] \<or> list_ex (touches events changed cause i) (evFields (events ! i)))
                   ordered)"

definition candidate :: "vm_history_event \<Rightarrow> vm_event \<Rightarrow> bool" where
  "candidate c e \<longleftrightarrow> evResult e \<noteq> ''failed''
     \<and> (evExplains e = ExplainedBy (heKind c) \<or> heKind c = ''renamed'' \<and> isNameReconfiguration e)"

definition explainers :: "vm_history_event \<Rightarrow> vm_event list \<Rightarrow> bool list \<Rightarrow> nat \<Rightarrow> nat list" where
  "explainers c events used gap =
     (if ExplainedBy (heKind c) = [] then []
      else let candidates = filter (\<lambda>i. \<not> used ! i \<and> candidate c (events ! i)) [0..<length events]
           in if candidates = [] then []
              else if heKind c = ''moved'' then pickMigration c events candidates
              else if heKind c = ''renamed'' then pick_renames (fieldAfter c ''name'') events False (rev candidates)
              else if heKind c = ''modified'' then pickReconfigurations c events candidates gap
              else take 1 candidates)"

section \<open>One span\<close>

fun explain_changes ::
    "vm_event list \<Rightarrow> nat \<Rightarrow> bool list \<Rightarrow> explained_change list \<Rightarrow> explained_change list \<times> bool list" where
  "explain_changes events gap used [] = ([], used)"
| "explain_changes events gap used (ch # chs) =
     (let picked = explainers (ecChange ch) events used gap;
          (rest, used') = explain_changes events gap (fold (\<lambda>i u. u[i := True]) picked used) chs
      in (ch\<lparr>ecEvents := SortVMEvents (ecEvents ch @ map ((!) events) picked)\<rparr> # rest, used'))"

definition explainSpan :: "event_span \<Rightarrow> vm_event list \<Rightarrow> nat \<Rightarrow> event_span \<times> bool list" where
  "explainSpan sp events gap =
     (let (chs, used) = explain_changes events gap (replicate (length events) False) (spChanges sp)
      in (sp\<lparr>spChanges := chs\<rparr>, used))"

section \<open>The spans\<close>

definition timelineRuns :: "vm_history_event list \<Rightarrow> timed_run list" where
  "timelineRuns history =
     sort_key tmStarted (map heRun (first_by (ruID \<circ> heRun) [] (filter (\<lambda>h. ruID (heRun h) \<noteq> 0) history)))"

definition empty_span :: "timed_run list \<Rightarrow> nat \<Rightarrow> event_span" where
  "empty_span runs i =
     \<lparr>spFrom = (if i > 0 then Some (runs ! (i - 1)) else None),
      spTo = (if i < length runs then Some (runs ! i) else None), spChanges = [], spUnexplained = []\<rparr>"

definition changes_at :: "timed_run list \<Rightarrow> vm_history_event list \<Rightarrow> nat \<Rightarrow> explained_change list" where
  "changes_at runs history i =
     map (\<lambda>h. \<lparr>ecChange = h, ecEvents = []\<rparr>)
       (filter (\<lambda>h. heKind h \<noteq> ''observed'' \<and> find_index (\<lambda>r. ruID r = ruID (heRun h)) runs = Some i) history)"

datatype place = During nat | Between nat

definition place_event :: "timed_run list \<Rightarrow> vm_event \<Rightarrow> place" where
  "place_event runs e =
     (let i = search (\<lambda>i. \<not> tmStarted (runs ! i) < fst (onRunClock e (runs ! i))) 0 (length runs)
      in if i > 0 \<and> \<not> fst (onRunClock e (runs ! (i - 1))) > runEnd (runs ! (i - 1)) then During (i - 1)
         else Between i)"

definition placed :: "timed_run list \<Rightarrow> vm_event list \<Rightarrow> place \<Rightarrow> vm_event list" where
  "placed runs events p = filter (\<lambda>e. place_event runs e = p) events"

text \<open>
  The loop over the spans: \<open>carried\<close> holds the events logged while the previous run was collecting that nothing there
  needed.
\<close>

fun settle_spans ::
    "timed_run list \<Rightarrow> (place \<Rightarrow> vm_event list) \<Rightarrow> vm_event list \<Rightarrow> nat \<Rightarrow> event_span list \<Rightarrow> event_span list" where
  "settle_spans runs at carried i [] = []"
| "settle_spans runs at carried i (sp # sps) =
     (let settled = carried @ at (Between i);
          offered = (if i < length runs then settled @ at (During i) else settled);
          (sp', used) = explainSpan sp offered (length settled);
          free = filter (\<lambda>k. \<not> used ! k) [0..<length offered]
      in sp'\<lparr>spUnexplained := spUnexplained sp' @ map ((!) offered) (filter (\<lambda>k. k < length settled) free)\<rparr>
         # settle_spans runs at (map ((!) offered) (filter (\<lambda>k. k \<ge> length settled) free)) (Suc i) sps)"

section \<open>The repair across run edges\<close>

type_synonym event_ref = "nat \<times> nat"  \<comment> \<open>a span and the index of one of its unexplained events\<close>

definition gather :: "event_span list \<Rightarrow> event_ref list \<Rightarrow> nat \<Rightarrow> (vm_event \<Rightarrow> bool) \<Rightarrow> event_ref list" where
  "gather spans taken s near =
     map (Pair s) (filter (\<lambda>k. (s, k) \<notin> set taken \<and> near (spUnexplained (spans ! s) ! k))
       [0..<length (spUnexplained (spans ! s))])"

definition near_start :: "timed_run \<Rightarrow> vm_event \<Rightarrow> bool" where
  "near_start edge e \<longleftrightarrow>
     \<not> fst (onRunClock e edge) < tmStarted edge + - toleranceAt e edge \<and> fst (onRunClock e edge) < tmStarted edge"

definition near_end :: "timed_run \<Rightarrow> vm_event \<Rightarrow> bool" where
  "near_end edge e \<longleftrightarrow>
     fst (onRunClock e edge) > runEnd edge \<and> \<not> fst (onRunClock e edge) > runEnd edge + toleranceAt e edge"

definition event_at :: "event_span list \<Rightarrow> event_ref \<Rightarrow> vm_event" where
  "event_at spans r = spUnexplained (spans ! fst r) ! snd r"

definition neighbours :: "timed_run list \<Rightarrow> event_span list \<Rightarrow> event_ref list \<Rightarrow> nat \<Rightarrow> event_ref list" where
  "neighbours runs spans taken s =
     (if s > 0 then gather spans taken (s - 1) (near_start (runs ! (s - 1))) else []) @
     (if s < length runs \<and> s + 1 < length spans then gather spans taken (s + 1) (near_end (runs ! s)) else [])"

definition repair_change :: "timed_run list \<Rightarrow> nat \<times> nat \<Rightarrow> event_span list \<times> event_ref list
    \<Rightarrow> event_span list \<times> event_ref list" where
  "repair_change runs = (\<lambda>(s, c) (spans, taken).
     (let ch = spChanges (spans ! s) ! c; want = ExplainedBy (heKind (ecChange ch))
      in if want = [] \<or> hasKind (ecEvents ch) want then (spans, taken)
         else let from = neighbours runs spans taken s; pool = map (event_at spans) from;
                  picked = explainers (ecChange ch) pool (replicate (length pool) False) (length pool);
                  events = ecEvents ch @ map ((!) pool) picked;
                  ch' = ch\<lparr>ecEvents := (if picked = [] then events else SortVMEvents events)\<rparr>
              in (spans[s := (spans ! s)\<lparr>spChanges := (spChanges (spans ! s))[c := ch']\<rparr>],
                  map ((!) from) picked @ taken)))"

definition change_positions :: "event_span list \<Rightarrow> (nat \<times> nat) list" where
  "change_positions spans =
     concat (map (\<lambda>s. map (Pair s) [0..<length (spChanges (spans ! s))]) [0..<length spans])"

definition drop_taken :: "event_ref list \<Rightarrow> nat \<Rightarrow> event_span \<Rightarrow> event_span" where
  "drop_taken taken s sp =
     sp\<lparr>spUnexplained := map ((!) (spUnexplained sp))
          (filter (\<lambda>k. (s, k) \<notin> set taken) [0..<length (spUnexplained sp)])\<rparr>"

definition repairBoundaries :: "event_span list \<Rightarrow> timed_run list \<Rightarrow> event_span list" where
  "repairBoundaries spans runs =
     (let (spans', taken) = fold (repair_change runs) (change_positions spans) (spans, [])
      in map (\<lambda>s. drop_taken taken s (spans' ! s)) [0..<length spans'])"

section \<open>The timeline\<close>

definition ExplainTimeline :: "vm_history_event list \<Rightarrow> vm_event list \<Rightarrow> event_span list" where
  "ExplainTimeline history events =
     (let runs = timelineRuns history;
          spans = map (\<lambda>i. (empty_span runs i)\<lparr>spChanges := changes_at runs history i\<rparr>) [0..<length runs + 1];
          settled = settle_spans runs (placed runs (SortVMEvents events)) [] 0 spans
      in filter (\<lambda>sp. spChanges sp \<noteq> [] \<or> spUnexplained sp \<noteq> []) (repairBoundaries settled runs))"


section \<open>The choice of events\<close>

definition renames_to :: "string \<Rightarrow> vm_event \<Rightarrow> bool" where
  "renames_to after e \<longleftrightarrow>
     (if isNameReconfiguration e then after = [] \<or> evSetName e = after
      else evNewName e = [] \<or> after = [] \<or> evNewName e = after)"

text \<open>
  What an event that explains a change has in common with it: the kind, and the details that both record.
\<close>

definition agrees :: "vm_history_event \<Rightarrow> vm_event \<Rightarrow> bool" where
  "agrees c e \<longleftrightarrow>
     (if heKind c = ''moved'' then evToHost e = [] \<or> evToHost e = moved_to c
      else if heKind c = ''renamed''
      then renames_to (fieldAfter c ''name'') e
      else if heKind c = ''modified''
      then evFields e = [] \<or>
           (\<exists>f \<in> set (evFields e). f \<in> set (reconfigurableFields c)
              \<and> (setValue e f = None \<or> setValue e f = Some (fieldAfter c f)))
      else True)"

lemma fields_intersect_one [simp]: "fields_intersect [f] fs \<longleftrightarrow> f \<in> set fs"
  by (auto simp: fields_intersect_def list_ex_iff)

lemma pick_renames_mem:
  "k \<in> set (pick_renames after events renamed ks) \<Longrightarrow> k \<in> set ks \<and> renames_to after (events ! k)"
  by (induction after events renamed ks rule: pick_renames.induct)
    (auto simp: Let_def renames_to_def split: if_splits)

lemma pick_renames_distinct: "distinct ks \<Longrightarrow> distinct (pick_renames after events renamed ks)"
  by (induction after events renamed ks rule: pick_renames.induct)
    (auto simp: Let_def dest: pick_renames_mem)

lemma credit_value:
  assumes "fst (credit c events changed gap i f cs) g = Some j" and "fst cs g \<noteq> Some j"
  shows "j = i \<and> g = f \<and> setValue (events ! i) f = Some (fieldAfter c f)"
  using assms by (auto simp: credit_def split: option.splits if_splits)

lemma credited_value:
  "fst (credited c events changed gap ordered) g = Some j \<Longrightarrow> setValue (events ! j) g = Some (fieldAfter c g)"
proof -
  let ?ok = "\<lambda>cs. \<forall>g j. fst cs g = Some j \<longrightarrow> setValue (events ! j) g = Some (fieldAfter c g)"
  have one: "?ok cs \<Longrightarrow> ?ok (credit c events changed gap i f cs)" for i f and cs :: causes
    using credit_value by metis
  have inner: "?ok cs \<Longrightarrow> ?ok (fold (credit c events changed gap i) fs cs)" for i fs and cs :: causes
  proof (induction fs arbitrary: cs)
    case (Cons f fs)
    from Cons.IH [OF one [OF Cons.prems]] show ?case by simp
  qed simp
  have "?ok cs \<Longrightarrow> ?ok (fold (\<lambda>i. fold (credit c events changed gap i) (evFields (events ! i))) is cs)"
    for "is" and cs :: causes
  proof (induction "is" arbitrary: cs)
    case (Cons i "is")
    from Cons.IH [OF inner [OF Cons.prems]] show ?case by simp
  qed simp
  from this [of "(Map.empty, [])" ordered]
  show "fst (credited c events changed gap ordered) g = Some j \<Longrightarrow> setValue (events ! j) g = Some (fieldAfter c g)"
    by (simp add: credited_def)
qed

lemma pickReconfigurations_ok:
  assumes "distinct ks" and "heKind c = ''modified''"
  shows "distinct (pickReconfigurations c events ks gap)"
    and "set (pickReconfigurations c events ks gap) \<subseteq> {k \<in> set ks. agrees c (events ! k)}"
  using assms credited_value
  by (auto simp: pickReconfigurations_def Let_def agrees_def list_ex_iff touches_def)

lemma pickMigration_ok:
  assumes "heKind c = ''moved''"
  shows "length (pickMigration c events ks) \<le> 1" and "distinct (pickMigration c events ks)"
    and "set (pickMigration c events ks) \<subseteq> {k \<in> set ks. agrees c (events ! k)}"
  using assms by (auto simp: pickMigration_def Let_def agrees_def split: option.splits dest!: find_Some_mem find_Some_mem [OF sym])

text \<open>The kinds of change that several events can account for together.\<close>

definition several :: "vm_history_event \<Rightarrow> bool" where
  "several c \<longleftrightarrow> heKind c = ''renamed'' \<or> heKind c = ''modified''"

lemma explainers_ok:
  fixes c events used gap
  defines "ks \<equiv> explainers c events used gap"
  shows "distinct ks"
    and "set ks \<subseteq> {k. k < length events \<and> \<not> used ! k \<and> candidate c (events ! k) \<and> agrees c (events ! k)}"
    and "\<not> several c \<Longrightarrow> length ks \<le> 1"
    and "ks \<noteq> [] \<Longrightarrow> ExplainedBy (heKind c) \<noteq> []"
proof -
  define cs where "cs = filter (\<lambda>i. \<not> used ! i \<and> candidate c (events ! i)) [0..<length events]"
  have cs: "distinct cs" "set cs = {k. k < length events \<and> \<not> used ! k \<and> candidate c (events ! k)}"
    by (auto simp: cs_def)
  have ks: "ks = (if ExplainedBy (heKind c) = [] \<or> cs = [] then []
      else if heKind c = ''moved'' then pickMigration c events cs
      else if heKind c = ''renamed'' then pick_renames (fieldAfter c ''name'') events False (rev cs)
      else if heKind c = ''modified'' then pickReconfigurations c events cs gap
      else take 1 cs)"
    by (simp add: ks_def explainers_def cs_def)
  consider (none) "ks = []" | (moved) "heKind c = ''moved''" "ks = pickMigration c events cs"
    | (renamed) "heKind c = ''renamed''" "ks = pick_renames (fieldAfter c ''name'') events False (rev cs)"
    | (modified) "heKind c = ''modified''" "ks = pickReconfigurations c events cs gap"
    | (other) "ks = take 1 cs" "heKind c \<notin> {''moved'', ''renamed'', ''modified''}"
    using ks by (cases "ks = []") (auto split: if_split_asm)
  then have "distinct ks \<and> set ks \<subseteq> {k \<in> set cs. agrees c (events ! k)} \<and> (\<not> several c \<longrightarrow> length ks \<le> 1)"
  proof cases
    case moved
    then show ?thesis using pickMigration_ok [OF moved(1), of events cs]
      by (auto simp: several_def)
  next
    case renamed
    then show ?thesis using pick_renames_mem [of _ "fieldAfter c ''name''" events False "rev cs"]
        pick_renames_distinct [of "rev cs"] cs(1)
      by (auto simp: several_def agrees_def)
  next
    case modified
    then show ?thesis using pickReconfigurations_ok [OF cs(1) modified(1), of events gap]
      by (auto simp: several_def)
  next
    case other
    then show ?thesis using cs(1) set_take_subset [of 1 cs] by (auto simp: agrees_def)
  qed simp
  then show "distinct ks" "\<not> several c \<Longrightarrow> length ks \<le> 1"
    "set ks \<subseteq> {k. k < length events \<and> \<not> used ! k \<and> candidate c (events ! k) \<and> agrees c (events ! k)}"
    using cs(2) by auto
  show "ks \<noteq> [] \<Longrightarrow> ExplainedBy (heKind c) \<noteq> []" by (auto simp: ks split: if_splits)
qed

section \<open>Where the events go\<close>

definition change_events :: "explained_change list \<Rightarrow> vm_event multiset" where
  "change_events chs = mset (concat (map ecEvents chs))"

definition span_events :: "event_span \<Rightarrow> vm_event multiset" where
  "span_events sp = change_events (spChanges sp) + mset (spUnexplained sp)"

lemma change_events_simps [simp]:
  "change_events [] = {#}" "change_events (ch # chs) = mset (ecEvents ch) + change_events chs"
  by (simp_all add: change_events_def)

lemma mset_SortVMEvents [simp]: "mset (SortVMEvents es) = mset es"
  by (simp add: SortVMEvents_def)

lemma set_SortVMEvents [simp]: "set (SortVMEvents es) = set es"
  by (metis mset_SortVMEvents set_mset_mset)

definition marked :: "nat list \<Rightarrow> bool list \<Rightarrow> bool list" where
  "marked = fold (\<lambda>i u. u[i := True])"

lemma length_marked [simp]: "length (marked ks u) = length u"
  unfolding marked_def by (induction ks arbitrary: u) auto

lemma nth_marked [simp]: "k < length u \<Longrightarrow> marked ks u ! k \<longleftrightarrow> u ! k \<or> k \<in> set ks"
  unfolding marked_def
proof (induction ks arbitrary: u)
  case (Cons i ks)
  then show ?case using Cons.IH [of "u[i := True]"] by (cases "k = i") auto
qed simp

text \<open>The elements of a list at the indices that satisfy a predicate.\<close>

definition at_indices :: "'a list \<Rightarrow> (nat \<Rightarrow> bool) \<Rightarrow> 'a multiset" where
  "at_indices xs P = mset (map ((!) xs) (filter P [0..<length xs]))"

lemma at_indices_all: "(\<And>k. k < length xs \<Longrightarrow> P k) \<Longrightarrow> at_indices xs P = mset xs"
proof -
  assume "\<And>k. k < length xs \<Longrightarrow> P k"
  then have "filter P [0..<length xs] = [0..<length xs]" by (simp add: filter_id_conv)
  then show ?thesis by (simp only: at_indices_def map_nth)
qed

lemma at_indices_cong: "(\<And>k. k < length xs \<Longrightarrow> P k = Q k) \<Longrightarrow> at_indices xs P = at_indices xs Q"
  unfolding at_indices_def by (metis (mono_tags, lifting) atLeastLessThan_iff filter_cong set_upt)

lemma at_indices_split: "at_indices xs P = at_indices xs (\<lambda>k. P k \<and> Q k) + at_indices xs (\<lambda>k. P k \<and> \<not> Q k)"
proof -
  have "mset (map f (filter P ks)) =
      mset (map f (filter (\<lambda>k. P k \<and> Q k) ks)) + mset (map f (filter (\<lambda>k. P k \<and> \<not> Q k) ks))"
    for f :: "nat \<Rightarrow> 'a" and ks
    by (induction ks) auto
  then show ?thesis by (simp only: at_indices_def)
qed

lemma at_indices_list:
  assumes "distinct ks" and "\<And>k. k < length xs \<Longrightarrow> P k \<longleftrightarrow> k \<in> set ks" and "\<And>k. k \<in> set ks \<Longrightarrow> k < length xs"
  shows "at_indices xs P = mset (map ((!) xs) ks)"
proof -
  have "mset (filter P [0..<length xs]) = mset ks"
    using assms by (intro set_eq_iff_mset_eq_distinct [THEN iffD1]) auto
  then show ?thesis by (simp add: at_indices_def)
qed

lemma at_indices_take:
  assumes "distinct ks" and "\<And>k. k \<in> set ks \<Longrightarrow> k < length xs \<and> P k"
  shows "at_indices xs P = at_indices xs (\<lambda>k. P k \<and> k \<notin> set ks) + mset (map ((!) xs) ks)"
proof -
  have "at_indices xs (\<lambda>k. P k \<and> \<not> k \<notin> set ks) = mset (map ((!) xs) ks)"
    using assms by (intro at_indices_list) auto
  then show ?thesis using at_indices_split [of xs P "\<lambda>k. k \<notin> set ks"] by simp
qed

lemma explain_changes_ok:
  "explain_changes events gap used chs = (chs', used') \<Longrightarrow> length used = length events \<Longrightarrow>
     length used' = length events \<and> map ecChange chs' = map ecChange chs
     \<and> change_events chs' + at_indices events (\<lambda>k. \<not> used' ! k) =
        change_events chs + at_indices events (\<lambda>k. \<not> used ! k)"
proof (induction events gap used chs arbitrary: chs' used' rule: explain_changes.induct)
  case (2 events gap used ch chs)
  let ?ks = "explainers (ecChange ch) events used gap"
  obtain rest where rest: "explain_changes events gap (marked ?ks used) chs = (rest, used')"
    and chs': "chs' = ch\<lparr>ecEvents := SortVMEvents (ecEvents ch @ map ((!) events) ?ks)\<rparr> # rest"
    using "2.prems"(1) by (auto simp: Let_def marked_def split: prod.splits)
  have IH: "length used' = length events" "map ecChange rest = map ecChange chs"
    "change_events rest + at_indices events (\<lambda>k. \<not> used' ! k) =
       change_events chs + at_indices events (\<lambda>k. \<not> marked ?ks used ! k)"
    using "2.IH" [OF refl rest [unfolded marked_def]] "2.prems"(2) by (simp_all add: marked_def [symmetric])
  have "at_indices events (\<lambda>k. \<not> used ! k) =
      at_indices events (\<lambda>k. \<not> used ! k \<and> k \<notin> set ?ks) + mset (map ((!) events) ?ks)"
    using explainers_ok(1,2) [of "ecChange ch" events used gap] by (intro at_indices_take) auto
  also have "at_indices events (\<lambda>k. \<not> used ! k \<and> k \<notin> set ?ks) = at_indices events (\<lambda>k. \<not> marked ?ks used ! k)"
    using "2.prems"(2) by (intro at_indices_cong) simp
  finally show ?case using IH by (simp add: chs')
qed simp

lemma explain_changes_mem:
  assumes "explain_changes events gap used chs = (chs', used')" and "ch \<in> set chs'"
  shows "\<exists>d \<in> set chs. \<exists>u. ch = d\<lparr>ecEvents :=
    SortVMEvents (ecEvents d @ map ((!) events) (explainers (ecChange d) events u gap))\<rparr>"
  using assms
  by (induction events gap used chs arbitrary: chs' used' rule: explain_changes.induct)
    (fastforce simp: Let_def split: prod.splits)+

text \<open>
  A change whose events are of its kind, did not fail, agree with it and satisfy a predicate, and are no more than one
  unless its kind allows several.
\<close>

definition sound_change :: "(vm_event \<Rightarrow> bool) \<Rightarrow> explained_change \<Rightarrow> bool" where
  "sound_change P ch \<longleftrightarrow>
     (\<forall>e \<in> set (ecEvents ch). ExplainedBy (heKind (ecChange ch)) \<noteq> [] \<and> candidate (ecChange ch) e
        \<and> agrees (ecChange ch) e \<and> P e)
     \<and> (\<not> several (ecChange ch) \<longrightarrow> length (ecEvents ch) \<le> 1)"

lemma length_SortVMEvents [simp]: "length (SortVMEvents es) = length es"
  by (simp add: SortVMEvents_def)

lemma sound_change_picked:
  assumes "sound_change P ch" and "several (ecChange ch) \<or> ecEvents ch = []"
    and "\<And>e. e \<in> set events \<Longrightarrow> P e"
  shows "sound_change P (ch\<lparr>ecEvents := SortVMEvents (ecEvents ch @ map ((!) events) (explainers (ecChange ch) events u gap))\<rparr>)"
proof -
  let ?ks = "explainers (ecChange ch) events u gap"
  have ks: "set ?ks \<subseteq> {k. k < length events \<and> \<not> u ! k \<and> candidate (ecChange ch) (events ! k) \<and> agrees (ecChange ch) (events ! k)}"
    "\<not> several (ecChange ch) \<Longrightarrow> length ?ks \<le> 1" "?ks \<noteq> [] \<Longrightarrow> ExplainedBy (heKind (ecChange ch)) \<noteq> []"
    using explainers_ok [of "ecChange ch" events u gap] by auto
  have new: "ExplainedBy (heKind (ecChange ch)) \<noteq> [] \<and> candidate (ecChange ch) e \<and> agrees (ecChange ch) e \<and> P e"
    if e: "e \<in> (!) events ` set ?ks" for e
  proof -
    obtain k where k: "k \<in> set ?ks" "e = events ! k" using e by blast
    then have "?ks \<noteq> []" by auto
    moreover have "k < length events" "candidate (ecChange ch) e" "agrees (ecChange ch) e" using k ks(1) by auto
    ultimately show ?thesis using ks(3) assms(3) [of e] k(2) by simp
  qed
  have "length (ecEvents ch) + length ?ks \<le> 1" if "\<not> several (ecChange ch)"
    using that assms(2) ks(2) by simp
  then show ?thesis using assms(1) new by (auto simp: sound_change_def)
qed

section \<open>Placing the events\<close>

lemma search_ok:
  "i \<le> j \<Longrightarrow> (i > lo \<Longrightarrow> \<not> f (i - 1)) \<Longrightarrow> (j < n \<Longrightarrow> f j) \<Longrightarrow>
   i \<le> search f i j \<and> search f i j \<le> j \<and> (search f i j > lo \<longrightarrow> \<not> f (search f i j - 1)) \<and> (search f i j < n \<longrightarrow> f (search f i j))"
proof (induction f i j rule: search.induct)
  case (1 f i j)
  let ?h = "(i + j) div 2"
  show ?case
  proof (cases "i < j")
    case True
    then have h: "i \<le> ?h" "?h < j" by auto
    show ?thesis
    proof (cases "f ?h")
      case True
      then show ?thesis using "1.IH"(2) [OF \<open>i < j\<close> refl] "1.prems" h \<open>i < j\<close>
        by (auto simp: search.simps [of f i j] Let_def)
    next
      case False
      then show ?thesis using "1.IH"(1) [OF \<open>i < j\<close> refl] "1.prems" h \<open>i < j\<close>
        by (auto simp: search.simps [of f i j] Let_def)
    qed
  next
    case False
    then have "search f i j = i" by (simp add: search.simps)
    then show ?thesis using "1.prems" False by simp
  qed
qed

lemma place_event_cases:
  obtains i where "place_event runs e = During i" "i < length runs"
      "tmStarted (runs ! i) < fst (onRunClock e (runs ! i))" "fst (onRunClock e (runs ! i)) \<le> runEnd (runs ! i)"
      "Suc i < length runs \<Longrightarrow> fst (onRunClock e (runs ! Suc i)) \<le> tmStarted (runs ! Suc i)"
  | i where "place_event runs e = Between i" "i \<le> length runs"
      "i > 0 \<Longrightarrow> runEnd (runs ! (i - 1)) < fst (onRunClock e (runs ! (i - 1)))"
      "i < length runs \<Longrightarrow> fst (onRunClock e (runs ! i)) \<le> tmStarted (runs ! i)"
proof -
  let ?f = "\<lambda>i. \<not> tmStarted (runs ! i) < fst (onRunClock e (runs ! i))"
  define i where "i = search ?f 0 (length runs)"
  have i: "i \<le> length runs" "i > 0 \<Longrightarrow> \<not> ?f (i - 1)" "i < length runs \<Longrightarrow> ?f i"
    using search_ok [of 0 "length runs" 0 ?f "length runs"] by (simp_all add: i_def)
  show thesis
  proof (cases "i > 0 \<and> \<not> fst (onRunClock e (runs ! (i - 1))) > runEnd (runs ! (i - 1))")
    case True
    then have "place_event runs e = During (i - 1)" by (simp add: place_event_def Let_def i_def)
    with True i show thesis by (intro that(1) [of "i - 1"]) auto
  next
    case False
    then have "place_event runs e = Between i" by (auto simp: place_event_def Let_def i_def)
    with False i show thesis by (intro that(2) [of i]) auto
  qed
qed

section \<open>The loop over the spans\<close>

definition frame :: "event_span \<Rightarrow> timed_run option \<times> timed_run option \<times> vm_history_event list" where
  "frame sp = (spFrom sp, spTo sp, map ecChange (spChanges sp))"

definition offered_to :: "timed_run list \<Rightarrow> (place \<Rightarrow> vm_event list) \<Rightarrow> nat \<Rightarrow> vm_event list" where
  "offered_to runs at i = at (Between i) @ (if i < length runs then at (During i) else [])"

lemma explainSpan_cases:
  obtains chs used where "explainSpan sp events gap = (sp\<lparr>spChanges := chs\<rparr>, used)"
    "explain_changes events gap (replicate (length events) False) (spChanges sp) = (chs, used)"
  by (cases "explain_changes events gap (replicate (length events) False) (spChanges sp)")
    (auto simp: explainSpan_def)

text \<open>One turn of the loop.\<close>

lemma settle_spans_Cons:
  fixes runs at carried i
  defines "settled \<equiv> carried @ at (Between i)"
  defines "offered \<equiv> (if i < length runs then settled @ at (During i) else settled)"
  obtains sp' left where
    "settle_spans runs at carried i (sp # sps) = sp' # settle_spans runs at left (Suc i) sps"
    "frame sp' = frame sp"
    "span_events sp' + mset left = span_events sp + mset carried + mset (offered_to runs at i)"
    "set left \<subseteq> (if i < length runs then set (at (During i)) else {})"
    "set (spUnexplained sp') \<subseteq> set (spUnexplained sp) \<union> set settled"
    "\<forall>ch \<in> set (spChanges sp'). \<exists>d \<in> set (spChanges sp). \<exists>u. ch = d\<lparr>ecEvents :=
       SortVMEvents (ecEvents d @ map ((!) offered) (explainers (ecChange d) offered u (length settled)))\<rparr>"
proof -
  obtain chs used where sp': "explainSpan sp offered (length settled) = (sp\<lparr>spChanges := chs\<rparr>, used)"
    and ex: "explain_changes offered (length settled) (replicate (length offered) False) (spChanges sp) = (chs, used)"
    by (rule explainSpan_cases)
  define free where "free = filter (\<lambda>k. \<not> used ! k) [0..<length offered]"
  define kept where "kept = map ((!) offered) (filter (\<lambda>k. k < length settled) free)"
  define left where "left = map ((!) offered) (filter (\<lambda>k. k \<ge> length settled) free)"
  have all: "change_events chs + at_indices offered (\<lambda>k. \<not> used ! k) = change_events (spChanges sp) + mset offered"
    and names: "map ecChange chs = map ecChange (spChanges sp)"
    using explain_changes_ok [OF ex] by (simp_all add: at_indices_all)
  have "mset kept + mset left = at_indices offered (\<lambda>k. \<not> used ! k)"
    unfolding at_indices_split [of offered "\<lambda>k. \<not> used ! k" "\<lambda>k. k < length settled"]
    by (simp add: kept_def left_def free_def at_indices_def conj_commute not_less)
  moreover have "mset offered = mset carried + mset (offered_to runs at i)"
    by (simp add: offered_def settled_def offered_to_def)
  ultimately have "change_events chs + mset kept + mset left = change_events (spChanges sp) + mset carried + mset (offered_to runs at i)"
    using all by (simp add: add.assoc)
  moreover have "set kept \<subseteq> set settled"
    by (auto simp: kept_def free_def offered_def nth_append)
  moreover have "set left \<subseteq> (if i < length runs then set (at (During i)) else {})"
    by (auto simp: left_def free_def offered_def nth_append)
  ultimately show thesis
    using explain_changes_mem [OF ex] names
    by (intro that [of "sp\<lparr>spChanges := chs, spUnexplained := spUnexplained sp @ kept\<rparr>" left])
      (simp_all add: settled_def [symmetric] offered_def [symmetric] sp' frame_def span_events_def
        kept_def left_def free_def ac_simps, blast+)
qed

declare settle_spans.simps(2) [simp del]

lemma settle_spans_events:
  "i + length sps = length runs + 1 \<Longrightarrow> (i > length runs \<Longrightarrow> carried = []) \<Longrightarrow>
   sum_list (map span_events (settle_spans runs at carried i sps)) =
     sum_list (map span_events sps) + mset carried + sum_list (map (\<lambda>j. mset (offered_to runs at j)) [i..<length runs + 1])"
proof (induction sps arbitrary: carried i)
  case Nil
  then show ?case by simp
next
  case (Cons sp sps)
  then have i: "[i..<Suc (length runs)] = i # [Suc i..<Suc (length runs)]" by (intro upt_conv_Cons) simp
  obtain sp' left where step: "settle_spans runs at carried i (sp # sps) = sp' # settle_spans runs at left (Suc i) sps"
    "span_events sp' + mset left = span_events sp + mset carried + mset (offered_to runs at i)"
    "set left \<subseteq> (if i < length runs then set (at (During i)) else {})"
    by (rule settle_spans_Cons)
  have left: "left = []" if "Suc i > length runs" using step(3) that by auto
  have "sum_list (map span_events (settle_spans runs at carried i (sp # sps))) =
      span_events sp' + mset left + (sum_list (map span_events sps)
        + sum_list (map (\<lambda>j. mset (offered_to runs at j)) [Suc i..<length runs + 1]))"
    using Cons.IH [of "Suc i" left] Cons.prems(1) left step(1) by (simp del: upt_Suc add: ac_simps)
  then show ?case unfolding step(2) by (simp add: i ac_simps del: upt_Suc)
qed

lemma settle_spans_frame: "map frame (settle_spans runs at carried i sps) = map frame sps"
proof (induction sps arbitrary: carried i)
  case (Cons sp sps)
  obtain sp' left where "settle_spans runs at carried i (sp # sps) = sp' # settle_spans runs at left (Suc i) sps"
    "frame sp' = frame sp"
    by (rule settle_spans_Cons)
  with Cons show ?case by simp
qed simp

text \<open>\<open>Q\<close> holds for the events of a gap and \<open>D\<close> for the events logged while its later run collected.\<close>

definition settled_span :: "(nat \<Rightarrow> vm_event \<Rightarrow> bool) \<Rightarrow> (nat \<Rightarrow> vm_event \<Rightarrow> bool) \<Rightarrow> nat \<Rightarrow> event_span \<Rightarrow> bool" where
  "settled_span Q D i sp \<longleftrightarrow>
     (\<forall>ch \<in> set (spChanges sp). sound_change (\<lambda>e. Q i e \<or> D i e) ch) \<and> (\<forall>e \<in> set (spUnexplained sp). Q i e)"

lemma settle_spans_settled:
  assumes "\<And>j e. e \<in> set (at (Between j)) \<Longrightarrow> Q j e"
    and "\<And>j e. j < length runs \<Longrightarrow> e \<in> set (at (During j)) \<Longrightarrow> D j e \<and> Q (Suc j) e"
    and "\<And>e. e \<in> set carried \<Longrightarrow> Q i e"
    and "\<And>sp. sp \<in> set sps \<Longrightarrow> spUnexplained sp = [] \<and> (\<forall>ch \<in> set (spChanges sp). ecEvents ch = [])"
    and "k < length sps"
  shows "settled_span Q D (i + k) (settle_spans runs at carried i sps ! k)"
  using assms(3-5)
proof (induction sps arbitrary: carried i k)
  case (Cons sp sps)
  let ?settled = "carried @ at (Between i)"
  let ?offered = "if i < length runs then ?settled @ at (During i) else ?settled"
  obtain sp' left where step: "settle_spans runs at carried i (sp # sps) = sp' # settle_spans runs at left (Suc i) sps"
    and "frame sp' = frame sp"
    and "span_events sp' + mset left = span_events sp + mset carried + mset (offered_to runs at i)"
    and left: "set left \<subseteq> (if i < length runs then set (at (During i)) else {})"
    and un: "set (spUnexplained sp') \<subseteq> set (spUnexplained sp) \<union> set ?settled"
    and ch: "\<forall>ch \<in> set (spChanges sp'). \<exists>d \<in> set (spChanges sp). \<exists>u. ch = d\<lparr>ecEvents :=
       SortVMEvents (ecEvents d @ map ((!) ?offered) (explainers (ecChange d) ?offered u (length ?settled)))\<rparr>"
    by (rule settle_spans_Cons)
  have sp: "spUnexplained sp = []" "\<And>d. d \<in> set (spChanges sp) \<Longrightarrow> ecEvents d = []" using Cons.prems(2) by auto
  have "e \<in> set carried \<or> e \<in> set (at (Between i)) \<or> i < length runs \<and> e \<in> set (at (During i))"
    if "e \<in> set ?offered" for e
    using that by (cases "i < length runs") auto
  then have offered: "Q i e \<or> D i e" if "e \<in> set ?offered" for e
    using that Cons.prems(1) [of e] assms(1) [of e i] assms(2) [of i e] by blast
  have "sound_change (\<lambda>e. Q i e \<or> D i e) c" if "c \<in> set (spChanges sp')" for c
  proof -
    from bspec [OF ch that] obtain d u where d: "d \<in> set (spChanges sp)" and c: "c = d\<lparr>ecEvents :=
       SortVMEvents (ecEvents d @ map ((!) ?offered) (explainers (ecChange d) ?offered u (length ?settled)))\<rparr>"
      by (elim bexE exE)
    have "sound_change (\<lambda>e. Q i e \<or> D i e) d" by (simp add: sound_change_def sp(2) [OF d])
    then show ?thesis unfolding c
      by (rule sound_change_picked) (rule disjI2, rule sp(2) [OF d], rule offered)
  qed
  then have head: "settled_span Q D i sp'"
    using un sp(1) Cons.prems(1) assms(1) by (auto simp: settled_span_def)
  show ?case
  proof (cases k)
    case 0
    then show ?thesis using head by (simp add: step)
  next
    case (Suc k')
    have "Q (Suc i) e" if "e \<in> set left" for e
      using that left assms(2) by (auto split: if_splits)
    moreover have "spUnexplained sp = [] \<and> (\<forall>ch \<in> set (spChanges sp). ecEvents ch = [])" if "sp \<in> set sps" for sp
      using that Cons.prems(2) [of sp] by simp
    moreover have "k' < length sps" using Cons.prems(3) Suc by simp
    ultimately have "settled_span Q D (Suc i + k') (settle_spans runs at left (Suc i) sps ! k')"
      by (rule Cons.IH)
    then show ?thesis by (simp add: step Suc)
  qed
qed simp

section \<open>The repair\<close>

definition refs :: "event_span list \<Rightarrow> event_ref set" where
  "refs spans = {(s, k). s < length spans \<and> k < length (spUnexplained (spans ! s))}"

lemma sum_list_update_mset:
  fixes f :: "'a \<Rightarrow> 'b multiset"
  shows "i < length xs \<Longrightarrow> sum_list (map f (xs[i := x])) + f (xs ! i) = sum_list (map f xs) + f x"
  by (induction xs arbitrary: i) (auto split: nat.splits simp: ac_simps)

lemma change_events_update:
  "c < length chs \<Longrightarrow> change_events (chs[c := ch]) + mset (ecEvents (chs ! c)) = change_events chs + mset (ecEvents ch)"
  using sum_list_update_mset [of c chs "\<lambda>ch. mset (ecEvents ch)" ch]
  by (simp add: change_events_def mset_concat comp_def)

lemma gather_ok:
  "distinct (gather spans taken s near)"
  "set (gather spans taken s near) =
     {(s, k) | k. k < length (spUnexplained (spans ! s)) \<and> (s, k) \<notin> set taken \<and> near (spUnexplained (spans ! s) ! k)}"
  by (auto simp: gather_def distinct_map inj_on_def)

lemma neighbours_ok:
  assumes "s < length spans"
  shows "distinct (neighbours runs spans taken s)"
    and "r \<in> set (neighbours runs spans taken s) \<Longrightarrow> r \<in> refs spans \<and> r \<notin> set taken
      \<and> (s > 0 \<and> fst r = s - 1 \<and> near_start (runs ! (s - 1)) (event_at spans r)
         \<or> s < length runs \<and> fst r = s + 1 \<and> near_end (runs ! s) (event_at spans r))"
  using assms by (auto simp: neighbours_def gather_ok refs_def event_at_def)

text \<open>
  What the repair keeps: the frame and the unexplained events of every span, the soundness of every change, and the
  account of the events taken.
\<close>

definition repaired :: "(nat \<Rightarrow> vm_event \<Rightarrow> bool) \<Rightarrow> event_span list \<Rightarrow> event_span list \<times> event_ref list \<Rightarrow> bool" where
  "repaired W spans0 st \<longleftrightarrow>
     map frame (fst st) = map frame spans0 \<and> map spUnexplained (fst st) = map spUnexplained spans0
     \<and> (\<forall>s < length (fst st). \<forall>ch \<in> set (spChanges (fst st ! s)). sound_change (W s) ch)
     \<and> distinct (snd st) \<and> set (snd st) \<subseteq> refs spans0
     \<and> sum_list (map (\<lambda>sp. change_events (spChanges sp)) (fst st)) =
         sum_list (map (\<lambda>sp. change_events (spChanges sp)) spans0) + mset (map (event_at spans0) (snd st))"

lemma map_update_same: "i < length xs \<Longrightarrow> f x = f (xs ! i) \<Longrightarrow> map f (xs[i := x]) = map f xs"
  by (metis list_update_id map_update)

lemma repaired_update:
  assumes R: "repaired W spans0 (spans, taken)"
    and s: "s < length spans" and c: "c < length (spChanges (spans ! s))"
    and ch: "ecChange ch = ecChange (spChanges (spans ! s) ! c)" "sound_change (W s) ch"
      "mset (ecEvents ch) = mset (ecEvents (spChanges (spans ! s) ! c)) + mset (map (event_at spans0) rs)"
    and rs: "distinct rs" "set rs \<subseteq> refs spans0 - set taken"
  shows "repaired W spans0 (spans[s := (spans ! s)\<lparr>spChanges := (spChanges (spans ! s))[c := ch]\<rparr>], rs @ taken)"
    (is "repaired W spans0 (?spans, _)")
proof -
  let ?old = "spChanges (spans ! s)" and ?all = "\<lambda>spans. sum_list (map (\<lambda>sp. change_events (spChanges sp)) spans)"
  have names: "map ecChange (?old[c := ch]) = map ecChange ?old"
    using c ch(1) by (intro map_update_same)
  have "change_events (?old[c := ch]) + mset (ecEvents (?old ! c)) =
      change_events ?old + mset (map (event_at spans0) rs) + mset (ecEvents (?old ! c))"
    unfolding change_events_update [OF c] ch(3) by (simp only: ac_simps)
  then have ev: "change_events (?old[c := ch]) = change_events ?old + mset (map (event_at spans0) rs)"
    by (rule add_right_imp_eq)
  have "?all ?spans + change_events ?old = ?all spans + mset (map (event_at spans0) rs) + change_events ?old"
    using sum_list_update_mset [OF s, of "\<lambda>sp. change_events (spChanges sp)"
      "(spans ! s)\<lparr>spChanges := ?old[c := ch]\<rparr>"] by (simp add: ev ac_simps)
  then have sum: "?all ?spans = ?all spans + mset (map (event_at spans0) rs)"
    by (rule add_right_imp_eq)
  show ?thesis
    unfolding repaired_def fst_conv snd_conv
  proof (intro conjI allI impI ballI)
    show "map frame ?spans = map frame spans0"
      using R s names by (simp add: map_update_same frame_def repaired_def)
    show "map spUnexplained ?spans = map spUnexplained spans0"
      using R s by (simp add: map_update_same repaired_def)
    show "sound_change (W j) d" if "j < length ?spans" "d \<in> set (spChanges (?spans ! j))" for j d
      using that R s ch(2) by (cases "j = s") (auto simp: repaired_def dest!: set_update_subset_insert [THEN subsetD])
    show "distinct (rs @ taken)" "set (rs @ taken) \<subseteq> refs spans0"
      using rs R by (auto simp: repaired_def)
    show "?all ?spans = ?all spans0 + mset (map (event_at spans0) (rs @ taken))"
      using sum R by (simp add: repaired_def ac_simps)
  qed
qed

lemma repaired_views:
  assumes "repaired W spans0 (spans, taken)"
  shows "length spans = length spans0" and "refs spans = refs spans0"
    and "r \<in> refs spans0 \<Longrightarrow> event_at spans r = event_at spans0 r"
proof -
  have un: "map spUnexplained spans = map spUnexplained spans0" using assms by (simp add: repaired_def)
  then show len: "length spans = length spans0" by (rule map_eq_imp_length_eq)
  have at: "spUnexplained (spans ! j) = spUnexplained (spans0 ! j)" if "j < length spans0" for j
    using un that len by (metis nth_map)
  then show "refs spans = refs spans0" using len by (auto simp: refs_def)
  show "r \<in> refs spans0 \<Longrightarrow> event_at spans r = event_at spans0 r"
    using at by (auto simp: refs_def event_at_def)
qed

lemma sound_change_hasKind:
  "sound_change P ch \<Longrightarrow> \<not> hasKind (ecEvents ch) (ExplainedBy (heKind (ecChange ch))) \<Longrightarrow>
   several (ecChange ch) \<or> ecEvents ch = []"
  by (cases "ecEvents ch") (auto simp: sound_change_def hasKind_def candidate_def several_def)

lemma repair_change_repaired:
  assumes R: "repaired W spans0 (spans, taken)"
    and s: "s < length spans" and c: "c < length (spChanges (spans ! s))"
    and start: "\<And>r. r \<in> refs spans0 \<Longrightarrow> s > 0 \<Longrightarrow> fst r = s - 1 \<Longrightarrow> near_start (runs ! (s - 1)) (event_at spans0 r)
      \<Longrightarrow> W s (event_at spans0 r)"
    and last: "\<And>r. r \<in> refs spans0 \<Longrightarrow> s < length runs \<Longrightarrow> fst r = s + 1 \<Longrightarrow> near_end (runs ! s) (event_at spans0 r)
      \<Longrightarrow> W s (event_at spans0 r)"
  shows "repaired W spans0 (repair_change runs (s, c) (spans, taken))"
proof -
  let ?ch = "spChanges (spans ! s) ! c"
  have sound: "sound_change (W s) ?ch" using R s c by (simp add: repaired_def)
  show ?thesis
  proof (cases "ExplainedBy (heKind (ecChange ?ch)) = [] \<or> hasKind (ecEvents ?ch) (ExplainedBy (heKind (ecChange ?ch)))")
    case True
    then show ?thesis using R by (auto simp: repair_change_def Let_def)
  next
    case False
    define rs where "rs = neighbours runs spans taken s"
    define pool where "pool = map (event_at spans) rs"
    define ks where "ks = explainers (ecChange ?ch) pool (replicate (length pool) False) (length pool)"
    define ch where "ch = ?ch\<lparr>ecEvents := (if ks = [] then ecEvents ?ch @ map ((!) pool) ks
      else SortVMEvents (ecEvents ?ch @ map ((!) pool) ks))\<rparr>"
    have step: "repair_change runs (s, c) (spans, taken) =
        (spans[s := (spans ! s)\<lparr>spChanges := (spChanges (spans ! s))[c := ch]\<rparr>], map ((!) rs) ks @ taken)"
      using False by (simp add: repair_change_def Let_def rs_def pool_def ks_def ch_def)
    have rs: "distinct rs" "\<And>r. r \<in> set rs \<Longrightarrow> r \<in> refs spans0 \<and> r \<notin> set taken \<and> W s (event_at spans0 r)"
      using neighbours_ok [OF s] start last repaired_views [OF R] unfolding rs_def by (auto, metis+)
    have pool: "pool = map (event_at spans0) rs"
      using rs(2) repaired_views [OF R] by (simp add: pool_def)
    have ks: "distinct ks" "set ks \<subseteq> {k. k < length rs}"
      using explainers_ok(1,2) [of "ecChange ?ch" pool "replicate (length pool) False" "length pool"]
      unfolding ks_def [symmetric] by (auto simp: pool_def)
    have "sound_change (W s) (?ch\<lparr>ecEvents := SortVMEvents (ecEvents ?ch @ map ((!) pool) ks)\<rparr>)"
      unfolding ks_def using rs(2) False sound_change_hasKind [OF sound]
      by (intro sound_change_picked sound) (auto simp: pool)
    then have "sound_change (W s) ch"
      using sound by (simp add: ch_def split: if_splits)
    moreover have "mset (ecEvents ch) = mset (ecEvents ?ch) + mset (map (event_at spans0) (map ((!) rs) ks))"
      using ks(2) by (auto simp: ch_def pool intro!: image_mset_cong)
    moreover have "distinct (map ((!) rs) ks)"
      using ks rs(1) by (auto simp: distinct_map inj_on_def nth_eq_iff_index_eq subset_iff)
    moreover have "set (map ((!) rs) ks) \<subseteq> refs spans0 - set taken"
    proof -
      have "set (map ((!) rs) ks) \<subseteq> set rs" using ks(2) by auto
      then show ?thesis using rs(2) by blast
    qed
    ultimately show ?thesis unfolding step
      by (intro repaired_update [OF R s c]) (simp_all add: ch_def)
  qed
qed

lemma change_positions_valid:
  "(s, c) \<in> set (change_positions spans) \<longleftrightarrow> s < length spans \<and> c < length (spChanges (spans ! s))"
  by (auto simp: change_positions_def image_iff)

lemma repair_fold:
  assumes "repaired W spans0 st"
    and "\<And>s c. (s, c) \<in> set ps \<Longrightarrow> s < length spans0 \<and> c < length (spChanges (spans0 ! s))"
    and start: "\<And>s r. r \<in> refs spans0 \<Longrightarrow> s < length spans0 \<Longrightarrow> s > 0 \<Longrightarrow> fst r = s - 1
      \<Longrightarrow> near_start (runs ! (s - 1)) (event_at spans0 r) \<Longrightarrow> W s (event_at spans0 r)"
    and last: "\<And>s r. r \<in> refs spans0 \<Longrightarrow> s < length spans0 \<Longrightarrow> s < length runs \<Longrightarrow> fst r = s + 1
      \<Longrightarrow> near_end (runs ! s) (event_at spans0 r) \<Longrightarrow> W s (event_at spans0 r)"
  shows "repaired W spans0 (fold (repair_change runs) ps st)"
  using assms(1,2)
proof (induction ps arbitrary: st)
  case (Cons p ps)
  obtain s c spans taken where p: "p = (s, c)" and st: "st = (spans, taken)" by (metis surj_pair)
  have len: "length spans = length spans0" using repaired_views [OF Cons.prems(1) [unfolded st]] by simp
  have frames: "map frame spans = map frame spans0" using Cons.prems(1) st by (simp add: repaired_def)
  have s: "s < length spans" using Cons.prems(2) [of s c] p len by simp
  have "frame (spans ! s) = frame (spans0 ! s)" using frames s len by (metis nth_map)
  then have "length (spChanges (spans ! s)) = length (spChanges (spans0 ! s))"
    by (auto simp: frame_def dest: map_eq_imp_length_eq)
  then have c: "c < length (spChanges (spans ! s))" using Cons.prems(2) [of s c] p by simp
  have "repaired W spans0 (repair_change runs p st)"
    unfolding p st using Cons.prems(1) s c start last len unfolding st by (intro repair_change_repaired) auto
  then have "repaired W spans0 (fold (repair_change runs) ps (repair_change runs p st))"
    by (rule Cons.IH) (rule Cons.prems(2), simp)
  then show ?case by simp
qed simp

lemma kept_events:
  assumes "distinct taken" and "set taken \<subseteq> refs spans"
  shows "sum_list (map (\<lambda>s. mset (spUnexplained (drop_taken taken s (spans ! s)))) [0..<length spans])
      + mset (map (event_at spans) taken) = sum_list (map (\<lambda>sp. mset (spUnexplained sp)) spans)"
  using assms
proof (induction taken)
  case Nil
  have "map (\<lambda>s. mset (spUnexplained (drop_taken [] s (spans ! s)))) [0..<length spans] = map (\<lambda>sp. mset (spUnexplained sp)) spans"
    by (intro nth_equalityI) (simp_all add: drop_taken_def map_nth)
  then show ?case by simp
next
  case (Cons r taken)
  obtain s0 k0 where r: "r = (s0, k0)" by force
  with Cons.prems have r': "s0 < length spans" "k0 < length (spUnexplained (spans ! s0))" "(s0, k0) \<notin> set taken"
    by (auto simp: refs_def)
  define g where "g = (\<lambda>t s. mset (spUnexplained (drop_taken t s (spans ! s))))"
  have g: "g t s = at_indices (spUnexplained (spans ! s)) (\<lambda>k. (s, k) \<notin> set t)" for t s
    by (simp add: g_def drop_taken_def at_indices_def)
  have other: "g (r # taken) s = g taken s" if "s \<noteq> s0" for s
    unfolding g using that r by (intro at_indices_cong) simp
  have one: "g taken s0 = g (r # taken) s0 + {#event_at spans r#}"
    unfolding g using at_indices_take [of "[k0]" "spUnexplained (spans ! s0)" "\<lambda>k. (s0, k) \<notin> set taken"] r r'
    by (simp add: event_at_def conj_commute)
  have "sum_list (map (g taken) [0..<length spans]) = sum_list (map (g (r # taken)) [0..<length spans]) + {#event_at spans r#}"
  proof -
    have ss: "[0..<length spans] = [0..<s0] @ s0 # [Suc s0..<length spans]"
      using r'(1) upt_add_eq_append [of 0 s0 "length spans - s0"] by (simp add: upt_conv_Cons)
    have eqs: "map (g (r # taken)) [0..<s0] = map (g taken) [0..<s0]"
      "map (g (r # taken)) [Suc s0..<length spans] = map (g taken) [Suc s0..<length spans]"
      using other by auto
    show ?thesis unfolding ss map_append list.map eqs one by (simp add: ac_simps)
  qed
  then show ?case using Cons.IH Cons.prems by (simp add: g_def ac_simps)
qed

lemma span_events_sum:
  "sum_list (map span_events sps) =
     sum_list (map (\<lambda>sp. change_events (spChanges sp)) sps) + sum_list (map (\<lambda>sp. mset (spUnexplained sp)) sps)"
  by (induction sps) (simp_all add: span_events_def ac_simps)

lemma drop_taken_sel [simp]:
  "spChanges (drop_taken t s sp) = spChanges sp" "frame (drop_taken t s sp) = frame sp"
  "set (spUnexplained (drop_taken t s sp)) \<subseteq> set (spUnexplained sp)"
  by (auto simp: drop_taken_def frame_def)

lemma repairBoundaries_ok:
  assumes settled: "\<And>s. s < length spans \<Longrightarrow> settled_span Q D s (spans ! s)"
    and weak: "\<And>s e. Q s e \<or> D s e \<Longrightarrow> W s e"
    and start: "\<And>s e. s > 0 \<Longrightarrow> s < length spans \<Longrightarrow> Q (s - 1) e \<Longrightarrow> near_start (runs ! (s - 1)) e \<Longrightarrow> W s e"
    and last: "\<And>s e. s < length runs \<Longrightarrow> s < length spans \<Longrightarrow> Q (s + 1) e \<Longrightarrow> near_end (runs ! s) e \<Longrightarrow> W s e"
  shows "map frame (repairBoundaries spans runs) = map frame spans"
    and "sum_list (map span_events (repairBoundaries spans runs)) = sum_list (map span_events spans)"
    and "s < length spans \<Longrightarrow> settled_span W (\<lambda>_ _. False) s (repairBoundaries spans runs ! s)"
proof -
  have Q: "Q (fst r) (event_at spans r)" if "r \<in> refs spans" for r
    using that settled by (auto simp: refs_def event_at_def settled_span_def)
  have "repaired W spans (spans, [])"
    using settled weak by (fastforce simp: repaired_def settled_span_def sound_change_def)
  then have "repaired W spans (fold (repair_change runs) (change_positions spans) (spans, []))"
    by (rule repair_fold) (use Q start last in \<open>fastforce simp: change_positions_valid\<close>)+
  then obtain spans' taken where fold: "fold (repair_change runs) (change_positions spans) (spans, []) = (spans', taken)"
    and R: "repaired W spans (spans', taken)"
    by (metis surj_pair)
  have eq: "repairBoundaries spans runs = map (\<lambda>s. drop_taken taken s (spans' ! s)) [0..<length spans']"
    by (simp add: repairBoundaries_def fold)
  have un: "map spUnexplained spans' = map spUnexplained spans" and frames: "map frame spans' = map frame spans"
    and taken: "distinct taken" "set taken \<subseteq> refs spans"
    using R by (simp_all add: repaired_def)
  note views = repaired_views [OF R]
  have mapped: "map f (repairBoundaries spans runs) = map f spans'"
    if "\<And>s sp. f (drop_taken taken s sp) = f sp" for f :: "event_span \<Rightarrow> 'x"
    by (rule nth_equalityI) (simp_all add: eq that)
  show "map frame (repairBoundaries spans runs) = map frame spans"
    unfolding frames [symmetric] by (rule mapped) simp
  have kept: "sum_list (map (\<lambda>sp. mset (spUnexplained sp)) (repairBoundaries spans runs)) + mset (map (event_at spans') taken) =
      sum_list (map (\<lambda>sp. mset (spUnexplained sp)) spans')"
    using kept_events [of taken spans'] taken views(2) by (simp add: eq comp_def)
  have changes: "map (\<lambda>sp. change_events (spChanges sp)) (repairBoundaries spans runs) =
      map (\<lambda>sp. change_events (spChanges sp)) spans'"
    by (rule mapped) simp
  have evs: "map (event_at spans') taken = map (event_at spans) taken"
    using taken(2) views(3) by auto
  have same: "map (\<lambda>sp. mset (spUnexplained sp)) spans' = map (\<lambda>sp. mset (spUnexplained sp)) spans"
    using arg_cong [OF un, of "map mset"] by (simp add: comp_def)
  have moved: "sum_list (map (\<lambda>sp. change_events (spChanges sp)) spans') =
      sum_list (map (\<lambda>sp. change_events (spChanges sp)) spans) + mset (map (event_at spans) taken)"
    using R by (simp add: repaired_def)
  show "sum_list (map span_events (repairBoundaries spans runs)) = sum_list (map span_events spans)"
    unfolding span_events_sum changes moved kept [unfolded evs same, symmetric] by (simp only: ac_simps)
  show "settled_span W (\<lambda>_ _. False) s (repairBoundaries spans runs ! s)" if s: "s < length spans"
  proof -
    have "spUnexplained (spans' ! s) = spUnexplained (spans ! s)" using un s views(1) by (metis nth_map)
    then have "W s e" if "e \<in> set (spUnexplained (drop_taken taken s (spans' ! s)))" for e
      using that drop_taken_sel(3) settled [OF s] weak by (fastforce simp: settled_span_def)
    then show ?thesis using R s views(1) by (simp add: eq settled_span_def repaired_def)
  qed
qed

section \<open>The whole timeline\<close>

lemma filter_parts:
  assumes "\<And>x. x \<in> set xs \<Longrightarrow> P x \<Longrightarrow> \<exists>i < n. f x = Some i"
  shows "sum_list (map (\<lambda>i. mset (filter (\<lambda>x. P x \<and> f x = Some i) xs)) [0..<n]) = mset (filter P xs)"
  using assms
proof (induction xs)
  case (Cons x xs)
  have one: "sum_list (map (\<lambda>i. if f x = Some i then {#x#} else {#}) [0..<n]) = {#x#}" if p: "P x"
  proof -
    obtain j where j: "j < n" "f x = Some j" using Cons.prems [OF list.set_intros(1) p] by blast
    then show ?thesis by (simp add: interv_sum_list_conv_sum_set_nat eq_commute [of j])
  qed
  have "sum_list (map (\<lambda>i. mset (filter (\<lambda>y. P y \<and> f y = Some i) (x # xs))) [0..<n]) =
      sum_list (map (\<lambda>i. (if P x \<and> f x = Some i then {#x#} else {#})
        + mset (filter (\<lambda>y. P y \<and> f y = Some i) xs)) [0..<n])"
    by (intro arg_cong [of _ _ sum_list] map_cong) auto
  also have "\<dots> = (if P x then {#x#} else {#}) + mset (filter P xs)"
    using Cons one by (cases "P x") (simp_all add: sum_list_addf)
  finally show ?case by simp
qed simp

fun place_index :: "place \<Rightarrow> nat" where
  "place_index (During i) = i"
| "place_index (Between i) = i"

lemma place_index_le: "place_index (place_event runs e) \<le> length runs"
  by (rule place_event_cases [of runs e]) auto

lemma offered_to_placed:
  assumes "j \<le> length runs"
  shows "mset (offered_to runs (placed runs events) j) = mset (filter (\<lambda>e. place_index (place_event runs e) = j) events)"
proof (induction events)
  case Nil
  then show ?case by (simp add: offered_to_def placed_def)
next
  case (Cons e events)
  have "place_event runs e \<noteq> During (length runs)"
    by (rule place_event_cases [of runs e]) auto
  then show ?case using Cons assms
    by (cases "place_event runs e"; cases "j < length runs") (auto simp: offered_to_def placed_def)
qed

definition timeline_spans :: "vm_history_event list \<Rightarrow> event_span list" where
  "timeline_spans history =
     (let runs = timelineRuns history
      in map (\<lambda>i. (empty_span runs i)\<lparr>spChanges := changes_at runs history i\<rparr>) [0..<length runs + 1])"

definition settled_timeline :: "vm_history_event list \<Rightarrow> vm_event list \<Rightarrow> event_span list" where
  "settled_timeline history events =
     settle_spans (timelineRuns history) (placed (timelineRuns history) (SortVMEvents events)) [] 0 (timeline_spans history)"

lemma ExplainTimeline_eq:
  "ExplainTimeline history events = filter (\<lambda>sp. spChanges sp \<noteq> [] \<or> spUnexplained sp \<noteq> [])
     (repairBoundaries (settled_timeline history events) (timelineRuns history))"
  by (simp add: ExplainTimeline_def settled_timeline_def timeline_spans_def Let_def)

lemma length_timeline_spans [simp]: "length (timeline_spans history) = Suc (length (timelineRuns history))"
  by (simp add: timeline_spans_def Let_def)

lemma nth_timeline_spans:
  "s \<le> length (timelineRuns history) \<Longrightarrow> timeline_spans history ! s =
     (empty_span (timelineRuns history) s)\<lparr>spChanges := changes_at (timelineRuns history) history s\<rparr>"
  by (simp add: timeline_spans_def Let_def del: upt_Suc)

lemma timeline_spans_fresh:
  "sp \<in> set (timeline_spans history) \<Longrightarrow> spUnexplained sp = [] \<and> (\<forall>ch \<in> set (spChanges sp). ecEvents ch = [])"
  by (auto simp: timeline_spans_def Let_def empty_span_def changes_at_def)

lemma length_settled_timeline [simp]:
  "length (settled_timeline history events) = Suc (length (timelineRuns history))"
  unfolding settled_timeline_def using settle_spans_frame by (metis length_map length_timeline_spans)

lemma span_events_fresh: "spUnexplained sp = [] \<Longrightarrow> (\<forall>ch \<in> set (spChanges sp). ecEvents ch = []) \<Longrightarrow> span_events sp = {#}"
  by (auto simp: span_events_def change_events_def)

lemma settled_timeline_events: "sum_list (map span_events (settled_timeline history events)) = mset events"
proof -
  let ?runs = "timelineRuns history" and ?at = "placed (timelineRuns history) (SortVMEvents events)"
  have "sum_list (map span_events (settled_timeline history events)) =
      sum_list (map span_events (timeline_spans history)) + sum_list (map (\<lambda>j. mset (offered_to ?runs ?at j)) [0..<length ?runs + 1])"
    unfolding settled_timeline_def by (subst settle_spans_events) simp_all
  also have "map span_events (timeline_spans history) = map (\<lambda>_. {#}) (timeline_spans history)"
    using timeline_spans_fresh by (intro map_cong refl span_events_fresh) auto
  also have "map (\<lambda>j. mset (offered_to ?runs ?at j)) [0..<length ?runs + 1] =
      map (\<lambda>j. mset (filter (\<lambda>e. True \<and> Some (place_index (place_event ?runs e)) = Some j) (SortVMEvents events))) [0..<length ?runs + 1]"
    by (intro map_cong refl) (subst offered_to_placed, auto)
  also have "sum_list \<dots> = mset (filter (\<lambda>_. True) (SortVMEvents events))"
    using place_index_le by (intro filter_parts) (auto simp: less_Suc_eq_le)
  finally show ?thesis by simp
qed

text \<open>
  Every span of the result: its frame, and what its events satisfy, given what the placing of an event says.
\<close>

lemma ExplainTimeline_span:
  fixes history events
  defines "runs \<equiv> timelineRuns history"
  assumes sp: "sp \<in> set (ExplainTimeline history events)"
    and between: "\<And>j e. e \<in> set events \<Longrightarrow> place_event runs e = Between j \<Longrightarrow> Q j e"
    and during: "\<And>j e. e \<in> set events \<Longrightarrow> j < length runs \<Longrightarrow> place_event runs e = During j \<Longrightarrow> D j e \<and> Q (Suc j) e"
    and weak: "\<And>s e. Q s e \<or> D s e \<Longrightarrow> W s e"
    and start: "\<And>s e. s > 0 \<Longrightarrow> s \<le> length runs \<Longrightarrow> Q (s - 1) e \<Longrightarrow> near_start (runs ! (s - 1)) e \<Longrightarrow> W s e"
    and last: "\<And>s e. s < length runs \<Longrightarrow> Q (s + 1) e \<Longrightarrow> near_end (runs ! s) e \<Longrightarrow> W s e"
  shows "\<exists>s \<le> length runs. frame sp = frame (timeline_spans history ! s) \<and> settled_span W (\<lambda>_ _. False) s sp"
proof -
  have settled: "settled_span Q D s (settled_timeline history events ! s)" if "s < length (settled_timeline history events)" for s
  proof -
    have "s < length (timeline_spans history)" using that by simp
    with between during timeline_spans_fresh
    have "settled_span Q D (0 + s) (settle_spans runs (placed runs (SortVMEvents events)) [] 0 (timeline_spans history) ! s)"
      by (intro settle_spans_settled) (auto simp: placed_def)
    then show ?thesis by (simp add: settled_timeline_def runs_def)
  qed
  let ?out = "repairBoundaries (settled_timeline history events) runs"
  have start': "W s e" if "s > 0" "s < length (settled_timeline history events)" "Q (s - 1) e" "near_start (runs ! (s - 1)) e" for s e
    using that start by (simp add: runs_def)
  have last': "W s e" if "s < length runs" "Q (s + 1) e" "near_end (runs ! s) e" for s e
    using that last by simp
  note fixed = repairBoundaries_ok [where runs = runs, OF settled weak start' last']
  have frames: "map frame ?out = map frame (timeline_spans history)"
    using fixed(1) by (simp add: settled_timeline_def settle_spans_frame)
  obtain s where s: "s < length ?out" "sp = ?out ! s"
    using sp by (auto simp: ExplainTimeline_eq runs_def in_set_conv_nth)
  have len: "length ?out = Suc (length runs)" using frames by (metis length_map length_timeline_spans runs_def)
  have "frame sp = frame (timeline_spans history ! s)"
    using frames s len by (metis length_timeline_spans nth_map runs_def)
  moreover have "settled_span W (\<lambda>_ _. False) s sp" using fixed(3) [where s = s] s len by (simp add: runs_def)
  ultimately show ?thesis using s(1) len by (intro exI [of _ s]) simp
qed

lemma set_timelineRuns:
  "set (timelineRuns history) = heRun ` set (first_by (ruID \<circ> heRun) [] (filter (\<lambda>h. ruID (heRun h) \<noteq> 0) history))"
  by (simp add: timelineRuns_def)

lemma timelineRuns_ids: "ruID ` set (timelineRuns history) = {ruID (heRun h) | h. h \<in> set history \<and> ruID (heRun h) \<noteq> 0}"
  using set_first_by_key [of "ruID \<circ> heRun" "[]" "filter (\<lambda>h. ruID (heRun h) \<noteq> 0) history"]
  by (auto simp: set_timelineRuns image_image)

lemma timeline_run_index:
  assumes "h \<in> set history"
  shows "ruID (heRun h) \<noteq> 0 \<longleftrightarrow>
    (\<exists>i < length (timelineRuns history). find_index (\<lambda>r. ruID r = ruID (heRun h)) (timelineRuns history) = Some i)"
proof -
  have "ruID (heRun h) \<noteq> 0 \<longleftrightarrow> (\<exists>r \<in> set (timelineRuns history). ruID r = ruID (heRun h))"
    using timelineRuns_ids [of history] assms by (auto simp: image_iff set_eq_iff) metis+
  then show ?thesis
    using find_index_None [of "\<lambda>r. ruID r = ruID (heRun h)" "timelineRuns history"]
      find_index_Some [of "\<lambda>r. ruID r = ruID (heRun h)" "timelineRuns history"] by (auto simp: option.split_sel)
qed

lemma changes_placed:
  "sum_list (map (\<lambda>i. mset (filter (\<lambda>h. heKind h \<noteq> ''observed''
      \<and> find_index (\<lambda>r. ruID r = ruID (heRun h)) (timelineRuns history) = Some i) history)) [0..<length (timelineRuns history) + 1])
   = mset (filter (\<lambda>h. heKind h \<noteq> ''observed'' \<and> ruID (heRun h) \<noteq> 0) history)"
proof -
  let ?P = "\<lambda>h. heKind h \<noteq> ''observed'' \<and> ruID (heRun h) \<noteq> 0"
    and ?f = "\<lambda>h. find_index (\<lambda>r. ruID r = ruID (heRun h)) (timelineRuns history)"
  have "filter (\<lambda>h. heKind h \<noteq> ''observed'' \<and> ?f h = Some i) history = filter (\<lambda>h. ?P h \<and> ?f h = Some i) history" for i
    using timeline_run_index [of _ history] find_index_Some [of _ "timelineRuns history" i] by (intro filter_cong) auto
  moreover have "\<exists>i < length (timelineRuns history) + 1. ?f h = Some i" if "h \<in> set history" "?P h" for h
    using timeline_run_index [OF that(1)] that(2) by auto
  ultimately show ?thesis using filter_parts [of history ?P "length (timelineRuns history) + 1" ?f] by (simp del: upt_Suc)
qed

lemma sorted_timelineRuns: "i \<le> j \<Longrightarrow> j < length (timelineRuns history) \<Longrightarrow>
    tmStarted (timelineRuns history ! i) \<le> tmStarted (timelineRuns history ! j)"
  using sorted_nth_mono [of "map tmStarted (timelineRuns history)" i j] by (simp add: timelineRuns_def)

lemma filter_nonempty: "(\<And>x. x \<in> set xs \<Longrightarrow> \<not> P x \<Longrightarrow> f x = {#}) \<Longrightarrow> sum_list (map f (filter P xs)) = sum_list (map f xs)"
  for f :: "'a \<Rightarrow> 'b multiset"
  by (induction xs) auto

section \<open>Properties\<close>

text \<open>
  C24: No event and no change is lost, doubled or made up: the events of the spans, those that explain a change and
  those that do not, are the events given, and the changes of the spans are the changes of the stored history. So
  every event explains at most one change, and one that explains none is shown.
\<close>

theorem events_conserved:
  "sum_list (map span_events (ExplainTimeline history events)) = mset events
   \<and> sum_list (map (\<lambda>sp. mset (map ecChange (spChanges sp))) (ExplainTimeline history events)) =
       mset (filter (\<lambda>h. heKind h \<noteq> ''observed'' \<and> ruID (heRun h) \<noteq> 0) history)"
proof
  let ?runs = "timelineRuns history" and ?settled = "settled_timeline history events"
  let ?any = "\<lambda>_ _. True :: bool"
  have any: "settled_span ?any ?any s sp \<longleftrightarrow> (\<forall>ch \<in> set (spChanges sp). sound_change (\<lambda>_. True) ch)" for s sp
    by (simp add: settled_span_def)
  have settled: "settled_span ?any ?any s (?settled ! s)" if "s < length ?settled" for s
    using settle_spans_settled [of "placed ?runs (SortVMEvents events)" ?any ?runs ?any "[]" 0 "timeline_spans history" s]
      that timeline_spans_fresh by (simp add: settled_timeline_def [symmetric])
  note out = repairBoundaries_ok [where runs = ?runs and W = ?any, OF settled]
  show "sum_list (map span_events (ExplainTimeline history events)) = mset events"
    unfolding ExplainTimeline_eq using out(2)
    by (subst filter_nonempty) (simp_all add: settled_timeline_events span_events_def)
  have "sum_list (map (\<lambda>sp. mset (map ecChange (spChanges sp))) (ExplainTimeline history events)) =
      sum_list (map (\<lambda>sp. mset (map ecChange (spChanges sp))) (repairBoundaries ?settled ?runs))"
    unfolding ExplainTimeline_eq by (rule filter_nonempty) simp
  also have "map (\<lambda>sp. mset (map ecChange (spChanges sp))) (repairBoundaries ?settled ?runs) =
      map (mset \<circ> snd \<circ> snd) (map frame (repairBoundaries ?settled ?runs))"
    by (simp add: frame_def)
  also have "\<dots> = map (\<lambda>i. mset (filter (\<lambda>h. heKind h \<noteq> ''observed''
      \<and> find_index (\<lambda>r. ruID r = ruID (heRun h)) ?runs = Some i) history)) [0..<length ?runs + 1]"
    using out(1) by (simp add: settled_timeline_def settle_spans_frame timeline_spans_def Let_def frame_def changes_at_def comp_def
      del: upt_Suc)
  also have "sum_list \<dots> = mset (filter (\<lambda>h. heKind h \<noteq> ''observed'' \<and> ruID (heRun h) \<noteq> 0) history)"
    by (rule changes_placed)
  finally show "sum_list (map (\<lambda>sp. mset (map ecChange (spChanges sp))) (ExplainTimeline history events)) =
      mset (filter (\<lambda>h. heKind h \<noteq> ''observed'' \<and> ruID (heRun h) \<noteq> 0) history)" .
qed

text \<open>
  C25: An explanation is sound: the change stands in the span that ends with its run, and every event that explains it has its kind
  (or is the reconfiguration that vCenter logs beside a rename), did not fail, and agrees with the details the change
  records. A move and a change of the lifecycle has at most one explanation.
\<close>

theorem explanations_sound:
  assumes "sp \<in> set (ExplainTimeline history events)" and "ch \<in> set (spChanges sp)"
  shows "(\<exists>r. spTo sp = Some r \<and> ruID r = ruID (heRun (ecChange ch)))
    \<and> (\<forall>e \<in> set (ecEvents ch). candidate (ecChange ch) e \<and> agrees (ecChange ch) e)
    \<and> (heKind (ecChange ch) \<notin> {''renamed'', ''modified''} \<longrightarrow> length (ecEvents ch) \<le> 1)"
proof -
  obtain s where s: "s \<le> length (timelineRuns history)" "frame sp = frame (timeline_spans history ! s)"
      "settled_span (\<lambda>_ _. True) (\<lambda>_ _. False) s sp"
    using ExplainTimeline_span [OF assms(1), of "\<lambda>_ _. True" "\<lambda>_ _. True" "\<lambda>_ _. True"] by auto
  then have names: "map ecChange (spChanges sp) = map ecChange (changes_at (timelineRuns history) history s)"
    and To: "spTo sp = (if s < length (timelineRuns history) then Some (timelineRuns history ! s) else None)"
    by (simp_all add: nth_timeline_spans frame_def empty_span_def)
  have "ecChange ch \<in> set (map ecChange (spChanges sp))" using assms(2) by simp
  then have "find_index (\<lambda>r. ruID r = ruID (heRun (ecChange ch))) (timelineRuns history) = Some s"
    unfolding names by (auto simp: changes_at_def)
  then have "\<exists>r. spTo sp = Some r \<and> ruID r = ruID (heRun (ecChange ch))"
    using find_index_Some To by fastforce
  moreover have "sound_change (\<lambda>_. True) ch" using s(3) assms(2) by (simp add: settled_span_def)
  ultimately show ?thesis by (auto simp: sound_change_def several_def)
qed

text \<open>
  An explanation lies in the window of its span: when the clock of the event's vCenter stands alike to all runs, or was
  never measured, an event that explains a change was logged after the start of the run before and until the end of the run that recorded
  it, with five seconds of tolerance on both sides where the offset was not measured and none where it was.
\<close>

theorem explanations_in_window:
  assumes sp: "sp \<in> set (ExplainTimeline history events)" "ch \<in> set (spChanges sp)" "e \<in> set (ecEvents ch)"
    and clock: "\<And>r. r \<in> set (timelineRuns history) \<Longrightarrow> onRunClock e r = (t, measured)"
  shows "(\<forall>r. spFrom sp = Some r \<longrightarrow> tmStarted r - (if measured then 0 else boundaryTolerance) \<le> t)
    \<and> (\<forall>r. spTo sp = Some r \<longrightarrow> t \<le> runEnd r + (if measured then 0 else boundaryTolerance))"
proof -
  let ?runs = "timelineRuns history" and ?tol = "if measured then 0 else boundaryTolerance"
  define Q where "Q s e' \<longleftrightarrow> (e' = e \<longrightarrow> (0 < s \<and> s \<le> length ?runs \<longrightarrow> tmStarted (?runs ! (s - 1)) < t)
    \<and> (s < length ?runs \<longrightarrow> t \<le> tmStarted (?runs ! s)))" for s e'
  define D where "D s e' \<longleftrightarrow> (e' = e \<longrightarrow> s < length ?runs \<and> tmStarted (?runs ! s) < t \<and> t \<le> runEnd (?runs ! s))" for s e'
  define W where "W s e' \<longleftrightarrow> (e' = e \<longrightarrow> (0 < s \<and> s \<le> length ?runs \<longrightarrow> tmStarted (?runs ! (s - 1)) - ?tol \<le> t)
    \<and> (s < length ?runs \<longrightarrow> t \<le> runEnd (?runs ! s) + ?tol))" for s e'
  have tol: "0 \<le> ?tol" by (simp add: boundaryTolerance_def)
  have runEnd: "tmStarted r \<le> runEnd r" for r by (simp add: runEnd_def)
  have at: "fst (onRunClock e (?runs ! i)) = t" "toleranceAt e (?runs ! i) = ?tol" if "i < length ?runs" for i
    using clock [of "?runs ! i"] that by (auto simp: onRunClock_def toleranceAt_def split: option.splits)
  note order = sorted_timelineRuns [of _ _ history]
  have "\<exists>s \<le> length ?runs. frame sp = frame (timeline_spans history ! s) \<and> settled_span W (\<lambda>_ _. False) s sp"
  proof (rule ExplainTimeline_span [OF sp(1), of Q D])
    fix j e'
    show "Q j e'" if "place_event ?runs e' = Between j"
      using that at runEnd [of "?runs ! (j - 1)"] by (cases rule: place_event_cases [of ?runs e']) (auto simp: Q_def)
    show "D j e' \<and> Q (Suc j) e'" if "place_event ?runs e' = During j"
      using that at by (cases rule: place_event_cases [of ?runs e']) (auto simp: Q_def D_def)
    show "W j e'" if "Q j e' \<or> D j e'"
      using that tol runEnd [of "?runs ! j"] order [of "j - 1" j] by (auto simp: Q_def D_def W_def)
    show "W j e'" if "j > 0" "j \<le> length ?runs" "Q (j - 1) e'" "near_start (?runs ! (j - 1)) e'"
    proof -
      have "j - 1 < length ?runs" using that(1,2) by simp
      then show ?thesis using that(4) tol runEnd [of "?runs ! j"] order [of "j - 1" j] at [of "j - 1"]
        unfolding W_def near_start_def by (auto simp del: One_nat_def)
    qed
    show "W j e'" if "j < length ?runs" "Q (j + 1) e'" "near_end (?runs ! j) e'"
      using that tol runEnd [of "?runs ! j"] order [of "j - 1" j] at [of j] by (auto simp: W_def near_end_def)
  qed
  then obtain s where s: "s \<le> length ?runs" "frame sp = frame (timeline_spans history ! s)" "settled_span W (\<lambda>_ _. False) s sp"
    by blast
  have "W s e" using s(3) sp(2,3) by (auto simp: settled_span_def sound_change_def)
  then show ?thesis
    using s(1,2) by (auto simp: W_def nth_timeline_spans frame_def empty_span_def split: if_splits)
qed

section \<open>Witnesses\<close>

text \<open>Two runs without a measured offset, a move between them, and its migration, stamped a second after the later run started.\<close>

definition event_run :: "int \<Rightarrow> int \<Rightarrow> timed_run" where
  "event_run i t = \<lparr>ruID = i, ruSchema = '''', tmSource = '''', tmStatus = ''complete'', tmStarted = t, tmFinished = t, tmOffsets = []\<rparr>"

definition sample_history :: "vm_history_event list" where
  "sample_history =
     [\<lparr>heKind = ''first_seen'', heRun = event_run 1 0, heContext = ''lab'', heName = ''vm'', heChanges = [], heObservation = None, heSnapshots = []\<rparr>,
      \<lparr>heKind = ''moved'', heRun = event_run 2 100, heContext = ''lab'', heName = ''vm'',
       heChanges = [\<lparr>fcField = ''host'', fcName = '''', fcBefore = ''a'', fcAfter = ''b''\<rparr>], heObservation = None, heSnapshots = []\<rparr>]"

definition sample_event :: vm_event where
  "sample_event = \<lparr>evContext = ''lab'', evKey = 7, evTime = 1000000100, evExplains = ''moved'', evResult = ''ok'', evFields = [],
     evFromHost = ''a'', evToHost = ''b'', evNewName = '''', evSetCPU = 0, evSetMemoryMB = 0, evSetName = ''''\<rparr>"

definition sample_span :: event_span where
  "sample_span = \<lparr>spFrom = Some (event_run 1 0), spTo = Some (event_run 2 100),
     spChanges = [\<lparr>ecChange = sample_history ! 1, ecEvents = [sample_event]\<rparr>], spUnexplained = []\<rparr>"

lemma sample_timeline: "ExplainTimeline sample_history [sample_event] ! 1 = sample_span"
  "length (ExplainTimeline sample_history [sample_event]) = 2"
  by code_simp+

lemma sample_explained: "sample_span \<in> set (ExplainTimeline sample_history [sample_event])"
  using sample_timeline by (metis nth_mem one_less_numeral_iff semiring_norm(76))

theorem explanations_sound_witness:
  "agrees (sample_history ! 1) sample_event \<and> ruID (heRun (sample_history ! 1)) = 2"
  using explanations_sound [OF sample_explained, of "\<lparr>ecChange = sample_history ! 1, ecEvents = [sample_event]\<rparr>"]
  by (simp add: sample_span_def event_run_def)

theorem explanations_in_window_witness: "1000000100 \<le> runEnd (event_run 2 100) + boundaryTolerance"
proof -
  have "onRunClock sample_event r = (1000000100, False)" if "r \<in> set (timelineRuns sample_history)" for r
  proof -
    have "timelineRuns sample_history = [event_run 1 0, event_run 2 100]" by code_simp
    with that show ?thesis by (auto simp: onRunClock_def ClockOffset_def event_run_def sample_event_def)
  qed
  from explanations_in_window [OF sample_explained _ _ this, of "\<lparr>ecChange = sample_history ! 1, ecEvents = [sample_event]\<rparr>"]
  show ?thesis by (simp add: sample_span_def)
qed

end
