(* ===== verification/FieldDiff.thy ===== *)
theory FieldDiff
  imports Runs Coverage "HOL-Library.AList"
begin

text \<open>
  The differences between two observations of a machine (internal/assessment/diff.go from \<open>changedFields\<close> on, diff_vm_storage.go,
  diff_vm_settings.go, diff_vm_cluster.go): the flattening of a JSON value to its leaves, the comparison of two
  flattened values, and the fields of a machine. A Go map is the list of its entries in the order their keys were first set; the code
  walks the map of \<open>flattenJSON\<close> in Go's unspecified order where this text walks that list. The texts of
  \<open>fmt.Sprintf("%.3f", float64(bytes)/(1<<30))\<close> are the parameter \<open>gib\<close>.
\<close>

section \<open>JSON texts\<close>

definition json_hex :: "nat \<Rightarrow> char" where
  "json_hex n = (if n < 10 then char_of (48 + n) else char_of (87 + n))"

text \<open>The bytes that \<open>json.Marshal\<close> escapes; every other byte stands for itself.\<close>

definition json_char :: "char \<Rightarrow> string" where
  "json_char c =
     (let n = of_char c :: nat
      in if c = CHR 0x22 \<or> c = CHR 0x5C then [CHR 0x5C, c]
         else if n = 8 then [CHR 0x5C, CHR ''b''] else if n = 9 then [CHR 0x5C, CHR ''t'']
         else if n = 10 then [CHR 0x5C, CHR ''n''] else if n = 12 then [CHR 0x5C, CHR ''f'']
         else if n = 13 then [CHR 0x5C, CHR ''r'']
         else if n < 32 \<or> c = CHR ''<'' \<or> c = CHR ''>'' \<or> c = CHR ''&''
         then CHR 0x5C # ''u00'' @ [json_hex (n div 16), json_hex (n mod 16)]
         else [c])"

definition json_quote :: "string \<Rightarrow> string" where
  "json_quote s = CHR 0x22 # concat (map json_char s) @ [CHR 0x22]"

definition json_bool :: "bool \<Rightarrow> string" where
  "json_bool b = (if b then ''true'' else ''false'')"

section \<open>Flattening\<close>

lemma size_JArray: "v \<in> set vs \<Longrightarrow> size v < size (JArray vs)"
  by (induction vs) auto

lemma size_JObject: "(k, v) \<in> set fs \<Longrightarrow> size v < size (JObject fs)"
  by (induction fs) auto

text \<open>What an array element is addressed by: its key, when it is an object with a number under \<open>key\<close>, else its index.\<close>

definition element_id :: "nat \<Rightarrow> jvalue \<Rightarrow> string" where
  "element_id i v =
     (case v of JObject fs \<Rightarrow> (case map_of fs ''key'' of Some (JInt key) \<Rightarrow> itoa key | _ \<Rightarrow> itoa (int i)) | _ \<Rightarrow> itoa (int i))"

function walk :: "string \<Rightarrow> jvalue \<Rightarrow> (string \<times> string) list" where
  "walk path (JObject fs) = concat (map (\<lambda>(k, v). walk (if path \<noteq> [] then path @ ''.'' @ k else k) v) fs)"
| "walk path (JArray vs) =
     concat (map (\<lambda>(i, v). walk (path @ ''['' @ element_id i v @ '']'') v) (zip [0..<length vs] vs))"
| "walk path JNull = []"
| "walk path (JBool b) = [(path, json_bool b)]"
| "walk path (JInt i) = [(path, itoa i)]"
| "walk path (JText s) = [(path, json_quote s)]"
  by pat_completeness auto

termination
  by (relation "measure (size \<circ> snd)") (auto dest: set_zip_rightD simp del: jvalue.size intro: size_JArray size_JObject)

type_synonym flat = "(string \<times> string) list"

definition flattenJSON :: "jvalue \<Rightarrow> flat" where
  "flattenJSON v = fold (\<lambda>(path, text). AList.update path text) (walk [] v) []"

section \<open>Recorded fields\<close>

definition change_of :: "string \<Rightarrow> string \<Rightarrow> string \<Rightarrow> field_change" where
  "change_of field before after = \<lparr>fcField = field, fcName = [], fcBefore = before, fcAfter = after\<rparr>"

text \<open>The closures \<open>add\<close>: a field whose texts differ.\<close>

definition add_change :: "string \<Rightarrow> string \<Rightarrow> string \<Rightarrow> field_change list" where
  "add_change field before after = (if before \<noteq> after then [change_of field before after] else [])"

definition recordedFieldChanges :: "string \<Rightarrow> jvalue \<Rightarrow> jvalue \<Rightarrow> field_change list" where
  "recordedFieldChanges pre a b =
     (let after = flattenJSON b
      in sort_key fcField (concat (map (\<lambda>(path, old).
           case map_of after path of Some now \<Rightarrow> add_change (pre @ ''.'' @ path) old now | None \<Rightarrow> []) (flattenJSON a))))"

fun both :: "('a \<Rightarrow> 'a \<Rightarrow> 'b list) \<Rightarrow> 'a option \<Rightarrow> 'a option \<Rightarrow> 'b list" where
  "both f (Some a) (Some b) = f a b"
| "both f _ _ = []"

definition vmSettingsChanges :: "jvalue option \<Rightarrow> jvalue option \<Rightarrow> field_change list" where
  "vmSettingsChanges = both (recordedFieldChanges ''settings'')"

definition vmStateChanges :: "jvalue option \<Rightarrow> jvalue option \<Rightarrow> field_change list" where
  "vmStateChanges = both (recordedFieldChanges ''state'')"

section \<open>Files and storage\<close>

definition knownBoth :: "string \<Rightarrow> string \<Rightarrow> string" where
  "knownBoth value other = (if other = [] then [] else value)"

definition file_change :: "string \<Rightarrow> string \<Rightarrow> string \<Rightarrow> field_change list" where
  "file_change field before after = add_change field (knownBoth before after) (knownBoth after before)"

definition vmFileChanges :: "vm_files option \<Rightarrow> vm_files option \<Rightarrow> field_change list" where
  "vmFileChanges = both (\<lambda>a b.
     file_change ''files.vm_path'' (vfVMPath a) (vfVMPath b)
     @ file_change ''files.log_directory'' (vfLogDirectory a) (vfLogDirectory b)
     @ file_change ''files.snapshot_directory'' (vfSnapshotDirectory a) (vfSnapshotDirectory b)
     @ file_change ''files.suspend_directory'' (vfSuspendDirectory a) (vfSuspendDirectory b))"

definition vmStorageChanges :: "(int \<Rightarrow> string) \<Rightarrow> diff_vm \<Rightarrow> diff_vm \<Rightarrow> field_change list" where
  "vmStorageChanges gib a b =
     both (\<lambda>x y. add_change ''provisioned_gb'' (gib x) (gib y)) (dmProvisionedBytes a) (dmProvisionedBytes b)
     @ both (\<lambda>x y. add_change ''unshared_gb'' (gib x) (gib y)) (dmUnsharedBytes a) (dmUnsharedBytes b)
     @ both (\<lambda>x y. add_change ''consolidation_needed'' (json_bool x) (json_bool y))
         (dmConsolidationNeeded a) (dmConsolidationNeeded b)"

section \<open>Cluster configuration\<close>

definition clusterRulesField :: string where
  "clusterRulesField = ''cluster_config.rules''"

definition clusterHostRulesField :: string where
  "clusterHostRulesField = ''cluster_config.host_rules''"

definition clusterRuleStateField :: string where
  "clusterRuleStateField = ''cluster_config.rule_states''"

definition VMVMRule :: "drs_rule \<Rightarrow> bool" where
  "VMVMRule r \<longleftrightarrow> drKind r = ''affinity'' \<or> drKind r = ''anti-affinity''"

definition rulesText :: "drs_rule list \<Rightarrow> (drs_rule \<Rightarrow> string) \<Rightarrow> string" where
  "rulesText rules entry = str_join '', '' (sort (filter (\<lambda>e. e \<noteq> []) (map entry rules)))"

definition vm_rule_entry :: "drs_rule \<Rightarrow> string" where
  "vm_rule_entry r = (if \<not> VMVMRule r then [] else drName r @ '' ('' @ drKind r @ '')'')"

definition host_rule_entry :: "drs_rule \<Rightarrow> string" where
  "host_rule_entry r =
     (if VMVMRule r then []
      else if drHostGroup r = [] then drName r @ '' ('' @ drKind r @ '')''
      else drName r @ '' ('' @ drKind r @ '', '' @ (if drHostAntiAffine r then ''off '' else ''on '') @ drHostGroup r @ '')'')"

definition rule_state_entry :: "drs_rule \<Rightarrow> string" where
  "rule_state_entry r =
     (let states = (if \<not> drEnabled r then [''disabled''] else []) @ (if drMandatory r then [''mandatory''] else [])
      in if states = [] then [] else drName r @ '' ('' @ str_join '', '' states @ '')'')"

definition vmRulesText :: "drs_rule list \<Rightarrow> string" where
  "vmRulesText rules = rulesText rules vm_rule_entry"

definition hostRulesText :: "drs_rule list \<Rightarrow> string" where
  "hostRulesText rules = rulesText rules host_rule_entry"

definition ruleStatesText :: "drs_rule list \<Rightarrow> string" where
  "ruleStatesText rules = rulesText rules rule_state_entry"

text \<open>A member that JSON leaves out when it is empty.\<close>

definition omit_empty :: "string \<Rightarrow> string \<Rightarrow> (string \<times> jvalue) list" where
  "omit_empty k s = (if s = [] then [] else [(k, JText s)])"

definition ha_settings :: "vm_cluster_config \<Rightarrow> jvalue" where
  "ha_settings c = JObject
     (omit_empty ''ha_restart_priority'' (ccHARestartPriority c)
      @ omit_empty ''ha_isolation_response'' (ccHAIsolationResponse c)
      @ omit_empty ''ha_vm_monitoring'' (ccHAVMMonitoring c))"

definition vmClusterConfigChanges :: "vm_cluster_config option \<Rightarrow> vm_cluster_config option \<Rightarrow> field_change list" where
  "vmClusterConfigChanges = both (\<lambda>a b.
     add_change clusterHostRulesField (hostRulesText (ccRules a)) (hostRulesText (ccRules b))
     @ add_change clusterRulesField (vmRulesText (ccRules a)) (vmRulesText (ccRules b))
     @ add_change clusterRuleStateField (ruleStatesText (ccRules a)) (ruleStatesText (ccRules b))
     @ recordedFieldChanges ''cluster_config'' (ha_settings a) (ha_settings b))"

section \<open>Migration configuration\<close>

definition migrationFieldPrefix :: string where
  "migrationFieldPrefix = ''migration_configuration''"

fun json_flag :: "bool option \<Rightarrow> jvalue" where
  "json_flag None = JNull"
| "json_flag (Some b) = JBool b"

definition omit_none :: "string \<Rightarrow> ('a \<Rightarrow> jvalue) \<Rightarrow> 'a option \<Rightarrow> (string \<times> jvalue) list" where
  "omit_none k f x = (case x of None \<Rightarrow> [] | Some y \<Rightarrow> [(k, f y)])"

definition allocationCompat :: "allocation option \<Rightarrow> jvalue" where
  "allocationCompat v =
     (case v of None \<Rightarrow> JNull
      | Some a \<Rightarrow> JObject (omit_none ''reservation'' JInt (alReservation a) @ omit_none ''limit'' JInt (alLimit a)))"

text \<open>The late-added fields of a disk count only where both runs recorded them.\<close>

definition peer_known :: "(diff_disk \<Rightarrow> string) \<Rightarrow> diff_disk \<Rightarrow> diff_disk option \<Rightarrow> string" where
  "peer_known f d peer =
     (case peer of None \<Rightarrow> f d | Some p \<Rightarrow> if f p = [] \<or> f d = [] then [] else f d)"

definition migration_disk :: "diff_disk \<Rightarrow> diff_disk option \<Rightarrow> jvalue" where
  "migration_disk d peer = JObject
     ([(''key'', JInt (ddKey d)), (''capacity_bytes'', JInt (ddCapacityBytes d))]
      @ omit_empty ''uuid'' (ddUUID d) @ omit_empty ''backing_type'' (ddBackingType d)
      @ [(''raw'', JBool (ddRaw d))]
      @ omit_empty ''disk_mode'' (ddDiskMode d) @ omit_empty ''sharing'' (ddSharing d)
      @ omit_none ''thin_provisioned'' JBool (ddThinProvisioned d) @ omit_none ''eagerly_scrub'' JBool (ddEagerlyScrub d)
      @ omit_empty ''shared_bus'' (peer_known ddSharedBus d peer)
      @ omit_empty ''raw_lun_id'' (peer_known ddRawLUNID d peer)
      @ omit_empty ''raw_compatibility_mode'' (peer_known ddRawCompatibilityMode d peer))"

definition last_disk :: "diff_disk list \<Rightarrow> int \<Rightarrow> diff_disk option" where
  "last_disk ds key = List.find (\<lambda>d. ddKey d = key) (rev ds)"

definition migrationDisks :: "diff_disk list \<Rightarrow> diff_disk list \<Rightarrow> jvalue list" where
  "migrationDisks ds other = map (\<lambda>d. migration_disk d (last_disk other (ddKey d))) (sort_key ddKey ds)"

text \<open>The device keys are 32 bits wide.\<close>

definition wrap32 :: "int \<Rightarrow> int" where
  "wrap32 x = (x + 2 ^ 31) mod 2 ^ 32 - 2 ^ 31"

definition nicKey :: "diff_nic \<Rightarrow> nat \<Rightarrow> diff_nic list \<Rightarrow> int" where
  "nicKey nic i other =
     (if dnKey nic \<noteq> 0 then dnKey nic
      else case List.find (\<lambda>p. dnKey p \<noteq> 0 \<and> dnMACAddress nic \<noteq> [] \<and> equal_fold (dnMACAddress nic) (dnMACAddress p)) other of
        Some p \<Rightarrow> dnKey p
      | None \<Rightarrow>
          (case List.find (\<lambda>p. dnKey p \<noteq> 0 \<and> dnLabel nic \<noteq> [] \<and> dnLabel nic = dnLabel p) other of
             Some p \<Rightarrow> dnKey p
           | None \<Rightarrow> wrap32 (- int i - 1)))"

definition migration_nic :: "diff_nic \<Rightarrow> int \<Rightarrow> jvalue" where
  "migration_nic nic key = JObject
     ([(''key'', JInt key)] @ omit_empty ''adapter'' (dnAdapter nic)
      @ omit_empty ''mac_address'' (to_lower (dnMACAddress nic)) @ omit_empty ''mac_address_type'' (dnMACAddressType nic)
      @ omit_none ''upt_compatibility_enabled'' JBool (dnUPTCompatible nic))"

definition migrationNICs :: "diff_nic list \<Rightarrow> diff_nic list \<Rightarrow> jvalue list" where
  "migrationNICs nics other =
     map (\<lambda>(nic, key). migration_nic nic key)
       (sort_key snd (map (\<lambda>(i, nic). (nic, nicKey nic i other)) (zip [0..<length nics] nics)))"

definition migrationConfig :: "hardware \<Rightarrow> hardware \<Rightarrow> jvalue" where
  "migrationConfig h other = JObject
     ([(''configuration_available'', JBool (hwConfigurationAvailable h)), (''guest_id'', JText (hwGuestID h)),
       (''firmware'', JText (hwFirmware h))]
      @ omit_empty ''hardware_version'' (knownBoth (hwHardwareVersion h) (hwHardwareVersion other))
      @ [(''secure_boot_enabled'', json_flag (hwSecureBootEnabled h)), (''cores_per_socket'', JInt (hwCoresPerSocket h)),
         (''cpu_sockets'', JInt (hwCPUSockets h)), (''auto_cores_per_socket'', json_flag (hwAutoCoresPerSocket h)),
         (''cpu_allocation'', allocationCompat (hwCPUAllocation h)),
         (''memory_allocation'', allocationCompat (hwMemoryAllocation h)),
         (''memory_reservation_locked_to_max'', json_flag (hwMemoryReservationLockedToMax h)),
         (''managed_by'', hwManagedBy h), (''disks'', JArray (migrationDisks (hwDisks h) (hwDisks other))),
         (''nics'', JArray (migrationNICs (hwNICs h) (hwNICs other))), (''tpms'', hwTPMs h),
         (''pci_devices'', hwPCIDevices h), (''floppies'', hwFloppies h)])"

definition flat_value :: "flat \<Rightarrow> string \<Rightarrow> string" where
  "flat_value m path = (case map_of m path of Some t \<Rightarrow> t | None \<Rightarrow> [])"

definition flat_changes :: "string \<Rightarrow> flat \<Rightarrow> flat \<Rightarrow> field_change list" where
  "flat_changes pre before after =
     concat (map (\<lambda>(path, old). add_change (pre @ ''.'' @ path) old (flat_value after path)) before)
     @ concat (map (\<lambda>(path, now).
         if map_of before path = None \<and> now \<noteq> [] then [change_of (pre @ ''.'' @ path) [] now] else []) after)"

definition migrationFieldChanges :: "diff_vm \<Rightarrow> diff_vm \<Rightarrow> field_change list" where
  "migrationFieldChanges a b =
     flat_changes migrationFieldPrefix (flattenJSON (migrationConfig (dmHardware a) (dmHardware b)))
       (flattenJSON (migrationConfig (dmHardware b) (dmHardware a)))"

section \<open>Metadata\<close>

definition tagLabel :: "meta_tag \<Rightarrow> string" where
  "tagLabel t = (if mtCategory t = [] then mtName t else mtCategory t @ ''/'' @ mtName t)"

definition tags_by_key :: "meta_tag list \<Rightarrow> (string \<times> meta_tag) list" where
  "tags_by_key ts = fold (\<lambda>t. AList.update (mtCategoryID t @ ''/'' @ mtID t) t) ts []"

definition attributes_by_key :: "meta_attribute list \<Rightarrow> (int \<times> meta_attribute) list" where
  "attributes_by_key xs = fold (\<lambda>x. AList.update (maKey x) x) xs []"

definition tag_changes :: "meta_tag list \<Rightarrow> meta_tag list \<Rightarrow> field_change list" where
  "tag_changes before after =
     (let bt = tags_by_key before; at = tags_by_key after; field = (\<lambda>key. ''metadata.tags['' @ key @ '']'')
      in concat (map (\<lambda>(key, tag).
            case map_of bt key of None \<Rightarrow> [change_of (field key) [] (tagLabel tag)]
            | Some old \<Rightarrow> add_change (field key) (tagLabel old) (tagLabel tag)) at)
         @ concat (map (\<lambda>(key, tag).
            if map_of at key = None then [change_of (field key) (tagLabel tag) []] else []) bt))"

definition attribute_text :: "meta_attribute \<Rightarrow> string" where
  "attribute_text a = maName a @ ''='' @ maValue a"

definition attribute_changes :: "meta_attribute list \<Rightarrow> meta_attribute list \<Rightarrow> field_change list" where
  "attribute_changes before after =
     (let bt = attributes_by_key before; at = attributes_by_key after;
          field = (\<lambda>key. ''metadata.custom_attributes['' @ itoa key @ '']'')
      in concat (map (\<lambda>(key, attr).
            case map_of bt key of None \<Rightarrow> [change_of (field key) [] (attribute_text attr)]
            | Some old \<Rightarrow>
                if maName old \<noteq> maName attr \<or> maValue old \<noteq> maValue attr
                then [change_of (field key) (attribute_text old) (attribute_text attr)] else []) at)
         @ concat (map (\<lambda>(key, attr).
            if map_of at key = None then [change_of (field key) (attribute_text attr) []] else []) bt))"

definition metadataFieldChanges :: "metadata \<Rightarrow> metadata \<Rightarrow> field_change list" where
  "metadataFieldChanges a b =
     sort_key fcField
       ((if mdTagsStatus a = ''available'' \<and> mdTagsStatus b = ''available'' then tag_changes (mdTags a) (mdTags b) else [])
        @ (if mdAttributesStatus a = ''available'' \<and> mdAttributesStatus b = ''available''
           then attribute_changes (mdAttributes a) (mdAttributes b) else []))"

section \<open>Placement and fields\<close>

definition placementDiffers :: "string \<Rightarrow> string \<Rightarrow> bool" where
  "placementDiffers a b \<longleftrightarrow> a \<noteq> [] \<and> b \<noteq> [] \<and> a \<noteq> b"

definition configUnknown :: "diff_vm \<Rightarrow> bool" where
  "configUnknown v \<longleftrightarrow> \<not> hwConfigurationAvailable (dmHardware v) \<and> dmCPU v = 0 \<and> dmMemoryMB v = 0"

definition equalStrings :: "string list \<Rightarrow> string list \<Rightarrow> bool" where
  "equalStrings a b \<longleftrightarrow> sort a = sort b"

definition moved :: "diff_vm \<Rightarrow> diff_vm \<Rightarrow> string \<Rightarrow> string \<Rightarrow> bool" where
  "moved a b avc bvc \<longleftrightarrow>
     avc \<noteq> bvc \<or> placementDiffers (dmHost a) (dmHost b) \<or> placementDiffers (dmCluster a) (dmCluster b)
     \<or> placementDiffers (dmFolder a) (dmFolder b)
     \<or> dmDatastores a \<noteq> [] \<and> dmDatastores b \<noteq> [] \<and> \<not> equalStrings (dmDatastores a) (dmDatastores b)"

definition config_changes :: "diff_vm \<Rightarrow> diff_vm \<Rightarrow> field_change list" where
  "config_changes a b =
     (if \<not> configUnknown a \<and> \<not> configUnknown b
      then add_change ''cpu'' (itoa (dmCPU a)) (itoa (dmCPU b))
        @ add_change ''memory'' (itoa (dmMemoryMB a)) (itoa (dmMemoryMB b))
        @ add_change ''guest_os'' (dmGuestOS a) (dmGuestOS b)
        @ add_change ''annotation'' (dmAnnotation a) (dmAnnotation b)
      else [])"

definition runtime_changes :: "(int \<Rightarrow> string) \<Rightarrow> diff_vm \<Rightarrow> diff_vm \<Rightarrow> field_change list" where
  "runtime_changes gib a b =
     add_change ''power_state'' (dmPowerState a) (dmPowerState b)
     @ add_change ''guest_state'' (dmGuestState a) (dmGuestState b)
     @ add_change ''tools_state'' (dmToolsState a) (dmToolsState b)
     @ add_change ''ip_address'' (dmIPAddress a) (dmIPAddress b)
     @ add_change ''storage_gb'' (dmStorageGB a) (dmStorageGB b)
     @ vmStorageChanges gib a b @ vmStateChanges (dmState a) (dmState b)"

definition changedFields :: "(int \<Rightarrow> string) \<Rightarrow> diff_vm \<Rightarrow> diff_vm \<Rightarrow> bool \<Rightarrow> field_change list" where
  "changedFields gib a b runtime =
     add_change ''name'' (dmName a) (dmName b)
     @ config_changes a b
     @ vmFileChanges (dmFiles a) (dmFiles b)
     @ vmSettingsChanges (dmSettings a) (dmSettings b)
     @ vmClusterConfigChanges (dmClusterConfig a) (dmClusterConfig b)
     @ migrationFieldChanges a b
     @ metadataFieldChanges (dmMetadata a) (dmMetadata b)
     @ (if runtime then runtime_changes gib a b else [])"


section \<open>Maps built by setting entries\<close>

text \<open>A Go map set from the elements of a list: the last element of a key counts.\<close>

lemma fold_update_distinct:
  "distinct (map fst m) \<Longrightarrow> distinct (map fst (fold (\<lambda>x. AList.update (k x) (v x)) xs m))"
  by (induction xs arbitrary: m) (simp_all add: distinct_update)

lemma fold_update_keys:
  "fst ` set (fold (\<lambda>x. AList.update (k x) (v x)) xs m) = fst ` set m \<union> k ` set xs"
  by (induction xs arbitrary: m) (auto simp: dom_update)

lemma distinct_flattenJSON: "distinct (map fst (flattenJSON v))"
  unfolding flattenJSON_def case_prod_beta by (rule fold_update_distinct) simp

lemma distinct_tags_by_key: "distinct (map fst (tags_by_key ts))"
  unfolding tags_by_key_def by (rule fold_update_distinct) simp

lemma distinct_attributes_by_key: "distinct (map fst (attributes_by_key xs))"
  unfolding attributes_by_key_def by (rule fold_update_distinct) simp

section \<open>No change within one observation\<close>

lemma add_change_same [simp]: "add_change f x x = []"
  by (simp add: add_change_def)

lemma concat_map_Nil: "(\<And>x. x \<in> set xs \<Longrightarrow> f x = []) \<Longrightarrow> concat (map f xs) = []"
  by simp

lemma recordedFieldChanges_same [simp]: "recordedFieldChanges pre v v = []"
proof -
  have "concat (map (\<lambda>(path, old). case map_of (flattenJSON v) path of
      Some now \<Rightarrow> add_change (pre @ ''.'' @ path) old now | None \<Rightarrow> []) (flattenJSON v)) = []"
    by (rule concat_map_Nil) (auto dest: map_of_is_SomeI [OF distinct_flattenJSON])
  then show ?thesis by (simp only: recordedFieldChanges_def Let_def) simp
qed

lemma both_same: "(\<And>x. f x x = []) \<Longrightarrow> both f a a = []"
  by (cases a) auto

lemma optional_changes_same [simp]:
  "vmSettingsChanges s s = []" "vmStateChanges s s = []" "vmFileChanges fs fs = []" "vmClusterConfigChanges c c = []"
  by (simp_all add: vmSettingsChanges_def vmStateChanges_def vmFileChanges_def vmClusterConfigChanges_def both_same file_change_def)

lemma vmStorageChanges_same [simp]: "vmStorageChanges gib v v = []"
  by (simp add: vmStorageChanges_def both_same)

lemma tag_changes_same [simp]: "tag_changes ts ts = []"
  using distinct_tags_by_key [of ts]
  by (auto simp: tag_changes_def Let_def dest: map_of_is_SomeI split: option.splits)

lemma attribute_changes_same [simp]: "attribute_changes xs xs = []"
  using distinct_attributes_by_key [of xs]
  by (auto simp: attribute_changes_def Let_def dest: map_of_is_SomeI split: option.splits)

lemma metadataFieldChanges_same [simp]: "metadataFieldChanges m m = []"
  by (simp add: metadataFieldChanges_def)

lemma moved_same [simp]: "\<not> moved v v vc vc"
  by (simp add: moved_def placementDiffers_def equalStrings_def)

section \<open>The migration fields that are reported\<close>

lemma walk_text: "(p, t) \<in> set (walk path v) \<Longrightarrow> t \<noteq> []"
  by (induction path v rule: walk.induct) (auto simp: json_bool_def json_quote_def)

lemma flattenJSON_text: "(p, t) \<in> set (flattenJSON v) \<Longrightarrow> t \<noteq> []"
proof -
  have "\<forall>(p, t) \<in> set m. t \<noteq> [] \<Longrightarrow> \<forall>(p, t) \<in> set ps. t \<noteq> [] \<Longrightarrow>
      \<forall>(p, t) \<in> set (fold (\<lambda>(path, text). AList.update path text) ps m). t \<noteq> []" for ps m :: flat
  proof (induction ps arbitrary: m)
    case (Cons x ps)
    obtain q u where x: "x = (q, u)" by force
    have "set (AList.update q u m) \<subseteq> insert (q, u) (set m)" by (induction m) auto
    then have "\<forall>(p, t) \<in> set (AList.update q u m). t \<noteq> []" using Cons.prems x by auto
    then show ?case using Cons.IH Cons.prems(2) x by simp
  qed simp
  from this [of "[]" "walk [] v"] walk_text
  show "(p, t) \<in> set (flattenJSON v) \<Longrightarrow> t \<noteq> []" unfolding flattenJSON_def by fastforce
qed

text \<open>The changes of two flattened values are the paths whose texts differ, with the empty text where a path is missing.\<close>

lemma set_flat_changes:
  assumes "distinct (map fst m)" and "distinct (map fst n)"
    and "\<And>p t. (p, t) \<in> set m \<Longrightarrow> t \<noteq> []"
  shows "set (flat_changes pre m n) =
    {change_of (pre @ ''.'' @ p) (flat_value m p) (flat_value n p) | p. flat_value m p \<noteq> flat_value n p}" (is "?L = ?R")
proof
  show "?L \<subseteq> ?R"
  proof
    fix c assume "c \<in> ?L"
    then consider p old where "(p, old) \<in> set m" "old \<noteq> flat_value n p" "c = change_of (pre @ ''.'' @ p) old (flat_value n p)"
      | p now where "(p, now) \<in> set n" "map_of m p = None" "now \<noteq> []" "c = change_of (pre @ ''.'' @ p) [] now"
      by (auto simp: flat_changes_def add_change_def split: if_splits)
    then show "c \<in> ?R"
    proof cases
      case 1
      then have "flat_value m p = old" using assms(1) by (simp add: flat_value_def)
      with 1 show ?thesis by blast
    next
      case 2
      then have "flat_value m p = []" "flat_value n p = now" using assms(2) by (simp_all add: flat_value_def)
      with 2 show ?thesis by (intro CollectI exI [of _ p]) simp
    qed
  qed
  show "?R \<subseteq> ?L"
  proof
    fix c assume "c \<in> ?R"
    then obtain p where p: "flat_value m p \<noteq> flat_value n p" "c = change_of (pre @ ''.'' @ p) (flat_value m p) (flat_value n p)"
      by blast
    show "c \<in> ?L"
    proof (cases "map_of m p")
      case None
      then have "flat_value m p = []" by (simp add: flat_value_def)
      moreover have "(p, flat_value n p) \<in> set n"
        using p(1) calculation by (auto simp: flat_value_def split: option.splits dest: map_of_SomeD)
      ultimately show ?thesis using p None by (force simp: flat_changes_def)
    next
      case (Some old)
      then have "(p, old) \<in> set m" "flat_value m p = old" by (auto simp: flat_value_def dest: map_of_SomeD)
      then show ?thesis using p by (force simp: flat_changes_def add_change_def)
    qed
  qed
qed

lemma migrationFieldChanges_exact:
  "set (migrationFieldChanges a b) =
    (let m = flattenJSON (migrationConfig (dmHardware a) (dmHardware b));
         n = flattenJSON (migrationConfig (dmHardware b) (dmHardware a))
     in {change_of (migrationFieldPrefix @ ''.'' @ p) (flat_value m p) (flat_value n p) | p. flat_value m p \<noteq> flat_value n p})"
  unfolding migrationFieldChanges_def Let_def
  by (rule set_flat_changes) (use distinct_flattenJSON flattenJSON_text in auto)

lemma migrationFieldChanges_same [simp]: "migrationFieldChanges v v = []"
proof -
  have "set (migrationFieldChanges v v) = {}" unfolding migrationFieldChanges_exact by simp
  then show ?thesis by simp
qed

lemma changedFields_same [simp]: "changedFields gib v v runtime = []"
  by (simp add: changedFields_def config_changes_def runtime_changes_def)


end
