(* ===== verification/RunDiff.thy ===== *)
theory RunDiff
  imports FieldDiff "HOL-Library.Multiset"
begin

text \<open>
  The comparison of the machines of two captures (internal/assessment/diff.go, diff_vcenter.go, diff_import.go): which
  contexts of a vCenter count, the matching of the machines, the changes of a matched pair and of its snapshots, and the
  coverage issues that stand for what was not compared. The code keeps the contexts of a capture in a map and walks it in Go's unspecified
  order: a side here is the list of its contexts in that order. \<open>rfc3339\<close> is the text of an instant.
\<close>

section \<open>Data\<close>

record stored_vm =
  svObservation :: diff_observation
  svSnapshots :: "diff_snapshot list"

record snapshot_change =
  scKind :: string
  scVMName :: string
  scContext :: string
  scName :: string
  scBefore :: string
  scAfter :: string
  scCreateTime :: string

record vm_change =
  vcChanges :: "string list"
  vcName :: string
  vcContext :: string
  vcMatchBasis :: string
  vcFields :: "field_change list"
  vcBefore :: "diff_observation option"
  vcAfter :: "diff_observation option"

text \<open>The messages of the warnings and coverage issues.\<close>

datatype diff_note =
    SourcesDiffer int int
  | NotFullyCollected string string string        \<comment> \<open>context, scope, error\<close>
  | SnapshotsNotCollected string string reason    \<comment> \<open>context, scope\<close>
  | RecordedOnlyIn string string                  \<comment> \<open>context, scope\<close>
  | VCenterNotCollected string string             \<comment> \<open>vCenter, the scope that lacks it\<close>
  | CollectionIncomplete string string string string  \<comment> \<open>context, kind, scope, error\<close>
  | CollectionNotRecorded string string           \<comment> \<open>kind, scope\<close>
  | CollectionNotComparable string string string  \<comment> \<open>vCenter, kind, the scope that lacks it\<close>
  | LeftOut "string list" "string list"           \<comment> \<open>what an import does not carry, and what it records less precisely\<close>

record coverage_issue =
  ciScope :: string
  ciContext :: string
  ciMessage :: diff_note

record diff_counts =
  dcAppeared :: int
  dcVanished :: int
  dcMoved :: int
  dcModified :: int
  dcSnapshots :: int
  dcResources :: int

section \<open>Snapshots\<close>

definition snapshot_Imported :: "diff_snapshot \<Rightarrow> bool" where
  "snapshot_Imported s \<longleftrightarrow> has_prefix ''import:'' (dsnID s)"

definition snapshot_changed :: "(int \<Rightarrow> string) \<Rightarrow> stored_vm \<Rightarrow> diff_snapshot \<Rightarrow> diff_snapshot \<Rightarrow> snapshot_change list" where
  "snapshot_changed rfc3339 b old s =
     (let current = (dsnCurrent old \<noteq> dsnCurrent s \<and> \<not> snapshot_Imported old \<and> \<not> snapshot_Imported s)
      in if dsnName old \<noteq> dsnName s \<or> dsnDescription old \<noteq> dsnDescription s \<or> current
         then [\<lparr>scKind = ''changed'', scVMName = dmName (doVM (svObservation b)), scContext = doContext (svObservation b),
               scName = dsnName s, scBefore = dsnName old, scAfter = dsnName s, scCreateTime = rfc3339 (dsnCreateTime s)\<rparr>]
         else [])"

text \<open>\<open>byID\<close>: the base snapshots not matched yet, the last of an ID first.\<close>

definition snapshots_by_id :: "diff_snapshot list \<Rightarrow> (string \<times> diff_snapshot) list" where
  "snapshots_by_id ss = fold (\<lambda>s. AList.update (dsnID s) s) ss []"

text \<open>The difference of two instants saturates at 64 bits in the code, far beyond the second it is compared with.\<close>

definition importedCounterpart ::
    "diff_snapshot list \<Rightarrow> (string \<times> diff_snapshot) list \<Rightarrow> diff_snapshot \<Rightarrow> diff_snapshot option" where
  "importedCounterpart base remaining s =
     List.find (\<lambda>old. map_of remaining (dsnID old) \<noteq> None \<and> (snapshot_Imported old \<or> snapshot_Imported s)
        \<and> dsnName old = dsnName s \<and> \<bar>dsnCreateTime old - dsnCreateTime s\<bar> < 1000000000) base"

definition snapshot_created :: "(int \<Rightarrow> string) \<Rightarrow> stored_vm \<Rightarrow> diff_snapshot \<Rightarrow> snapshot_change" where
  "snapshot_created rfc3339 b s =
     \<lparr>scKind = ''created'', scVMName = dmName (doVM (svObservation b)), scContext = doContext (svObservation b),
      scName = dsnName s, scBefore = [], scAfter = rfc3339 (dsnCreateTime s), scCreateTime = rfc3339 (dsnCreateTime s)\<rparr>"

definition snapshot_removed :: "(int \<Rightarrow> string) \<Rightarrow> stored_vm \<Rightarrow> diff_snapshot \<Rightarrow> snapshot_change" where
  "snapshot_removed rfc3339 a s =
     \<lparr>scKind = ''removed'', scVMName = dmName (doVM (svObservation a)), scContext = doContext (svObservation a),
      scName = dsnName s, scBefore = rfc3339 (dsnCreateTime s), scAfter = [], scCreateTime = rfc3339 (dsnCreateTime s)\<rparr>"

fun match_by_id :: "(int \<Rightarrow> string) \<Rightarrow> stored_vm \<Rightarrow> (string \<times> diff_snapshot) list \<Rightarrow> diff_snapshot list
    \<Rightarrow> snapshot_change list \<times> diff_snapshot list \<times> (string \<times> diff_snapshot) list" where
  "match_by_id rfc3339 b byID [] = ([], [], byID)"
| "match_by_id rfc3339 b byID (s # ss) =
     (case map_of byID (dsnID s) of
        Some old \<Rightarrow>
          (let (out, unmatched, left) = match_by_id rfc3339 b (AList.delete (dsnID s) byID) ss
           in (snapshot_changed rfc3339 b old s @ out, unmatched, left))
      | None \<Rightarrow>
          (let (out, unmatched, left) = match_by_id rfc3339 b byID ss in (out, s # unmatched, left)))"

fun match_imported :: "(int \<Rightarrow> string) \<Rightarrow> stored_vm \<Rightarrow> stored_vm \<Rightarrow> (string \<times> diff_snapshot) list \<Rightarrow> diff_snapshot list
    \<Rightarrow> snapshot_change list \<times> (string \<times> diff_snapshot) list" where
  "match_imported rfc3339 a b byID [] = ([], byID)"
| "match_imported rfc3339 a b byID (s # ss) =
     (case importedCounterpart (svSnapshots a) byID s of
        Some old \<Rightarrow>
          (let (out, left) = match_imported rfc3339 a b (AList.delete (dsnID old) byID) ss
           in (snapshot_changed rfc3339 b old s @ out, left))
      | None \<Rightarrow>
          (let (out, left) = match_imported rfc3339 a b byID ss in (snapshot_created rfc3339 b s # out, left)))"

definition compareSnapshots :: "(int \<Rightarrow> string) \<Rightarrow> stored_vm \<Rightarrow> stored_vm \<Rightarrow> snapshot_change list" where
  "compareSnapshots rfc3339 a b =
     (let (changed, unmatched, byID) = match_by_id rfc3339 b (snapshots_by_id (svSnapshots a)) (svSnapshots b);
          (created, left) = match_imported rfc3339 a b byID unmatched
      in changed @ created @ map (\<lambda>(k, s). snapshot_removed rfc3339 a s) left)"

section \<open>Matching machines\<close>

definition vm_of :: "stored_vm \<Rightarrow> diff_vm" where
  "vm_of v = doVM (svObservation v)"

definition identityKey :: "string \<Rightarrow> string \<Rightarrow> string" where
  "identityKey kind value = kind @ NUL @ value"

definition identity_kinds :: "(string \<times> (diff_vm \<Rightarrow> string)) list" where
  "identity_kinds = [(''instance_uuid'', dmInstanceUUID), (''bios_uuid'', dmBIOSUUID)]"

text \<open>\<open>targetIdentityCounts\<close>: how often an identity stands in the target.\<close>

definition identity_keys_of :: "stored_vm \<Rightarrow> string list" where
  "identity_keys_of v =
     concat (map (\<lambda>(kind, f). if f (vm_of v) \<noteq> [] then [identityKey kind (f (vm_of v))] else []) identity_kinds)"

definition identity_count :: "stored_vm list \<Rightarrow> string \<Rightarrow> nat" where
  "identity_count target k = length (filter ((=) k) (concat (map identity_keys_of target)))"

definition same_moref :: "stored_vm \<Rightarrow> stored_vm \<Rightarrow> bool" where
  "same_moref a b \<longleftrightarrow> doVCenterID (svObservation a) = doVCenterID (svObservation b) \<and> dmID (vm_of a) = dmID (vm_of b)"

fun match_identity :: "stored_vm list \<Rightarrow> bool list \<Rightarrow> stored_vm \<Rightarrow> (string \<Rightarrow> nat) \<Rightarrow> (string \<times> (diff_vm \<Rightarrow> string)) list
    \<Rightarrow> (nat \<times> string) option" where
  "match_identity base used target counts [] = None"
| "match_identity base used target counts ((kind, f) # kinds) =
     (let value = f (vm_of target)
      in if value = [] \<or> counts (identityKey kind value) \<noteq> 1
         then match_identity base used target counts kinds
         else (case filter (\<lambda>i. \<not> used ! i \<and> f (vm_of (base ! i)) = value) [0..<length base] of
                 [i] \<Rightarrow> Some (i, kind)
               | _ \<Rightarrow> match_identity base used target counts kinds))"

definition findMatch :: "stored_vm list \<Rightarrow> bool list \<Rightarrow> stored_vm \<Rightarrow> (string \<Rightarrow> nat) \<Rightarrow> (nat \<times> string) option" where
  "findMatch base used target counts =
     (case List.find (\<lambda>i. \<not> used ! i \<and> same_moref (base ! i) target) [0..<length base] of
        Some i \<Rightarrow> Some (i, ''moref'')
      | None \<Rightarrow> match_identity base used target counts identity_kinds)"

section \<open>Comparing machines\<close>

definition vm_appeared :: "stored_vm \<Rightarrow> vm_change" where
  "vm_appeared t = \<lparr>vcChanges = [''appeared''], vcName = dmName (vm_of t), vcContext = doContext (svObservation t),
     vcMatchBasis = [], vcFields = [], vcBefore = None, vcAfter = Some (svObservation t)\<rparr>"

definition vm_vanished :: "stored_vm \<Rightarrow> vm_change" where
  "vm_vanished b = \<lparr>vcChanges = [''vanished''], vcName = dmName (vm_of b), vcContext = doContext (svObservation b),
     vcMatchBasis = [], vcFields = [], vcBefore = Some (svObservation b), vcAfter = None\<rparr>"

definition vm_matched :: "(int \<Rightarrow> string) \<Rightarrow> bool \<Rightarrow> stored_vm \<Rightarrow> stored_vm \<Rightarrow> string \<Rightarrow> vm_change list" where
  "vm_matched gib runtime before after basis =
     (let fields = changedFields gib (vm_of before) (vm_of after) runtime;
          changes =
            (if moved (vm_of before) (vm_of after) (doVCenterID (svObservation before)) (doVCenterID (svObservation after))
             then [''moved''] else []) @ (if fields \<noteq> [] then [''modified''] else [])
      in if changes = [] then []
         else [\<lparr>vcChanges = changes, vcName = dmName (vm_of after), vcContext = doContext (svObservation after),
                vcMatchBasis = basis, vcFields = fields, vcBefore = Some (svObservation before),
                vcAfter = Some (svObservation after)\<rparr>])"

fun compare_targets :: "(int \<Rightarrow> string) \<Rightarrow> (int \<Rightarrow> string) \<Rightarrow> bool \<Rightarrow> stored_vm list \<Rightarrow> (string \<Rightarrow> nat) \<Rightarrow> bool list \<Rightarrow> stored_vm list
    \<Rightarrow> vm_change list \<times> snapshot_change list \<times> bool list" where
  "compare_targets gib rfc3339 runtime base counts used [] = ([], [], used)"
| "compare_targets gib rfc3339 runtime base counts used (t # ts) =
     (case findMatch base used t counts of
        None \<Rightarrow>
          (let (out, snaps, used') = compare_targets gib rfc3339 runtime base counts used ts
           in (vm_appeared t # out, map (snapshot_created rfc3339 t) (svSnapshots t) @ snaps, used'))
      | Some (j, basis) \<Rightarrow>
          (let (out, snaps, used') = compare_targets gib rfc3339 runtime base counts (used[j := True]) ts;
               same = (doVCenterID (svObservation (base ! j)) = doVCenterID (svObservation t))
           in (vm_matched gib runtime (base ! j) t basis @ out,
               (if same then compareSnapshots rfc3339 (base ! j) t else []) @ snaps, used')))"

definition compareVMs :: "(int \<Rightarrow> string) \<Rightarrow> (int \<Rightarrow> string) \<Rightarrow> stored_vm list \<Rightarrow> stored_vm list \<Rightarrow> bool
    \<Rightarrow> vm_change list \<times> snapshot_change list" where
  "compareVMs gib rfc3339 base target runtime =
     (let (out, snaps, used) =
        compare_targets gib rfc3339 runtime base (identity_count target) (replicate (length base) False) target
      in (out @ map (\<lambda>i. vm_vanished (base ! i)) (filter (\<lambda>i. \<not> used ! i) [0..<length base]), snaps))"

definition countChanges :: "vm_change list \<Rightarrow> snapshot_change list \<Rightarrow> diff_counts" where
  "countChanges vms snaps =
     (let n = (\<lambda>k. int (length (filter ((=) k) (concat (map vcChanges vms)))))
      in \<lparr>dcAppeared = n ''appeared'', dcVanished = n ''vanished'', dcMoved = n ''moved'', dcModified = n ''modified'',
          dcSnapshots = int (length snaps), dcResources = 0\<rparr>)"

section \<open>The contexts of one vCenter\<close>

record context_vms =
  cvName :: string
  cvVMs :: "stored_vm list"

definition contextKey :: "string \<Rightarrow> string" where
  "contextKey name = to_lower (trim_space name)"

definition shared_contexts :: "context_vms list \<Rightarrow> context_vms list \<Rightarrow> string list" where
  "shared_contexts base target =
     filter (\<lambda>k. k \<in> set (map (\<lambda>c. contextKey (cvName c)) base)) (map (\<lambda>c. contextKey (cvName c)) target)"

definition issue :: "string \<Rightarrow> string \<Rightarrow> diff_note \<Rightarrow> coverage_issue" where
  "issue scope ctx note = \<lparr>ciScope = scope, ciContext = ctx, ciMessage = note\<rparr>"

definition sharedContexts :: "context_vms list \<Rightarrow> string list \<Rightarrow> string \<Rightarrow> context_vms list \<times> coverage_issue list" where
  "sharedContexts side shared scope =
     (filter (\<lambda>c. contextKey (cvName c) \<in> set shared) side,
      map (\<lambda>c. issue scope (cvName c) (RecordedOnlyIn (cvName c) scope))
        (filter (\<lambda>c. contextKey (cvName c) \<notin> set shared) side))"

text \<open>\<open>vmContexts\<close>: the sorted names of the contexts that recorded a machine.\<close>

definition vmContexts :: "context_vms list \<Rightarrow> string \<Rightarrow> string list" where
  "vmContexts side moref =
     sort (concat (map (\<lambda>c. map (\<lambda>v. cvName c) (filter (\<lambda>v. dmID (vm_of v) = moref) (cvVMs c))) side))"

definition chosenContext :: "string list \<Rightarrow> string list \<Rightarrow> string" where
  "chosenContext names other =
     (case List.find (\<lambda>name. list_ex (\<lambda>p. contextKey p = contextKey name) other) names of
        Some name \<Rightarrow> name
      | None \<Rightarrow> (case names of [] \<Rightarrow> [] | name # _ \<Rightarrow> name))"

definition pick_vms :: "context_vms list \<Rightarrow> (string \<Rightarrow> string list) \<Rightarrow> (string \<Rightarrow> string list) \<Rightarrow> stored_vm list" where
  "pick_vms side seen other =
     concat (map (\<lambda>c. filter (\<lambda>v. chosenContext (seen (dmID (vm_of v))) (other (dmID (vm_of v))) = cvName c) (cvVMs c)) side)"

definition vcenterVMs :: "context_vms list \<Rightarrow> context_vms list \<Rightarrow> stored_vm list \<times> stored_vm list \<times> coverage_issue list" where
  "vcenterVMs base target =
     (let shared = shared_contexts base target;
          (base', bi) = (if shared \<noteq> [] then sharedContexts base shared ''baseline'' else (base, []));
          (target', ti) = (if shared \<noteq> [] then sharedContexts target shared ''target'' else (target, []))
      in (pick_vms base' (vmContexts base') (vmContexts target'), pick_vms target' (vmContexts target') (vmContexts base'),
          bi @ ti))"

section \<open>The whole comparison\<close>

type_synonym side = "(context_run \<times> stored_vm list) list"

definition collected :: "context_run \<Rightarrow> bool" where
  "collected c \<longleftrightarrow> ctVCenter c \<noteq> [] \<and> Successful (ctVMStatus c)"

text \<open>\<open>snapshotBlind\<close>: the vCenters without snapshot evidence on either side.\<close>

definition snapshot_blind :: "side \<Rightarrow> side \<Rightarrow> string list" where
  "snapshot_blind bc tc =
     map ctVCenter (filter (\<lambda>c. collected c \<and> \<not> ContextComplete c [''snapshot'']) (map fst (bc @ tc)))"

definition withSnapshotCoverage :: "stored_vm list \<Rightarrow> context_run \<Rightarrow> string \<Rightarrow> bool \<Rightarrow> stored_vm list \<times> coverage_issue list" where
  "withSnapshotCoverage vms c scope blind =
     (if \<not> blind then (vms, [])
      else (map (\<lambda>v. v\<lparr>svSnapshots := []\<rparr>) vms,
            if \<not> ContextComplete c [''snapshot'']
            then [issue scope (ctName c)
                    (SnapshotsNotCollected (ctName c) scope (CoverageReason [c] (ctName c) [''snapshot'']))]
            else []))"

text \<open>One context of a side: its comparable machines under its vCenter, and the issues it raises.\<close>

definition side_context :: "string \<Rightarrow> string list \<Rightarrow> context_run \<times> stored_vm list \<Rightarrow> (string \<times> context_vms) list \<times> coverage_issue list" where
  "side_context scope blind = (\<lambda>(c, vms).
     if collected c
     then (let (kept, issues) = withSnapshotCoverage vms c scope (ctVCenter c \<in> set blind)
           in ([(ctVCenter c, \<lparr>cvName = ctName c, cvVMs = kept\<rparr>)], issues))
     else if ctVMStatus c \<noteq> [] \<and> \<not> Successful (ctVMStatus c)
     then ([], [issue scope (ctName c) (NotFullyCollected (ctName c) scope (nonempty (ctError c) (ctVMStatus c)))])
     else ([], []))"

definition side_contexts :: "string \<Rightarrow> string list \<Rightarrow> side \<Rightarrow> (string \<times> context_vms) list" where
  "side_contexts scope blind s = concat (map (fst \<circ> side_context scope blind) s)"

definition side_issues :: "string \<Rightarrow> string list \<Rightarrow> side \<Rightarrow> coverage_issue list" where
  "side_issues scope blind s = concat (map (snd \<circ> side_context scope blind) s)"

text \<open>\<open>baseByVC\<close> and \<open>targetByVC\<close>, with their vCenters in the order they were first seen.\<close>

definition by_vcenter :: "(string \<times> context_vms) list \<Rightarrow> string \<Rightarrow> context_vms list" where
  "by_vcenter cs vc = map snd (filter (\<lambda>p. fst p = vc) cs)"

definition vcenters :: "(string \<times> context_vms) list \<Rightarrow> string list" where
  "vcenters cs = first_by (\<lambda>v. v) [] (map fst cs)"

text \<open>\<open>vcNames\<close>: the last name a context of either side gave a vCenter.\<close>

definition vcLabel :: "side \<Rightarrow> side \<Rightarrow> string \<Rightarrow> string" where
  "vcLabel bc tc vc =
     (case List.find (\<lambda>c. ctVCenter c = vc \<and> ctVCenter c \<noteq> [] \<and> ctName c \<noteq> []) (rev (map fst (bc @ tc))) of
        Some c \<Rightarrow> ctName c
      | None \<Rightarrow> vc)"

definition not_comparable :: "side \<Rightarrow> side \<Rightarrow> string \<Rightarrow> string list \<Rightarrow> string list \<Rightarrow> coverage_issue list" where
  "not_comparable bc tc scope have other =
     map (\<lambda>vc. issue scope (vcLabel bc tc vc) (VCenterNotCollected (vcLabel bc tc vc) scope)) (filter (\<lambda>vc. vc \<notin> set other) have)"

text \<open>\<open>filterContextVMs\<close>.\<close>

definition filterContextVMs :: "string list \<Rightarrow> side \<Rightarrow> side" where
  "filterContextVMs selected s =
     (if selected = [] then s else filter (\<lambda>(c, vms). contextSelected (ctName c) selected) s)"

record vm_diff =
  vdVMs :: "vm_change list"
  vdSnapshots :: "snapshot_change list"
  vdCoverage :: "coverage_issue list"

definition compare_sides :: "(int \<Rightarrow> string) \<Rightarrow> (int \<Rightarrow> string) \<Rightarrow> bool \<Rightarrow> side \<Rightarrow> side \<Rightarrow> vm_diff" where
  "compare_sides gib rfc3339 runtime bc tc =
     (let blind = snapshot_blind bc tc;
          bs = side_contexts ''baseline'' blind bc; ts = side_contexts ''target'' blind tc;
          shared = filter (\<lambda>vc. vc \<in> set (vcenters ts)) (vcenters bs);
          parts = map (\<lambda>vc. vcenterVMs (by_vcenter bs vc) (by_vcenter ts vc)) shared;
          (vms, snaps) = compareVMs gib rfc3339 (concat (map fst parts)) (concat (map (fst \<circ> snd) parts)) runtime
      in \<lparr>vdVMs = vms, vdSnapshots = snaps,
          vdCoverage = side_issues ''baseline'' blind bc @ side_issues ''target'' blind tc
            @ concat (map (snd \<circ> snd) parts)
            @ not_comparable bc tc ''target'' (vcenters bs) (vcenters ts)
            @ not_comparable bc tc ''baseline'' (vcenters ts) (vcenters bs)\<rparr>)"

section \<open>Imports\<close>

text \<open>\<open>importGaps\<close>: which side is an import, and the fields left out so far.\<close>

record import_gaps =
  igBase :: bool
  igTarget :: bool
  igLeftOut :: "string list"
  igInexact :: "string list"

definition newImportGaps :: "timed_run \<Rightarrow> timed_run \<Rightarrow> import_gaps" where
  "newImportGaps base target = \<lparr>igBase = run_Imported base, igTarget = run_Imported target, igLeftOut = [], igInexact = []\<rparr>"

definition gaps_active :: "import_gaps \<Rightarrow> bool" where
  "gaps_active g \<longleftrightarrow> igBase g \<noteq> igTarget g"

definition importInexactFields :: "string list" where
  "importInexactFields = [''settings.create_date'', ''details.boot_time'']"

definition importUncarriedFields :: "string list" where
  "importUncarriedFields = [clusterHostRulesField, clusterRuleStateField, ''multipaths'']"

definition emptyValue :: "string \<Rightarrow> bool" where
  "emptyValue v \<longleftrightarrow> v \<in> {[], [CHR 0x22, CHR 0x22], ''null'', ''[]'', ''{}''}"

text \<open>\<open>deviceKey.ReplaceAllString(field, "[]")\<close>: a number in brackets loses its digits.\<close>

definition after_key :: "string \<Rightarrow> string option" where
  "after_key s =
     (let digits = (if has_prefix ''-'' s then tl s else s); rest = dropWhile is_digit digits
      in if takeWhile is_digit digits \<noteq> [] \<and> rest \<noteq> [] \<and> hd rest = CHR '']'' then Some (tl rest) else None)"

lemma after_key_length: "after_key s = Some r \<Longrightarrow> length r < length s"
proof -
  assume a: "after_key s = Some r"
  let ?d = "if has_prefix ''-'' s then tl s else s"
  have r: "r = tl (dropWhile is_digit ?d)" "dropWhile is_digit ?d \<noteq> []"
    using a by (auto simp: after_key_def Let_def split: if_splits)
  then have "length r < length (dropWhile is_digit ?d)" by (cases "dropWhile is_digit ?d") auto
  also have "\<dots> \<le> length ?d" by (rule length_dropWhile_le)
  also have "\<dots> \<le> length s" by simp
  finally show ?thesis .
qed

function drop_device_keys :: "string \<Rightarrow> string" where
  "drop_device_keys [] = []"
| "drop_device_keys (c # cs) =
     (case (if c = CHR ''['' then after_key cs else None) of
        Some rest \<Rightarrow> ''[]'' @ drop_device_keys rest
      | None \<Rightarrow> c # drop_device_keys cs)"
  by pat_completeness auto

termination
  by (relation "measure length") (auto split: if_splits dest: after_key_length)

definition vmFieldCarried :: "string \<Rightarrow> bool" where
  "vmFieldCarried field \<longleftrightarrow> \<not> has_prefix (migrationFieldPrefix @ ''.'') field"

definition gap_field :: "(string \<Rightarrow> bool) \<Rightarrow> field_change \<Rightarrow> import_gaps \<Rightarrow> field_change list \<times> import_gaps" where
  "gap_field carried f g =
     (let imported = (if igBase g then fcBefore f else fcAfter f);
          unread = (fcField f = migrationFieldPrefix @ ''.configuration_available'')
      in if fcField f \<in> set importInexactFields then ([], g\<lparr>igInexact := fcField f # igInexact g\<rparr>)
         else if unread \<or> fcField f \<in> set importUncarriedFields \<or> \<not> carried (fcField f) \<and> emptyValue imported
         then ([], g\<lparr>igLeftOut := drop_device_keys (fcField f) # igLeftOut g\<rparr>)
         else ([f], g))"

fun gap_fields :: "(string \<Rightarrow> bool) \<Rightarrow> field_change list \<Rightarrow> import_gaps \<Rightarrow> field_change list \<times> import_gaps" where
  "gap_fields carried [] g = ([], g)"
| "gap_fields carried (f # fs) g =
     (let (kept, g') = gap_field carried f g; (rest, g'') = gap_fields carried fs g' in (kept @ rest, g''))"

definition gap_modified :: "string list \<Rightarrow> nat \<Rightarrow> string list" where
  "gap_modified changes n = (if n > 0 then changes else filter (\<lambda>c. c \<noteq> ''modified'') changes)"

fun gap_vm_loop :: "vm_change list \<Rightarrow> import_gaps \<Rightarrow> vm_change list \<times> import_gaps" where
  "gap_vm_loop [] g = ([], g)"
| "gap_vm_loop (c # cs) g =
     (let (fields, g') = gap_fields vmFieldCarried (vcFields c) g;
          changes = gap_modified (vcChanges c) (length fields);
          (rest, g'') = gap_vm_loop cs g'
      in (if changes \<noteq> [] then c\<lparr>vcFields := fields, vcChanges := changes\<rparr> # rest else rest, g''))"

definition gap_vmChanges :: "vm_change list \<Rightarrow> import_gaps \<Rightarrow> vm_change list \<times> import_gaps" where
  "gap_vmChanges cs g = (if \<not> gaps_active g then (cs, g) else gap_vm_loop cs g)"

definition gap_warning :: "import_gaps \<Rightarrow> diff_note list" where
  "gap_warning g =
     (if igLeftOut g = [] \<and> igInexact g = [] then []
      else [LeftOut (sort (remdups (igLeftOut g))) (sort (remdups (igInexact g)))])"

section \<open>DiffForContexts\<close>

text \<open>
  The result but for the resources and snapshot ages, which the theory Drift adds. The two sorts at the end order by lower-cased name;
  Go's are not stable.
\<close>

record run_diff =
  rdBase :: timed_run
  rdTarget :: timed_run
  rdVMs :: "vm_change list"
  rdSnapshots :: "snapshot_change list"
  rdWarnings :: "diff_note list"
  rdCoverage :: "coverage_issue list"
  rdCounts :: diff_counts

definition DiffForContexts :: "(int \<Rightarrow> string) \<Rightarrow> (int \<Rightarrow> string) \<Rightarrow> timed_run \<Rightarrow> timed_run \<Rightarrow> side \<Rightarrow> side \<Rightarrow> bool \<Rightarrow> string list
    \<Rightarrow> scope_error + run_diff \<times> import_gaps" where
  "DiffForContexts gib rfc3339 base target bc tc runtime selectors =
     (case ValidateStoredContexts selectors [map fst bc, map fst tc] of
        Inl e \<Rightarrow> Inl e
      | Inr selected \<Rightarrow>
          (let gaps = newImportGaps base target;
               d = compare_sides gib rfc3339 runtime (filterContextVMs selected bc) (filterContextVMs selected tc);
               (vms, gaps') = gap_vmChanges (vdVMs d) gaps
           in Inr (\<lparr>rdBase = base, rdTarget = target,
                    rdVMs = sort_key (\<lambda>v. to_lower (vcName v)) vms,
                    rdSnapshots = sort_key (\<lambda>s. to_lower (scVMName s)) (vdSnapshots d),
                    rdWarnings = (if gaps_active gaps then [SourcesDiffer (ruID base) (ruID target)] else [])
                      @ map ciMessage (vdCoverage d),
                    rdCoverage = vdCoverage d, rdCounts = countChanges vms (vdSnapshots d)\<rparr>, gaps')))"


section \<open>The matching\<close>

lemma match_identity_Some:
  "match_identity base used t counts kinds = Some (j, kind) \<Longrightarrow>
   \<exists>f. (kind, f) \<in> set kinds \<and> f (vm_of t) \<noteq> [] \<and> counts (identityKey kind (f (vm_of t))) = 1
     \<and> {i. i < length base \<and> \<not> used ! i \<and> f (vm_of (base ! i)) = f (vm_of t)} = {j}"
proof (induction base used t counts kinds rule: match_identity.induct)
  case (2 base used t counts k f kinds)
  let ?cs = "filter (\<lambda>i. \<not> used ! i \<and> f (vm_of (base ! i)) = f (vm_of t)) [0..<length base]"
  show ?case
  proof (cases "f (vm_of t) = [] \<or> counts (identityKey k (f (vm_of t))) \<noteq> 1")
    case True
    then show ?thesis using "2.IH"(1) [OF refl] "2.prems" by auto
  next
    case False
    show ?thesis
    proof (cases "\<exists>i. ?cs = [i]")
      case True
      then obtain i where i: "?cs = [i]" by blast
      then have "set ?cs = {i}" by simp
      then have "{i. i < length base \<and> \<not> used ! i \<and> f (vm_of (base ! i)) = f (vm_of t)} = {i}" by auto
      moreover have "i = j" "k = kind" using "2.prems" False i by auto
      ultimately show ?thesis using False by auto
    next
      case no: False
      then have "match_identity base used t counts kinds = Some (j, kind)"
        using "2.prems" False by (auto simp: Let_def split: list.splits)
      moreover have "\<exists>f. (kind, f) \<in> set kinds \<and> f (vm_of t) \<noteq> [] \<and> counts (identityKey kind (f (vm_of t))) = 1
          \<and> {i. i < length base \<and> \<not> used ! i \<and> f (vm_of (base ! i)) = f (vm_of t)} = {j}"
      proof (cases ?cs)
        case Nil
        then show ?thesis using "2.IH"(2) [OF refl False] calculation by simp
      next
        case (Cons x xs)
        with no obtain y ys where "xs = y # ys" by (cases xs) auto
        then show ?thesis using "2.IH"(3) [OF refl False Cons] calculation by simp
      qed
      ultimately show ?thesis by auto
    qed
  qed
qed simp

text \<open>What a match rests on: the same vCenter and reference, or one of the two identities, which a single target and a single free base machine have.\<close>

definition identified :: "stored_vm list \<Rightarrow> bool list \<Rightarrow> (string \<Rightarrow> nat) \<Rightarrow> stored_vm \<Rightarrow> nat \<Rightarrow> string \<Rightarrow> bool" where
  "identified base used counts t j basis \<longleftrightarrow>
     (if basis = ''moref'' then same_moref (base ! j) t
      else (\<forall>i < length base. \<not> used ! i \<longrightarrow> \<not> same_moref (base ! i) t)
        \<and> (\<exists>f. (basis, f) \<in> set identity_kinds \<and> f (vm_of t) \<noteq> [] \<and> counts (identityKey basis (f (vm_of t))) = 1
             \<and> {i. i < length base \<and> \<not> used ! i \<and> f (vm_of (base ! i)) = f (vm_of t)} = {j}))"

lemma findMatch_Some:
  assumes "findMatch base used t counts = Some (j, basis)"
  shows "j < length base \<and> \<not> used ! j \<and> identified base used counts t j basis"
proof (cases "List.find (\<lambda>i. \<not> used ! i \<and> same_moref (base ! i) t) [0..<length base]")
  case (Some i)
  then have "j = i" "basis = ''moref''" using assms by (auto simp: findMatch_def)
  then show ?thesis using find_Some_mem [OF Some] by (simp add: identified_def)
next
  case None
  then have "match_identity base used t counts identity_kinds = Some (j, basis)"
    using assms by (simp add: findMatch_def)
  from match_identity_Some [OF this]
  obtain f where f: "(basis, f) \<in> set identity_kinds" "f (vm_of t) \<noteq> []" "counts (identityKey basis (f (vm_of t))) = 1"
    "{i. i < length base \<and> \<not> used ! i \<and> f (vm_of (base ! i)) = f (vm_of t)} = {j}" by blast
  moreover have "basis \<noteq> ''moref''" using f(1) by (auto simp: identity_kinds_def)
  ultimately show ?thesis using None by (auto simp: identified_def find_None_iff)
qed

lemma findMatch_moref:
  "i < length base \<Longrightarrow> \<not> used ! i \<Longrightarrow> same_moref (base ! i) t \<Longrightarrow>
   \<exists>j < length base. findMatch base used t counts = Some (j, ''moref'') \<and> \<not> used ! j \<and> same_moref (base ! j) t"
  by (cases "List.find (\<lambda>i. \<not> used ! i \<and> same_moref (base ! i) t) [0..<length base]")
    (auto simp: findMatch_def find_None_iff dest: find_Some_mem)

text \<open>The matches of a list of targets in their order, and the result of the comparison in terms of them.\<close>

fun match_all :: "stored_vm list \<Rightarrow> (string \<Rightarrow> nat) \<Rightarrow> bool list \<Rightarrow> stored_vm list \<Rightarrow> (nat \<times> string) option list" where
  "match_all base counts used [] = []"
| "match_all base counts used (t # ts) =
     (case findMatch base used t counts of
        None \<Rightarrow> None # match_all base counts used ts
      | Some (j, basis) \<Rightarrow> Some (j, basis) # match_all base counts (used[j := True]) ts)"

definition matched_indices :: "(nat \<times> string) option list \<Rightarrow> nat list" where
  "matched_indices ms = map fst (List.map_filter (\<lambda>m. m) ms)"

lemma matched_indices_simps [simp]:
  "matched_indices [] = []" "matched_indices (None # ms) = matched_indices ms"
  "matched_indices (Some m # ms) = fst m # matched_indices ms"
  by (simp_all add: matched_indices_def List.map_filter_simps)

lemma length_match_all [simp]: "length (match_all base counts used ts) = length ts"
  by (induction base counts used ts rule: match_all.induct) (auto split: option.splits)

lemma match_all_indices:
  "length used = length base \<Longrightarrow>
   distinct (matched_indices (match_all base counts used ts))
   \<and> (\<forall>j \<in> set (matched_indices (match_all base counts used ts)). j < length base \<and> \<not> used ! j)"
proof (induction base counts used ts rule: match_all.induct)
  case (2 base counts used t ts)
  show ?case
  proof (cases "findMatch base used t counts")
    case None
    then show ?thesis using "2.IH"(1) "2.prems" by simp
  next
    case (Some m)
    obtain j basis where m: "m = (j, basis)" by force
    have j: "j < length base" "\<not> used ! j" using findMatch_Some [of base used t counts j basis] Some m by simp_all
    then show ?thesis using "2.IH"(2) [OF Some m [symmetric]] "2.prems" Some m
      by (auto simp: nth_list_update split: if_splits)
  qed
qed simp

definition vm_entry :: "(int \<Rightarrow> string) \<Rightarrow> bool \<Rightarrow> stored_vm list \<Rightarrow> stored_vm \<Rightarrow> (nat \<times> string) option \<Rightarrow> vm_change list" where
  "vm_entry gib runtime base t m =
     (case m of None \<Rightarrow> [vm_appeared t] | Some (j, basis) \<Rightarrow> vm_matched gib runtime (base ! j) t basis)"

definition snapshot_entry :: "(int \<Rightarrow> string) \<Rightarrow> stored_vm list \<Rightarrow> stored_vm \<Rightarrow> (nat \<times> string) option \<Rightarrow> snapshot_change list" where
  "snapshot_entry rfc3339 base t m =
     (case m of None \<Rightarrow> map (snapshot_created rfc3339 t) (svSnapshots t)
      | Some (j, basis) \<Rightarrow>
          if doVCenterID (svObservation (base ! j)) = doVCenterID (svObservation t)
          then compareSnapshots rfc3339 (base ! j) t else [])"

lemma compare_targets_eq:
  "length used = length base \<Longrightarrow>
   (let ms = match_all base counts used ts; (out, snaps, used') = compare_targets gib rfc3339 runtime base counts used ts
    in out = concat (map (\<lambda>(t, m). vm_entry gib runtime base t m) (zip ts ms))
     \<and> snaps = concat (map (\<lambda>(t, m). snapshot_entry rfc3339 base t m) (zip ts ms))
     \<and> length used' = length base
     \<and> (\<forall>i < length base. used' ! i \<longleftrightarrow> used ! i \<or> i \<in> set (matched_indices ms)))"
proof (induction gib rfc3339 runtime base counts used ts rule: compare_targets.induct)
  case (2 gib rfc3339 runtime base counts used t ts)
  show ?case
  proof (cases "findMatch base used t counts")
    case None
    then show ?thesis using "2.IH"(1) [OF None] "2.prems"
      by (auto simp: Let_def vm_entry_def snapshot_entry_def split: prod.splits)
  next
    case (Some m)
    obtain j basis where m: "m = (j, basis)" by force
    have j: "j < length base" using findMatch_Some [of base used t counts j basis] Some m by simp
    show ?thesis using "2.IH"(2) [OF Some m [symmetric]] "2.prems" Some m j
      by (auto simp: Let_def vm_entry_def snapshot_entry_def nth_list_update split: prod.splits if_splits)
  qed
qed simp

lemma compareVMs_eq:
  fixes base target
  defines "ms \<equiv> match_all base (identity_count target) (replicate (length base) False) target"
  shows "compareVMs gib rfc3339 base target runtime =
     (concat (map (\<lambda>(t, m). vm_entry gib runtime base t m) (zip target ms))
        @ map (\<lambda>i. vm_vanished (base ! i)) (filter (\<lambda>i. i \<notin> set (matched_indices ms)) [0..<length base]),
      concat (map (\<lambda>(t, m). snapshot_entry rfc3339 base t m) (zip target ms)))"
proof -
  obtain out snaps used where c: "compare_targets gib rfc3339 runtime base (identity_count target)
      (replicate (length base) False) target = (out, snaps, used)"
    by (metis surj_pair)
  with compare_targets_eq [of "replicate (length base) False" base "identity_count target" target gib rfc3339 runtime]
  have "out = concat (map (\<lambda>(t, m). vm_entry gib runtime base t m) (zip target ms))"
    "snaps = concat (map (\<lambda>(t, m). snapshot_entry rfc3339 base t m) (zip target ms))"
    "\<forall>i < length base. used ! i \<longleftrightarrow> i \<in> set (matched_indices ms)"
    by (simp_all add: Let_def ms_def)
  moreover have "filter (\<lambda>i. \<not> used ! i) [0..<length base] = filter (\<lambda>i. i \<notin> set (matched_indices ms)) [0..<length base]"
    using calculation(3) by (intro filter_cong) auto
  ultimately show ?thesis by (simp add: compareVMs_def c)
qed

lemma match_all_nth:
  "k < length ts \<Longrightarrow> length used = length base \<Longrightarrow> match_all base counts used ts ! k = Some (j, basis) \<Longrightarrow>
   \<exists>u. length u = length base \<and> (\<forall>i. used ! i \<longrightarrow> i < length base \<longrightarrow> u ! i) \<and> j < length base \<and> \<not> u ! j
     \<and> identified base u counts (ts ! k) j basis"
proof (induction base counts used ts arbitrary: k rule: match_all.induct)
  case (2 base counts used t ts)
  show ?case
  proof (cases k)
    case 0
    then have "findMatch base used t counts = Some (j, basis)" using "2.prems" by (auto split: option.splits)
    then show ?thesis using findMatch_Some [of base used t counts j basis] 0 "2.prems"(2) by auto
  next
    case (Suc k')
    show ?thesis
    proof (cases "findMatch base used t counts")
      case None
      then show ?thesis using "2.IH"(1) [OF None, of k'] "2.prems" Suc by auto
    next
      case (Some m)
      obtain i b where m: "m = (i, b)" by force
      have k': "k' < length ts" "match_all base counts (used[i := True]) ts ! k' = Some (j, basis)"
        using "2.prems" Suc Some m by simp_all
      obtain u where u: "length u = length base" "\<forall>l. used[i := True] ! l \<longrightarrow> l < length base \<longrightarrow> u ! l"
          "j < length base" "\<not> u ! j" "identified base u counts (ts ! k') j basis"
        using "2.IH"(2) [OF Some m [symmetric] k'(1) _ k'(2)] "2.prems"(2) by auto
      have "\<forall>l. used ! l \<longrightarrow> l < length base \<longrightarrow> u ! l"
      proof (intro allI impI)
        fix l assume "used ! l" "l < length base"
        then have "used[i := True] ! l" using "2.prems"(2) by (cases "l = i") simp_all
        then show "u ! l" using u(2) \<open>l < length base\<close> by blast
      qed
      then show ?thesis using u Suc by (intro exI [of _ u]) simp
    qed
  qed
qed simp

lemma find_upt: "List.find P [0..<n] = Some i \<longleftrightarrow> i < n \<and> P i \<and> (\<forall>j < i. \<not> P j)"
  by (auto simp: find_Some_iff)

definition moref_of :: "stored_vm \<Rightarrow> string \<times> string" where
  "moref_of v = (doVCenterID (svObservation v), dmID (vm_of v))"

lemma same_moref_iff: "same_moref a b \<longleftrightarrow> moref_of a = moref_of b"
  by (simp add: same_moref_def moref_of_def)

text \<open>A base machine that stays unmatched has the reference of no target, when the references of the base are distinct.\<close>

lemma unmatched_moref:
  assumes "distinct (map moref_of base)" and "length used = length base" and "i < length base" and "\<not> used ! i"
    and "i \<notin> set (matched_indices (match_all base counts used ts))" and "t \<in> set ts"
  shows "moref_of (base ! i) \<noteq> moref_of t"
  using assms
proof (induction base counts used ts rule: match_all.induct)
  case (2 base counts used u ts)
  have same: "j = i" if "j < length base" "moref_of (base ! j) = moref_of (base ! i)" for j
    using that "2.prems"(1,3) by (metis distinct_conv_nth length_map nth_map)
  show ?case
  proof (cases "t = u")
    case True
    show ?thesis
    proof
      assume "moref_of (base ! i) = moref_of t"
      then obtain j where "j < length base" "findMatch base used u counts = Some (j, ''moref'')" "moref_of (base ! j) = moref_of (base ! i)"
        using findMatch_moref [of i base used u counts] "2.prems"(3,4) True by (auto simp: same_moref_iff)
      then show False using same "2.prems"(5) by auto
    qed
  next
    case False
    then have t: "t \<in> set ts" using "2.prems"(6) by simp
    show ?thesis
    proof (cases "findMatch base used u counts")
      case None
      then show ?thesis using "2.IH"(1) [OF None] "2.prems"(1-5) t by simp
    next
      case (Some m)
      obtain j basis where m: "m = (j, basis)" by force
      have "j \<noteq> i" using "2.prems"(5) Some m by auto
      then show ?thesis using "2.IH"(2) [OF Some m [symmetric]] "2.prems"(1-5) Some m t by auto
    qed
  qed
qed simp

section \<open>Comparing a capture with itself\<close>

lemma snapshot_changed_same [simp]: "snapshot_changed rfc3339 b s s = []"
  by (simp add: snapshot_changed_def)

lemma match_by_id_same:
  "distinct (map dsnID ss) \<Longrightarrow> (\<And>s. s \<in> set ss \<Longrightarrow> map_of byID (dsnID s) = Some s) \<Longrightarrow> fst ` set byID = dsnID ` set ss \<Longrightarrow>
   match_by_id rfc3339 b byID ss = ([], [], [])"
proof (induction ss arbitrary: byID)
  case (Cons s ss)
  let ?left = "AList.delete (dsnID s) byID"
  have "match_by_id rfc3339 b ?left ss = ([], [], [])"
  proof (rule Cons.IH)
    show "distinct (map dsnID ss)" using Cons.prems(1) by simp
    show "map_of ?left (dsnID x) = Some x" if "x \<in> set ss" for x
    proof -
      have "dsnID x \<noteq> dsnID s" using that Cons.prems(1) by (auto simp: image_iff)
      then show ?thesis using that Cons.prems(2) [of x] by (simp add: AList.delete_conv)
    qed
    have "fst ` set ?left = fst ` set byID - {dsnID s}"
      using AList.delete_keys [of "dsnID s" byID] by (metis set_map set_removeAll)
    then show "fst ` set ?left = dsnID ` set ss"
      using Cons.prems(1,3) by auto
  qed
  then show ?case using Cons.prems(2) [of s] by simp
qed simp

lemma snapshots_by_id_distinct:
  assumes "distinct (map dsnID ss)"
  shows "s \<in> set ss \<Longrightarrow> map_of (snapshots_by_id ss) (dsnID s) = Some s" and "fst ` set (snapshots_by_id ss) = dsnID ` set ss"
proof -
  have "map_of (fold (\<lambda>s. AList.update (dsnID s) s) ss m) (dsnID s) = Some s" if "distinct (map dsnID ss)" "s \<in> set ss" for ss m
    using that
  proof (induction ss arbitrary: m)
    case (Cons x xs)
    have keep: "dsnID x \<notin> dsnID ` set xs \<Longrightarrow>
        map_of (fold (\<lambda>s. AList.update (dsnID s) s) xs m) (dsnID x) = map_of m (dsnID x)" for m
      by (induction xs arbitrary: m) (auto simp: AList.update_conv)
    show ?case
    proof (cases "s = x")
      case True
      then show ?thesis using keep [of "AList.update (dsnID x) x m"] Cons.prems(1) by (simp add: AList.update_conv)
    next
      case False
      then show ?thesis using Cons.IH Cons.prems by auto
    qed
  qed simp
  then show "s \<in> set ss \<Longrightarrow> map_of (snapshots_by_id ss) (dsnID s) = Some s"
    using assms by (simp add: snapshots_by_id_def)
  show "fst ` set (snapshots_by_id ss) = dsnID ` set ss"
    using fold_update_keys [of dsnID "\<lambda>s. s" ss "[]"] by (simp add: snapshots_by_id_def)
qed

lemma compareSnapshots_same:
  "distinct (map dsnID (svSnapshots v)) \<Longrightarrow> compareSnapshots rfc3339 v v = []"
  using match_by_id_same [of "svSnapshots v" "snapshots_by_id (svSnapshots v)" rfc3339 v] snapshots_by_id_distinct [of "svSnapshots v"]
  by (simp add: compareSnapshots_def)

lemma match_all_same:
  "distinct (map moref_of (pre @ ts)) \<Longrightarrow>
   match_all (pre @ ts) counts (replicate (length pre) True @ replicate (length ts) False) ts =
     map (\<lambda>i. Some (i, ''moref'')) [length pre..<length pre + length ts]"
proof (induction ts arbitrary: pre)
  case (Cons t ts)
  let ?base = "pre @ t # ts" and ?used = "replicate (length pre) True @ replicate (length (t # ts)) False"
  have "List.find (\<lambda>i. \<not> ?used ! i \<and> same_moref (?base ! i) t) [0..<length ?base] = Some (length pre)"
    unfolding find_upt by (auto simp: nth_append same_moref_iff)
  then have f: "findMatch ?base ?used t counts = Some (length pre, ''moref'')" by (simp only: findMatch_def option.case)
  have u: "?used[length pre := True] = replicate (length (pre @ [t])) True @ replicate (length ts) False"
    by (simp add: list_update_append replicate_app_Cons_same)
  have "match_all ?base counts ?used (t # ts) = Some (length pre, ''moref'')
      # match_all ((pre @ [t]) @ ts) counts (replicate (length (pre @ [t])) True @ replicate (length ts) False) ts"
    using f u by simp
  also have "\<dots> = Some (length pre, ''moref'') # map (\<lambda>i. Some (i, ''moref'')) [Suc (length pre)..<Suc (length pre) + length ts]"
    using Cons.IH [of "pre @ [t]"] Cons.prems by simp
  also have "\<dots> = map (\<lambda>i. Some (i, ''moref'')) [length pre..<length pre + length (t # ts)]"
    by (subst upt_conv_Cons [of "length pre"]) (simp_all del: upt_Suc)
  finally show ?case .
qed simp

section \<open>Counting\<close>

lemma vm_matched_kinds: "c \<in> set (vm_matched gib runtime b t basis) \<Longrightarrow> set (vcChanges c) \<subseteq> {''moved'', ''modified''}"
  by (auto simp: vm_matched_def Let_def split: if_splits)

definition occurrences :: "string \<Rightarrow> vm_change list \<Rightarrow> nat" where
  "occurrences k cs = length (filter ((=) k) (concat (map vcChanges cs)))"

lemma occurrences_simps [simp]:
  "occurrences k [] = 0" "occurrences k (cs @ ds) = occurrences k cs + occurrences k ds"
  by (simp_all add: occurrences_def)

lemma occurrences_vm_entry:
  "occurrences ''appeared'' (vm_entry gib runtime base t m) = (if m = None then 1 else 0)"
  "occurrences ''vanished'' (vm_entry gib runtime base t m) = 0"
proof -
  have "occurrences k (vm_matched gib runtime b t basis) = 0" if "k \<notin> {''moved'', ''modified''}" for k b basis
    using that vm_matched_kinds [of _ gib runtime b t basis] by (auto simp: occurrences_def filter_empty_conv)
  then show "occurrences ''appeared'' (vm_entry gib runtime base t m) = (if m = None then 1 else 0)"
    "occurrences ''vanished'' (vm_entry gib runtime base t m) = 0"
    by (auto simp: vm_entry_def split: option.splits) (simp_all add: occurrences_def vm_appeared_def)
qed

lemma occurrences_entries:
  "length ms = length ts \<Longrightarrow>
   occurrences ''appeared'' (concat (map (\<lambda>(t, m). vm_entry gib runtime base t m) (zip ts ms))) + length (matched_indices ms) = length ts
   \<and> occurrences ''vanished'' (concat (map (\<lambda>(t, m). vm_entry gib runtime base t m) (zip ts ms))) = 0"
proof (induction ts arbitrary: ms)
  case (Cons t ts)
  then obtain m ms' where "ms = m # ms'" by (cases ms) auto
  then show ?case using Cons by (cases m) (auto simp: occurrences_vm_entry)
qed simp

lemma occurrences_vanished:
  "occurrences ''vanished'' (map (\<lambda>i. vm_vanished (base ! i)) is) = length is"
  "occurrences ''appeared'' (map (\<lambda>i. vm_vanished (base ! i)) is) = 0"
  by (induction "is") (simp_all add: occurrences_def vm_vanished_def)

lemma length_filter_notin:
  "distinct ks \<Longrightarrow> (\<And>k. k \<in> set ks \<Longrightarrow> k < n) \<Longrightarrow> length (filter (\<lambda>i. i \<notin> set ks) [0..<n]) + length ks = n"
proof -
  assume ks: "distinct ks" "\<And>k. k \<in> set ks \<Longrightarrow> k < n"
  have "length (filter (\<lambda>i. i \<notin> set ks) [0..<n]) = card ({0..<n} - set ks)"
    by (subst distinct_card [symmetric]) (auto simp: set_diff_eq intro!: arg_cong [of _ _ card])
  also have "\<dots> = n - length ks"
    using ks by (subst card_Diff_subset) (auto simp: distinct_card)
  finally show ?thesis using ks by (metis atLeast0LessThan card_lessThan card_mono distinct_card finite_lessThan le_add_diff_inverse2 lessThan_iff subsetI)
qed

section \<open>What of a side is compared\<close>

text \<open>A stored side: its contexts have distinct names, and the machines of one are of its vCenter and have distinct references.\<close>

definition well_stored :: "side \<Rightarrow> bool" where
  "well_stored s \<longleftrightarrow> distinct (map (ctName \<circ> fst) s)
     \<and> (\<forall>(c, vms) \<in> set s. distinct (map (dmID \<circ> vm_of) vms) \<and> (\<forall>v \<in> set vms. doVCenterID (svObservation v) = ctVCenter c))"

text \<open>The contexts of one vCenter whose machines are compared with those of the other side.\<close>

definition of_vcenter :: "side \<Rightarrow> string \<Rightarrow> side" where
  "of_vcenter s vc = filter (\<lambda>p. collected (fst p) \<and> ctVCenter (fst p) = vc) s"

definition compared :: "side \<Rightarrow> side \<Rightarrow> string \<Rightarrow> side" where
  "compared s other vc =
     (let key = (\<lambda>p. contextKey (ctName (fst p)));
          shared = key ` set (of_vcenter s vc) \<inter> key ` set (of_vcenter other vc)
      in if shared = {} then of_vcenter s vc else filter (\<lambda>p. key p \<in> shared) (of_vcenter s vc))"

definition kept_context :: "string \<Rightarrow> string list \<Rightarrow> context_run \<times> stored_vm list \<Rightarrow> context_vms" where
  "kept_context scope blind p =
     \<lparr>cvName = ctName (fst p), cvVMs = fst (withSnapshotCoverage (snd p) (fst p) scope (ctVCenter (fst p) \<in> set blind))\<rparr>"

lemma kept_context_sel [simp]: "cvName (kept_context scope blind p) = ctName (fst p)"
  by (simp add: kept_context_def)

lemma map_kept_vms: "(\<And>v. f (v\<lparr>svSnapshots := []\<rparr>) = f v) \<Longrightarrow> map f (cvVMs (kept_context scope blind p)) = map f (snd p)"
  by (simp add: kept_context_def withSnapshotCoverage_def comp_def)

lemma by_vcenter_side: "by_vcenter (side_contexts scope blind s) vc = map (kept_context scope blind) (of_vcenter s vc)"
  by (induction s)
    (auto simp: by_vcenter_def side_contexts_def side_context_def of_vcenter_def kept_context_def split: prod.splits)

lemma set_vcenters: "set (vcenters (side_contexts scope blind s)) = (\<lambda>p. ctVCenter (fst p)) ` {p \<in> set s. collected (fst p)}"
proof -
  have "set (vcenters cs) = fst ` set cs" for cs
    using set_first_by_key [of "\<lambda>v. v" "[]" "map fst cs"] by (simp add: vcenters_def)
  moreover have "fst ` set (side_contexts scope blind s) = (\<lambda>p. ctVCenter (fst p)) ` {p \<in> set s. collected (fst p)}"
  proof (induction s)
    case (Cons p s)
    have "fst ` set (fst (side_context scope blind p)) = (if collected (fst p) then {ctVCenter (fst p)} else {})"
      by (cases p) (simp add: side_context_def split: prod.splits)
    moreover have "{q \<in> set (p # s). collected (fst q)} = (if collected (fst p) then {p} else {}) \<union> {q \<in> set s. collected (fst q)}"
      by auto
    ultimately show ?case using Cons by (simp add: side_contexts_def image_Un)
  qed (simp add: side_contexts_def)
  ultimately show ?thesis by simp
qed

lemma distinct_vcenters: "distinct (vcenters cs)"
  using distinct_first_by [of "\<lambda>v. v" "[]" "map fst cs"] by (simp add: vcenters_def)

lemma shared_kept:
  fixes s other vc
  defines "key \<equiv> \<lambda>p. contextKey (ctName (fst p))"
  shows "set (shared_contexts (map (kept_context sc1 bl1) (of_vcenter s vc)) (map (kept_context sc2 bl2) (of_vcenter other vc)))
    = key ` set (of_vcenter s vc) \<inter> key ` set (of_vcenter other vc)"
  by (auto simp: shared_contexts_def key_def)

lemma vcenterVMs_kept:
  "vcenterVMs (map (kept_context sc1 blind) (of_vcenter bc vc)) (map (kept_context sc2 blind) (of_vcenter tc vc)) =
    (let b = map (kept_context sc1 blind) (compared bc tc vc); t = map (kept_context sc2 blind) (compared tc bc vc)
     in (pick_vms b (vmContexts b) (vmContexts t), pick_vms t (vmContexts t) (vmContexts b),
         map (\<lambda>p. issue ''baseline'' (ctName (fst p)) (RecordedOnlyIn (ctName (fst p)) ''baseline''))
           (filter (\<lambda>p. p \<notin> set (compared bc tc vc)) (of_vcenter bc vc))
         @ map (\<lambda>p. issue ''target'' (ctName (fst p)) (RecordedOnlyIn (ctName (fst p)) ''target''))
           (filter (\<lambda>p. p \<notin> set (compared tc bc vc)) (of_vcenter tc vc))))"
proof -
  let ?B = "map (kept_context sc1 blind) (of_vcenter bc vc)" and ?T = "map (kept_context sc2 blind) (of_vcenter tc vc)"
  have shared: "set (shared_contexts ?B ?T) =
      (\<lambda>p. contextKey (ctName (fst p))) ` set (of_vcenter bc vc) \<inter> (\<lambda>p. contextKey (ctName (fst p))) ` set (of_vcenter tc vc)"
    by (rule shared_kept)
  show ?thesis
  proof (cases "shared_contexts ?B ?T = []")
    case True
    with shared have none: "(\<lambda>p. contextKey (ctName (fst p))) ` set (of_vcenter bc vc) \<inter> (\<lambda>p. contextKey (ctName (fst p))) ` set (of_vcenter tc vc) = {}"
      by simp
    then have "compared bc tc vc = of_vcenter bc vc" "compared tc bc vc = of_vcenter tc vc"
      by (simp_all add: compared_def Let_def Int_commute)
    then show ?thesis using True by (simp add: vcenterVMs_def Let_def)
  next
    case False
    with shared have some: "(\<lambda>p. contextKey (ctName (fst p))) ` set (of_vcenter bc vc) \<inter> (\<lambda>p. contextKey (ctName (fst p))) ` set (of_vcenter tc vc) \<noteq> {}"
      by (metis set_empty)
    have c: "compared bc tc vc = filter (\<lambda>p. contextKey (ctName (fst p)) \<in> set (shared_contexts ?B ?T)) (of_vcenter bc vc)"
      "compared tc bc vc = filter (\<lambda>p. contextKey (ctName (fst p)) \<in> set (shared_contexts ?B ?T)) (of_vcenter tc vc)"
      using some unfolding compared_def Let_def shared by (simp_all add: Int_commute)
    have out: "filter (\<lambda>p. p \<notin> set (filter P xs)) xs = filter (\<lambda>p. \<not> P p) xs" for P and xs :: side
      by (intro filter_cong) auto
    show ?thesis using False
      unfolding c out by (simp add: vcenterVMs_def Let_def sharedContexts_def filter_map comp_def split: prod.splits)
  qed
qed

section \<open>Picking machines\<close>

lemma vmContexts_mem: "n \<in> set (vmContexts side i) \<longleftrightarrow> (\<exists>c \<in> set side. cvName c = n \<and> (\<exists>v \<in> set (cvVMs c). dmID (vm_of v) = i))"
  by (auto simp: vmContexts_def)

lemma chosenContext_mem: "names \<noteq> [] \<Longrightarrow> chosenContext names other \<in> set names"
  by (auto simp: chosenContext_def split: option.splits list.splits dest: find_Some_mem)

text \<open>A machine that some compared context recorded is compared.\<close>

lemma pick_vms_covers:
  assumes "c \<in> set side" and "v \<in> set (cvVMs c)"
  shows "\<exists>w \<in> set (pick_vms side (vmContexts side) other). dmID (vm_of w) = dmID (vm_of v)"
proof -
  let ?i = "dmID (vm_of v)"
  have "cvName c \<in> set (vmContexts side ?i)" using assms by (auto simp: vmContexts_mem)
  then have "chosenContext (vmContexts side ?i) (other ?i) \<in> set (vmContexts side ?i)"
    by (intro chosenContext_mem) auto
  then obtain d w where "d \<in> set side" "cvName d = chosenContext (vmContexts side ?i) (other ?i)" "w \<in> set (cvVMs d)"
      "dmID (vm_of w) = ?i"
    by (auto simp: vmContexts_mem)
  then show ?thesis by (force simp: pick_vms_def)
qed

lemma pick_vms_mem: "v \<in> set (pick_vms side seen other) \<Longrightarrow> \<exists>c \<in> set side. v \<in> set (cvVMs c)"
  by (auto simp: pick_vms_def)

lemma distinct_concat_chosen:
  assumes "distinct (map g xs)" and "\<And>x. x \<in> set xs \<Longrightarrow> distinct (map h (f x))"
    and "\<And>x y. x \<in> set xs \<Longrightarrow> y \<in> set (f x) \<Longrightarrow> chosen (h y) = g x"
  shows "distinct (map h (concat (map f xs)))"
  using assms
proof (induction xs)
  case (Cons x xs)
  have "h y \<noteq> h z" if "y \<in> set (f x)" "z \<in> set (f x')" "x' \<in> set xs" for y z x'
  proof
    assume "h y = h z"
    then have "g x = g x'" using Cons.prems(3) that by (metis list.set_intros)
    then show False using Cons.prems(1) that(3) by auto
  qed
  moreover have "distinct (map h (concat (map f xs)))"
    by (rule Cons.IH) (use Cons.prems in auto)
  ultimately show ?case using Cons.prems(2) [of x] by auto
qed simp

lemma distinct_pick_vms:
  assumes "distinct (map cvName side)" and "\<And>c. c \<in> set side \<Longrightarrow> distinct (map (dmID \<circ> vm_of) (cvVMs c))"
  shows "distinct (map (dmID \<circ> vm_of) (pick_vms side seen other))"
  unfolding pick_vms_def
proof (rule distinct_concat_chosen [where g = cvName and chosen = "\<lambda>i. chosenContext (seen i) (other i)"])
  show "distinct (map cvName side)" by (rule assms)
  show "distinct (map (dmID \<circ> vm_of) (filter P (cvVMs c)))" if "c \<in> set side" for c P
    using assms(2) [OF that] by (rule distinct_map_filter)
qed auto

section \<open>The sides of the comparison\<close>

text \<open>The machines that are compared, over all the vCenters that both sides collected.\<close>

definition common_vcenters :: "side \<Rightarrow> side \<Rightarrow> string list" where
  "common_vcenters bc tc =
     (let blind = snapshot_blind bc tc; bs = side_contexts ''baseline'' blind bc; ts = side_contexts ''target'' blind tc
      in filter (\<lambda>vc. vc \<in> set (vcenters ts)) (vcenters bs))"

definition side_vms :: "string \<Rightarrow> string \<Rightarrow> side \<Rightarrow> side \<Rightarrow> string list \<Rightarrow> string \<Rightarrow> stored_vm list" where
  "side_vms scope oscope s other blind vc =
     (let mine = map (kept_context scope blind) (compared s other vc); theirs = map (kept_context oscope blind) (compared other s vc)
      in pick_vms mine (vmContexts mine) (vmContexts theirs))"

lemma common_vcenters_mem:
  "vc \<in> set (common_vcenters bc tc) \<longleftrightarrow> of_vcenter bc vc \<noteq> [] \<and> of_vcenter tc vc \<noteq> []"
proof -
  have "vc \<in> set (vcenters (side_contexts scope blind s)) \<longleftrightarrow> of_vcenter s vc \<noteq> []" for scope blind s
    by (auto simp: set_vcenters of_vcenter_def filter_empty_conv)
  then show ?thesis by (auto simp: common_vcenters_def Let_def)
qed

lemma compare_sides_eq:
  fixes bc tc
  defines "blind \<equiv> snapshot_blind bc tc" and "vcs \<equiv> common_vcenters bc tc"
  shows "(vdVMs (compare_sides gib rfc3339 runtime bc tc), vdSnapshots (compare_sides gib rfc3339 runtime bc tc)) =
      compareVMs gib rfc3339 (concat (map (side_vms ''baseline'' ''target'' bc tc blind) vcs))
        (concat (map (side_vms ''target'' ''baseline'' tc bc blind) vcs)) runtime"
    and "set (side_issues ''baseline'' blind bc) \<union> set (side_issues ''target'' blind tc)
      \<subseteq> set (vdCoverage (compare_sides gib rfc3339 runtime bc tc))"
    and "\<And>vc p. vc \<in> set vcs \<Longrightarrow> p \<in> set (of_vcenter bc vc) \<Longrightarrow> p \<notin> set (compared bc tc vc) \<Longrightarrow>
      issue ''baseline'' (ctName (fst p)) (RecordedOnlyIn (ctName (fst p)) ''baseline'')
        \<in> set (vdCoverage (compare_sides gib rfc3339 runtime bc tc))"
    and "\<And>vc p. vc \<in> set vcs \<Longrightarrow> p \<in> set (of_vcenter tc vc) \<Longrightarrow> p \<notin> set (compared tc bc vc) \<Longrightarrow>
      issue ''target'' (ctName (fst p)) (RecordedOnlyIn (ctName (fst p)) ''target'')
        \<in> set (vdCoverage (compare_sides gib rfc3339 runtime bc tc))"
    and "\<And>vc. of_vcenter bc vc \<noteq> [] \<Longrightarrow> of_vcenter tc vc = [] \<Longrightarrow>
      issue ''target'' (vcLabel bc tc vc) (VCenterNotCollected (vcLabel bc tc vc) ''target'')
        \<in> set (vdCoverage (compare_sides gib rfc3339 runtime bc tc))"
    and "\<And>vc. of_vcenter tc vc \<noteq> [] \<Longrightarrow> of_vcenter bc vc = [] \<Longrightarrow>
      issue ''baseline'' (vcLabel bc tc vc) (VCenterNotCollected (vcLabel bc tc vc) ''baseline'')
        \<in> set (vdCoverage (compare_sides gib rfc3339 runtime bc tc))"
proof -
  let ?bs = "side_contexts ''baseline'' blind bc" and ?ts = "side_contexts ''target'' blind tc"
  let ?parts = "map (\<lambda>vc. vcenterVMs (by_vcenter ?bs vc) (by_vcenter ?ts vc)) vcs"
  have vcs: "vcs = filter (\<lambda>vc. vc \<in> set (vcenters ?ts)) (vcenters ?bs)"
    by (simp add: vcs_def common_vcenters_def Let_def blind_def)
  have parts: "map fst ?parts = map (side_vms ''baseline'' ''target'' bc tc blind) vcs"
    "map (fst \<circ> snd) ?parts = map (side_vms ''target'' ''baseline'' tc bc blind) vcs"
    unfolding by_vcenter_side vcenterVMs_kept by (simp_all add: side_vms_def Let_def comp_def)
  obtain vms snaps where cmp: "compareVMs gib rfc3339 (concat (map fst ?parts)) (concat (map (fst \<circ> snd) ?parts)) runtime = (vms, snaps)"
    by force
  have eq: "compare_sides gib rfc3339 runtime bc tc = \<lparr>vdVMs = vms, vdSnapshots = snaps,
      vdCoverage = side_issues ''baseline'' blind bc @ side_issues ''target'' blind tc @ concat (map (snd \<circ> snd) ?parts)
        @ not_comparable bc tc ''target'' (vcenters ?bs) (vcenters ?ts) @ not_comparable bc tc ''baseline'' (vcenters ?ts) (vcenters ?bs)\<rparr>"
    using cmp by (simp add: compare_sides_def Let_def blind_def [symmetric] vcs [symmetric])
  show "(vdVMs (compare_sides gib rfc3339 runtime bc tc), vdSnapshots (compare_sides gib rfc3339 runtime bc tc)) =
      compareVMs gib rfc3339 (concat (map (side_vms ''baseline'' ''target'' bc tc blind) vcs))
        (concat (map (side_vms ''target'' ''baseline'' tc bc blind) vcs)) runtime"
    unfolding eq cmp [unfolded parts] by simp
  show "set (side_issues ''baseline'' blind bc) \<union> set (side_issues ''target'' blind tc)
      \<subseteq> set (vdCoverage (compare_sides gib rfc3339 runtime bc tc))"
    by (auto simp: eq)
  have part: "vcenterVMs (by_vcenter ?bs vc) (by_vcenter ?ts vc) \<in> set ?parts" if "vc \<in> set vcs" for vc
    using that by simp
  show "issue ''baseline'' (ctName (fst p)) (RecordedOnlyIn (ctName (fst p)) ''baseline'')
        \<in> set (vdCoverage (compare_sides gib rfc3339 runtime bc tc))"
    if "vc \<in> set vcs" "p \<in> set (of_vcenter bc vc)" "p \<notin> set (compared bc tc vc)" for vc p
    using that part [OF that(1)] unfolding eq by_vcenter_side vcenterVMs_kept by (force simp: Let_def)
  show "issue ''target'' (ctName (fst p)) (RecordedOnlyIn (ctName (fst p)) ''target'')
        \<in> set (vdCoverage (compare_sides gib rfc3339 runtime bc tc))"
    if "vc \<in> set vcs" "p \<in> set (of_vcenter tc vc)" "p \<notin> set (compared tc bc vc)" for vc p
    using that part [OF that(1)] unfolding eq by_vcenter_side vcenterVMs_kept by (force simp: Let_def)
  have vc: "vc \<in> set (vcenters (side_contexts scope blind s)) \<longleftrightarrow> of_vcenter s vc \<noteq> []" for vc scope s
    by (auto simp: set_vcenters of_vcenter_def filter_empty_conv)
  show "issue ''target'' (vcLabel bc tc vc) (VCenterNotCollected (vcLabel bc tc vc) ''target'')
        \<in> set (vdCoverage (compare_sides gib rfc3339 runtime bc tc))" if "of_vcenter bc vc \<noteq> []" "of_vcenter tc vc = []" for vc
    using that by (auto simp: eq not_comparable_def vc)
  show "issue ''baseline'' (vcLabel bc tc vc) (VCenterNotCollected (vcLabel bc tc vc) ''baseline'')
        \<in> set (vdCoverage (compare_sides gib rfc3339 runtime bc tc))" if "of_vcenter tc vc \<noteq> []" "of_vcenter bc vc = []" for vc
    using that by (auto simp: eq not_comparable_def vc)
qed

lemma compared_sub: "set (compared s other vc) \<subseteq> set (of_vcenter s vc)"
  by (auto simp: compared_def Let_def)

lemma compared_nonempty: "of_vcenter s vc \<noteq> [] \<Longrightarrow> compared s other vc \<noteq> []"
  by (auto simp: compared_def Let_def filter_empty_conv)

lemma kept_vms_mem:
  assumes "v \<in> set (cvVMs (kept_context scope blind p))"
  shows "\<exists>w \<in> set (snd p). svObservation v = svObservation w"
  using assms by (auto simp: kept_context_def withSnapshotCoverage_def split: if_splits)

lemma kept_vms_covers:
  assumes "w \<in> set (snd p)"
  shows "\<exists>v \<in> set (cvVMs (kept_context scope blind p)). svObservation v = svObservation w"
  using assms by (force simp: kept_context_def withSnapshotCoverage_def)

lemma side_vms_vcenter:
  assumes "well_stored s" and "v \<in> set (side_vms scope oscope s other blind vc)"
  shows "doVCenterID (svObservation v) = vc"
proof -
  obtain p where p: "p \<in> set (compared s other vc)" "v \<in> set (cvVMs (kept_context scope blind p))"
    using assms(2) pick_vms_mem by (fastforce simp: side_vms_def Let_def)
  then have "p \<in> set s" "ctVCenter (fst p) = vc" using compared_sub [of s other vc] by (auto simp: of_vcenter_def)
  moreover obtain w where "w \<in> set (snd p)" "svObservation v = svObservation w" using kept_vms_mem [OF p(2)] by blast
  ultimately show ?thesis using assms(1) by (force simp: well_stored_def)
qed

lemma side_vms_covers:
  assumes "p \<in> set (compared s other vc)" and "w \<in> set (snd p)"
  shows "\<exists>v \<in> set (side_vms scope oscope s other blind vc). dmID (vm_of v) = dmID (vm_of w)"
proof -
  obtain v where "v \<in> set (cvVMs (kept_context scope blind p))" "svObservation v = svObservation w"
    using kept_vms_covers [OF assms(2)] by blast
  then show ?thesis
    using pick_vms_covers [of "kept_context scope blind p" "map (kept_context scope blind) (compared s other vc)" v] assms(1)
    by (force simp: side_vms_def Let_def vm_of_def)
qed

lemma side_vms_distinct:
  assumes "well_stored s"
  shows "distinct (map (dmID \<circ> vm_of) (side_vms scope oscope s other blind vc))"
  unfolding side_vms_def Let_def
proof (rule distinct_pick_vms)
  have d: "distinct (map (ctName \<circ> fst) (compared s other vc))"
    using assms by (auto simp: well_stored_def compared_def Let_def of_vcenter_def intro: distinct_map_filter)
  then show "distinct (map cvName (map (kept_context scope blind) (compared s other vc)))"
    by (simp add: comp_def)
  fix c assume "c \<in> set (map (kept_context scope blind) (compared s other vc))"
  then obtain p where p: "p \<in> set (compared s other vc)" "c = kept_context scope blind p" by auto
  then have "p \<in> set s" using compared_sub [of s other vc] by (auto simp: of_vcenter_def)
  then show "distinct (map (dmID \<circ> vm_of) (cvVMs c))"
    using assms p(2) map_kept_vms [of "dmID \<circ> vm_of" scope blind p] by (force simp: well_stored_def vm_of_def)
qed

lemma all_vms_distinct:
  assumes "well_stored s" and "distinct vcs"
  shows "distinct (map moref_of (concat (map (side_vms scope oscope s other blind) vcs)))"
proof (rule distinct_concat_chosen [where g = "\<lambda>vc. vc" and chosen = fst])
  show "distinct (map (\<lambda>vc. vc) vcs)" using assms(2) by simp
  show "fst (moref_of v) = vc" if "v \<in> set (side_vms scope oscope s other blind vc)" for vc v
    using side_vms_vcenter [OF assms(1) that] by (simp add: moref_of_def)
  show "distinct (map moref_of (side_vms scope oscope s other blind vc))" for vc
    using side_vms_distinct [OF assms(1), of scope oscope other blind vc]
    by (auto simp: distinct_map inj_on_def moref_of_def)
qed

section \<open>Properties\<close>

text \<open>Two machines of the witnesses: what a capture says of a machine that has nothing but its reference and its instance UUID.\<close>

definition example_vm :: "string \<Rightarrow> string \<Rightarrow> string \<Rightarrow> stored_vm" where
  "example_vm vc i uuid = \<lparr>svObservation = \<lparr>doVCenterID = vc, doContext = ''east'', doVM =
     \<lparr>dmMetadata = \<lparr>mdTags = [], mdAttributes = [], mdTagsStatus = [], mdAttributesStatus = []\<rparr>,
      dmID = i, dmInstanceUUID = uuid, dmBIOSUUID = [], dmName = i, dmPowerState = ''poweredOn'', dmCPU = 1, dmMemoryMB = 1024,
      dmGuestOS = [], dmGuestState = [], dmToolsState = [], dmIPAddress = [], dmHost = ''esx1'', dmCluster = [],
      dmFolder = [], dmDatastores = [], dmStorageGB = ''1.000'', dmProvisionedBytes = None, dmUnsharedBytes = None,
      dmFiles = None, dmConsolidationNeeded = None, dmSettings = None, dmState = None, dmClusterConfig = None,
      dmAnnotation = [],
      dmHardware = \<lparr>hwConfigurationAvailable = False, hwGuestID = [], hwFirmware = [], hwHardwareVersion = [],
        hwSecureBootEnabled = None, hwCoresPerSocket = 0, hwCPUSockets = 0, hwAutoCoresPerSocket = None,
        hwCPUAllocation = None, hwMemoryAllocation = None, hwMemoryReservationLockedToMax = None, hwManagedBy = JNull,
        hwDisks = [], hwNICs = [], hwTPMs = JNull, hwPCIDevices = JNull, hwFloppies = JNull\<rparr>\<rparr>\<rparr>,
     svSnapshots = []\<rparr>"

definition example_context :: "string \<Rightarrow> string \<Rightarrow> string \<Rightarrow> context_run" where
  "example_context name vc status = \<lparr>ctName = name, ctDatacenter = [], ctVCenter = vc, ctVMStatus = status, ctError = [],
     ctCollections = []\<rparr>"

lemma example_vm_sel [simp]:
  "doVCenterID (svObservation (example_vm vc i u)) = vc" "dmID (vm_of (example_vm vc i u)) = i"
  "dmInstanceUUID (vm_of (example_vm vc i u)) = u" "dmBIOSUUID (vm_of (example_vm vc i u)) = []"
  "moref_of (example_vm vc i u) = (vc, i)" "svSnapshots (example_vm vc i u) = []"
  by (simp_all add: example_vm_def vm_of_def moref_of_def)

lemma example_context_sel [simp]:
  "ctName (example_context n vc st) = n" "ctVCenter (example_context n vc st) = vc" "ctVMStatus (example_context n vc st) = st"
  "collected (example_context n vc st) \<longleftrightarrow> vc \<noteq> [] \<and> Successful st"
  by (simp_all add: example_context_def collected_def)

text \<open>What justifies a pair of machines, wherever the match stands in the comparison.\<close>

fun justified :: "stored_vm list \<Rightarrow> stored_vm list \<Rightarrow> stored_vm \<Rightarrow> (nat \<times> string) option \<Rightarrow> bool" where
  "justified base target t None = True"
| "justified base target t (Some (j, basis)) =
     (if basis = ''moref'' then same_moref (base ! j) t
      else list_ex (\<lambda>(kind, f). kind = basis \<and> f (vm_of t) \<noteq> [] \<and> f (vm_of (base ! j)) = f (vm_of t)
             \<and> identity_count target (identityKey kind (f (vm_of t))) = 1) identity_kinds)"

lemma identified_justified: "identified base u (identity_count target) t j basis \<Longrightarrow> justified base target t (Some (j, basis))"
  by (auto simp: identified_def list_ex_iff split: if_splits)

lemma match_all_justified:
  "list_all2 (justified base target) target (match_all base (identity_count target) (replicate (length base) False) target)"
proof (rule list_all2_all_nthI)
  fix k assume k: "k < length target"
  let ?ms = "match_all base (identity_count target) (replicate (length base) False) target"
  show "justified base target (target ! k) (?ms ! k)"
  proof (cases "?ms ! k")
    case (Some m)
    obtain j basis where m: "m = (j, basis)" by force
    obtain u where "identified base u (identity_count target) (target ! k) j basis"
      using match_all_nth [OF k _ Some [unfolded m]] by auto
    then have "justified base target (target ! k) (Some (j, basis))" by (rule identified_justified)
    then show ?thesis by (simp only: Some m)
  qed simp
qed simp

text \<open>
  C22: The comparison of the machines of two captures is that of a one-to-one matching: every target machine is matched
  with at most one base machine and no base machine twice; a match is one of the same reference on the same vCenter, or of
  an instance or BIOS UUID that a single target machine has; a matched pair gives its moved or modified entry, a target without a match
  appeared, and exactly the base machines that no target took vanished.
\<close>

theorem compareVMs_matching:
  "\<exists>ms. list_all2 (justified base target) target ms
     \<and> distinct (matched_indices ms) \<and> set (matched_indices ms) \<subseteq> {..<length base}
     \<and> compareVMs gib rfc3339 base target runtime =
        (concat (map (\<lambda>(t, m). vm_entry gib runtime base t m) (zip target ms))
           @ map (\<lambda>i. vm_vanished (base ! i)) (filter (\<lambda>i. i \<notin> set (matched_indices ms)) [0..<length base]),
         concat (map (\<lambda>(t, m). snapshot_entry rfc3339 base t m) (zip target ms)))"
proof (intro exI conjI)
  let ?ms = "match_all base (identity_count target) (replicate (length base) False) target"
  show "list_all2 (justified base target) target ?ms" by (rule match_all_justified)
  show "distinct (matched_indices ?ms)" "set (matched_indices ?ms) \<subseteq> {..<length base}"
    using match_all_indices [of "replicate (length base) False" base "identity_count target" target] by auto
qed (rule compareVMs_eq)

text \<open>
  The counts of a comparison account for the growth of the estate: the machines that appeared less those that
  vanished are the machines the target has more than the base.
\<close>

theorem counts_account:
  "(let (vms, snaps) = compareVMs gib rfc3339 base target runtime; c = countChanges vms snaps
    in dcAppeared c - dcVanished c = int (length target) - int (length base))"
proof -
  let ?ms = "match_all base (identity_count target) (replicate (length base) False) target"
  let ?entries = "concat (map (\<lambda>(t, m). vm_entry gib runtime base t m) (zip target ?ms))"
  let ?gone = "filter (\<lambda>i. i \<notin> set (matched_indices ?ms)) [0..<length base]"
  obtain vms snaps where c: "compareVMs gib rfc3339 base target runtime = (vms, snaps)" by force
  then have vms: "vms = ?entries @ map (\<lambda>i. vm_vanished (base ! i)) ?gone" by (simp add: compareVMs_eq)
  have "occurrences ''appeared'' vms + length (matched_indices ?ms) = length target"
    "occurrences ''vanished'' vms = length ?gone"
    using occurrences_entries [of ?ms target gib runtime base] by (simp_all add: vms occurrences_vanished)
  moreover have "length ?gone + length (matched_indices ?ms) = length base"
    using match_all_indices [of "replicate (length base) False" base "identity_count target" target]
    by (intro length_filter_notin) auto
  ultimately show ?thesis by (simp add: c countChanges_def Let_def occurrences_def)
qed

text \<open>
  A capture compared with itself has no changes, of machines or of snapshots, when its references and snapshot IDs
  are distinct.
\<close>

theorem self_comparison_empty:
  assumes "distinct (map moref_of vms)" and "\<forall>v \<in> set vms. distinct (map dsnID (svSnapshots v))"
  shows "compareVMs gib rfc3339 vms vms runtime = ([], [])"
proof -
  let ?ms = "match_all vms (identity_count vms) (replicate (length vms) False) vms"
  have ms: "?ms = map (\<lambda>i. Some (i, ''moref'')) [0..<length vms]"
    using match_all_same [of "[]" vms "identity_count vms"] assms(1) by simp
  have none: "vm_entry gib runtime vms (vms ! i) (Some (i, ''moref'')) = []"
    "snapshot_entry rfc3339 vms (vms ! i) (Some (i, ''moref'')) = []" if "i < length vms" for i
    using assms(2) that by (simp_all add: vm_entry_def snapshot_entry_def vm_matched_def compareSnapshots_same)
  have "set (zip vms ?ms) = {(vms ! i, Some (i, ''moref'')) |i. i < length vms}"
    by (auto simp: ms set_zip)
  moreover have "matched_indices ?ms = [0..<length vms]"
    by (simp add: ms matched_indices_def List.map_filter_def comp_def)
  ultimately show ?thesis
    unfolding compareVMs_eq by (auto simp: none concat_eq_Nil_conv filter_empty_conv)
qed

theorem self_comparison_empty_witness:
  "(let vms = [example_vm ''vc1'' ''vm-1'' ''u1'', example_vm ''vc1'' ''vm-2'' ''u1''] 
    in compareVMs (\<lambda>b. ''1'') (\<lambda>t. ''now'') vms vms True = ([], []))"
  using self_comparison_empty [of "[example_vm ''vc1'' ''vm-1'' ''u1'', example_vm ''vc1'' ''vm-2'' ''u1'']" "\<lambda>b. ''1''" "\<lambda>t. ''now''" True]
  by (simp add: Let_def)

lemma vanished_entry:
  assumes "ch \<in> set (fst (compareVMs gib rfc3339 base target runtime))" and "''vanished'' \<in> set (vcChanges ch)"
  shows "\<exists>i < length base. i \<notin> set (matched_indices (match_all base (identity_count target) (replicate (length base) False) target))
    \<and> vcBefore ch = Some (svObservation (base ! i))"
proof -
  have "ch \<notin> set (vm_entry gib runtime base t m)" for t m
    using assms(2) vm_matched_kinds [of ch gib runtime]
    by (fastforce simp: vm_entry_def vm_appeared_def split: option.splits)
  then show ?thesis
    using assms(1) by (auto simp: compareVMs_eq vm_vanished_def)
qed

lemma common_vcenters_distinct: "distinct (common_vcenters bc tc)"
  by (simp add: common_vcenters_def Let_def distinct_vcenters)

text \<open>
  C21: A machine is only reported as vanished when the target was read where it could stand: its vCenter was collected
  successfully in the target, at least one context of it is compared, and no machine of any of the compared target contexts
  has its reference. The machine itself is one that a compared base context recorded.
\<close>

theorem vanished_was_looked_for:
  assumes "well_stored bc" and "well_stored tc"
    and "ch \<in> set (vdVMs (compare_sides gib rfc3339 runtime bc tc))" and "''vanished'' \<in> set (vcChanges ch)"
  shows "\<exists>b. vcBefore ch = Some b
    \<and> (\<exists>p \<in> set (compared bc tc (doVCenterID b)). \<exists>v \<in> set (snd p). svObservation v = b)
    \<and> compared tc bc (doVCenterID b) \<noteq> []
    \<and> (\<forall>q \<in> set (compared tc bc (doVCenterID b)). \<forall>v \<in> set (snd q). dmID (vm_of v) \<noteq> dmID (doVM b))"
proof -
  let ?blind = "snapshot_blind bc tc" and ?vcs = "common_vcenters bc tc"
  let ?B = "concat (map (side_vms ''baseline'' ''target'' bc tc ?blind) ?vcs)"
  let ?T = "concat (map (side_vms ''target'' ''baseline'' tc bc ?blind) ?vcs)"
  have "vdVMs (compare_sides gib rfc3339 runtime bc tc) = fst (compareVMs gib rfc3339 ?B ?T runtime)"
    using compare_sides_eq(1) [of gib rfc3339 runtime bc tc] by (metis fst_conv)
  with assms(3,4) obtain i where i: "i < length ?B"
      "i \<notin> set (matched_indices (match_all ?B (identity_count ?T) (replicate (length ?B) False) ?T))"
      "vcBefore ch = Some (svObservation (?B ! i))"
    using vanished_entry [of ch gib rfc3339 ?B ?T runtime] by auto
  let ?b = "?B ! i"
  have "?b \<in> set ?B" using i(1) by (rule nth_mem)
  then obtain vc where vc: "vc \<in> set ?vcs" "?b \<in> set (side_vms ''baseline'' ''target'' bc tc ?blind vc)" by auto
  have id: "doVCenterID (svObservation ?b) = vc" by (rule side_vms_vcenter [OF assms(1) vc(2)])
  have alone: "moref_of ?b \<noteq> moref_of t" if "t \<in> set ?T" for t
    using unmatched_moref [OF all_vms_distinct [OF assms(1) common_vcenters_distinct] _ i(1) _ i(2) that] i(1) by simp
  have "dmID (vm_of v) \<noteq> dmID (vm_of ?b)" if q: "q \<in> set (compared tc bc vc)" "v \<in> set (snd q)" for q v
  proof -
    obtain w where w: "w \<in> set (side_vms ''target'' ''baseline'' tc bc ?blind vc)" "dmID (vm_of w) = dmID (vm_of v)"
      using side_vms_covers [OF q] by blast
    then have "moref_of ?b \<noteq> moref_of w" using vc(1) by (intro alone) auto
    then show ?thesis using w id side_vms_vcenter [OF assms(2) w(1)] by (auto simp: moref_of_def)
  qed
  moreover have "compared tc bc vc \<noteq> []"
    using vc(1) by (intro compared_nonempty) (simp add: common_vcenters_mem)
  moreover have "\<exists>p \<in> set (compared bc tc vc). \<exists>v \<in> set (snd p). svObservation v = svObservation ?b"
  proof -
    obtain p where "p \<in> set (compared bc tc vc)" "?b \<in> set (cvVMs (kept_context ''baseline'' ?blind p))"
      using vc(2) pick_vms_mem by (fastforce simp: side_vms_def Let_def)
    then show ?thesis using kept_vms_mem [of ?b "''baseline''" ?blind p] by metis
  qed
  ultimately show ?thesis using i(3) id by (auto simp: vm_of_def)
qed

theorem vanished_was_looked_for_witness:
  "(let bc = [(example_context ''east'' ''vc1'' ''success'', [example_vm ''vc1'' ''vm-1'' ''u1''])];
        tc = [(example_context ''east'' ''vc1'' ''empty'', [])]
    in \<exists>ch b. ch \<in> set (vdVMs (compare_sides (\<lambda>b. ''1'') (\<lambda>t. ''now'') False bc tc)) \<and> vcBefore ch = Some b
      \<and> compared tc bc (doVCenterID b) \<noteq> [])"
proof -
  let ?bc = "[(example_context ''east'' ''vc1'' ''success'', [example_vm ''vc1'' ''vm-1'' ''u1''])]"
  let ?tc = "[(example_context ''east'' ''vc1'' ''empty'', [])]"
  let ?ch = "vm_vanished (example_vm ''vc1'' ''vm-1'' ''u1'')"
  have ch: "vdVMs (compare_sides (\<lambda>b. ''1'') (\<lambda>t. ''now'') False ?bc ?tc) = [?ch]" by code_simp
  have "well_stored ?bc" "well_stored ?tc" by (simp_all add: well_stored_def)
  from vanished_was_looked_for [OF this, of ?ch "\<lambda>b. ''1''" "\<lambda>t. ''now''" False] ch show ?thesis
    by (auto simp: vm_vanished_def Let_def)
qed



text \<open>
  A context that was collected but whose vCenter ID is empty is neither compared nor named by an issue: two captures of
  such contexts have an empty comparison that looks complete.
\<close>

theorem unidentified_contexts_are_silent:
  assumes "\<forall>p \<in> set (bc @ tc). ctVCenter (fst p) = [] \<and> Successful (ctVMStatus (fst p))"
  shows "compare_sides gib rfc3339 runtime bc tc = \<lparr>vdVMs = [], vdSnapshots = [], vdCoverage = []\<rparr>"
proof -
  have side: "side_context scope blind p = ([], [])" if "p \<in> set (bc @ tc)" for scope blind p
    using assms that by (cases p) (force simp: side_context_def collected_def)
  have "side_contexts scope blind s = []" "side_issues scope blind s = []" if "set s \<subseteq> set (bc @ tc)" for scope blind s
    using that side by (auto simp: side_contexts_def side_issues_def concat_eq_Nil_conv subset_iff)
  then show ?thesis
    by (simp add: compare_sides_def Let_def vcenters_def not_comparable_def compareVMs_def)
qed

text \<open>
  The matching is greedy in the order of the target: a machine that is matched by its UUID can take the base machine whose
  reference a later target has. The same two captures then show either machine as the one that appeared, as the order of the
  contexts has it, which for the code is the order in which Go walks a map.
\<close>

theorem matching_depends_on_order:
  "(let base = [example_vm ''vc1'' ''vm-1'' ''u1''];
        kept = example_vm ''vc1'' ''vm-1'' ''u2''; copy = example_vm ''vc2'' ''vm-7'' ''u1'';
        appeared = (\<lambda>target. map vcAfter (filter (\<lambda>c. vcChanges c = [''appeared'']) (fst (compareVMs (\<lambda>b. ''1'') (\<lambda>t. ''now'') base target False))))
    in appeared [kept, copy] = [Some (svObservation copy)] \<and> appeared [copy, kept] = [Some (svObservation kept)])"
  by code_simp

end
