(* ===== verification/ResourceDiff.thy ===== *)
theory ResourceDiff
  imports RunDiff "HOL-Library.Product_Lexorder"
begin

text \<open>
  The comparison of the infrastructure of two captures (internal/assessment/resource_diff.go, diff_host_details.go,
  diff_datastore_details.go, diff_datastore_alarms.go, diff_network.go): hosts, clusters, resource pools, vApps, datastores,
  networks and distributed switches, each stored as the JSON of its record. A payload here is its text and its value; the parts
  of it that the code decodes into structs are read from the value, in the form in which the program stored them. \<open>utc\<close> is the
  text of a stored instant in UTC.
\<close>

section \<open>JSON values\<close>

function json_text :: "jvalue \<Rightarrow> string" where
  "json_text JNull = ''null''"
| "json_text (JBool b) = json_bool b"
| "json_text (JInt i) = itoa i"
| "json_text (JText s) = json_quote s"
| "json_text (JArray vs) = ''['' @ str_join '','' (map json_text vs) @ '']''"
| "json_text (JObject fs) =
     ''{'' @ str_join '','' (map (\<lambda>(k, t). json_quote k @ '':'' @ t) (sort_key fst (map (\<lambda>(k, v). (k, json_text v)) fs))) @ ''}''"
  by pat_completeness auto

termination
  by (relation "measure size") (auto simp del: jvalue.size intro: size_JArray size_JObject)

text \<open>\<open>fmt.Sprint\<close> of a decoded value.\<close>

function sprint_value :: "jvalue \<Rightarrow> string" where
  "sprint_value JNull = ''<nil>''"
| "sprint_value (JBool b) = json_bool b"
| "sprint_value (JInt i) = itoa i"
| "sprint_value (JText s) = s"
| "sprint_value (JArray vs) = ''['' @ str_join '' '' (map sprint_value vs) @ '']''"
| "sprint_value (JObject fs) =
     ''map['' @ str_join '' '' (map (\<lambda>(k, t). k @ '':'' @ t) (sort_key fst (map (\<lambda>(k, v). (k, sprint_value v)) fs))) @ '']''"
  by pat_completeness auto

termination
  by (relation "measure size") (auto simp del: jvalue.size intro: size_JArray size_JObject)

definition member_of :: "string \<Rightarrow> jvalue \<Rightarrow> jvalue option" where
  "member_of k v = (case v of JObject fs \<Rightarrow> map_of fs k | _ \<Rightarrow> None)"

definition text_member :: "string \<Rightarrow> jvalue \<Rightarrow> string" where
  "text_member k v = (case member_of k v of Some (JText s) \<Rightarrow> s | _ \<Rightarrow> [])"

definition list_member :: "string \<Rightarrow> jvalue \<Rightarrow> jvalue list" where
  "list_member k v = (case member_of k v of Some (JArray vs) \<Rightarrow> vs | _ \<Rightarrow> [])"

definition object_member :: "string \<Rightarrow> jvalue \<Rightarrow> (string \<times> jvalue) list option" where
  "object_member k v = (case member_of k v of Some (JObject fs) \<Rightarrow> Some fs | _ \<Rightarrow> None)"

definition without :: "string list \<Rightarrow> (string \<times> jvalue) list \<Rightarrow> (string \<times> jvalue) list" where
  "without ks fs = filter (\<lambda>(k, v). k \<notin> set ks) fs"

definition only :: "string list \<Rightarrow> (string \<times> jvalue) list \<Rightarrow> (string \<times> jvalue) list" where
  "only ks fs = filter (\<lambda>(k, v). k \<in> set ks) fs"

definition joinedLists :: "(string \<times> jvalue) list \<Rightarrow> (string \<times> jvalue) list" where
  "joinedLists fs = map (\<lambda>(k, v). (k, case v of JArray vs \<Rightarrow> JText (str_join '', '' (map sprint_value vs)) | _ \<Rightarrow> v)) fs"

section \<open>Resources\<close>

record stored_payload =
  plText :: string
  plValue :: "jvalue option"  \<comment> \<open>None when the text is no JSON\<close>

record resource_observation =
  rbVCenter :: string
  rbContext :: string
  rbKind :: string
  rbID :: string
  rbName :: string
  rbPayload :: stored_payload

record resource_change =
  rcKind :: string
  rcChanges :: "string list"
  rcID :: string
  rcName :: string
  rcContext :: string
  rcMatchBasis :: string
  rcFields :: "field_change list"
  rcBefore :: "resource_observation option"
  rcAfter :: "resource_observation option"

text \<open>
  \<open>resourceRunData\<close>: the collections of a run by context name, NUL and kind, and its resources; and the vCenters of its contexts.
\<close>

record resource_run =
  rrContexts :: "(string \<times> string) list"
  rrCoverage :: "(string \<times> collection_run) list"
  rrResources :: "resource_observation list"

section \<open>Host and datastore details\<close>

definition splitHostDetails :: "(string \<Rightarrow> string) \<Rightarrow> (string \<times> jvalue) list \<Rightarrow> (string \<times> jvalue) list \<times> (string \<times> jvalue) list" where
  "splitHostDetails utc d =
     (without [''boot_time'', ''config_status'', ''in_quarantine''] d,
      map (\<lambda>(k, v). (k, case v of JText t \<Rightarrow> if k = ''boot_time'' then JText (utc t) else v | _ \<Rightarrow> v))
        (only [''boot_time'', ''config_status'', ''in_quarantine''] d))"

definition hostDetailChanges :: "(string \<Rightarrow> string) \<Rightarrow> jvalue \<Rightarrow> jvalue \<Rightarrow> bool \<Rightarrow> field_change list" where
  "hostDetailChanges utc before after runtime =
     (case (object_member ''details'' before, object_member ''details'' after) of
        (Some a, Some b) \<Rightarrow>
          (let (configA, stateA) = splitHostDetails utc a; (configB, stateB) = splitHostDetails utc b
           in recordedFieldChanges ''details'' (JObject (joinedLists configA)) (JObject (joinedLists configB))
              @ (if runtime then recordedFieldChanges ''details'' (JObject stateA) (JObject stateB) else []))
      | _ \<Rightarrow> [])"

text \<open>A list of hosts without a host is left out of the JSON, whether it is nil or not.\<close>

definition splitDatastoreDetails :: "(string \<times> jvalue) list \<Rightarrow> (string \<times> jvalue) list \<times> (string \<times> jvalue) list" where
  "splitDatastoreDetails d =
     (let cluster = (case map_of d ''storage_cluster'' of Some (JObject c) \<Rightarrow> c | _ \<Rightarrow> []);
          config = map (\<lambda>(k, v). (k, if k = ''storage_cluster''
            then (case v of JObject c \<Rightarrow> JObject (without [''capacity_bytes'', ''free_bytes''] c) | _ \<Rightarrow> v) else v))
            (without [''config_status'', ''vm_ids''] d);
          vm_ids = (case map_of d ''vm_ids'' of Some (JArray vs) \<Rightarrow> JArray vs | _ \<Rightarrow> JArray [])
      in (filter (\<lambda>(k, v). \<not> (k = ''hosts'' \<and> v = JArray [])) config,
          only [''config_status''] d @ [(''vm_ids'', vm_ids)]
          @ map (\<lambda>(k, v). (''storage_cluster_'' @ k, v)) (only [''capacity_bytes'', ''free_bytes''] cluster)))"

definition datastoreDetailChanges :: "jvalue \<Rightarrow> jvalue \<Rightarrow> bool \<Rightarrow> field_change list" where
  "datastoreDetailChanges before after runtime =
     (case (object_member ''details'' before, object_member ''details'' after) of
        (Some a, Some b) \<Rightarrow>
          (let (configA, stateA) = splitDatastoreDetails a; (configB, stateB) = splitDatastoreDetails b
           in recordedFieldChanges ''details'' (JObject (joinedLists configA)) (JObject (joinedLists configB))
              @ (if runtime then recordedFieldChanges ''details'' (JObject (joinedLists stateA)) (JObject (joinedLists stateB)) else []))
      | _ \<Rightarrow> [])"

definition alarmsText :: "jvalue list \<Rightarrow> string" where
  "alarmsText alarms =
     (if alarms = [] then ''none''
      else str_join '', '' (sort (map (\<lambda>a. text_member ''name'' a @ '' ('' @ text_member ''status'' a @ '')'') alarms)))"

definition datastoreAlarmChanges :: "jvalue \<Rightarrow> jvalue \<Rightarrow> field_change list" where
  "datastoreAlarmChanges before after =
     (if member_of ''alarms_read'' before \<noteq> Some (JBool True) \<or> member_of ''alarms_read'' after \<noteq> Some (JBool True) then []
      else add_change ''alarms'' (alarmsText (list_member ''alarms'' before)) (alarmsText (list_member ''alarms'' after)))"

section \<open>Multipaths\<close>

definition last_element :: "string \<Rightarrow> string" where
  "last_element s =
     (if s = [] then ''.''
      else let t = rev (takeWhile (\<lambda>c. c \<noteq> CHR ''/'') (dropWhile (\<lambda>c. c = CHR ''/'') (rev s)))
           in if t = [] then ''/'' else t)"

definition CanonicalName :: "jvalue \<Rightarrow> string" where
  "CanonicalName mp =
     (let device = (case object_member ''device'' mp of Some d \<Rightarrow> text_member ''canonical_name'' (JObject d) | None \<Rightarrow> []);
          path = text_member ''device_path'' mp
      in if device \<noteq> [] then device else if path = [] then [] else last_element path)"

definition lun_name :: "jvalue \<Rightarrow> string" where
  "lun_name mp = (if CanonicalName mp = [] then text_member ''lun'' mp else CanonicalName mp)"

text \<open>The maps that the code keys by name.\<close>

definition named :: "(jvalue \<Rightarrow> string) \<Rightarrow> jvalue list \<Rightarrow> (string \<times> jvalue) list" where
  "named f vs = fold (\<lambda>v. AList.update (f v) v) vs []"

definition sortedNames :: "(string \<times> jvalue) list \<Rightarrow> string" where
  "sortedNames m = str_join '', '' (sort (map fst m))"

definition common_names :: "(string \<times> jvalue) list \<Rightarrow> (string \<times> jvalue) list \<Rightarrow> string list" where
  "common_names a b = sort (filter (\<lambda>n. map_of b n \<noteq> None) (map fst a))"

definition pathsText :: "jvalue list \<Rightarrow> string" where
  "pathsText paths = str_join '', '' (sort (map (\<lambda>p.
     (if text_member ''adapter'' p = [] then text_member ''name'' p else text_member ''adapter'' p) @ '' '' @ text_member ''state'' p) paths))"

definition lun_changes :: "(string \<times> jvalue) list \<Rightarrow> (string \<times> jvalue) list \<Rightarrow> string \<Rightarrow> field_change list" where
  "lun_changes a b name =
     both (\<lambda>x y.
       add_change (''multipaths['' @ name @ ''].policy'') (text_member ''policy'' x) (text_member ''policy'' y)
       @ both (\<lambda>dx dy. add_change (''multipaths['' @ name @ ''].paths'') (pathsText (list_member ''paths'' (JObject dx)))
           (pathsText (list_member ''paths'' (JObject dy)))) (object_member ''device'' x) (object_member ''device'' y))
       (map_of a name) (map_of b name)"

definition hostMultipathChanges :: "jvalue \<Rightarrow> jvalue \<Rightarrow> field_change list" where
  "hostMultipathChanges before after =
     (let a = list_member ''multipaths'' before; b = list_member ''multipaths'' after
      in if a = [] \<or> b = [] then []
         else let lunsA = named lun_name a; lunsB = named lun_name b
              in add_change ''multipaths'' (sortedNames lunsA) (sortedNames lunsB)
                 @ concat (map (lun_changes lunsA lunsB) (common_names lunsA lunsB)))"

section \<open>Switches and port groups\<close>

definition named_fields :: "(jvalue \<Rightarrow> (string \<times> jvalue) list) \<Rightarrow> string list \<Rightarrow> jvalue \<Rightarrow> (string \<times> jvalue) list" where
  "named_fields comparable always item =
     (let m = joinedLists (comparable item)
      in m @ map (\<lambda>k. (k, JText [])) (filter (\<lambda>k. map_of m k = None) always))"

definition namedChanges :: "string \<Rightarrow> (string \<times> jvalue) list \<Rightarrow> (string \<times> jvalue) list \<Rightarrow> (jvalue \<Rightarrow> (string \<times> jvalue) list) \<Rightarrow> string list
    \<Rightarrow> field_change list" where
  "namedChanges pre a b comparable always =
     concat (map (\<lambda>name. both (\<lambda>x y.
         recordedFieldChanges (pre @ ''['' @ name @ '']'') (JObject (named_fields comparable always x)) (JObject (named_fields comparable always y)))
       (map_of a name) (map_of b name)) (common_names a b))"

definition object_fields :: "jvalue \<Rightarrow> (string \<times> jvalue) list" where
  "object_fields v = (case v of JObject fs \<Rightarrow> fs | _ \<Rightarrow> [])"

definition vswitch_fields :: "bool \<Rightarrow> jvalue \<Rightarrow> (string \<times> jvalue) list" where
  "vswitch_fields runtime v =
     map (\<lambda>(k, x). (k, if k = ''free_ports'' \<and> \<not> runtime then JInt 0 else x)) (without [''key''] (object_fields v))"

definition hostNetworkChanges :: "jvalue \<Rightarrow> jvalue \<Rightarrow> bool \<Rightarrow> field_change list" where
  "hostNetworkChanges before after runtime =
     (let by = (\<lambda>k v. named (text_member ''name'') (list_member k v))
      in namedChanges ''vswitches'' (by ''vswitches'' before) (by ''vswitches'' after) (vswitch_fields runtime) [''uplinks'']
         @ namedChanges ''port_groups'' (by ''port_groups'' before) (by ''port_groups'' after) (\<lambda>v. without [''key''] (object_fields v)) [])"

definition dvPortGroupAlwaysRecorded :: "string list" where
  "dvPortGroupAlwaysRecorded = [''type'', ''backing_type'', ''vlan'', ''teaming_policy'', ''active_uplinks'', ''standby_uplinks'',
     ''logical_switch_uuid'', ''segment_id'']"

definition shaping_fields :: "string list" where
  "shaping_fields = [''ingress_shaping'', ''ingress_average_kbps'', ''ingress_peak_kbps'', ''ingress_burst_kb'',
     ''egress_shaping'', ''egress_average_kbps'', ''egress_peak_kbps'', ''egress_burst_kb'']"

definition lacpText :: "jvalue list \<Rightarrow> string" where
  "lacpText groups = str_join ''; '' (map (\<lambda>g.
     text_member ''name'' g @ '' ('' @ text_member ''mode'' g @ '', '' @ text_member ''load_balance_algorithm'' g @ '')'') groups)"

definition dvs_settings :: "bool \<Rightarrow> jvalue \<Rightarrow> (string \<times> jvalue) list" where
  "dvs_settings runtime sw =
     (let counted = (case member_of ''vm_count'' sw of Some (JInt n) \<Rightarrow> True | _ \<Rightarrow> False)
      in joinedLists (only ([''product_name'', ''created''] @ shaping_fields) (object_fields sw)
         @ (if counted then [(''lacp_groups'', JText (lacpText (list_member ''lacp_groups'' sw)))] else [])
         @ (if runtime \<and> counted then only [''vm_count''] (object_fields sw) else [])))"

definition dvSwitchChanges :: "jvalue \<Rightarrow> jvalue \<Rightarrow> bool \<Rightarrow> field_change list" where
  "dvSwitchChanges a b runtime =
     (let groups = (\<lambda>v. named (text_member ''name'') (list_member ''port_groups'' v))
      in recordedFieldChanges ''settings'' (JObject (dvs_settings runtime a)) (JObject (dvs_settings runtime b))
         @ add_change ''port_groups'' (sortedNames (groups a)) (sortedNames (groups b))
         @ namedChanges ''port_groups'' (groups a) (groups b) object_fields dvPortGroupAlwaysRecorded)"

section \<open>The fields of a resource\<close>

definition resourceStableFields :: "string \<Rightarrow> string list" where
  "resourceStableFields kind =
     (if kind = ''host'' then [''name'', ''datacenter'', ''path'', ''cluster'', ''vendor'', ''model'', ''version'', ''build'', ''cpu_cores'',
        ''cpu_threads'', ''cpu_mhz'', ''memory_mb'']
      else if kind = ''cluster'' then [''name'', ''datacenter'', ''path'', ''standalone'', ''cpu_cores'', ''total_cpu_mhz'',
        ''total_memory_mb'', ''drs_enabled'', ''ha_enabled'']
      else if kind = ''resourcepool'' then [''name'', ''datacenter'', ''path'', ''owner'', ''root'', ''cpu_reservation_mhz'',
        ''cpu_limit_mhz'', ''cpu_overhead_limit_mhz'', ''cpu_expandable'', ''cpu_shares'', ''cpu_level'', ''mem_configured_mb'',
        ''mem_reservation_mb'', ''mem_limit_mb'', ''mem_overhead_limit_mb'', ''mem_expandable'', ''mem_shares'', ''mem_level'']
      else if kind = ''datastore'' then [''name'', ''datacenter'', ''path'', ''type'']
      else if kind = ''dvswitch'' then [''name'', ''datacenter'', ''path'', ''uuid'', ''version'', ''max_mtu'', ''num_ports'', ''max_ports'',
        ''link_discovery_protocol'', ''lacp_version'', ''hosts'']
      else if kind = ''vapp'' then [''name'', ''datacenter'', ''path'', ''status'', ''parent_container'', ''parent_vapp'', ''direct_vm_count'',
        ''child_vapp_count'', ''child_resource_pool_count'', ''cluster'', ''compute_resource'']
      else if kind = ''network'' then [''name'', ''datacenter'', ''path'', ''type'', ''switch'', ''vlan'']
      else [])"

definition resourceRuntimeFields :: "string \<Rightarrow> string list" where
  "resourceRuntimeFields kind =
     (if kind = ''host'' then [''power_state'', ''connection_state'', ''in_maintenance'', ''vm_count'', ''cpu_usage_mhz'', ''memory_usage_mb'']
      else if kind = ''cluster'' then [''hosts'', ''effective_hosts'']
      else if kind = ''datastore'' then [''accessible'', ''maintenance'', ''capacity_bytes'', ''free_bytes'']
      else if kind = ''network'' then [''accessible'']
      else [])"

fun resourceJSONValuePath :: "jvalue \<Rightarrow> string list \<Rightarrow> jvalue option" where
  "resourceJSONValuePath v [] = Some v"
| "resourceJSONValuePath v (part # parts) =
     (case member_of part v of None \<Rightarrow> None | Some w \<Rightarrow> resourceJSONValuePath w parts)"

definition resourceJSONValue :: "jvalue \<Rightarrow> string \<Rightarrow> jvalue option" where
  "resourceJSONValue m path =
     (case resourceJSONValuePath m (split_on CHR ''.'' path) of
        Some v \<Rightarrow> Some v
      | None \<Rightarrow>
          if path = ''datacenter'' \<or> path = ''path''
          then (case object_member ''location'' m of Some fs \<Rightarrow> map_of fs path | None \<Rightarrow> None) else None)"

definition jsonValueString :: "jvalue option \<Rightarrow> string" where
  "jsonValueString v = (case v of None \<Rightarrow> [] | Some x \<Rightarrow> json_text x)"

text \<open>The metadata of a record, as the code decodes it.\<close>

definition decode_metadata :: "jvalue \<Rightarrow> metadata" where
  "decode_metadata v =
     (let m = (case object_member ''metadata'' v of Some fs \<Rightarrow> JObject fs | None \<Rightarrow> JNull)
      in \<lparr>mdTags = map (\<lambda>t. \<lparr>mtID = text_member ''id'' t, mtName = text_member ''name'' t, mtCategoryID = text_member ''category_id'' t,
              mtCategory = text_member ''category'' t\<rparr>) (list_member ''tags'' m),
          mdAttributes = map (\<lambda>a. \<lparr>maKey = (case member_of ''key'' a of Some (JInt k) \<Rightarrow> k | _ \<Rightarrow> 0), maName = text_member ''name'' a,
              maValue = text_member ''value'' a\<rparr>) (list_member ''custom_attributes'' m),
          mdTagsStatus = text_member ''tags_status'' m, mdAttributesStatus = text_member ''custom_attributes_status'' m\<rparr>)"

text \<open>A payload decodes into a map when it is an object, or null, which leaves the map empty.\<close>

definition decoded_map :: "stored_payload \<Rightarrow> jvalue option" where
  "decoded_map p =
     (case plValue p of Some (JObject fs) \<Rightarrow> Some (JObject fs) | Some JNull \<Rightarrow> Some (JObject []) | _ \<Rightarrow> None)"

definition kind_changes :: "(string \<Rightarrow> string) \<Rightarrow> string \<Rightarrow> jvalue \<Rightarrow> jvalue \<Rightarrow> bool \<Rightarrow> field_change list" where
  "kind_changes utc kind bm am runtime =
     (if kind = ''host'' then hostDetailChanges utc bm am runtime @ hostMultipathChanges bm am @ hostNetworkChanges bm am runtime
      else if kind = ''dvswitch'' then dvSwitchChanges bm am runtime
      else if kind = ''datastore'' then datastoreDetailChanges bm am runtime @ datastoreAlarmChanges bm am
      else [])"

definition changedResourceFields :: "(string \<Rightarrow> string) \<Rightarrow> string \<Rightarrow> stored_payload \<Rightarrow> stored_payload \<Rightarrow> bool \<Rightarrow> field_change list" where
  "changedResourceFields utc kind before after runtime =
     (case (decoded_map before, decoded_map after) of
        (Some bm, Some am) \<Rightarrow>
          concat (map (\<lambda>key. add_change key (jsonValueString (resourceJSONValue bm key)) (jsonValueString (resourceJSONValue am key)))
            (resourceStableFields kind @ (if runtime then resourceRuntimeFields kind else [])))
          @ kind_changes utc kind bm am runtime
          @ metadataFieldChanges (decode_metadata bm) (decode_metadata am)
      | _ \<Rightarrow> add_change ''payload'' (plText before) (plText after))"

section \<open>Comparing resources\<close>

definition resource_key :: "resource_observation \<Rightarrow> string" where
  "resource_key r = rbVCenter r @ NUL @ rbID r"

definition resources_by_id :: "resource_observation list \<Rightarrow> (string \<times> resource_observation) list" where
  "resources_by_id rs = fold (\<lambda>r. AList.update (resource_key r) r) rs []"

definition resource_entry :: "string \<Rightarrow> resource_observation \<Rightarrow> string \<Rightarrow> resource_change" where
  "resource_entry kind r change =
     \<lparr>rcKind = kind, rcChanges = [change], rcID = rbID r, rcName = rbName r, rcContext = rbContext r, rcMatchBasis = [], rcFields = [],
      rcBefore = None, rcAfter = None\<rparr>"

definition target_change :: "(string \<Rightarrow> string) \<Rightarrow> string \<Rightarrow> bool \<Rightarrow> (string \<times> resource_observation) list \<Rightarrow> string \<times> resource_observation
    \<Rightarrow> resource_change list" where
  "target_change utc kind runtime base = (\<lambda>(key, r).
     case map_of base key of
       None \<Rightarrow> [(resource_entry kind r ''appeared'')\<lparr>rcAfter := Some r\<rparr>]
     | Some before \<Rightarrow>
         (let fields = changedResourceFields utc kind (rbPayload before) (rbPayload r) runtime
          in if fields = [] then []
             else [(resource_entry kind r ''modified'')
                     \<lparr>rcMatchBasis := ''moref'', rcFields := fields, rcBefore := Some before, rcAfter := Some r\<rparr>]))"

definition compareResources :: "(string \<Rightarrow> string) \<Rightarrow> string \<Rightarrow> resource_observation list \<Rightarrow> resource_observation list \<Rightarrow> bool
    \<Rightarrow> resource_change list" where
  "compareResources utc kind base target runtime =
     (let b = resources_by_id base; t = resources_by_id target
      in concat (map (target_change utc kind runtime b) t)
         @ map (\<lambda>(key, r). (resource_entry kind r ''vanished'')\<lparr>rcBefore := Some r\<rparr>) (filter (\<lambda>(key, r). map_of t key = None) b))"

section \<open>One kind of resource\<close>

definition contextVCenter :: "resource_run \<Rightarrow> string \<Rightarrow> string" where
  "contextVCenter run name = (case map_of (rrContexts run) name of Some vc \<Rightarrow> vc | None \<Rightarrow> [])"

definition sortedCoverageKeys :: "resource_run \<Rightarrow> string list" where
  "sortedCoverageKeys run = sort (map fst (rrCoverage run))"

text \<open>One collection: the vCenter it makes comparable, with the name of its context, and the issue it raises.\<close>

definition kind_entry :: "string \<Rightarrow> string \<Rightarrow> resource_run \<Rightarrow> string \<Rightarrow> (string \<times> string) list \<times> coverage_issue list" where
  "kind_entry scope kind run key =
     (if \<not> has_suffix (NUL @ kind) key then ([], [])
      else case map_of (rrCoverage run) key of
        None \<Rightarrow> ([], [])
      | Some c \<Rightarrow>
          (let name = take (length key - length (NUL @ kind)) key
           in if coStatus c = ''success'' \<or> coStatus c = ''empty''
              then (let vc = contextVCenter run name in (if vc \<noteq> [] then [(vc, name)] else [], []))
              else ([], [issue scope name (CollectionIncomplete name kind scope (nonempty (coError c) (coStatus c)))])))"

definition kind_vcenters :: "string \<Rightarrow> string \<Rightarrow> resource_run \<Rightarrow> (string \<times> string) list" where
  "kind_vcenters scope kind run = concat (map (fst \<circ> kind_entry scope kind run) (sortedCoverageKeys run))"

definition kind_issues :: "string \<Rightarrow> string \<Rightarrow> resource_run \<Rightarrow> coverage_issue list" where
  "kind_issues scope kind run = concat (map (snd \<circ> kind_entry scope kind run) (sortedCoverageKeys run))"

definition hasCoverageKind :: "resource_run \<Rightarrow> string \<Rightarrow> bool" where
  "hasCoverageKind run kind = list_ex (\<lambda>(key, c). coKind c = kind) (rrCoverage run)"

definition resourcesForVC :: "resource_observation list \<Rightarrow> string \<Rightarrow> resource_observation list" where
  "resourcesForVC rs vc = filter (\<lambda>r. rbVCenter r = vc) rs"

text \<open>\<open>flattenComparable\<close>: the resources of the vCenters that both sides collected, once for each context of the side.\<close>

definition flattenComparable :: "string \<Rightarrow> resource_run \<Rightarrow> string list \<Rightarrow> string list \<Rightarrow> resource_observation list" where
  "flattenComparable kind run mine other =
     concat (map (resourcesForVC (filter (\<lambda>r. rbKind r = kind) (rrResources run))) (filter (\<lambda>vc. vc \<in> set other) mine))"

definition kind_label :: "(string \<times> string) list \<Rightarrow> string \<Rightarrow> string" where
  "kind_label names vc = (case List.find (\<lambda>(v, n). v = vc) (rev names) of Some (v, n) \<Rightarrow> n | None \<Rightarrow> vc)"

definition kind_not_comparable :: "string \<Rightarrow> (string \<times> string) list \<Rightarrow> string \<Rightarrow> string list \<Rightarrow> string list \<Rightarrow> coverage_issue list" where
  "kind_not_comparable kind names scope have other =
     map (\<lambda>vc. issue scope (kind_label names vc) (CollectionNotComparable (kind_label names vc) kind scope))
       (filter (\<lambda>vc. vc \<notin> set other) (remdups have))"

definition compare_kind :: "(string \<Rightarrow> string) \<Rightarrow> resource_run \<Rightarrow> resource_run \<Rightarrow> bool \<Rightarrow> string \<Rightarrow> resource_change list \<times> coverage_issue list" where
  "compare_kind utc base target runtime kind =
     (let bs = kind_vcenters ''baseline'' kind base; ts = kind_vcenters ''target'' kind target; bv = map fst bs; tv = map fst ts
      in (compareResources utc kind (flattenComparable kind base bv tv) (flattenComparable kind target tv bv) runtime,
          kind_issues ''baseline'' kind base @ kind_issues ''target'' kind target
          @ (if hasCoverageKind base kind then [] else [issue ''baseline'' [] (CollectionNotRecorded kind ''baseline'')])
          @ (if hasCoverageKind target kind then [] else [issue ''target'' [] (CollectionNotRecorded kind ''target'')])
          @ kind_not_comparable kind (bs @ ts) ''target'' bv tv @ kind_not_comparable kind (bs @ ts) ''baseline'' tv bv))"

section \<open>All kinds\<close>

definition filterResourceRunData :: "string list \<Rightarrow> resource_run \<Rightarrow> resource_run" where
  "filterResourceRunData selected run =
     (if selected = [] then run
      else run\<lparr>rrCoverage := filter (\<lambda>(key, c).
                 contextSelected (if has_suffix (NUL @ coKind c) key then take (length key - length (NUL @ coKind c)) key else key) selected)
                 (rrCoverage run),
               rrResources := filter (\<lambda>r. contextSelected (rbContext r) selected) (rrResources run)\<rparr>)"

definition gap_resource :: "import_gaps \<Rightarrow> resource_change \<Rightarrow> resource_change list \<times> import_gaps" where
  "gap_resource g c =
     (let (fields, g') = gap_fields (\<lambda>field. field = ''name'') (rcFields c) g; changes = gap_modified (rcChanges c) (length fields)
      in (if changes \<noteq> [] then [c\<lparr>rcFields := fields, rcChanges := changes\<rparr>] else [], g'))"

fun gap_resource_loop :: "resource_change list \<Rightarrow> import_gaps \<Rightarrow> resource_change list \<times> import_gaps" where
  "gap_resource_loop [] g = ([], g)"
| "gap_resource_loop (c # cs) g =
     (let (kept, g') = gap_resource g c; (rest, g'') = gap_resource_loop cs g' in (kept @ rest, g''))"

definition gap_resourceChanges :: "resource_change list \<Rightarrow> import_gaps \<Rightarrow> resource_change list \<times> import_gaps" where
  "gap_resourceChanges cs g = (if \<not> gaps_active g then (cs, g) else gap_resource_loop cs g)"

definition resource_kinds :: "string list" where
  "resource_kinds = [''host'', ''cluster'', ''resourcepool'', ''vapp'', ''datastore'', ''network'', ''dvswitch'']"

fun compare_kinds :: "(string \<Rightarrow> string) \<Rightarrow> resource_run \<Rightarrow> resource_run \<Rightarrow> bool \<Rightarrow> string list \<Rightarrow> import_gaps
    \<Rightarrow> resource_change list \<times> coverage_issue list \<times> import_gaps" where
  "compare_kinds utc base target runtime [] g = ([], [], g)"
| "compare_kinds utc base target runtime (kind # kinds) g =
     (let (changes, issues) = compare_kind utc base target runtime kind;
          (kept, g') = gap_resourceChanges changes g;
          (rest, issues', g'') = compare_kinds utc base target runtime kinds g'
      in (kept @ rest, issues @ issues', g''))"

definition infrastructureDiff :: "(string \<Rightarrow> string) \<Rightarrow> resource_run \<Rightarrow> resource_run \<Rightarrow> bool \<Rightarrow> string list \<Rightarrow> import_gaps
    \<Rightarrow> resource_change list \<times> coverage_issue list \<times> import_gaps" where
  "infrastructureDiff utc base target runtime selected g =
     (let (changes, issues, g') =
        compare_kinds utc (filterResourceRunData selected base) (filterResourceRunData selected target) runtime resource_kinds g
      in (sort_key (\<lambda>c. (rcKind c, to_lower (rcName c))) changes, issues, g'))"

section \<open>No change within one payload\<close>

lemmas both_refl [simp] = both_same

lemma named_changes_same [simp]: "namedChanges pre a a comparable always = []"
  by (simp add: namedChanges_def)

lemma kind_changes_same [simp]: "kind_changes utc kind v v runtime = []"
proof -
  have "lun_changes a a name = []" for a name by (simp add: lun_changes_def)
  then have "hostMultipathChanges v v = []" by (simp add: hostMultipathChanges_def Let_def)
  moreover have "hostDetailChanges utc v v runtime = []"
    by (simp add: hostDetailChanges_def split: option.splits prod.splits)
  moreover have "datastoreDetailChanges v v runtime = []"
    by (simp add: datastoreDetailChanges_def split: option.splits prod.splits)
  ultimately show ?thesis
    by (simp add: kind_changes_def hostNetworkChanges_def dvSwitchChanges_def datastoreAlarmChanges_def Let_def)
qed

lemma changedResourceFields_same [simp]: "changedResourceFields utc kind p p runtime = []"
  by (simp add: changedResourceFields_def split: option.splits)

section \<open>Resources by key\<close>

lemma resources_by_id_keys: "fst ` set (resources_by_id rs) = resource_key ` set rs"
  using fold_update_keys [of resource_key "\<lambda>r. r" rs "[]"] by (simp add: resources_by_id_def)

lemma distinct_resources_by_id: "distinct (map fst (resources_by_id rs))"
  unfolding resources_by_id_def by (rule fold_update_distinct) simp

lemma update_mem: "(k, v) \<in> set (AList.update k' v' m) \<Longrightarrow> (k, v) = (k', v') \<or> (k, v) \<in> set m"
  by (induction m) (auto split: if_splits)

lemma resources_by_id_mem: "(k, r) \<in> set (resources_by_id rs) \<Longrightarrow> k = resource_key r \<and> r \<in> set rs"
proof -
  have "(k, r) \<in> set (fold (\<lambda>r. AList.update (resource_key r) r) rs m) \<Longrightarrow> (k, r) \<in> set m \<or> k = resource_key r \<and> r \<in> set rs" for m
    by (induction rs arbitrary: m) (use update_mem in fastforce)+
  from this [of "[]"] show "(k, r) \<in> set (resources_by_id rs) \<Longrightarrow> k = resource_key r \<and> r \<in> set rs"
    by (simp add: resources_by_id_def)
qed

lemma resources_by_id_None: "map_of (resources_by_id rs) k = None \<longleftrightarrow> k \<notin> resource_key ` set rs"
  by (simp add: map_of_eq_None_iff resources_by_id_keys)

lemma resources_by_id_Some: "map_of (resources_by_id rs) k = Some r \<Longrightarrow> k = resource_key r \<and> r \<in> set rs"
  by (rule resources_by_id_mem) (rule map_of_SomeD)

text \<open>The observation of a key that a comparison reads: the last of the list.\<close>

definition last_resource :: "resource_observation list \<Rightarrow> string \<Rightarrow> resource_observation option" where
  "last_resource rs k = map_of (resources_by_id rs) k"

lemma resources_by_id_iff: "(k, r) \<in> set (resources_by_id rs) \<longleftrightarrow> k = resource_key r \<and> last_resource rs (resource_key r) = Some r"
  using resources_by_id_mem [of k r rs] distinct_resources_by_id [of rs]
  by (auto simp: last_resource_def map_of_eq_Some_iff)

text \<open>The entries of a comparison.\<close>

definition appeared_entry :: "string \<Rightarrow> resource_observation \<Rightarrow> resource_change" where
  "appeared_entry kind r = (resource_entry kind r ''appeared'')\<lparr>rcAfter := Some r\<rparr>"

definition vanished_resource :: "string \<Rightarrow> resource_observation \<Rightarrow> resource_change" where
  "vanished_resource kind r = (resource_entry kind r ''vanished'')\<lparr>rcBefore := Some r\<rparr>"

definition modified_entry :: "string \<Rightarrow> resource_observation \<Rightarrow> resource_observation \<Rightarrow> field_change list \<Rightarrow> resource_change" where
  "modified_entry kind b r fs =
     (resource_entry kind r ''modified'')\<lparr>rcMatchBasis := ''moref'', rcFields := fs, rcBefore := Some b, rcAfter := Some r\<rparr>"

lemma target_change_mem:
  "c \<in> set (target_change utc kind runtime (resources_by_id base) (k, r)) \<longleftrightarrow>
    last_resource base k = None \<and> c = appeared_entry kind r
    \<or> (\<exists>b fs. last_resource base k = Some b \<and> fs = changedResourceFields utc kind (rbPayload b) (rbPayload r) runtime
         \<and> fs \<noteq> [] \<and> c = modified_entry kind b r fs)"
  by (cases "map_of (resources_by_id base) k")
    (simp_all add: target_change_def last_resource_def appeared_entry_def modified_entry_def Let_def)

lemma compareResources_mem:
  "c \<in> set (compareResources utc kind base target runtime) \<longleftrightarrow>
    (\<exists>r. last_resource target (resource_key r) = Some r \<and> last_resource base (resource_key r) = None \<and> c = appeared_entry kind r)
    \<or> (\<exists>r b fs. last_resource target (resource_key r) = Some r \<and> last_resource base (resource_key r) = Some b
         \<and> fs = changedResourceFields utc kind (rbPayload b) (rbPayload r) runtime \<and> fs \<noteq> [] \<and> c = modified_entry kind b r fs)
    \<or> (\<exists>r. last_resource base (resource_key r) = Some r \<and> last_resource target (resource_key r) = None
         \<and> c = vanished_resource kind r)"
proof -
  have "c \<in> set (concat (map (target_change utc kind runtime (resources_by_id base)) (resources_by_id target))) \<longleftrightarrow>
      (\<exists>k r. (k, r) \<in> set (resources_by_id target) \<and> c \<in> set (target_change utc kind runtime (resources_by_id base) (k, r)))"
    by auto
  also have "\<dots> \<longleftrightarrow> (\<exists>r. last_resource target (resource_key r) = Some r \<and> last_resource base (resource_key r) = None \<and> c = appeared_entry kind r)
    \<or> (\<exists>r b fs. last_resource target (resource_key r) = Some r \<and> last_resource base (resource_key r) = Some b
         \<and> fs = changedResourceFields utc kind (rbPayload b) (rbPayload r) runtime \<and> fs \<noteq> [] \<and> c = modified_entry kind b r fs)"
    unfolding target_change_mem resources_by_id_iff by blast
  moreover have "c \<in> set (map (\<lambda>(key, r). (resource_entry kind r ''vanished'')\<lparr>rcBefore := Some r\<rparr>)
        (filter (\<lambda>(key, r). map_of (resources_by_id target) key = None) (resources_by_id base))) \<longleftrightarrow>
      (\<exists>r. last_resource base (resource_key r) = Some r \<and> last_resource target (resource_key r) = None \<and> c = vanished_resource kind r)"
    unfolding set_map set_filter vanished_resource_def [symmetric] last_resource_def [symmetric] by (auto simp: resources_by_id_iff)
  ultimately show ?thesis unfolding compareResources_def Let_def set_append by blast
qed

lemma entry_sel [simp]:
  "rcChanges (appeared_entry kind r) = [''appeared'']" "rcAfter (appeared_entry kind r) = Some r"
  "rcChanges (vanished_resource kind r) = [''vanished'']" "rcBefore (vanished_resource kind r) = Some r"
  "rcChanges (modified_entry kind b r fs) = [''modified'']" "rcBefore (modified_entry kind b r fs) = Some b"
  "rcAfter (modified_entry kind b r fs) = Some r" "rcFields (modified_entry kind b r fs) = fs"
  by (simp_all add: appeared_entry_def vanished_resource_def modified_entry_def resource_entry_def)

lemma last_resource_key: "last_resource rs k = Some r \<Longrightarrow> resource_key r = k \<and> r \<in> set rs"
  using resources_by_id_Some [of rs k r] by (auto simp: last_resource_def)

section \<open>Properties\<close>


text \<open>Infrastructure compared with itself has no changes.\<close>

lemma compareResources_same: "compareResources utc kind rs rs runtime = []"
proof -
  have "c \<notin> set (compareResources utc kind rs rs runtime)" for c
    unfolding compareResources_mem by auto
  then show ?thesis by (metis list.exhaust list.set_intros(1))
qed

lemma kind_entry_vcenter:
  assumes "(vc, name) \<in> set (kind_vcenters scope kind run)"
  shows "vc \<noteq> [] \<and> contextVCenter run name = vc
    \<and> (\<exists>c. map_of (rrCoverage run) (name @ NUL @ kind) = Some c \<and> Successful (coStatus c))"
proof -
  obtain key where key: "key \<in> fst ` set (rrCoverage run)" "(vc, name) \<in> set (fst (kind_entry scope kind run key))"
    using assms by (auto simp: kind_vcenters_def sortedCoverageKeys_def)
  then have suffix: "has_suffix (NUL @ kind) key" by (auto simp: kind_entry_def split: if_splits)
  then obtain n where n: "key = n @ NUL @ kind" by (auto simp: has_suffix_iff)
  obtain c where c: "map_of (rrCoverage run) key = Some c" using key(1) by (metis map_of_eq_None_iff not_Some_eq)
  show ?thesis
    using key(2) suffix c by (auto simp: kind_entry_def n Let_def Successful_def split: if_splits)
qed

lemma flattenComparable_mem:
  "r \<in> set (flattenComparable kind run mine other) \<longleftrightarrow> r \<in> set (rrResources run) \<and> rbKind r = kind \<and> rbVCenter r \<in> set mine \<and> rbVCenter r \<in> set other"
  by (auto simp: flattenComparable_def resourcesForVC_def)

text \<open>
  C34: A resource is only reported as vanished when a context of its vCenter collected its kind successfully in the
  target, and no stored resource of that vCenter and kind in the target has its reference.
\<close>

theorem vanished_resource_was_collected:
  assumes "c \<in> set (fst (compare_kind utc base target runtime kind))" and "rcChanges c = [''vanished'']"
  shows "\<exists>r name run. rcBefore c = Some r \<and> r \<in> set (rrResources base) \<and> rbKind r = kind
    \<and> contextVCenter target name = rbVCenter r \<and> map_of (rrCoverage target) (name @ NUL @ kind) = Some run \<and> Successful (coStatus run)
    \<and> (\<forall>s \<in> set (rrResources target). rbKind s = kind \<and> rbVCenter s = rbVCenter r \<longrightarrow> rbID s \<noteq> rbID r)"
proof -
  let ?bv = "map fst (kind_vcenters ''baseline'' kind base)" and ?tv = "map fst (kind_vcenters ''target'' kind target)"
  have "c \<in> set (compareResources utc kind (flattenComparable kind base ?bv ?tv) (flattenComparable kind target ?tv ?bv) runtime)"
    using assms(1) by (simp add: compare_kind_def Let_def)
  then obtain r where r: "last_resource (flattenComparable kind base ?bv ?tv) (resource_key r) = Some r"
      "last_resource (flattenComparable kind target ?tv ?bv) (resource_key r) = None" "c = vanished_resource kind r"
    using assms(2) unfolding compareResources_mem by auto
  have b: "r \<in> set (flattenComparable kind base ?bv ?tv)" using last_resource_key [OF r(1)] by simp
  then obtain name where "(rbVCenter r, name) \<in> set (kind_vcenters ''target'' kind target)" by (auto simp: flattenComparable_mem)
  from kind_entry_vcenter [OF this] obtain run where run: "contextVCenter target name = rbVCenter r"
      "map_of (rrCoverage target) (name @ NUL @ kind) = Some run" "Successful (coStatus run)" by blast
  have "rbID s \<noteq> rbID r" if "s \<in> set (rrResources target)" "rbKind s = kind" "rbVCenter s = rbVCenter r" for s
  proof
    assume "rbID s = rbID r"
    then have "resource_key s = resource_key r" using that(3) by (simp add: resource_key_def)
    moreover have "s \<in> set (flattenComparable kind target ?tv ?bv)" using that b by (simp add: flattenComparable_mem)
    ultimately have "resource_key r \<in> resource_key ` set (flattenComparable kind target ?tv ?bv)" by (metis imageI)
    then show False using r(2) by (simp add: last_resource_def resources_by_id_None)
  qed
  then show ?thesis using b run r(3) by (intro exI [of _ r] exI [of _ name] exI [of _ run]) (simp add: flattenComparable_mem)
qed

text \<open>The sample runs: one vCenter, whose host only the context of the administrator can see.\<close>

definition example_collection :: "string \<Rightarrow> string \<Rightarrow> string \<times> collection_run" where
  "example_collection name status = (name @ NUL @ ''host'', \<lparr>coKind = ''host'', coStatus = status, coError = []\<rparr>)"

definition example_host :: resource_observation where
  "example_host = \<lparr>rbVCenter = ''vc1'', rbContext = ''admin'', rbKind = ''host'', rbID = ''host-1'', rbName = ''esx1'',
     rbPayload = \<lparr>plText = ''{}'', plValue = Some (JObject [])\<rparr>\<rparr>"

definition example_resources :: "(string \<times> string) list \<Rightarrow> resource_observation list \<Rightarrow> resource_run" where
  "example_resources contexts rs = \<lparr>rrContexts = map (\<lambda>(n, s). (n, ''vc1'')) contexts,
     rrCoverage = map (\<lambda>(n, s). example_collection n s) contexts, rrResources = rs\<rparr>"

theorem vanished_resource_was_collected_witness:
  "\<exists>name run. contextVCenter (example_resources [(''admin'', ''empty'')] []) name = ''vc1''
     \<and> map_of (rrCoverage (example_resources [(''admin'', ''empty'')] [])) (name @ NUL @ ''host'') = Some run \<and> Successful (coStatus run)"
proof -
  have "fst (compare_kind (\<lambda>t. t) (example_resources [(''admin'', ''success'')] [example_host]) (example_resources [(''admin'', ''empty'')] [])
      False ''host'') = [vanished_resource ''host'' example_host]" by code_simp
  then have c: "vanished_resource ''host'' example_host \<in> set (fst (compare_kind (\<lambda>t. t) (example_resources [(''admin'', ''success'')] [example_host])
      (example_resources [(''admin'', ''empty'')] []) False ''host''))" by simp
  have vc: "rbVCenter example_host = ''vc1''" by (simp add: example_host_def)
  from vanished_resource_was_collected [OF c entry_sel(3)] obtain r name run where
    "rcBefore (vanished_resource ''host'' example_host) = Some r" "contextVCenter (example_resources [(''admin'', ''empty'')] []) name = rbVCenter r"
    "map_of (rrCoverage (example_resources [(''admin'', ''empty'')] [])) (name @ NUL @ ''host'') = Some run" "Successful (coStatus run)"
    by (elim exE conjE) (rule that)
  then show ?thesis using vc by (intro exI [of _ name] exI [of _ run]) simp
qed

text \<open>
  The guard is one of vCenters, not of contexts. A host that only one of two contexts of a vCenter can see is reported as
  vanished when that context is missing from the target, or when its collection failed there: the other context stands for the
  whole vCenter. The machines of the same two captures are compared context by context.
\<close>

theorem resource_vanishes_with_its_context:
  "(let base = example_resources [(''admin'', ''success''), (''east'', ''success'')] [example_host];
        vanished = (\<lambda>target. map rcChanges (fst (compare_kind (\<lambda>t. t) base target False ''host'')))
    in vanished (example_resources [(''east'', ''success'')] []) = [[''vanished'']]
      \<and> vanished (example_resources [(''admin'', ''failed''), (''east'', ''success'')] []) = [[''vanished'']])"
  by code_simp

text \<open>
  The hosts that mount a datastore are meant to be compared when the list is empty too, but an empty list is left out of
  the JSON that is compared: a datastore that its last host unmounts shows no change, where one host less of two does.
\<close>

theorem last_unmount_unseen:
  "(let store = (\<lambda>hosts. JObject [(''details'', JObject [(''hosts'', JArray (map JText hosts)), (''vm_ids'', JArray [])])])
    in datastoreDetailChanges (store [''esx1'']) (store []) True = []
      \<and> datastoreDetailChanges (store [''esx1'', ''esx2'']) (store [''esx1'']) True
        = [change_of ''details.hosts'' (json_quote ''esx1, esx2'') (json_quote ''esx1'')])"
  by code_simp

end
