(* ===== verification/Timeline.thy ===== *)
theory Timeline
  imports RunDiff
begin

text \<open>
  The history of one machine (internal/assessment/timeline.go, \<open>lastKnown\<close> of diff.go and the history queries of store.go):
  which stored observations are of one lineage, and the events between them. The tables that the queries read are the lists
  of a \<open>ledger\<close>, each in the order of its rows. Go sorts the observations of a lineage by the start of
  their runs with a sort that is not stable; here it is.
\<close>

section \<open>Data\<close>

record history_entry =
  veRun :: timed_run
  veObservation :: diff_observation
  veSnapshots :: "diff_snapshot list"

text \<open>The stored runs, newest first; the contexts of each run; and the stored machines, those of the newest run first.\<close>

record ledger =
  lgRuns :: "timed_run list"
  lgContexts :: "(int \<times> context_run) list"
  lgVMs :: "history_entry list"

datatype timeline_error = TimelineScope scope_error | AmbiguousVM string "string list"

abbreviation entry_vm :: "history_entry \<Rightarrow> diff_vm" where
  "entry_vm e \<equiv> doVM (veObservation e)"

section \<open>The last known values\<close>

record last_known =
  lkHost :: string
  lkCluster :: string
  lkGuestOS :: string
  lkAnnotation :: string
  lkDatastores :: "string list"
  lkCPU :: int
  lkMemoryMB :: int
  lkHasConfig :: bool

definition nothing_known :: last_known where
  "nothing_known = \<lparr>lkHost = [], lkCluster = [], lkGuestOS = [], lkAnnotation = [], lkDatastores = [], lkCPU = 0,
     lkMemoryMB = 0, lkHasConfig = False\<rparr>"

definition learn :: "diff_vm \<Rightarrow> last_known \<Rightarrow> last_known" where
  "learn vm k =
     (let seen = k\<lparr>lkHost := if dmHost vm \<noteq> [] then dmHost vm else lkHost k,
                    lkCluster := if dmCluster vm \<noteq> [] then dmCluster vm else lkCluster k,
                    lkDatastores := if dmDatastores vm \<noteq> [] then dmDatastores vm else lkDatastores k\<rparr>
      in if configUnknown vm then seen
         else seen\<lparr>lkCPU := dmCPU vm, lkMemoryMB := dmMemoryMB vm, lkGuestOS := dmGuestOS vm,
                   lkAnnotation := dmAnnotation vm, lkHasConfig := True\<rparr>)"

definition fill :: "last_known \<Rightarrow> diff_vm \<Rightarrow> diff_vm" where
  "fill k vm =
     (let placed = vm\<lparr>dmHost := if dmHost vm = [] then lkHost k else dmHost vm,
                       dmCluster := if dmCluster vm = [] then lkCluster k else dmCluster vm,
                       dmDatastores := if dmDatastores vm = [] then lkDatastores k else dmDatastores vm\<rparr>
      in if configUnknown vm \<and> lkHasConfig k
         then placed\<lparr>dmCPU := lkCPU k, dmMemoryMB := lkMemoryMB k, dmGuestOS := lkGuestOS k, dmAnnotation := lkAnnotation k\<rparr>
         else placed)"

section \<open>Lineages\<close>

definition lineageKey :: "diff_observation \<Rightarrow> string" where
  "lineageKey o1 =
     (if dmInstanceUUID (doVM o1) \<noteq> [] then ''i:'' @ dmInstanceUUID (doVM o1)
      else if dmBIOSUUID (doVM o1) \<noteq> [] then ''b:'' @ dmBIOSUUID (doVM o1)
      else if doVCenterID o1 \<noteq> [] \<and> dmID (doVM o1) \<noteq> [] then ''m:'' @ doVCenterID o1 @ NUL @ dmID (doVM o1)
      else ''n:'' @ to_lower (doContext o1) @ NUL @ to_lower (dmName (doVM o1)))"

definition sameLineage :: "diff_observation \<Rightarrow> diff_observation \<Rightarrow> bool" where
  "sameLineage a b \<longleftrightarrow>
     doVCenterID a \<noteq> [] \<and> doVCenterID b \<noteq> [] \<and> doVCenterID a = doVCenterID b \<and> dmID (doVM a) \<noteq> [] \<and> dmID (doVM a) = dmID (doVM b)
     \<or> dmInstanceUUID (doVM a) \<noteq> [] \<and> dmInstanceUUID (doVM a) = dmInstanceUUID (doVM b)
     \<or> dmBIOSUUID (doVM a) \<noteq> [] \<and> dmBIOSUUID (doVM a) = dmBIOSUUID (doVM b)
     \<or> lineageKey a = lineageKey b"

section \<open>Reading the ledger\<close>

text \<open>SQLite's \<open>trim\<close> removes blanks only, and its \<open>NOCASE\<close> and \<open>lower\<close> fold the letters of ASCII.\<close>

definition sql_trim :: "string \<Rightarrow> string" where
  "sql_trim s = rev (dropWhile ((=) CHR '' '') (rev (dropWhile ((=) CHR '' '') s)))"

definition historyContextFilter :: "string list \<Rightarrow> string \<Rightarrow> bool" where
  "historyContextFilter selected name \<longleftrightarrow> selected = [] \<or> to_lower (sql_trim name) \<in> set selected"

definition validateHistoryContexts :: "ledger \<Rightarrow> string list \<Rightarrow> scope_error + string list" where
  "validateHistoryContexts L selectors =
     (if selectors = [] then Inr [] else ValidateStoredContexts selectors [map snd (lgContexts L)])"

definition name_query :: "string \<Rightarrow> history_entry \<Rightarrow> bool" where
  "name_query query e \<longleftrightarrow>
     (let needle = trim_space query
      in needle = [] \<or> list_ex (\<lambda>v. equal_fold v needle)
           [dmName (entry_vm e), dmID (entry_vm e), dmInstanceUUID (entry_vm e), dmBIOSUUID (entry_vm e)])"

definition HistoryForContexts :: "ledger \<Rightarrow> string \<Rightarrow> string list \<Rightarrow> scope_error + history_entry list" where
  "HistoryForContexts L query selectors =
     (case validateHistoryContexts L selectors of
        Inl e \<Rightarrow> Inl e
      | Inr selected \<Rightarrow>
          Inr (filter (\<lambda>e. historyContextFilter selected (doContext (veObservation e)) \<and> name_query query e) (lgVMs L)))"

definition lineage_query :: "diff_observation \<Rightarrow> diff_observation \<Rightarrow> bool" where
  "lineage_query w o1 \<longleftrightarrow>
     (let moref = (doVCenterID w \<noteq> [] \<and> dmID (doVM w) \<noteq> []);
          instance_id = (dmInstanceUUID (doVM w) \<noteq> []); bios = (dmBIOSUUID (doVM w) \<noteq> [])
      in moref \<and> doVCenterID o1 = doVCenterID w \<and> dmID (doVM o1) = dmID (doVM w)
         \<or> instance_id \<and> dmInstanceUUID (doVM o1) = dmInstanceUUID (doVM w)
         \<or> bios \<and> dmBIOSUUID (doVM o1) = dmBIOSUUID (doVM w)
         \<or> \<not> moref \<and> \<not> instance_id \<and> \<not> bios
            \<and> equal_fold (dmName (doVM o1)) (dmName (doVM w)) \<and> equal_fold (doContext o1) (doContext w))"

definition historyForLineage :: "ledger \<Rightarrow> diff_observation \<Rightarrow> string list \<Rightarrow> history_entry list" where
  "historyForLineage L wanted selected =
     filter (\<lambda>e. historyContextFilter selected (doContext (veObservation e)) \<and> lineage_query wanted (veObservation e)
       \<and> sameLineage wanted (veObservation e)) (lgVMs L)"

definition runsRecording :: "ledger \<Rightarrow> string list \<Rightarrow> bool \<Rightarrow> timed_run list" where
  "runsRecording L contexts all =
     (if contexts = [] then lgRuns L
      else filter (\<lambda>r.
        let names = map (\<lambda>(i, c). to_lower (sql_trim (ctName c))) (filter (\<lambda>(i, c). i = ruID r) (lgContexts L));
            n = length (filter (\<lambda>c. c \<in> set names) contexts)
        in n = length contexts \<or> \<not> all \<and> n > 0) (lgRuns L))"

definition collectedVCenter :: "ledger \<Rightarrow> timed_run \<Rightarrow> diff_observation \<Rightarrow> string list \<Rightarrow> bool" where
  "collectedVCenter L r o1 selected \<longleftrightarrow>
     (tmStatus r = ''complete'' \<or> tmStatus r = ''partial'')
     \<and> list_ex (\<lambda>(i, c). i = ruID r \<and> ctVMStatus c \<in> {''success'', ''empty''}
          \<and> (ctVCenter c = doVCenterID o1 \<and> doVCenterID o1 \<noteq> []
             \<or> (ctVCenter c = [] \<or> doVCenterID o1 = []) \<and> ctName c = doContext o1)
          \<and> historyContextFilter selected (ctName c)) (lgContexts L)"

section \<open>Events\<close>

definition placementChanges :: "diff_observation \<Rightarrow> diff_observation \<Rightarrow> field_change list" where
  "placementChanges before after =
     (let add = (\<lambda>name b a. if placementDiffers b a then [change_of name b a] else []); bvm = doVM before; avm = doVM after
      in (if doVCenterID before \<noteq> doVCenterID after
          then add ''vcenter'' (nonempty (doContext before) (doVCenterID before)) (nonempty (doContext after) (doVCenterID after))
          else [])
         @ add ''host'' (dmHost bvm) (dmHost avm) @ add ''cluster'' (dmCluster bvm) (dmCluster avm)
         @ add ''folder'' (dmFolder bvm) (dmFolder avm)
         @ (if dmDatastores bvm \<noteq> [] \<and> dmDatastores avm \<noteq> [] \<and> \<not> equalStrings (dmDatastores bvm) (dmDatastores avm)
            then add ''datastores'' (str_join '','' (sort (dmDatastores bvm))) (str_join '','' (sort (dmDatastores avm))) else []))"

definition removeField :: "field_change list \<Rightarrow> string \<Rightarrow> field_change list" where
  "removeField fs name = filter (\<lambda>f. fcField f \<noteq> name) fs"

definition snapshotFieldChange :: "snapshot_change \<Rightarrow> field_change" where
  "snapshotFieldChange sc =
     (change_of ''snapshot'' (scBefore sc) (scAfter sc))
       \<lparr>fcName := if scKind sc = ''created'' \<or> scKind sc = ''removed'' then scName sc else []\<rparr>"

definition entry_event :: "string \<Rightarrow> history_entry \<Rightarrow> field_change list \<Rightarrow> vm_history_event" where
  "entry_event kind e changes = \<lparr>heKind = kind, heRun = veRun e, heContext = doContext (veObservation e),
     heName = dmName (entry_vm e), heChanges = changes, heObservation = Some (veObservation e), heSnapshots = []\<rparr>"

text \<open>\<open>runIndex\<close>.\<close>

definition run_index :: "timed_run list \<Rightarrow> int \<Rightarrow> nat option" where
  "run_index runs i = List.find (\<lambda>k. ruID (runs ! k) = i) (rev [0..<length runs])"

definition skipped_runs :: "timed_run list \<Rightarrow> history_entry \<Rightarrow> history_entry \<Rightarrow> bool" where
  "skipped_runs runs before after =
     (case (run_index runs (ruID (veRun before)), run_index runs (ruID (veRun after))) of
        (Some bi, Some ai) \<Rightarrow> int ai < int bi - 1
      | _ \<Rightarrow> False)"

definition entry_events :: "(int \<Rightarrow> string) \<Rightarrow> (int \<Rightarrow> string) \<Rightarrow> timed_run list \<Rightarrow> bool \<Rightarrow> bool \<Rightarrow> history_entry \<Rightarrow> history_entry
    \<Rightarrow> vm_history_event list" where
  "entry_events gib rfc3339 runs unchanged runtime before after =
     (let b = veObservation before; a = veObservation after;
          renamed = (dmName (doVM b) \<noteq> dmName (doVM a));
          fields = changedFields gib (doVM b) (doVM a) runtime;
          fields' = (if renamed then removeField fields ''name'' else fields)
      in (if skipped_runs runs before after then [entry_event ''appeared'' after []] else [])
         @ (if renamed then [entry_event ''renamed'' after [change_of ''name'' (dmName (doVM b)) (dmName (doVM a))]] else [])
         @ (if moved (doVM b) (doVM a) (doVCenterID b) (doVCenterID a) then [entry_event ''moved'' after (placementChanges b a)] else [])
         @ (if fields' \<noteq> [] then [entry_event ''modified'' after fields'] else [])
         @ map (\<lambda>sc. entry_event (''snapshot-'' @ scKind sc) after [snapshotFieldChange sc])
             (compareSnapshots rfc3339 \<lparr>svObservation = b, svSnapshots = veSnapshots before\<rparr>
               \<lparr>svObservation = a, svSnapshots = veSnapshots after\<rparr>)
         @ (if unchanged \<and> fields' = [] \<and> \<not> renamed
            then [(entry_event ''observed'' after [])\<lparr>heSnapshots := veSnapshots after\<rparr>] else []))"

definition fill_entry :: "last_known \<Rightarrow> history_entry \<Rightarrow> history_entry" where
  "fill_entry k e = e\<lparr>veObservation := (veObservation e)\<lparr>doVM := fill k (entry_vm e)\<rparr>\<rparr>"

fun history_loop :: "(int \<Rightarrow> string) \<Rightarrow> (int \<Rightarrow> string) \<Rightarrow> timed_run list \<Rightarrow> bool \<Rightarrow> bool \<Rightarrow> last_known \<Rightarrow> history_entry
    \<Rightarrow> history_entry list \<Rightarrow> vm_history_event list" where
  "history_loop gib rfc3339 runs unchanged runtime known before [] = []"
| "history_loop gib rfc3339 runs unchanged runtime known before (after # rest) =
     entry_events gib rfc3339 runs unchanged runtime (fill_entry known before) after
     @ history_loop gib rfc3339 runs unchanged runtime (learn (entry_vm after) known) after rest"

text \<open>\<open>byRun\<close>: the last entry of a run.\<close>

definition by_run :: "history_entry list \<Rightarrow> int \<Rightarrow> history_entry option" where
  "by_run entries i = List.find (\<lambda>e. ruID (veRun e) = i) (rev entries)"

definition vanished_at :: "ledger \<Rightarrow> string list \<Rightarrow> history_entry list \<Rightarrow> timed_run list \<Rightarrow> nat \<Rightarrow> vm_history_event list" where
  "vanished_at L selected entries runs i =
     (case by_run entries (ruID (runs ! i)) of
        None \<Rightarrow> []
      | Some prev \<Rightarrow>
          if by_run entries (ruID (runs ! (i - 1))) = None \<and> collectedVCenter L (runs ! (i - 1)) (veObservation prev) selected
          then [(entry_event ''vanished'' prev [])\<lparr>heRun := runs ! (i - 1)\<rparr>] else [])"

definition vanished_events :: "ledger \<Rightarrow> string list \<Rightarrow> history_entry list \<Rightarrow> timed_run list \<Rightarrow> vm_history_event list" where
  "vanished_events L selected entries runs =
     concat (map (vanished_at L selected entries runs) (rev [1..<length runs]))"

definition timeline_events :: "(int \<Rightarrow> string) \<Rightarrow> (int \<Rightarrow> string) \<Rightarrow> ledger \<Rightarrow> string list \<Rightarrow> bool \<Rightarrow> bool \<Rightarrow> history_entry list
    \<Rightarrow> timed_run list \<Rightarrow> vm_history_event list" where
  "timeline_events gib rfc3339 L selected unchanged runtime entries runs =
     (case entries of
        [] \<Rightarrow> []
      | first # rest \<Rightarrow>
          sort_key (\<lambda>e. tmStarted (heRun e))
            ((entry_event ''first_seen'' first [])\<lparr>heSnapshots := veSnapshots first\<rparr>
             # history_loop gib rfc3339 runs unchanged runtime (learn (entry_vm first) nothing_known) first rest
             @ vanished_events L selected entries runs))"

section \<open>Timelines\<close>

definition candidate_text :: "history_entry \<Rightarrow> string" where
  "candidate_text e = dmName (entry_vm e) @ '' ('' @ doContext (veObservation e) @ '')''"

definition entry_key :: "history_entry \<Rightarrow> string" where
  "entry_key e = lineageKey (veObservation e)"

text \<open>\<open>variants\<close>: a UUID that two machines of one vCenter have in one run names no lineage. Go finds one such UUID of several.\<close>

definition ambiguous_key :: "history_entry list \<Rightarrow> string \<Rightarrow> bool" where
  "ambiguous_key seed k \<longleftrightarrow>
     (has_prefix ''i:'' k \<or> has_prefix ''b:'' k)
     \<and> list_ex (\<lambda>e. list_ex (\<lambda>f. entry_key e = k \<and> entry_key f = k
          \<and> doVCenterID (veObservation e) = doVCenterID (veObservation f) \<and> ruID (veRun e) = ruID (veRun f)
          \<and> dmID (entry_vm e) \<noteq> dmID (entry_vm f)) seed) seed"

text \<open>\<open>lineages\<close>: the last entry of each lineage.\<close>

definition last_of_key :: "history_entry list \<Rightarrow> string \<Rightarrow> history_entry option" where
  "last_of_key seed k = List.find (\<lambda>e. entry_key e = k) (rev seed)"

definition choose_lineage :: "string \<Rightarrow> history_entry list \<Rightarrow> timeline_error + history_entry option" where
  "choose_lineage query seed =
     (let keys = first_by (\<lambda>k. k) [] (map entry_key seed)
      in case List.find (ambiguous_key seed) keys of
           Some k \<Rightarrow> Inl (AmbiguousVM query (sort (map candidate_text (filter (\<lambda>e. entry_key e = k) seed))))
         | None \<Rightarrow>
             (case keys of
                [] \<Rightarrow> Inr None
              | [k] \<Rightarrow> Inr (last_of_key seed k)
              | _ \<Rightarrow> Inl (AmbiguousVM query (sort (map candidate_text (List.map_filter (last_of_key seed) keys))))))"

definition timeline_entries :: "ledger \<Rightarrow> diff_observation \<Rightarrow> string list \<Rightarrow> history_entry list" where
  "timeline_entries L wanted selected =
     sort_key (\<lambda>e. tmStarted (veRun e))
       (filter (\<lambda>e. sameLineage wanted (veObservation e)) (historyForLineage L wanted selected))"

text \<open>A machine that a live capture has seen is followed through live captures only.\<close>

definition followed :: "history_entry list \<Rightarrow> timed_run list \<Rightarrow> history_entry list \<times> timed_run list" where
  "followed entries runs =
     (if list_ex (\<lambda>e. \<not> run_Imported (veRun e)) entries
      then (filter (\<lambda>e. \<not> run_Imported (veRun e)) entries, filter (\<lambda>r. \<not> run_Imported r) runs)
      else (entries, runs))"

definition TimelineForContexts :: "(int \<Rightarrow> string) \<Rightarrow> (int \<Rightarrow> string) \<Rightarrow> ledger \<Rightarrow> string \<Rightarrow> string list \<Rightarrow> bool \<Rightarrow> bool
    \<Rightarrow> timeline_error + vm_history_event list" where
  "TimelineForContexts gib rfc3339 L query selectors unchanged runtime =
     (case HistoryForContexts L query selectors of
        Inl e \<Rightarrow> Inl (TimelineScope e)
      | Inr seed \<Rightarrow>
          (case choose_lineage query seed of
             Inl e \<Rightarrow> Inl e
           | Inr None \<Rightarrow> Inr []
           | Inr (Some wanted) \<Rightarrow>
               (case validateHistoryContexts L selectors of
                  Inl e \<Rightarrow> Inl (TimelineScope e)
                | Inr scope \<Rightarrow>
                    (case NormalizeContextSelectors selectors of
                       Inl e \<Rightarrow> Inl (TimelineScope e)
                     | Inr selected \<Rightarrow>
                         (let (entries, runs) = followed (timeline_entries L (veObservation wanted) scope) (runsRecording L selected False)
                          in Inr (timeline_events gib rfc3339 L selected unchanged runtime entries runs))))))"

definition Timeline :: "(int \<Rightarrow> string) \<Rightarrow> (int \<Rightarrow> string) \<Rightarrow> ledger \<Rightarrow> string \<Rightarrow> string \<Rightarrow> bool \<Rightarrow> bool
    \<Rightarrow> timeline_error + vm_history_event list" where
  "Timeline gib rfc3339 L query contextName unchanged runtime =
     TimelineForContexts gib rfc3339 L query (if trim_space contextName \<noteq> [] then [contextName] else []) unchanged runtime"

section \<open>Reading events\<close>

lemma entry_event_sel [simp]:
  "heKind (entry_event k e cs) = k" "heRun (entry_event k e cs) = veRun e" "heObservation (entry_event k e cs) = Some (veObservation e)"
  "heChanges (entry_event k e cs) = cs"
  by (simp_all add: entry_event_def)

definition event_kinds :: "string list" where
  "event_kinds = [''first_seen'', ''appeared'', ''renamed'', ''moved'', ''modified'', ''snapshot-changed'', ''snapshot-created'',
     ''snapshot-removed'', ''observed'', ''vanished'']"

lemma snapshot_kinds:
  "sc \<in> set (compareSnapshots rfc3339 a b) \<Longrightarrow> scKind sc \<in> {''changed'', ''created'', ''removed''}"
proof -
  have changed: "scKind sc = ''changed''" if "sc \<in> set (snapshot_changed f x old s)" for sc f x old s
    using that by (auto simp: snapshot_changed_def Let_def split: if_splits)
  have by_id: "scKind sc = ''changed''" if "sc \<in> set (fst (match_by_id rfc3339 b byID ss))" for byID ss
    using that by (induction rfc3339 b byID ss rule: match_by_id.induct) (auto split: option.splits prod.splits dest: changed)
  have imported: "scKind sc \<in> {''changed'', ''created''}" if "sc \<in> set (fst (match_imported rfc3339 a b byID ss))" for byID ss
    using that
    by (induction rfc3339 a b byID ss rule: match_imported.induct)
      (auto simp: snapshot_created_def split: option.splits prod.splits dest: changed)
  obtain c u m where c: "match_by_id rfc3339 b (snapshots_by_id (svSnapshots a)) (svSnapshots b) = (c, u, m)" by (metis surj_pair)
  obtain d l where d: "match_imported rfc3339 a b m u = (d, l)" by force
  assume "sc \<in> set (compareSnapshots rfc3339 a b)"
  then have "sc \<in> set c \<or> sc \<in> set d \<or> (\<exists>s. sc = snapshot_removed rfc3339 a s)"
    by (auto simp: compareSnapshots_def c d)
  then show ?thesis
    using by_id [of "snapshots_by_id (svSnapshots a)" "svSnapshots b"] imported [of m u] c d
    by (auto simp: snapshot_removed_def)
qed

lemma entry_events_mem:
  assumes "ev \<in> set (entry_events gib rfc3339 runs unchanged runtime before after)"
  shows "heKind ev \<in> set event_kinds - {''first_seen'', ''vanished''}" and "heRun ev = veRun after"
    and "heObservation ev = Some (veObservation after)"
  using assms snapshot_kinds
  by (fastforce simp: entry_events_def Let_def event_kinds_def split: if_splits)+

lemma history_loop_mem:
  "ev \<in> set (history_loop gib rfc3339 runs unchanged runtime known before rest) \<Longrightarrow>
   heKind ev \<in> set event_kinds - {''first_seen'', ''vanished''}
   \<and> (\<exists>e \<in> set rest. heRun ev = veRun e \<and> heObservation ev = Some (veObservation e))"
proof (induction gib rfc3339 runs unchanged runtime known before rest rule: history_loop.induct)
  case (2 gib rfc3339 runs unchanged runtime known before after rest)
  then show ?case using entry_events_mem [of ev gib rfc3339 runs unchanged runtime "fill_entry known before" after] by auto
qed simp

lemma by_run_Some: "by_run entries i = Some e \<Longrightarrow> e \<in> set entries \<and> ruID (veRun e) = i"
  by (auto simp: by_run_def dest: find_Some_mem)

lemma by_run_None: "by_run entries i = None \<longleftrightarrow> (\<forall>e \<in> set entries. ruID (veRun e) \<noteq> i)"
  by (auto simp: by_run_def find_None_iff)

lemma vanished_events_mem:
  assumes "ev \<in> set (vanished_events L selected entries runs)"
  shows "\<exists>i prev. Suc i < length runs \<and> prev \<in> set entries \<and> ruID (veRun prev) = ruID (runs ! Suc i)
    \<and> heKind ev = ''vanished'' \<and> heRun ev = runs ! i \<and> heObservation ev = Some (veObservation prev)
    \<and> (\<forall>e \<in> set entries. ruID (veRun e) \<noteq> ruID (runs ! i)) \<and> collectedVCenter L (runs ! i) (veObservation prev) selected"
proof -
  obtain j where j: "1 \<le> j" "j < length runs" "ev \<in> set (vanished_at L selected entries runs j)"
    using assms by (auto simp: vanished_events_def)
  obtain prev where prev: "by_run entries (ruID (runs ! j)) = Some prev"
    using j(3) by (cases "by_run entries (ruID (runs ! j))") (auto simp: vanished_at_def)
  have "Suc (j - 1) = j" using j(1) by simp
  then show ?thesis
    using j prev by_run_Some [OF prev]
    by (intro exI [of _ "j - 1"] exI [of _ prev]) (auto simp: vanished_at_def by_run_None split: if_splits)
qed

lemma timeline_events_mem:
  assumes "ev \<in> set (timeline_events gib rfc3339 L selected unchanged runtime entries runs)"
  shows "heKind ev \<in> set event_kinds \<and> (\<exists>e \<in> set entries. heObservation ev = Some (veObservation e)
    \<and> (heKind ev \<noteq> ''vanished'' \<longrightarrow> heRun ev = veRun e))"
    and "heKind ev = ''vanished'' \<Longrightarrow> ev \<in> set (vanished_events L selected entries runs)"
proof -
  obtain e es where es: "entries = e # es" using assms by (cases entries) (auto simp: timeline_events_def)
  then consider (first) "ev = (entry_event ''first_seen'' e [])\<lparr>heSnapshots := veSnapshots e\<rparr>"
    | (loop) "ev \<in> set (history_loop gib rfc3339 runs unchanged runtime (learn (entry_vm e) nothing_known) e es)"
    | (gone) "ev \<in> set (vanished_events L selected entries runs)"
    using assms unfolding timeline_events_def es list.case set_sort by auto
  note cases = this
  show "heKind ev \<in> set event_kinds \<and> (\<exists>e \<in> set entries. heObservation ev = Some (veObservation e)
    \<and> (heKind ev \<noteq> ''vanished'' \<longrightarrow> heRun ev = veRun e))"
    using cases
  proof cases
    case first
    then show ?thesis by (simp add: es event_kinds_def)
  next
    case loop
    then show ?thesis using history_loop_mem [OF loop] by (auto simp: es)
  next
    case gone
    then show ?thesis using vanished_events_mem [OF gone] by (auto simp: event_kinds_def)
  qed
  show "ev \<in> set (vanished_events L selected entries runs)" if "heKind ev = ''vanished''"
    using cases
  proof cases
    case first
    then show ?thesis using that by simp
  next
    case loop
    then show ?thesis using that history_loop_mem [OF loop] by simp
  qed
qed

section \<open>Moves\<close>

text \<open>Some entry of a stretch of the history differs from the value \<open>x\<close> of a field, and an event of its run says so.\<close>

definition move_reported :: "string \<Rightarrow> (diff_vm \<Rightarrow> string) \<Rightarrow> string \<Rightarrow> vm_history_event list \<Rightarrow> history_entry list \<Rightarrow> bool" where
  "move_reported field get x evs es \<longleftrightarrow>
     (\<exists>e \<in> set es. \<exists>ev \<in> set evs. heKind ev = ''moved'' \<and> heRun ev = veRun e \<and> get (entry_vm e) \<noteq> x
        \<and> change_of field x (get (entry_vm e)) \<in> set (heChanges ev))"

lemma move_reported_mono: "move_reported field get x evs es \<Longrightarrow> set evs \<subseteq> set evs' \<Longrightarrow> set es \<subseteq> set es' \<Longrightarrow> move_reported field get x evs' es'"
  unfolding move_reported_def by (meson subsetD)

text \<open>A placement field that the history remembers through the observations that did not see it.\<close>

locale remembered_field =
  fixes get :: "diff_vm \<Rightarrow> string" and known_value :: "last_known \<Rightarrow> string" and field :: string
  assumes filled: "get (fill k v) = (if get v = [] then known_value k else get v)"
    and learned: "known_value (learn v k) = (if get v = [] then known_value k else get v)"
    and change: "placementDiffers (get (doVM b)) (get (doVM a)) \<Longrightarrow>
      moved (doVM b) (doVM a) (doVCenterID b) (doVCenterID a)
      \<and> change_of field (get (doVM b)) (get (doVM a)) \<in> set (placementChanges b a)"
begin

lemma entry_reports:
  assumes "get (fill known (entry_vm before)) = x" and "x \<noteq> []" and "get (entry_vm after) \<noteq> []" and "get (entry_vm after) \<noteq> x"
  shows "move_reported field get x (entry_events gib rfc3339 runs unchanged runtime (fill_entry known before) after) [after]"
proof -
  let ?b = "veObservation (fill_entry known before)"
  have b: "doVM ?b = fill known (entry_vm before)" by (simp add: fill_entry_def)
  then have "moved (doVM ?b) (entry_vm after) (doVCenterID ?b) (doVCenterID (veObservation after))
      \<and> change_of field x (get (entry_vm after)) \<in> set (placementChanges ?b (veObservation after))"
    using change [of ?b "veObservation after"] assms by (simp add: placementDiffers_def)
  moreover from this have "entry_event ''moved'' after (placementChanges ?b (veObservation after))
      \<in> set (entry_events gib rfc3339 runs unchanged runtime (fill_entry known before) after)"
    unfolding entry_events_def Let_def by simp
  ultimately show ?thesis using assms(4) by (auto simp: move_reported_def intro!: bexI)
qed

lemma known_after: "get (fill (learn v k) v) = known_value (learn v k)"
  by (simp add: filled learned)

lemma loop_reports:
  assumes "get (fill known (entry_vm before)) = x" and "known_value known = x" and "x \<noteq> []"
    and "get (entry_vm a) \<noteq> []" and "get (entry_vm a) \<noteq> x"
  shows "move_reported field get x (history_loop gib rfc3339 runs unchanged runtime known before (mid @ a # post)) (mid @ [a])"
  using assms(1,2)
proof (induction mid arbitrary: known before)
  case Nil
  show ?case
    by (rule move_reported_mono [OF entry_reports [OF Nil(1) assms(3-5)]]) auto
next
  case (Cons e mid)
  show ?case
  proof (cases "get (entry_vm e) = [] \<or> get (entry_vm e) = x")
    case True
    then have same: "known_value (learn (entry_vm e) known) = x" using Cons.prems(2) by (auto simp: learned)
    have "move_reported field get x (history_loop gib rfc3339 runs unchanged runtime (learn (entry_vm e) known) e (mid @ a # post)) (mid @ [a])"
      by (rule Cons.IH) (simp_all add: same known_after)
    then show ?thesis by (rule move_reported_mono) auto
  next
    case False
    then show ?thesis
      by (intro move_reported_mono [OF entry_reports [OF Cons.prems(1) assms(3)]]) auto
  qed
qed

lemma loop_suffix:
  "\<exists>k. known_value k = get (entry_vm b) \<and> get (fill k (entry_vm b)) = known_value k
     \<and> set (history_loop gib rfc3339 runs unchanged runtime k b rest)
        \<subseteq> set (history_loop gib rfc3339 runs unchanged runtime known before (pre @ b # rest))"
  if "get (entry_vm b) \<noteq> []"
proof (induction pre arbitrary: known before)
  case Nil
  show ?case using that by (intro exI [of _ "learn (entry_vm b) known"]) (simp add: learned filled)
next
  case (Cons e pre)
  then show ?case by fastforce
qed

lemma timeline_reports:
  assumes "get (entry_vm b) \<noteq> []" and "get (entry_vm a) \<noteq> []" and "get (entry_vm a) \<noteq> get (entry_vm b)"
  shows "move_reported field get (get (entry_vm b))
    (timeline_events gib rfc3339 L selected unchanged runtime (pre @ b # mid @ a # post) runs) (mid @ [a])"
proof -
  have loop: "set (history_loop gib rfc3339 runs unchanged runtime (learn (entry_vm x) nothing_known) x xs)
      \<subseteq> set (timeline_events gib rfc3339 L selected unchanged runtime (x # xs) runs)" for x xs
    unfolding timeline_events_def list.case set_sort by auto
  have "\<exists>k. known_value k = get (entry_vm b) \<and> get (fill k (entry_vm b)) = known_value k
      \<and> set (history_loop gib rfc3339 runs unchanged runtime k b (mid @ a # post))
        \<subseteq> set (timeline_events gib rfc3339 L selected unchanged runtime (pre @ b # mid @ a # post) runs)"
  proof (cases pre)
    case Nil
    then show ?thesis using loop [of b "mid @ a # post"] assms(1)
      by (intro exI [of _ "learn (entry_vm b) nothing_known"]) (simp add: learned filled)
  next
    case (Cons x xs)
    obtain k where "known_value k = get (entry_vm b)" "get (fill k (entry_vm b)) = known_value k"
        "set (history_loop gib rfc3339 runs unchanged runtime k b (mid @ a # post))
          \<subseteq> set (history_loop gib rfc3339 runs unchanged runtime (learn (entry_vm x) nothing_known) x (xs @ b # mid @ a # post))"
      using loop_suffix [OF assms(1), of gib rfc3339 runs unchanged runtime "mid @ a # post" "learn (entry_vm x) nothing_known" x xs]
      by blast
    with loop [of x "xs @ b # mid @ a # post"] show ?thesis unfolding Cons append_Cons by (intro exI [of _ k]) simp
  qed
  then obtain k where k: "known_value k = get (entry_vm b)" "get (fill k (entry_vm b)) = known_value k"
      "set (history_loop gib rfc3339 runs unchanged runtime k b (mid @ a # post))
        \<subseteq> set (timeline_events gib rfc3339 L selected unchanged runtime (pre @ b # mid @ a # post) runs)"
    by blast
  show ?thesis
    by (rule move_reported_mono [OF loop_reports k(3)]) (use k assms in simp_all)
qed

end

interpretation host: remembered_field dmHost lkHost "''host''"
  by unfold_locales (auto simp: fill_def learn_def Let_def placementChanges_def moved_def)

interpretation cluster: remembered_field dmCluster lkCluster "''cluster''"
  by unfold_locales (auto simp: fill_def learn_def Let_def placementChanges_def moved_def)

section \<open>Timelines of a ledger\<close>

lemma timeline_parts:
  assumes "TimelineForContexts gib rfc3339 L query selectors unchanged runtime = Inr events" and "events \<noteq> []"
  obtains w :: history_entry and scope selected entries runs where "followed (timeline_entries L (veObservation w) scope) (runsRecording L selected False) = (entries, runs)"
    and "events = timeline_events gib rfc3339 L selected unchanged runtime entries runs"
    and "validateHistoryContexts L selectors = Inr scope" and "NormalizeContextSelectors selectors = Inr selected"
proof -
  obtain seed w scope selected entries runs where "HistoryForContexts L query selectors = Inr seed"
    "choose_lineage query seed = Inr (Some w)" "validateHistoryContexts L selectors = Inr scope" "NormalizeContextSelectors selectors = Inr selected"
    "followed (timeline_entries L (veObservation w) scope) (runsRecording L selected False) = (entries, runs)"
    "events = timeline_events gib rfc3339 L selected unchanged runtime entries runs"
    using assms unfolding TimelineForContexts_def by (auto split: sum.splits option.splits prod.splits)
  from this(5,6,3,4) show ?thesis by (rule that)
qed

lemma timeline_entries_mem: "set (timeline_entries L w scope) = set (historyForLineage L w scope)"
  by (auto simp: timeline_entries_def historyForLineage_def)

lemma followed_mem:
  assumes "followed es rs = (es', rs')"
  shows "set es' \<subseteq> set es" and "set rs' \<subseteq> set rs"
    and "e \<in> set es \<Longrightarrow> veRun e \<in> set rs' \<Longrightarrow> e \<in> set es'"
  using assms by (auto simp: followed_def split: if_splits)

lemma sorted_timeline_events:
  "sorted (map (\<lambda>ev. tmStarted (heRun ev)) (timeline_events gib rfc3339 L selected unchanged runtime entries runs))"
  by (cases entries) (simp_all add: timeline_events_def del: sort_key_simps)

text \<open>The rows of a ledger refer to its runs, whose IDs are distinct.\<close>

definition ledger_ok :: "ledger \<Rightarrow> bool" where
  "ledger_ok L \<longleftrightarrow> distinct (map ruID (lgRuns L)) \<and> (\<forall>e \<in> set (lgVMs L). veRun e \<in> set (lgRuns L))"

lemma set_runsRecording: "set (runsRecording L contexts all) \<subseteq> set (lgRuns L)"
  by (auto simp: runsRecording_def)

section \<open>Properties\<close>

text \<open>
  C36: A timeline is a list of events in the order of their runs, each of one of ten kinds and each of a stored
  observation, all of one lineage.
\<close>

theorem timeline_well_formed:
  assumes "TimelineForContexts gib rfc3339 L query selectors unchanged runtime = Inr events"
  shows "sorted (map (\<lambda>ev. tmStarted (heRun ev)) events)
    \<and> (\<exists>w. \<forall>ev \<in> set events. heKind ev \<in> set event_kinds
        \<and> (\<exists>e \<in> set (lgVMs L). heObservation ev = Some (veObservation e) \<and> sameLineage w (veObservation e)))"
proof (cases "events = []")
  case False
  with assms obtain w :: history_entry and scope selected entries runs where parts:
      "followed (timeline_entries L (veObservation w) scope) (runsRecording L selected False) = (entries, runs)"
      "events = timeline_events gib rfc3339 L selected unchanged runtime entries runs"
    by (rule timeline_parts)
  have "e \<in> set (lgVMs L)" "sameLineage (veObservation w) (veObservation e)" if "e \<in> set entries" for e
    using that followed_mem(1) [OF parts(1)] by (auto simp: timeline_entries_mem historyForLineage_def)
  then show ?thesis
    unfolding parts(2) using sorted_timeline_events timeline_events_mem(1) by (metis (no_types, lifting))
qed simp

text \<open>
  C20: A machine is only said to have vanished at a run that completed at least in part, that read the machines of its
  vCenter through a selected context, and in which no machine of the lineage was stored.
\<close>

theorem vanished_is_confirmed:
  assumes "ledger_ok L" and "TimelineForContexts gib rfc3339 L query selectors unchanged runtime = Inr events"
    and "ev \<in> set events" and "heKind ev = ''vanished''"
  shows "\<exists>w scope selected seen. validateHistoryContexts L selectors = Inr scope \<and> NormalizeContextSelectors selectors = Inr selected
    \<and> seen \<in> set (historyForLineage L w scope) \<and> heObservation ev = Some (veObservation seen)
    \<and> heRun ev \<in> set (lgRuns L) \<and> collectedVCenter L (heRun ev) (veObservation seen) selected
    \<and> (\<forall>e \<in> set (historyForLineage L w scope). ruID (veRun e) \<noteq> ruID (heRun ev))"
proof -
  have "events \<noteq> []" using assms(3) by auto
  with assms(2) obtain w :: history_entry and scope selected entries runs where parts:
      "followed (timeline_entries L (veObservation w) scope) (runsRecording L selected False) = (entries, runs)"
      "events = timeline_events gib rfc3339 L selected unchanged runtime entries runs"
      "validateHistoryContexts L selectors = Inr scope" "NormalizeContextSelectors selectors = Inr selected"
    by (rule timeline_parts)
  have "ev \<in> set (vanished_events L selected entries runs)"
    using timeline_events_mem(2) assms(3,4) unfolding parts(2) by blast
  then obtain i prev where i: "Suc i < length runs" "prev \<in> set entries" "heRun ev = runs ! i"
      "heObservation ev = Some (veObservation prev)" "\<forall>e \<in> set entries. ruID (veRun e) \<noteq> ruID (runs ! i)"
      "collectedVCenter L (runs ! i) (veObservation prev) selected"
    using vanished_events_mem by metis
  have r: "heRun ev \<in> set runs" using i(1,3) by simp
  have stored: "heRun ev \<in> set (lgRuns L)"
    using r followed_mem(2) [OF parts(1)] set_runsRecording [of L selected False] by blast
  have "ruID (veRun e) \<noteq> ruID (heRun ev)" if e: "e \<in> set (historyForLineage L (veObservation w) scope)" for e
  proof
    assume id: "ruID (veRun e) = ruID (heRun ev)"
    have "e \<in> set (lgVMs L)" using e by (simp add: historyForLineage_def)
    then have same: "veRun e = heRun ev"
      using assms(1) id stored by (auto simp: ledger_ok_def distinct_map inj_on_def)
    then have "e \<in> set entries" using followed_mem(3) [OF parts(1), of e] e r by (simp add: timeline_entries_mem)
    then show False using i(5) [rule_format, of e] i(3) same by simp
  qed
  moreover have "prev \<in> set (historyForLineage L (veObservation w) scope)"
    using i(2) followed_mem(1) [OF parts(1)] by (auto simp: timeline_entries_mem)
  ultimately show ?thesis using i stored parts(3,4) by (intro exI [of _ "veObservation w"] exI [of _ scope] exI [of _ selected] exI [of _ prev]) simp
qed


text \<open>The runs and observations of the witnesses.\<close>

definition example_run :: "int \<Rightarrow> string \<Rightarrow> timed_run" where
  "example_run i source = \<lparr>ruID = i, ruSchema = ''38'', tmSource = source, tmStatus = ''complete'', tmStarted = 1000 * i,
     tmFinished = 1000 * i + 10, tmOffsets = []\<rparr>"

definition example_entry :: "int \<Rightarrow> string \<Rightarrow> string \<Rightarrow> string \<Rightarrow> diff_snapshot list \<Rightarrow> history_entry" where
  "example_entry i source host folder snaps =
     (let o1 = svObservation (example_vm ''vc1'' ''vm-1'' ''u1'')
      in \<lparr>veRun = example_run i source, veObservation = o1\<lparr>doVM := (doVM o1)\<lparr>dmHost := host, dmFolder := folder\<rparr>\<rparr>, veSnapshots = snaps\<rparr>)"

definition example_ledger :: "timed_run list \<Rightarrow> (int \<times> string) list \<Rightarrow> history_entry list \<Rightarrow> ledger" where
  "example_ledger runs ctxs vms = \<lparr>lgRuns = runs,
     lgContexts = map (\<lambda>(i, vc). (i, example_context ''east'' vc ''success'')) ctxs, lgVMs = vms\<rparr>"

text \<open>The kinds of the events of a timeline and the IDs of their runs.\<close>

definition told :: "timeline_error + vm_history_event list \<Rightarrow> (string \<times> int) list" where
  "told r = (case r of Inl e \<Rightarrow> [] | Inr evs \<Rightarrow> map (\<lambda>ev. (heKind ev, ruID (heRun ev))) evs)"

definition example_history :: ledger where
  "example_history = example_ledger [example_run 2 ''live'', example_run 1 ''live''] [(2, ''vc1''), (1, ''vc1'')]
     [example_entry 1 ''live'' ''esx1'' [] []]"

lemma example_history_told:
  "told (TimelineForContexts (\<lambda>b. ''1'') (\<lambda>t. ''now'') example_history ''vm-1'' [] False False)
    = [(''first_seen'', 1), (''vanished'', 2)]"
  by code_simp

lemma told_Inr: "told r = x # xs \<Longrightarrow> \<exists>evs. r = Inr evs \<and> map (\<lambda>ev. (heKind ev, ruID (heRun ev))) evs = x # xs"
  by (cases r) (simp_all add: told_def)

theorem timeline_well_formed_witness:
  "\<exists>evs. TimelineForContexts (\<lambda>b. ''1'') (\<lambda>t. ''now'') example_history ''vm-1'' [] False False = Inr evs \<and> length evs = 2
    \<and> sorted (map (\<lambda>ev. tmStarted (heRun ev)) evs)"
proof -
  obtain evs where evs: "TimelineForContexts (\<lambda>b. ''1'') (\<lambda>t. ''now'') example_history ''vm-1'' [] False False = Inr evs"
      "map (\<lambda>ev. (heKind ev, ruID (heRun ev))) evs = [(''first_seen'', 1), (''vanished'', 2)]"
    using told_Inr [OF example_history_told] by (elim exE conjE)
  have "length evs = 2" using arg_cong [OF evs(2), of length] by simp
  moreover note conjunct1 [OF timeline_well_formed [OF evs(1)]]
  ultimately show ?thesis using evs(1) by (intro exI [of _ evs] conjI)
qed

theorem vanished_is_confirmed_witness:
  "\<exists>r o1. r \<in> set (lgRuns example_history) \<and> collectedVCenter example_history r o1 []"
proof -
  obtain evs where evs: "TimelineForContexts (\<lambda>b. ''1'') (\<lambda>t. ''now'') example_history ''vm-1'' [] False False = Inr evs"
      "map (\<lambda>ev. (heKind ev, ruID (heRun ev))) evs = [(''first_seen'', 1), (''vanished'', 2)]"
    using told_Inr [OF example_history_told] by (elim exE conjE)
  then obtain e1 e2 where "evs = [e1, e2]" "heKind e2 = ''vanished''" by auto
  then have e2: "e2 \<in> set evs" "heKind e2 = ''vanished''" by simp_all
  have ok: "ledger_ok example_history"
    by (simp add: ledger_ok_def example_history_def example_ledger_def example_entry_def example_run_def Let_def)
  from vanished_is_confirmed [OF ok evs(1) e2] obtain selected and seen :: history_entry where seen:
      "NormalizeContextSelectors [] = Inr selected" "heRun e2 \<in> set (lgRuns example_history)"
      "collectedVCenter example_history (heRun e2) (veObservation seen) selected"
    by (elim exE conjE) (rule that)
  then have "collectedVCenter example_history (heRun e2) (veObservation seen) []" by (simp add: NormalizeContextSelectors_def)
  with seen(2) show ?thesis by (intro exI conjI)
qed


text \<open>
  An appeared event, unlike a vanished one, does not ask whether the runs it skips looked for the machine: a
  capture of another vCenter between two sightings is enough for it.
\<close>

theorem appeared_without_a_look:
  "told (TimelineForContexts (\<lambda>b. ''1'') (\<lambda>t. ''now'')
      (example_ledger [example_run 3 ''live'', example_run 2 ''live'', example_run 1 ''live''] [(3, ''vc1''), (2, ''vc2''), (1, ''vc1'')]
        [example_entry 3 ''live'' ''esx1'' [] [], example_entry 1 ''live'' ''esx1'' [] []]) ''vm-1'' [] False False)
    = [(''first_seen'', 1), (''appeared'', 3)]"
  by code_simp

text \<open>
  The folder of a machine is compared like its host and cluster, but it is not among the values that the history
  remembers: a move between two folders is missed when the observation between them could not see the folder.
\<close>

theorem folder_move_missed:
  "(let e = (\<lambda>i folder. example_entry i ''live'' ''esx1'' folder []);
        L = example_ledger [example_run 3 ''live'', example_run 2 ''live'', example_run 1 ''live''] [(3, ''vc1''), (2, ''vc1''), (1, ''vc1'')]
          [e 3 ''prod'', e 2 [], e 1 ''lab'']
    in moved (entry_vm (e 1 ''lab'')) (entry_vm (e 3 ''prod'')) ''vc1'' ''vc1''
      \<and> told (TimelineForContexts (\<lambda>b. ''1'') (\<lambda>t. ''now'') L ''vm-1'' [] False False) = [(''first_seen'', 1)])"
  by code_simp

text \<open>
  The history of a machine that only imports recorded takes a workbook without snapshots, whose snapshot collection was not
  recorded, for one that confirms that the machine has none.
\<close>

theorem unread_snapshots_read_as_removed:
  "(let imported = (\<lambda>i. example_run i ''rvtools-import'');
        snap = \<lparr>dsnID = ''import:1'', dsnName = ''before upgrade'', dsnDescription = [], dsnCreateTime = 5, dsnCurrent = False\<rparr>;
        L = example_ledger [imported 2, imported 1] [(2, ''vc1''), (1, ''vc1'')]
          [example_entry 2 ''rvtools-import'' ''esx1'' [] [], example_entry 1 ''rvtools-import'' ''esx1'' [] [snap]]
    in list_all (\<lambda>(i, c). \<not> ContextComplete c [''snapshot'']) (lgContexts L)
      \<and> told (TimelineForContexts (\<lambda>b. ''1'') (\<lambda>t. ''now'') L ''vm-1'' [] False False)
        = [(''first_seen'', 1), (''snapshot-removed'', 2)])"
  by code_simp

end
