(* ===== verification/Drift.thy ===== *)
theory Drift
  imports ResourceDiff Timeline
begin

text \<open>
  What \<open>capture diff\<close> makes of two captures: the choice of the pair (internal/assessment/run_pair.go, \<open>ComparableBefore\<close> of types.go,
  \<open>resolveRunPair\<close> of internal/cli/capture.go), the ages of the snapshots and the whole difference (diff.go), and the drift policy
  (policy.go). The ledger is that of the theory Timeline. \<open>age_text\<close> is the message of a snapshot that is too old.
\<close>

section \<open>Choosing a pair\<close>

definition ComparableBefore :: "timed_run list \<Rightarrow> timed_run \<Rightarrow> timed_run" where
  "ComparableBefore earlier target =
     (case List.find (\<lambda>r. run_Imported r = run_Imported target) earlier of Some r \<Rightarrow> r | None \<Rightarrow> hd earlier)"

text \<open>\<open>covers\<close>: the contexts a capture recorded by name, and the vCenters it reached.\<close>

definition covered_keys :: "ledger \<Rightarrow> int \<Rightarrow> string list" where
  "covered_keys L i =
     concat (map (\<lambda>(j, c). if j = i then (''name:'' @ to_lower (trim_space (ctName c)))
         # (if ctVCenter c \<noteq> [] then [''vcenter:'' @ ctVCenter c] else []) else []) (lgContexts L))"

definition sharesKey :: "string list \<Rightarrow> string list \<Rightarrow> bool" where
  "sharesKey a b \<longleftrightarrow> list_ex (\<lambda>k. k \<in> set b) a"

definition comparableAmong :: "timed_run list \<Rightarrow> timed_run \<Rightarrow> (int \<Rightarrow> string list) \<Rightarrow> timed_run option" where
  "comparableAmong earlier target covers =
     (let sharing = filter (\<lambda>r. sharesKey (covers (ruID r)) (covers (ruID target))) earlier
      in if sharing = [] then None else Some (ComparableBefore sharing target))"

definition comparisonCandidates :: "ledger \<Rightarrow> string list \<Rightarrow> scope_error + timed_run list" where
  "comparisonCandidates L contexts =
     (case validateHistoryContexts L contexts of Inl e \<Rightarrow> Inl e | Inr selected \<Rightarrow> Inr (runsRecording L selected True))"

definition ComparableBase :: "ledger \<Rightarrow> timed_run \<Rightarrow> string list \<Rightarrow> scope_error + timed_run option" where
  "ComparableBase L target contexts =
     (case comparisonCandidates L contexts of
        Inl e \<Rightarrow> Inl e
      | Inr runs \<Rightarrow>
          Inr (comparableAmong (filter (\<lambda>r. ruID r \<noteq> ruID target \<and> tmStarted r < tmStarted target) runs) target (covered_keys L)))"

fun newest_pair :: "(int \<Rightarrow> string list) \<Rightarrow> timed_run list \<Rightarrow> (timed_run \<times> timed_run) option" where
  "newest_pair covers [] = None"
| "newest_pair covers (r # runs) =
     (case comparableAmong runs r covers of Some base \<Rightarrow> Some (base, r) | None \<Rightarrow> newest_pair covers runs)"

definition NewestComparablePair :: "ledger \<Rightarrow> string list \<Rightarrow> scope_error + (timed_run \<times> timed_run) option" where
  "NewestComparablePair L contexts =
     (case comparisonCandidates L contexts of Inl e \<Rightarrow> Inl e | Inr runs \<Rightarrow> Inr (newest_pair (covered_keys L) runs))"

section \<open>Snapshot ages\<close>

record finished_context = context_run +
  fxFinished :: int

record snapshot_age =
  saVMName :: string
  saContext :: string
  saName :: string
  saCreateTime :: int
  saAge :: int
  saFirstSeen :: int
  saLastSeen :: int

type_synonym snapshot_key = "string \<times> string \<times> string"  \<comment> \<open>vCenter, machine, snapshot\<close>

record sighting =
  siStatus :: string
  siKey :: snapshot_key
  siFinished :: int

definition age_of :: "finished_context \<Rightarrow> stored_vm \<Rightarrow> diff_snapshot \<Rightarrow> snapshot_age" where
  "age_of c v s =
     \<lparr>saVMName = dmName (vm_of v), saContext = doContext (svObservation v), saName = dsnName s, saCreateTime = dsnCreateTime s,
      saAge = fxFinished c - dsnCreateTime s, saFirstSeen = fxFinished c, saLastSeen = fxFinished c\<rparr>"

definition context_ages :: "int \<Rightarrow> finished_context \<times> stored_vm list \<Rightarrow> (snapshot_key \<times> snapshot_age) list" where
  "context_ages olderThan = (\<lambda>(c, vms).
     if \<not> Successful (ctVMStatus c) \<or> \<not> ContextComplete (context_run.truncate c) [''snapshot''] then []
     else concat (map (\<lambda>v. map (\<lambda>s. ((ctVCenter c, dmID (vm_of v), dsnID s), age_of c v s))
            (filter (\<lambda>s. \<not> (olderThan > 0 \<and> fxFinished c - dsnCreateTime s < olderThan)) (svSnapshots v))) vms))"

definition see_again :: "sighting \<Rightarrow> (snapshot_key \<times> snapshot_age) list \<Rightarrow> (snapshot_key \<times> snapshot_age) list" where
  "see_again s wanted =
     (case map_of wanted (siKey s) of
        None \<Rightarrow> wanted
      | Some a \<Rightarrow> AList.update (siKey s)
          (a\<lparr>saFirstSeen := min (saFirstSeen a) (siFinished s), saLastSeen := max (saLastSeen a) (siFinished s)\<rparr>) wanted)"

definition snapshotAges :: "(finished_context \<times> stored_vm list) list \<Rightarrow> sighting list \<Rightarrow> int \<Rightarrow> snapshot_age list" where
  "snapshotAges target rows olderThan =
     (let wanted = fold (\<lambda>(k, a). AList.update k a) (concat (map (context_ages olderThan) target)) [];
          seen = fold see_again (filter (\<lambda>r. Successful (siStatus r)) rows) wanted
      in sort_key (\<lambda>a. - saAge a) (map snd seen))"

definition SnapshotAgesForContexts :: "(finished_context \<times> stored_vm list) list \<Rightarrow> sighting list \<Rightarrow> int \<Rightarrow> string list
    \<Rightarrow> scope_error + snapshot_age list" where
  "SnapshotAgesForContexts target rows olderThan selectors =
     (case ValidateStoredContexts selectors [map (context_run.truncate \<circ> fst) target] of
        Inl e \<Rightarrow> Inl e
      | Inr selected \<Rightarrow> Inr (filter (\<lambda>a. contextSelected (saContext a) selected) (snapshotAges target rows olderThan)))"

section \<open>The whole difference\<close>

record full_diff = run_diff +
  fdResources :: "resource_change list"
  fdSnapshotAges :: "snapshot_age list"

text \<open>All of \<open>DiffForContexts\<close>: \<open>tf\<close> is the target side with the ends of its contexts.\<close>

definition whole_diff :: "(int \<Rightarrow> string) \<Rightarrow> (int \<Rightarrow> string) \<Rightarrow> (string \<Rightarrow> string) \<Rightarrow> timed_run \<Rightarrow> timed_run \<Rightarrow> side
    \<Rightarrow> (finished_context \<times> stored_vm list) list \<Rightarrow> resource_run \<Rightarrow> resource_run \<Rightarrow> sighting list \<Rightarrow> bool \<Rightarrow> string list
    \<Rightarrow> scope_error + full_diff" where
  "whole_diff gib rfc3339 utc base target bc tf br tr rows runtime selectors =
     (let tc = map (\<lambda>(c, vms). (context_run.truncate c, vms)) tf
      in case DiffForContexts gib rfc3339 base target bc tc runtime selectors of
           Inl e \<Rightarrow> Inl e
         | Inr (d, gaps) \<Rightarrow>
             (case ValidateStoredContexts selectors [map fst bc, map fst tc] of
                Inl e \<Rightarrow> Inl e
              | Inr selected \<Rightarrow>
                  (let (resources, issues, gaps') = infrastructureDiff utc br tr runtime selected gaps
                   in case SnapshotAgesForContexts tf rows 0 selected of
                        Inl e \<Rightarrow> Inl e
                      | Inr ages \<Rightarrow>
                          Inr (run_diff.extend
                            (d\<lparr>rdWarnings := rdWarnings d @ map ciMessage issues @ gap_warning gaps',
                               rdCoverage := rdCoverage d @ issues,
                               rdCounts := (rdCounts d)\<lparr>dcResources := int (length resources)\<rparr>\<rparr>)
                            \<lparr>fdResources = resources, fdSnapshotAges = ages\<rparr>))))"

section \<open>The drift policy\<close>

record policy_options =
  poFailOn :: "string list"
  poMaxSnapshotAge :: int
  poRequireComplete :: bool

record violation =
  pvRule :: string
  pvMessage :: string

definition snapshotCount :: "full_diff \<Rightarrow> string \<Rightarrow> int" where
  "snapshotCount d kind = int (length (filter (\<lambda>s. scKind s = kind) (rdSnapshots d)))"

definition resourceCount :: "full_diff \<Rightarrow> string \<Rightarrow> string \<Rightarrow> int" where
  "resourceCount d kind change =
     int (length (filter ((=) change) (concat (map rcChanges (filter (\<lambda>r. rcKind r = kind) (fdResources d))))))"

definition counted :: "string \<Rightarrow> int \<Rightarrow> string \<Rightarrow> violation list" where
  "counted rule n what = (if n > 0 then [\<lparr>pvRule = rule, pvMessage = itoa n @ what\<rparr>] else [])"

text \<open>The rules of resources, with the two parts that \<open>SplitN\<close> gives.\<close>

definition resource_rules :: "(string \<times> string \<times> string) list" where
  "resource_rules = concat (map (\<lambda>kind. map (\<lambda>change. (kind @ ''-'' @ change, kind, change)) [''appeared'', ''vanished'', ''modified''])
     [''host'', ''cluster'', ''datastore''])"

definition rule_violations :: "full_diff \<Rightarrow> string \<Rightarrow> violation list" where
  "rule_violations d rule =
     (if rule = ''appeared'' then counted rule (dcAppeared (rdCounts d)) '' VM(s) appeared''
      else if rule = ''vanished'' then counted rule (dcVanished (rdCounts d)) '' VM(s) vanished''
      else if rule = ''moved'' then counted rule (dcMoved (rdCounts d)) '' VM(s) moved''
      else if rule = ''modified'' then counted rule (dcModified (rdCounts d)) '' VM(s) modified''
      else if rule = ''snapshot-created'' then counted rule (snapshotCount d ''created'') '' snapshot(s) created''
      else if rule = ''snapshot-removed'' then counted rule (snapshotCount d ''removed'') '' snapshot(s) removed''
      else if rule = ''snapshot-changed'' then counted rule (snapshotCount d ''changed'') '' snapshot(s) changed''
      else case map_of resource_rules rule of
        Some (kind, change) \<Rightarrow> counted rule (resourceCount d kind change) ('' '' @ kind @ '' resource(s) '' @ change)
      | None \<Rightarrow> [])"

definition EvaluatePolicy :: "(snapshot_age \<Rightarrow> string) \<Rightarrow> full_diff \<Rightarrow> policy_options \<Rightarrow> bool \<times> violation list" where
  "EvaluatePolicy age_text d opts =
     (let old = (if poMaxSnapshotAge opts > 0
            then (case List.find (\<lambda>a. saAge a \<ge> poMaxSnapshotAge opts) (fdSnapshotAges d) of
                    Some a \<Rightarrow> [\<lparr>pvRule = ''max-snapshot-age'', pvMessage = age_text a\<rparr>] | None \<Rightarrow> []) else []);
          incomplete = (if poRequireComplete opts
              \<and> (tmStatus (rdBase d) \<noteq> ''complete'' \<or> tmStatus (rdTarget d) \<noteq> ''complete'' \<or> rdCoverage d \<noteq> [])
            then [\<lparr>pvRule = ''require-complete'', pvMessage = ''baseline and target must both be complete with no coverage gaps''\<rparr>] else []);
          violations = concat (map (rule_violations d) (poFailOn opts)) @ old @ incomplete
      in (violations = [], violations))"

text \<open>What the command line accepts as a rule.\<close>

definition validPolicyRule :: "string \<Rightarrow> bool" where
  "validPolicyRule rule \<longleftrightarrow>
     rule \<in> {''appeared'', ''vanished'', ''moved'', ''modified'', ''snapshot-created'', ''snapshot-removed'', ''snapshot-changed''}
     \<or> (has_prefix ''host-'' rule \<or> has_prefix ''cluster-'' rule \<or> has_prefix ''datastore-'' rule)
        \<and> (let kind = takeWhile (\<lambda>c. c \<noteq> CHR ''-'') rule; change = tl (dropWhile (\<lambda>c. c \<noteq> CHR ''-'') rule)
           in kind \<in> {''host'', ''cluster'', ''datastore''} \<and> change \<in> {''appeared'', ''vanished'', ''modified''})"


section \<open>What a rule forbids\<close>

definition vm_rules :: "string list" where
  "vm_rules = [''appeared'', ''vanished'', ''moved'', ''modified'']"

definition happened :: "full_diff \<Rightarrow> string \<Rightarrow> bool" where
  "happened d rule \<longleftrightarrow>
     (if rule \<in> set vm_rules then \<exists>c \<in> set (rdVMs d). rule \<in> set (vcChanges c)
      else if has_prefix ''snapshot-'' rule then \<exists>s \<in> set (rdSnapshots d). rule = ''snapshot-'' @ scKind s
      else \<exists>r \<in> set (fdResources d). \<exists>change \<in> set (rcChanges r). rule = rcKind r @ ''-'' @ change)"

lemma counted_Nil: "counted rule n what = [] \<longleftrightarrow> n \<le> 0"
  by (simp add: counted_def)

lemma resource_rule:
  assumes "kind \<in> {''host'', ''cluster'', ''datastore''}" and "change \<in> {''appeared'', ''vanished'', ''modified''}"
  shows "map_of resource_rules (kind @ ''-'' @ change) = Some (kind, change)"
    and "kind @ ''-'' @ change \<notin> set (vm_rules @ [''snapshot-created'', ''snapshot-removed'', ''snapshot-changed''])"
    and "\<not> has_prefix ''snapshot-'' (kind @ ''-'' @ change)"
    and "CHR ''-'' \<notin> set kind" and "CHR ''-'' \<notin> set change"
proof -
  have "list_all (\<lambda>kind. list_all (\<lambda>change. map_of resource_rules (kind @ ''-'' @ change) = Some (kind, change)
      \<and> kind @ ''-'' @ change \<notin> set (vm_rules @ [''snapshot-created'', ''snapshot-removed'', ''snapshot-changed''])
      \<and> \<not> has_prefix ''snapshot-'' (kind @ ''-'' @ change)
      \<and> CHR ''-'' \<notin> set kind \<and> CHR ''-'' \<notin> set change) [''appeared'', ''vanished'', ''modified'']) [''host'', ''cluster'', ''datastore'']"
    by code_simp
  moreover have "kind \<in> set [''host'', ''cluster'', ''datastore'']" using assms(1) by (simp only: list.set)
  moreover have "change \<in> set [''appeared'', ''vanished'', ''modified'']" using assms(2) by (simp only: list.set)
  ultimately show "map_of resource_rules (kind @ ''-'' @ change) = Some (kind, change)"
      "kind @ ''-'' @ change \<notin> set (vm_rules @ [''snapshot-created'', ''snapshot-removed'', ''snapshot-changed''])"
      "\<not> has_prefix ''snapshot-'' (kind @ ''-'' @ change)" "CHR ''-'' \<notin> set kind" "CHR ''-'' \<notin> set change"
    unfolding list_all_iff by blast+
qed

lemma valid_rule_cases:
  assumes "validPolicyRule rule"
  obtains (vm) "rule \<in> set vm_rules" | (snapshot) k where "k \<in> {''created'', ''removed'', ''changed''}" "rule = ''snapshot-'' @ k"
    | (resource) kind change where "kind \<in> {''host'', ''cluster'', ''datastore''}" "change \<in> {''appeared'', ''vanished'', ''modified''}"
      "rule = kind @ ''-'' @ change"
proof -
  let ?kind = "takeWhile (\<lambda>c. c \<noteq> CHR ''-'') rule" and ?rest = "dropWhile (\<lambda>c. c \<noteq> CHR ''-'') rule"
  have rules: "{''appeared'', ''vanished'', ''moved'', ''modified'', ''snapshot-created'', ''snapshot-removed'', ''snapshot-changed''}
      = set vm_rules \<union> {''snapshot-created'', ''snapshot-removed'', ''snapshot-changed''}"
    by (simp only: vm_rules_def list.set Un_insert_left Un_empty_left)
  consider "rule \<in> set vm_rules" | "rule \<in> {''snapshot-created'', ''snapshot-removed'', ''snapshot-changed''}"
    | "?kind \<in> {''host'', ''cluster'', ''datastore''}" "tl ?rest \<in> {''appeared'', ''vanished'', ''modified''}"
    using assms [unfolded validPolicyRule_def Let_def rules Un_iff] by (elim disjE conjE) (rule that, assumption+)+
  then show ?thesis
  proof cases
    case 1
    then show ?thesis by (rule vm)
  next
    case 2
    then show ?thesis
      by (elim insertE emptyE) (rule snapshot [of "''created''"] snapshot [of "''removed''"] snapshot [of "''changed''"]; simp)+
  next
    case 3
    then have "tl ?rest \<noteq> []" by auto
    then have "?rest \<noteq> []" by (metis list.sel(2))
    then have "hd ?rest = CHR ''-''" using hd_dropWhile [of "\<lambda>c. c \<noteq> CHR ''-''" rule] by blast
    then have "rule = ?kind @ ''-'' @ tl ?rest"
      using takeWhile_dropWhile_id [of "\<lambda>c. c \<noteq> CHR ''-''" rule] \<open>?rest \<noteq> []\<close> by (metis append_Cons append_Nil list.collapse)
    then show ?thesis by (rule resource [OF 3])
  qed
qed

lemma rule_violations_happened:
  assumes "validPolicyRule rule" and counts: "rdCounts d = (countChanges vms (rdSnapshots d))\<lparr>dcResources := n\<rparr>" and "set vms = set (rdVMs d)"
  shows "rule_violations d rule = [] \<longleftrightarrow> \<not> happened d rule"
  using assms(1)
proof (cases rule rule: valid_rule_cases)
  case vm
  have some: "0 < int (length (filter ((=) k) (concat (map vcChanges vms)))) \<longleftrightarrow> (\<exists>c \<in> set (rdVMs d). k \<in> set (vcChanges c))" for k
    using assms(3) by (auto simp: filter_empty_conv)
  have "rule_violations d rule = [] \<longleftrightarrow> \<not> 0 < int (length (filter ((=) rule) (concat (map vcChanges vms))))"
    using vm by (auto simp: vm_rules_def rule_violations_def counted_Nil counts countChanges_def Let_def)
  then show ?thesis unfolding some happened_def using vm by simp
next
  case (snapshot k)
  have "rule_violations d rule = counted rule (snapshotCount d k) ('' snapshot(s) '' @ k)"
    using snapshot by (auto simp: rule_violations_def)
  moreover have "snapshotCount d k \<le> 0 \<longleftrightarrow> \<not> (\<exists>s \<in> set (rdSnapshots d). k = scKind s)"
    by (auto simp: snapshotCount_def filter_empty_conv)
  ultimately show ?thesis
    using snapshot by (auto simp: counted_Nil happened_def vm_rules_def)
next
  case (resource kind change)
  note facts = resource_rule [OF resource(1,2)]
  have "rule_violations d rule = counted rule (resourceCount d kind change) ('' '' @ kind @ '' resource(s) '' @ change)"
    using facts(1,2) resource(3) by (simp add: rule_violations_def vm_rules_def)
  moreover have "resourceCount d kind change \<le> 0 \<longleftrightarrow> \<not> (\<exists>r \<in> set (fdResources d). rcKind r = kind \<and> change \<in> set (rcChanges r))"
    by (auto simp: resourceCount_def filter_empty_conv)
  moreover have "kind @ ''-'' @ change = x @ ''-'' @ y \<longleftrightarrow> kind = x \<and> change = y" for x y
    using append_Cons_eq_iff [OF facts(4,5), of x y] by simp
  ultimately show ?thesis
    using facts(2,3) resource(3) by (auto simp: counted_Nil happened_def)
qed

section \<open>Properties\<close>

lemma whole_diff_counts:
  assumes "whole_diff gib rfc3339 utc base target bc tf br tr rows runtime selectors = Inr d"
  shows "\<exists>vms n. rdCounts d = (countChanges vms (rdSnapshots d))\<lparr>dcResources := n\<rparr> \<and> set vms = set (rdVMs d)"
proof -
  obtain e gaps cov warn n resources ages where e: "DiffForContexts gib rfc3339 base target bc (map (\<lambda>(c, vms). (context_run.truncate c, vms)) tf)
        runtime selectors = Inr (e, gaps)"
      "d = run_diff.extend (e\<lparr>rdWarnings := warn, rdCoverage := cov, rdCounts := (rdCounts e)\<lparr>dcResources := n\<rparr>\<rparr>) \<lparr>fdResources = resources, fdSnapshotAges = ages\<rparr>"
    using assms unfolding whole_diff_def Let_def by (auto split: sum.splits prod.splits)
  have count: "countChanges vms (sort_key f snaps) = countChanges vms snaps" for vms snaps and f :: "snapshot_change \<Rightarrow> string"
    by (simp add: countChanges_def)
  from e(1) obtain vms snaps where "rdCounts e = countChanges vms snaps" "rdSnapshots e = sort_key (\<lambda>s. to_lower (scVMName s)) snaps"
      "rdVMs e = sort_key (\<lambda>v. to_lower (vcName v)) vms"
    unfolding DiffForContexts_def Let_def by (auto split: sum.splits prod.splits)
  then show ?thesis by (intro exI [of _ vms] exI [of _ n]) (simp add: e(2) run_diff.extend_def count)
qed

lemma case_find_Nil: "(case List.find P xs of Some a \<Rightarrow> [f a] | None \<Rightarrow> []) = [] \<longleftrightarrow> (\<forall>a \<in> set xs. \<not> P a)"
proof (cases "List.find P xs")
  case None
  then have "\<forall>a \<in> set xs. \<not> P a" unfolding find_None_iff by blast
  then show ?thesis unfolding None option.case by simp
next
  case (Some a)
  have "a \<in> set xs \<and> P a" by (rule find_Some_mem [OF Some])
  then show ?thesis unfolding Some option.case by blast
qed

text \<open>
  C10: The drift policy passes on the difference of two captures exactly when nothing that it forbids happened: no machine,
  snapshot or resource has a change that a rule names, no snapshot of the target is as old as the limit, and, if it asks for complete
  evidence, both captures are complete and nothing was left uncompared.
\<close>

theorem drift_policy_exact:
  assumes "whole_diff gib rfc3339 utc base target bc tf br tr rows runtime selectors = Inr d"
    and "list_all validPolicyRule (poFailOn opts)"
  shows "fst (EvaluatePolicy age_text d opts) \<longleftrightarrow>
    (\<forall>rule \<in> set (poFailOn opts). \<not> happened d rule)
    \<and> (poMaxSnapshotAge opts > 0 \<longrightarrow> (\<forall>a \<in> set (fdSnapshotAges d). saAge a < poMaxSnapshotAge opts))
    \<and> (poRequireComplete opts \<longrightarrow> tmStatus (rdBase d) = ''complete'' \<and> tmStatus (rdTarget d) = ''complete'' \<and> rdCoverage d = [])"
proof -
  obtain vms n where vms: "rdCounts d = (countChanges vms (rdSnapshots d))\<lparr>dcResources := n\<rparr>" "set vms = set (rdVMs d)"
    using whole_diff_counts [OF assms(1)] by blast
  have "concat (map (rule_violations d) (poFailOn opts)) = [] \<longleftrightarrow> (\<forall>rule \<in> set (poFailOn opts). \<not> happened d rule)"
    using rule_violations_happened [OF _ vms] assms(2) by (auto simp: list_all_iff)
  moreover have "(case List.find (\<lambda>a. saAge a \<ge> poMaxSnapshotAge opts) (fdSnapshotAges d) of
        Some a \<Rightarrow> [\<lparr>pvRule = ''max-snapshot-age'', pvMessage = age_text a\<rparr>] | None \<Rightarrow> []) = []
      \<longleftrightarrow> (\<forall>a \<in> set (fdSnapshotAges d). saAge a < poMaxSnapshotAge opts)"
    unfolding case_find_Nil by (simp add: not_le)
  ultimately show ?thesis by (simp add: EvaluatePolicy_def Let_def)
qed

lemma comparableAmong_Some:
  assumes "comparableAmong earlier target covers = Some base"
  shows "base \<in> set earlier \<and> sharesKey (covers (ruID base)) (covers (ruID target))
    \<and> (run_Imported base = run_Imported target
       \<or> (\<forall>r \<in> set earlier. sharesKey (covers (ruID r)) (covers (ruID target)) \<longrightarrow> run_Imported r \<noteq> run_Imported target))"
proof -
  let ?s = "filter (\<lambda>r. sharesKey (covers (ruID r)) (covers (ruID target))) earlier"
  have s: "?s \<noteq> []" "base = ComparableBefore ?s target" using assms by (auto simp: comparableAmong_def Let_def split: if_splits)
  show ?thesis
  proof (cases "List.find (\<lambda>r. run_Imported r = run_Imported target) ?s")
    case None
    have "base = hd ?s" using s(2) unfolding ComparableBefore_def None option.case .
    then have "base \<in> set ?s" using s(1) by (metis hd_in_set)
    moreover have "\<forall>r \<in> set ?s. run_Imported r \<noteq> run_Imported target"
      using None unfolding find_None_iff by blast
    ultimately show ?thesis by auto
  next
    case (Some r)
    then show ?thesis using s(2) find_Some_mem [OF Some] by (simp add: ComparableBefore_def)
  qed
qed

lemma newest_pair_Some:
  "newest_pair covers runs = Some (base, target) \<Longrightarrow>
   \<exists>newer older. runs = newer @ target # older \<and> comparableAmong older target covers = Some base
     \<and> (\<forall>a r b. newer = a @ r # b \<longrightarrow> comparableAmong (b @ target # older) r covers = None)"
proof (induction covers runs rule: newest_pair.induct)
  case (2 covers r runs)
  show ?case
  proof (cases "comparableAmong runs r covers")
    case (Some b)
    then have "r = target" "b = base" using "2.prems" by simp_all
    then show ?thesis using Some by (intro exI [of _ "[]"] exI [of _ runs]) simp
  next
    case None
    then obtain newer older where ih: "runs = newer @ target # older" "comparableAmong older target covers = Some base"
        "\<forall>a r b. newer = a @ r # b \<longrightarrow> comparableAmong (b @ target # older) r covers = None"
      using "2.IH" "2.prems" by auto
    have "\<forall>a r' b. r # newer = a @ r' # b \<longrightarrow> comparableAmong (b @ target # older) r' covers = None"
    proof (intro allI impI)
      fix a r' b assume "r # newer = a @ r' # b"
      then show "comparableAmong (b @ target # older) r' covers = None"
        using ih(1,3) None by (cases a) auto
    qed
    then show ?thesis using ih by (intro exI [of _ "r # newer"] exI [of _ older]) simp
  qed
qed simp


definition pair_ledger :: "(int \<times> string) list \<Rightarrow> ledger" where
  "pair_ledger runs = example_ledger (map (\<lambda>(i, source). example_run i source) runs) (map (\<lambda>(i, source). (i, ''vc1'')) runs) []"


text \<open>
  An import and a live capture are meant to be paired only when no other pair exists. The newest capture decides
  first: a live capture after two imports is paired with an import, although the imports are a pair of one kind.
\<close>

theorem mixed_pair_before_imports:
  "NewestComparablePair (pair_ledger [(3, ''live''), (2, ''rvtools-import''), (1, ''rvtools-import'')]) []
     = Inr (Some (example_run 2 ''rvtools-import'', example_run 3 ''live''))
   \<and> comparableAmong [example_run 1 ''rvtools-import''] (example_run 2 ''rvtools-import'')
       (covered_keys (pair_ledger [(3, ''live''), (2, ''rvtools-import''), (1, ''rvtools-import'')]))
     = Some (example_run 1 ''rvtools-import'')"
  by code_simp

text \<open>
  A snapshot that two contexts of a vCenter recorded has one age, with the name of the context that was read last. The
  ages of selected contexts are chosen by that name: the age of a snapshot that the selected context recorded is missing when the other
  context was read last, in an order that is Go's order of a map.
\<close>

definition aged_context :: "string \<Rightarrow> finished_context" where
  "aged_context name = context_run.extend ((example_context name ''vc1'' ''success'')
     \<lparr>ctCollections := [\<lparr>coKind = ''snapshot'', coStatus = ''success'', coError = []\<rparr>]\<rparr>) \<lparr>fxFinished = 100\<rparr>"

definition aged_vm :: "string \<Rightarrow> stored_vm" where
  "aged_vm name =
     (let v = example_vm ''vc1'' ''vm-1'' ''u1''
      in v\<lparr>svObservation := (svObservation v)\<lparr>doContext := name\<rparr>,
           svSnapshots := [\<lparr>dsnID = ''snapshot-1'', dsnName = ''old'', dsnDescription = [], dsnCreateTime = 10, dsnCurrent = True\<rparr>]\<rparr>)"

theorem age_lost_to_the_other_context:
  "(let east = (aged_context ''east'', [aged_vm ''east'']); admin = (aged_context ''admin'', [aged_vm ''admin'']);
        ages = (\<lambda>target. case SnapshotAgesForContexts target [] 0 [''east''] of Inr as \<Rightarrow> map saAge as | Inl e \<Rightarrow> [])
    in ages [admin, east] = [90] \<and> ages [east, admin] = [])"
  by code_simp

definition nothing_collected :: resource_run where
  "nothing_collected = \<lparr>rrContexts = [], rrCoverage = [], rrResources = []\<rparr>"

theorem drift_policy_exact_witness:
  "\<exists>d. fst (EvaluatePolicy (\<lambda>a. []) d \<lparr>poFailOn = [''vanished'', ''host-modified''], poMaxSnapshotAge = 0, poRequireComplete = False\<rparr>)"
proof -
  let ?opts = "\<lparr>poFailOn = [''vanished'', ''host-modified''], poMaxSnapshotAge = 0, poRequireComplete = False\<rparr>"
  let ?r = "whole_diff (\<lambda>b. []) (\<lambda>t. []) (\<lambda>t. t) (example_run 1 ''live'') (example_run 2 ''live'') [] [] nothing_collected nothing_collected [] False []"
  have "case ?r of Inr d \<Rightarrow> rdVMs d = [] \<and> fdResources d = [] | Inl e \<Rightarrow> False" by code_simp
  then obtain d where d: "?r = Inr d" "rdVMs d = []" "fdResources d = []" by (cases ?r) simp_all
  have "list_all validPolicyRule (poFailOn ?opts)" by code_simp
  from drift_policy_exact [OF d(1) this, of "\<lambda>a. []"] show ?thesis
    using d(2,3) by (intro exI [of _ d]) (simp add: happened_def vm_rules_def)
qed

end
