(* ===== verification/Captures.thy ===== *)
theory Captures
  imports Timeline
begin

text \<open>
  The ledger of captures as a database (internal/assessment/store.go, maintenance.go, perf.go, \<open>Capture\<close> of collector.go): its tables are
  lists of rows in the order of their IDs, the runs newest first; an operation is one transaction, with its effect on every table. The
  columns kept are those that some operation or query reads. An instant in a row is its milliseconds since 1970 UTC, elsewhere its
  nanoseconds. A failure of SQLite other than a violated constraint, and one of the file system other than a lock file that is
  there, is not modelled.
\<close>

section \<open>Rows\<close>

record run_row =
  wrID :: int
  wrSource :: string
  wrLabel :: string
  wrNote :: string
  wrPinned :: bool
  wrTool :: string
  wrSchema :: string
  wrStarted :: int
  wrFinished :: "int option"
  wrStatus :: string
  wrRequested :: int
  wrSuccessful :: int
  wrRequestedCollections :: int
  wrSuccessfulCollections :: int

record context_row =
  cwID :: int
  cwRun :: int
  cwName :: string
  cwEndpoint :: string
  cwDatacenter :: string
  cwVCenter :: string
  cwStarted :: int
  cwFinished :: "int option"
  cwStatus :: string
  cwError :: string
  cwOffset :: "int option"
  cwSource :: "string option"  \<comment> \<open>the row of \<open>context_sources\<close>\<close>

record collection_row =
  clID :: int
  clContext :: int
  clKind :: string
  clFinished :: int
  clStatus :: string
  clError :: string
  clItems :: int

record vm_row =
  vwContext :: int
  vwMoref :: string
  vwInstance :: string
  vwBIOS :: string
  vwName :: string
  vwPayload :: string
  vwSnapshots :: "diff_snapshot list"

record resource_row =
  rwCollection :: int
  rwMoref :: string
  rwName :: string
  rwPayload :: string

record perf_row =
  pfID :: int
  pfContext :: string
  pfVCenter :: string
  pfFinished :: "int option"
  pfStatus :: string

record lease_row =
  lsToken :: string
  lsRun :: int
  lsOperation :: string
  lsExpires :: int

text \<open>The lock file beside the database: the end of a lease and its token, or something else.\<close>

datatype lock_file = Lock int string | Unreadable

record captures =
  dbRuns :: "run_row list"
  dbContexts :: "context_row list"
  dbCollections :: "collection_row list"
  dbVMs :: "vm_row list"
  dbResources :: "resource_row list"
  dbPerf :: "perf_row list"
  dbLease :: "lease_row option"
  dbLock :: "lock_file option"
  dbNextRun :: int  \<comment> \<open>the AUTOINCREMENT sequences\<close>
  dbNextContext :: int
  dbNextCollection :: int
  dbNextPerf :: int

definition new_captures :: captures where
  "new_captures = \<lparr>dbRuns = [], dbContexts = [], dbCollections = [], dbVMs = [], dbResources = [], dbPerf = [],
     dbLease = None, dbLock = None, dbNextRun = 1, dbNextContext = 1, dbNextCollection = 1, dbNextPerf = 1\<rparr>"

datatype capture_error =
    AnotherOperation | AnotherCapture | LeaseGone | LockGone | BadLabel | ReservedLabel | Duplicate | NoRow
  | CaptureNotFound int | SelectorNotFound | SelectorEmpty | CapturePinned int | NothingToChange
  | NoneStored "string list" | NoPrevious "string list" | NoneBy "string list" | BadPruneAge | BadPruneKeep
  | CaptureScope scope_error

section \<open>Time\<close>

definition unix_milli :: "int \<Rightarrow> int" where
  "unix_milli t = t div 1000000"

text \<open>\<open>Duration.Milliseconds\<close>, towards zero.\<close>

definition milliseconds :: "int \<Rightarrow> int" where
  "milliseconds d = (if d < 0 then - ((- d) div 1000000) else d div 1000000)"

text \<open>The zero \<open>Time\<close> of Go, the first instant of the year 1.\<close>

definition fromMillis :: "int option \<Rightarrow> int" where
  "fromMillis v = (case v of None \<Rightarrow> - 62135596800 * 1000000000 | Some ms \<Rightarrow> ms * 1000000)"

definition leaseDuration :: int where
  "leaseDuration = 2 * 60 * 1000000000"

section \<open>The lock file\<close>

text \<open>
  The database is one in a file; beside one in memory there is no lock file. The lock file is taken in up to three
  steps, between which other processes can act.
\<close>

definition lock_create :: "string \<Rightarrow> int \<Rightarrow> captures \<Rightarrow> captures option" where
  "lock_create token expires db =
     (case dbLock db of None \<Rightarrow> Some (db\<lparr>dbLock := Some (Lock (unix_milli expires) token)\<rparr>) | Some f \<Rightarrow> None)"

definition lock_stale :: "int \<Rightarrow> captures \<Rightarrow> bool" where
  "lock_stale now db = (case dbLock db of Some (Lock expiry owner) \<Rightarrow> expiry \<le> unix_milli now | _ \<Rightarrow> False)"

definition lock_remove :: "captures \<Rightarrow> captures" where
  "lock_remove db = db\<lparr>dbLock := None\<rparr>"

definition acquireSidecarLease :: "string \<Rightarrow> int \<Rightarrow> int \<Rightarrow> captures \<Rightarrow> capture_error + captures" where
  "acquireSidecarLease token now expires db =
     (case lock_create token expires db of
        Some db' \<Rightarrow> Inr db'
      | None \<Rightarrow>
          if lock_stale now db
          then (case lock_create token expires (lock_remove db) of Some db' \<Rightarrow> Inr db' | None \<Rightarrow> Inl AnotherOperation)
          else Inl AnotherOperation)"

definition lock_owned :: "string \<Rightarrow> captures \<Rightarrow> bool" where
  "lock_owned token db = (case dbLock db of Some (Lock expiry owner) \<Rightarrow> owner = token | _ \<Rightarrow> False)"

definition renewSidecarLease :: "string \<Rightarrow> int \<Rightarrow> captures \<Rightarrow> capture_error + captures" where
  "renewSidecarLease token expires db =
     (if lock_owned token db then Inr (db\<lparr>dbLock := Some (Lock (unix_milli expires) token)\<rparr>) else Inl LockGone)"

definition releaseSidecarLease :: "string \<Rightarrow> captures \<Rightarrow> captures" where
  "releaseSidecarLease token db = (if lock_owned token db then lock_remove db else db)"

section \<open>The lease\<close>

record lease =
  leToken :: string
  leOperation :: string
  leExpires :: int

definition lease_live :: "string \<Rightarrow> int \<Rightarrow> captures \<Rightarrow> bool" where
  "lease_live token now db =
     (case dbLease db of None \<Rightarrow> False | Some l \<Rightarrow> lsToken l = token \<and> lsExpires l > unix_milli now)"

text \<open>The transaction of the acquisition: an expired lease is deleted, and a second row violates the check of the table.\<close>

definition insert_lease :: "string \<Rightarrow> string \<Rightarrow> int \<Rightarrow> captures \<Rightarrow> capture_error + captures" where
  "insert_lease token operation now db =
     (case dbLease db of
        Some l \<Rightarrow> if lsExpires l \<le> unix_milli now
          then Inr (db\<lparr>dbLease := Some \<lparr>lsToken = token, lsRun = 0, lsOperation = operation,
                 lsExpires = unix_milli (now + leaseDuration)\<rparr>\<rparr>)
          else Inl AnotherCapture
      | None \<Rightarrow> Inr (db\<lparr>dbLease := Some \<lparr>lsToken = token, lsRun = 0, lsOperation = operation,
                 lsExpires = unix_milli (now + leaseDuration)\<rparr>\<rparr>))"

definition AcquireOperationLease :: "string \<Rightarrow> int \<Rightarrow> string \<Rightarrow> captures \<Rightarrow> (capture_error + lease) \<times> captures" where
  "AcquireOperationLease token now operation db =
     (let op = (if operation = [] then ''operation'' else operation)
      in case acquireSidecarLease token now (now + leaseDuration) db of
           Inl e \<Rightarrow> (Inl e, db)
         | Inr locked \<Rightarrow>
             (case insert_lease token op now locked of
                Inl e \<Rightarrow> (Inl e, releaseSidecarLease token locked)
              | Inr db' \<Rightarrow> (Inr \<lparr>leToken = token, leOperation = op, leExpires = now + leaseDuration\<rparr>, db')))"

definition AcquireCaptureLease :: "string \<Rightarrow> int \<Rightarrow> captures \<Rightarrow> (capture_error + lease) \<times> captures" where
  "AcquireCaptureLease token now = AcquireOperationLease token now ''capture''"

text \<open>\<open>clock\<close> is what \<open>time.Now\<close> answers.\<close>

definition SetCaptureLeaseRun :: "string \<Rightarrow> int \<Rightarrow> int \<Rightarrow> captures \<Rightarrow> capture_error + captures" where
  "SetCaptureLeaseRun token run clock db =
     (if lease_live token clock db then Inr (db\<lparr>dbLease := map_option (\<lambda>l. l\<lparr>lsRun := run\<rparr>) (dbLease db)\<rparr>) else Inl LeaseGone)"

definition RenewCaptureLease :: "string \<Rightarrow> int \<Rightarrow> captures \<Rightarrow> (capture_error + int) \<times> captures" where
  "RenewCaptureLease token now db =
     (if lease_live token now db
      then (let expires = now + leaseDuration;
                renewed = db\<lparr>dbLease := map_option (\<lambda>l. l\<lparr>lsExpires := unix_milli expires\<rparr>) (dbLease db)\<rparr>
            in case renewSidecarLease token expires renewed of Inl e \<Rightarrow> (Inl e, renewed) | Inr db' \<Rightarrow> (Inr expires, db'))
      else (Inl LeaseGone, db))"

definition ReleaseCaptureLease :: "string \<Rightarrow> captures \<Rightarrow> captures" where
  "ReleaseCaptureLease token db =
     releaseSidecarLease token
       (db\<lparr>dbLease := (case dbLease db of Some l \<Rightarrow> if lsToken l = token then None else Some l | None \<Rightarrow> None)\<rparr>)"

definition ValidateCaptureLease :: "string \<Rightarrow> int \<Rightarrow> captures \<Rightarrow> capture_error + unit" where
  "ValidateCaptureLease token clock db = (if lease_live token clock db then Inr () else Inl LeaseGone)"

section \<open>Starting a run\<close>

record run_metadata =
  meLabel :: string
  meNote :: string
  mePinned :: bool
  meTool :: string
  meSchema :: string
  meLicenses :: bool

definition persistedKinds :: "string list" where
  "persistedKinds = [''vm'', ''host'', ''cluster'', ''datastore'', ''resourcepool'', ''vapp'', ''dvswitch'', ''network'', ''snapshot'']"

definition label_char :: "char \<Rightarrow> bool" where
  "label_char c \<longleftrightarrow> CHR ''a'' \<le> c \<and> c \<le> CHR ''z'' \<or> CHR ''A'' \<le> c \<and> c \<le> CHR ''Z'' \<or> is_digit c"

text \<open>\<open>runLabelPattern\<close>.\<close>

definition label_pattern :: "string \<Rightarrow> bool" where
  "label_pattern s \<longleftrightarrow>
     (case s of [] \<Rightarrow> False
      | c # cs \<Rightarrow> label_char c \<and> length cs \<le> 63
          \<and> list_all (\<lambda>d. label_char d \<or> d = CHR ''.'' \<or> d = CHR ''_'' \<or> d = CHR ''-'') cs)"

definition validateRunLabel :: "string \<Rightarrow> capture_error option" where
  "validateRunLabel label =
     (if label = [] then None
      else if \<not> label_pattern label then Some BadLabel
      else if equal_fold label ''latest'' \<or> equal_fold label ''previous'' then Some ReservedLabel
      else None)"

definition requestedCollectionCount :: "nat \<Rightarrow> run_metadata \<Rightarrow> int" where
  "requestedCollectionCount contexts meta =
     int (contexts * length persistedKinds + (if meLicenses meta then contexts else 0))"

text \<open>\<open>runs_label_unique\<close>: no two labels, of runs that have one, are equal but for their case.\<close>

definition label_taken :: "string \<Rightarrow> run_row list \<Rightarrow> bool" where
  "label_taken label rs \<longleftrightarrow> label \<noteq> [] \<and> list_ex (\<lambda>r. equal_fold (wrLabel r) label) rs"

text \<open>The rows of the contexts of a new run: \<open>id\<close> is its ID and \<open>first\<close> that of the first of them. A context here is its name, endpoint and datacenter.\<close>

fun new_contexts :: "int \<Rightarrow> int \<Rightarrow> int \<Rightarrow> (string \<times> string \<times> string) list \<Rightarrow> context_row list" where
  "new_contexts i first now [] = []"
| "new_contexts i first now ((name, endpoint, datacenter) # cs) =
     \<lparr>cwID = first, cwRun = i, cwName = name, cwEndpoint = endpoint, cwDatacenter = datacenter, cwVCenter = [], cwStarted = unix_milli now,
      cwFinished = None, cwStatus = ''running'', cwError = [], cwOffset = None, cwSource = None\<rparr> # new_contexts i (first + 1) now cs"

definition StartRunWithMetadata :: "string \<Rightarrow> (string \<times> string \<times> string) list \<Rightarrow> int \<Rightarrow> run_metadata \<Rightarrow> captures
    \<Rightarrow> (capture_error + run_row) \<times> captures" where
  "StartRunWithMetadata source contexts now meta db =
     (case validateRunLabel (meLabel meta) of
        Some e \<Rightarrow> (Inl e, db)
      | None \<Rightarrow>
          if label_taken (meLabel meta) (dbRuns db) \<or> \<not> distinct (map fst contexts) then (Inl Duplicate, db)
          else (let r = \<lparr>wrID = dbNextRun db, wrSource = (if source = [] then ''cli'' else source), wrLabel = meLabel meta, wrNote = meNote meta,
                      wrPinned = mePinned meta, wrTool = meTool meta, wrSchema = meSchema meta, wrStarted = unix_milli now, wrFinished = None,
                      wrStatus = ''running'', wrRequested = int (length contexts), wrSuccessful = 0,
                      wrRequestedCollections = requestedCollectionCount (length contexts) meta, wrSuccessfulCollections = 0\<rparr>
                in (Inr r, db\<lparr>dbRuns := r # dbRuns db, dbContexts := dbContexts db @ new_contexts (dbNextRun db) (dbNextContext db) now contexts,
                      dbNextRun := dbNextRun db + 1, dbNextContext := dbNextContext db + int (length contexts)\<rparr>)))"

section \<open>Saving a context\<close>

record found_vm =
  fvID :: string
  fvInstance :: string
  fvBIOS :: string
  fvName :: string
  fvPayload :: string  \<comment> \<open>its JSON\<close>
  fvSnapshots :: "diff_snapshot list"

record found_resource =
  frID :: string
  frName :: string
  frPayload :: string

record found_collection =
  fcoKind :: string
  fcoStatus :: string
  fcoError :: string
  fcoItems :: int
  fcoResources :: "found_resource list"

record context_result =
  crName :: string
  crVCenter :: string
  crStatus :: string
  crError :: string
  crSource :: "string option"
  crOffset :: "int option"
  crVMs :: "found_vm list"
  crCollections :: "found_collection list"

definition or_success :: "string \<Rightarrow> string" where
  "or_success status = (if status = [] then ''success'' else status)"

definition update_context :: "context_result \<Rightarrow> int \<Rightarrow> context_row \<Rightarrow> context_row" where
  "update_context res now c =
     c\<lparr>cwVCenter := crVCenter res, cwFinished := Some (unix_milli now), cwStatus := or_success (crStatus res), cwError := crError res,
       cwOffset := map_option milliseconds (crOffset res),
       cwSource := (case crSource res of Some p \<Rightarrow> Some p | None \<Rightarrow> cwSource c)\<rparr>"

definition stored_snapshot :: "diff_snapshot \<Rightarrow> diff_snapshot" where
  "stored_snapshot s = s\<lparr>dsnCreateTime := unix_milli (dsnCreateTime s) * 1000000\<rparr>"

definition vm_row_of :: "int \<Rightarrow> found_vm \<Rightarrow> vm_row" where
  "vm_row_of c v = \<lparr>vwContext = c, vwMoref = fvID v, vwInstance = fvInstance v, vwBIOS = fvBIOS v, vwName = fvName v,
     vwPayload = fvPayload v, vwSnapshots = map stored_snapshot (fvSnapshots v)\<rparr>"

fun save_vms :: "int \<Rightarrow> found_vm list \<Rightarrow> vm_row list \<Rightarrow> capture_error + vm_row list" where
  "save_vms c [] rows = Inr rows"
| "save_vms c (v # vs) rows =
     (if list_ex (\<lambda>w. vwContext w = c \<and> vwMoref w = fvID v) rows then Inl Duplicate else save_vms c vs (rows @ [vm_row_of c v]))"

text \<open>
  A resource without an ID or a name takes it from its payload, and one without an ID then its name; one without either is
  left out. \<open>encode\<close> is the JSON of a resource whose payload is empty, and \<open>identity\<close> the ID and name of a payload, empty when it has none.
\<close>

definition resource_row_of :: "(found_resource \<Rightarrow> string) \<Rightarrow> (string \<Rightarrow> string \<times> string) \<Rightarrow> int \<Rightarrow> found_resource \<Rightarrow> resource_row option" where
  "resource_row_of encode ident c r =
     (let payload = (if frPayload r = [] then encode r else frPayload r);
          moref = (if frID r = [] then fst (ident payload) else frID r);
          name = (if frName r = [] then snd (ident payload) else frName r);
          moref' = (if moref = [] then name else moref)
      in if moref' = [] then None else Some \<lparr>rwCollection = c, rwMoref = moref', rwName = name, rwPayload = payload\<rparr>)"

definition upsert_resource :: "resource_row \<Rightarrow> resource_row list \<Rightarrow> resource_row list" where
  "upsert_resource r rows =
     (if list_ex (\<lambda>s. rwCollection s = rwCollection r \<and> rwMoref s = rwMoref r) rows
      then map (\<lambda>s. if rwCollection s = rwCollection r \<and> rwMoref s = rwMoref r then r else s) rows else rows @ [r])"

definition save_resources :: "(found_resource \<Rightarrow> string) \<Rightarrow> (string \<Rightarrow> string \<times> string) \<Rightarrow> int \<Rightarrow> found_resource list
    \<Rightarrow> resource_row list \<Rightarrow> resource_row list" where
  "save_resources encode ident c rs rows = fold upsert_resource (List.map_filter (resource_row_of encode ident c) rs) rows"

definition collection_row_of :: "int \<Rightarrow> int \<Rightarrow> string \<Rightarrow> int \<Rightarrow> found_collection \<Rightarrow> collection_row" where
  "collection_row_of i c kind now f =
     \<lparr>clID = i, clContext = c, clKind = kind, clFinished = unix_milli now, clStatus = or_success (fcoStatus f), clError = fcoError f,
      clItems = (if fcoItems f = 0 \<and> fcoResources f \<noteq> [] then int (length (fcoResources f)) else fcoItems f)\<rparr>"

definition save_collection :: "(found_resource \<Rightarrow> string) \<Rightarrow> (string \<Rightarrow> string \<times> string) \<Rightarrow> int \<Rightarrow> int \<Rightarrow> found_collection
    \<Rightarrow> captures \<Rightarrow> captures" where
  "save_collection encode ident c now f db =
     (let kind = to_lower (trim_space (fcoKind f))
      in if kind = [] then db
         else case List.find (\<lambda>l. clContext l = c \<and> clKind l = kind) (dbCollections db) of
           Some old \<Rightarrow> db\<lparr>dbCollections := map (\<lambda>l. if clID l = clID old then collection_row_of (clID l) c kind now f else l) (dbCollections db),
             dbResources := save_resources encode ident (clID old) (fcoResources f) (dbResources db)\<rparr>
         | None \<Rightarrow> db\<lparr>dbCollections := dbCollections db @ [collection_row_of (dbNextCollection db) c kind now f],
             dbResources := save_resources encode ident (dbNextCollection db) (fcoResources f) (dbResources db),
             dbNextCollection := dbNextCollection db + 1\<rparr>)"

text \<open>The transaction of a save. One under a lease validates it first and again before it commits: \<open>clock\<close> are the times of the two.\<close>

definition save_rows :: "(found_resource \<Rightarrow> string) \<Rightarrow> (string \<Rightarrow> string \<times> string) \<Rightarrow> int \<Rightarrow> context_result \<Rightarrow> int \<Rightarrow> captures
    \<Rightarrow> capture_error + captures" where
  "save_rows encode ident run res now db =
     (case List.find (\<lambda>c. cwRun c = run \<and> cwName c = crName res) (dbContexts db) of
        None \<Rightarrow> Inl NoRow
      | Some c \<Rightarrow>
          (case save_vms (cwID c) (crVMs res) (dbVMs db) of
             Inl e \<Rightarrow> Inl e
           | Inr vms \<Rightarrow>
               Inr (fold (save_collection encode ident (cwID c) now) (crCollections res)
                 (db\<lparr>dbContexts := map (\<lambda>d. if cwRun d = run \<and> cwName d = crName res then update_context res now d else d) (dbContexts db),
                     dbVMs := vms\<rparr>))))"

definition token_live :: "string option \<Rightarrow> int \<Rightarrow> captures \<Rightarrow> bool" where
  "token_live token clock db = (case token of None \<Rightarrow> True | Some t \<Rightarrow> lease_live t clock db)"

definition saveContext :: "(found_resource \<Rightarrow> string) \<Rightarrow> (string \<Rightarrow> string \<times> string) \<Rightarrow> int \<Rightarrow> context_result \<Rightarrow> int \<Rightarrow> string option
    \<Rightarrow> int \<times> int \<Rightarrow> captures \<Rightarrow> (capture_error + unit) \<times> captures" where
  "saveContext encode ident run res now token clock db =
     (if \<not> token_live token (fst clock) db then (Inl LeaseGone, db)
      else case save_rows encode ident run res now db of
             Inl e \<Rightarrow> (Inl e, db)
           | Inr db' \<Rightarrow> if token_live token (snd clock) db' then (Inr (), db') else (Inl LeaseGone, db))"

section \<open>Finishing a run\<close>

definition ok_status :: "string \<Rightarrow> bool" where
  "ok_status s \<longleftrightarrow> s = ''success'' \<or> s = ''empty''"

definition contexts_of :: "int \<Rightarrow> captures \<Rightarrow> context_row list" where
  "contexts_of run db = filter (\<lambda>c. cwRun c = run) (dbContexts db)"

definition collections_of :: "int \<Rightarrow> captures \<Rightarrow> collection_row list" where
  "collections_of run db = filter (\<lambda>l. clContext l \<in> cwID ` set (contexts_of run db)) (dbCollections db)"

definition counting :: "('a \<Rightarrow> bool) \<Rightarrow> 'a list \<Rightarrow> int" where
  "counting P xs = int (length (filter P xs))"

text \<open>The status of a finished run: by its collections, or by its contexts when there are none.\<close>

definition run_status :: "run_row \<Rightarrow> context_row list \<Rightarrow> collection_row list \<Rightarrow> string" where
  "run_status r cs ls =
     (let success = counting (\<lambda>c. ok_status (cwStatus c)) cs; running = counting (\<lambda>c. cwStatus c = ''running'') cs;
          collected = int (length ls); good = counting (\<lambda>l. ok_status (clStatus l)) ls;
          unfinished = counting (\<lambda>l. clStatus l = ''running'') ls;
          requested = (if wrRequestedCollections r = 0 then collected else wrRequestedCollections r)
      in if collected > 0
         then (if good = 0 then ''failed''
               else if good = requested \<and> unfinished = 0 \<and> collected = requested then ''complete'' else ''partial'')
         else if success = 0 then ''failed''
         else if success = wrRequested r \<and> running = 0 then ''complete'' else ''partial'')"

definition finish_row :: "int \<Rightarrow> captures \<Rightarrow> run_row \<Rightarrow> run_row" where
  "finish_row now db r =
     (let cs = contexts_of (wrID r) db; ls = collections_of (wrID r) db
      in r\<lparr>wrFinished := Some (unix_milli now), wrStatus := run_status r cs ls,
           wrSuccessful := counting (\<lambda>c. ok_status (cwStatus c)) cs,
           wrSuccessfulCollections := counting (\<lambda>l. ok_status (clStatus l)) ls\<rparr>)"

definition GetRun :: "int \<Rightarrow> captures \<Rightarrow> capture_error + run_row" where
  "GetRun i db = (case List.find (\<lambda>r. wrID r = i) (dbRuns db) of Some r \<Rightarrow> Inr r | None \<Rightarrow> Inl (CaptureNotFound i))"

definition finishRun :: "int \<Rightarrow> int \<Rightarrow> string option \<Rightarrow> int \<Rightarrow> captures \<Rightarrow> (capture_error + run_row) \<times> captures" where
  "finishRun i now token clock db =
     (if \<not> token_live token clock db then (Inl LeaseGone, db)
      else case GetRun i db of
             Inl e \<Rightarrow> (Inl NoRow, db)
           | Inr r \<Rightarrow>
               if token_live token now db
               then (let db' = db\<lparr>dbRuns := map (\<lambda>s. if wrID s = i then finish_row now db s else s) (dbRuns db)\<rparr> in (GetRun i db', db'))
               else (Inl LeaseGone, db))"

text \<open>\<open>recoverOrphanedRuns\<close>, on opening the database: while no lease lives, whatever is running was interrupted.\<close>

definition interrupted :: "string \<Rightarrow> string" where
  "interrupted error = (if error = [] then ''capture interrupted'' else error)"

definition interrupt_context :: "int \<Rightarrow> context_row \<Rightarrow> context_row" where
  "interrupt_context now c =
     (if cwStatus c = ''running''
      then c\<lparr>cwStatus := ''failed'', cwError := interrupted (cwError c), cwFinished := Some (unix_milli now)\<rparr> else c)"

definition interrupt_collection :: "int \<Rightarrow> collection_row \<Rightarrow> collection_row" where
  "interrupt_collection now l =
     (if clStatus l = ''running''
      then l\<lparr>clStatus := ''failed'', clError := interrupted (clError l), clFinished := unix_milli now\<rparr> else l)"

definition interrupt_run :: "int \<Rightarrow> run_row \<Rightarrow> run_row" where
  "interrupt_run now r =
     (if wrStatus r = ''running'' then r\<lparr>wrStatus := ''failed'', wrFinished := Some (unix_milli now)\<rparr> else r)"

definition recoverOrphanedRuns :: "int \<Rightarrow> captures \<Rightarrow> captures" where
  "recoverOrphanedRuns now db =
     (if (case dbLease db of Some l \<Rightarrow> lsExpires l > unix_milli now | None \<Rightarrow> False) then db
      else db\<lparr>dbContexts := map (interrupt_context now) (dbContexts db),
              dbCollections := map (interrupt_collection now) (dbCollections db), dbRuns := map (interrupt_run now) (dbRuns db)\<rparr>)"

section \<open>Deleting runs\<close>

text \<open>The deletion of a run cascades to its contexts, their collections and machines, and the resources of the collections.\<close>

definition delete_runs :: "(run_row \<Rightarrow> bool) \<Rightarrow> captures \<Rightarrow> captures" where
  "delete_runs P db =
     (let runs = filter (\<lambda>r. \<not> P r) (dbRuns db); contexts = filter (\<lambda>c. cwRun c \<in> wrID ` set runs) (dbContexts db);
          collections = filter (\<lambda>l. clContext l \<in> cwID ` set contexts) (dbCollections db)
      in db\<lparr>dbRuns := runs, dbContexts := contexts, dbCollections := collections,
            dbVMs := filter (\<lambda>v. vwContext v \<in> cwID ` set contexts) (dbVMs db),
            dbResources := filter (\<lambda>r. rwCollection r \<in> clID ` set collections) (dbResources db)\<rparr>)"

definition DeleteRun :: "int \<Rightarrow> captures \<Rightarrow> (capture_error + unit) \<times> captures" where
  "DeleteRun i db =
     (case GetRun i db of
        Inl e \<Rightarrow> (Inl e, db)
      | Inr r \<Rightarrow> if wrPinned r then (Inl (CapturePinned i), db) else (Inr (), delete_runs (\<lambda>r. wrID r = i) db))"

record prune_candidate =
  pcRun :: run_row
  pcBytes :: int

record prune_result =
  prCutoff :: int
  prKeepLast :: int
  prExecute :: bool
  prCandidates :: "prune_candidate list"
  prDeleted :: int
  prPerfWindows :: int
  prPerfDeleted :: int

definition runBytes :: "int \<Rightarrow> captures \<Rightarrow> int" where
  "runBytes i db =
     sum_list (map (\<lambda>v. int (length (vwPayload v))) (filter (\<lambda>v. vwContext v \<in> cwID ` set (contexts_of i db)) (dbVMs db)))
     + sum_list (map (\<lambda>r. int (length (rwPayload r))) (filter (\<lambda>r. rwCollection r \<in> clID ` set (collections_of i db)) (dbResources db)))"

text \<open>The newest complete runs, of which \<open>keepLast\<close> are kept whatever their age; the runs are those of the table, newest first.\<close>

definition kept_runs :: "int \<Rightarrow> run_row list \<Rightarrow> run_row list" where
  "kept_runs keepLast rs = take (nat keepLast) (filter (\<lambda>r. wrStatus r = ''complete'') rs)"

definition prunable :: "int \<Rightarrow> run_row list \<Rightarrow> run_row \<Rightarrow> bool" where
  "prunable cutoff kept r \<longleftrightarrow>
     \<not> (wrStatus r = ''running'' \<or> wrPinned r \<or> fromMillis (wrFinished r) = fromMillis None \<or> \<not> fromMillis (wrFinished r) < cutoff \<or> wrID r \<in> wrID ` set kept)"

definition usable_window :: "perf_row \<Rightarrow> bool" where
  "usable_window p \<longleftrightarrow> pfStatus p = ''success'' \<or> pfStatus p = ''partial''"

definition newest_window :: "perf_row list \<Rightarrow> perf_row \<Rightarrow> bool" where
  "newest_window ps p \<longleftrightarrow>
     usable_window p \<and> list_all (\<lambda>q. usable_window q \<and> pfContext q = pfContext p \<and> pfVCenter q = pfVCenter p \<longrightarrow> pfID q \<le> pfID p) ps"

definition prunablePerfWindows :: "int \<Rightarrow> captures \<Rightarrow> int list" where
  "prunablePerfWindows cutoff db =
     map pfID (filter (\<lambda>p. (case pfFinished p of Some f \<Rightarrow> f < unix_milli cutoff | None \<Rightarrow> False) \<and> \<not> newest_window (dbPerf db) p) (dbPerf db))"

definition prune_plan :: "int \<Rightarrow> int \<Rightarrow> bool \<Rightarrow> captures \<Rightarrow> prune_result \<times> int list" where
  "prune_plan cutoff keepLast execute db =
     (let candidates = filter (prunable cutoff (kept_runs keepLast (dbRuns db))) (dbRuns db); windows = prunablePerfWindows cutoff db
      in (\<lparr>prCutoff = cutoff, prKeepLast = keepLast, prExecute = execute,
           prCandidates = map (\<lambda>r. \<lparr>pcRun = r, pcBytes = runBytes (wrID r) db\<rparr>) candidates,
           prDeleted = 0, prPerfWindows = int (length windows), prPerfDeleted = 0\<rparr>, windows))"

text \<open>The transaction, which looks again at what was pinned or is running.\<close>

definition prune_rows :: "int list \<Rightarrow> int list \<Rightarrow> captures \<Rightarrow> captures" where
  "prune_rows runs windows db =
     (let db' = delete_runs (\<lambda>r. wrID r \<in> set runs \<and> \<not> wrPinned r \<and> wrStatus r \<noteq> ''running'') db
      in db'\<lparr>dbPerf := filter (\<lambda>p. pfID p \<notin> set windows) (dbPerf db')\<rparr>)"

definition Prune :: "string \<Rightarrow> int \<Rightarrow> int \<Rightarrow> bool \<Rightarrow> int \<times> int \<Rightarrow> captures \<Rightarrow> (capture_error + prune_result) \<times> captures" where
  "Prune token olderThan keepLast execute clock db =
     (if olderThan \<le> 0 then (Inl BadPruneAge, db)
      else if keepLast < 0 then (Inl BadPruneKeep, db)
      else let (result, windows) = prune_plan (fst clock - olderThan) keepLast execute db
           in if \<not> execute \<or> prCandidates result = [] \<and> windows = [] then (Inr result, db)
              else (case AcquireOperationLease token (snd clock) ''prune'' db of
                      (Inl e, db') \<Rightarrow> (Inl e, db')
                    | (Inr le, db') \<Rightarrow>
                        (let pruned = prune_rows (map (wrID \<circ> pcRun) (prCandidates result)) windows db'
                         in (Inr (result\<lparr>prDeleted := int (length (dbRuns db')) - int (length (dbRuns pruned)),
                                prPerfDeleted := int (length (dbPerf db')) - int (length (dbPerf pruned))\<rparr>),
                             ReleaseCaptureLease (leToken le) pruned))))"

definition SavePerfWindow :: "string \<Rightarrow> string \<Rightarrow> int \<Rightarrow> string \<Rightarrow> captures \<Rightarrow> int \<times> captures" where
  "SavePerfWindow context vcenter finished status db =
     (dbNextPerf db, db\<lparr>dbPerf := dbPerf db @ [\<lparr>pfID = dbNextPerf db, pfContext = context, pfVCenter = vcenter,
        pfFinished = Some (unix_milli finished), pfStatus = status\<rparr>], dbNextPerf := dbNextPerf db + 1\<rparr>)"

section \<open>Reading the ledger\<close>

text \<open>A stored run, as \<open>GetRun\<close> and \<open>Runs\<close> return it, with the clock offsets of its contexts.\<close>

definition timed_of :: "captures \<Rightarrow> run_row \<Rightarrow> timed_run" where
  "timed_of db r =
     \<lparr>ruID = wrID r, ruSchema = wrSchema r, tmSource = wrSource r, tmStatus = wrStatus r, tmStarted = fromMillis (Some (wrStarted r)),
      tmFinished = fromMillis (wrFinished r),
      tmOffsets = List.map_filter (\<lambda>c. map_option (\<lambda>ms. (cwName c, ms)) (cwOffset c)) (contexts_of (wrID r) db)\<rparr>"

definition stored_runs :: "captures \<Rightarrow> timed_run list" where
  "stored_runs db = map (timed_of db) (dbRuns db)"

definition context_of :: "captures \<Rightarrow> context_row \<Rightarrow> context_run" where
  "context_of db c =
     \<lparr>ctName = cwName c, ctDatacenter = cwDatacenter c, ctVCenter = cwVCenter c, ctVMStatus = cwStatus c, ctError = cwError c,
      ctCollections = map (\<lambda>l. \<lparr>coKind = clKind l, coStatus = clStatus l, coError = clError l\<rparr>)
        (filter (\<lambda>l. clContext l = cwID c) (dbCollections db))\<rparr>"

text \<open>
  A row of a machine is read with its vCenter and context; \<open>decode\<close> is the machine of a payload, whose IDs are then those of the row.
  The payload of a row is one that the program wrote, and decodes.
\<close>

definition observed_vm :: "(string \<Rightarrow> diff_vm) \<Rightarrow> context_row \<Rightarrow> vm_row \<Rightarrow> diff_observation" where
  "observed_vm decode c v =
     \<lparr>doVCenterID = cwVCenter c, doContext = cwName c,
      doVM = (decode (vwPayload v))\<lparr>dmID := vwMoref v, dmInstanceUUID := vwInstance v, dmBIOSUUID := vwBIOS v\<rparr>\<rparr>"

definition vms_of :: "captures \<Rightarrow> context_row \<Rightarrow> vm_row list" where
  "vms_of db c = filter (\<lambda>v. vwContext v = cwID c) (dbVMs db)"

text \<open>\<open>loadVMs\<close>: the contexts of a run with their machines.\<close>

definition loadVMs :: "(string \<Rightarrow> diff_vm) \<Rightarrow> captures \<Rightarrow> int \<Rightarrow> side" where
  "loadVMs decode db i =
     map (\<lambda>c. (context_of db c, map (\<lambda>v. \<lparr>svObservation = observed_vm decode c v, svSnapshots = vwSnapshots v\<rparr>) (vms_of db c))) (contexts_of i db)"

text \<open>\<open>queryVMHistory\<close> without its conditions: every stored machine, those of the newest run first.\<close>

definition stored_history :: "(string \<Rightarrow> diff_vm) \<Rightarrow> captures \<Rightarrow> history_entry list" where
  "stored_history decode db =
     concat (map (\<lambda>r. concat (map (\<lambda>c. map (\<lambda>v.
         \<lparr>veRun = timed_of db r, veObservation = observed_vm decode c v, veSnapshots = vwSnapshots v\<rparr>) (vms_of db c)) (contexts_of (wrID r) db)))
       (dbRuns db))"

definition ledger_of :: "(string \<Rightarrow> diff_vm) \<Rightarrow> captures \<Rightarrow> ledger" where
  "ledger_of decode db =
     \<lparr>lgRuns = stored_runs db, lgContexts = map (\<lambda>c. (cwRun c, context_of db c)) (dbContexts db), lgVMs = stored_history decode db\<rparr>"

section \<open>Selecting a run\<close>

text \<open>\<open>recording\<close>: the stored runs that recorded every one of the contexts. The machines of the ledger are not read.\<close>

definition recording :: "captures \<Rightarrow> string list \<Rightarrow> capture_error + string list \<times> timed_run list" where
  "recording db contexts =
     (let L = \<lparr>lgRuns = stored_runs db, lgContexts = map (\<lambda>c. (cwRun c, context_of db c)) (dbContexts db), lgVMs = []\<rparr>
      in case validateHistoryContexts L contexts of
           Inl e \<Rightarrow> Inl (CaptureScope e)
         | Inr selected \<Rightarrow> Inr (selected, runsRecording L selected True))"

definition runBefore :: "captures \<Rightarrow> int \<Rightarrow> string list \<Rightarrow> capture_error + int" where
  "runBefore db end_at contexts =
     (case recording db contexts of
        Inl e \<Rightarrow> Inl e
      | Inr (selected, runs) \<Rightarrow>
          (case List.find (\<lambda>r. tmStarted r < end_at) runs of Some r \<Rightarrow> Inr (ruID r) | None \<Rightarrow> Inl (NoneBy selected)))"

text \<open>
  \<open>date\<close> is \<open>parseRunDate\<close>: the instant at which a text that is a date ends.
\<close>

definition ResolveRunForContexts :: "(string \<Rightarrow> int option) \<Rightarrow> captures \<Rightarrow> string \<Rightarrow> string list \<Rightarrow> capture_error + int" where
  "ResolveRunForContexts date db text contexts =
     (let sel = trim_space text
      in if sel = [] then Inl SelectorEmpty
         else if sel = ''latest'' \<or> sel = ''previous''
         then (case recording db contexts of
                 Inl e \<Rightarrow> Inl e
               | Inr (selected, runs) \<Rightarrow>
                   (if sel = ''latest''
                    then (case runs of [] \<Rightarrow> Inl (NoneStored selected) | r # _ \<Rightarrow> Inr (ruID r))
                    else (case runs of _ # r # _ \<Rightarrow> Inr (ruID r) | _ \<Rightarrow> Inl (NoPrevious selected))))
         else case atoi sel of
           Some i \<Rightarrow> (case GetRun i db of Inl e \<Rightarrow> Inl e | Inr r \<Rightarrow> Inr i)
         | None \<Rightarrow>
             (case List.find (\<lambda>r. equal_fold (wrLabel r) sel) (dbRuns db) of
                Some r \<Rightarrow> Inr (wrID r)
              | None \<Rightarrow> (case date sel of Some end_at \<Rightarrow> runBefore db end_at contexts | None \<Rightarrow> Inl SelectorNotFound)))"

definition ResolveRun :: "(string \<Rightarrow> int option) \<Rightarrow> captures \<Rightarrow> string \<Rightarrow> capture_error + int" where
  "ResolveRun date db text = ResolveRunForContexts date db text []"

definition DeleteRunSelector :: "(string \<Rightarrow> int option) \<Rightarrow> string \<Rightarrow> captures \<Rightarrow> (capture_error + unit) \<times> captures" where
  "DeleteRunSelector date sel db = (case ResolveRun date db sel of Inl e \<Rightarrow> (Inl e, db) | Inr i \<Rightarrow> DeleteRun i db)"

text \<open>The changed label must not be that of another run.\<close>

definition update_fields :: "string option \<Rightarrow> string option \<Rightarrow> bool option \<Rightarrow> run_row \<Rightarrow> run_row" where
  "update_fields label remark pinned r =
     r\<lparr>wrLabel := (case label of Some l \<Rightarrow> l | None \<Rightarrow> wrLabel r), wrNote := (case remark of Some n \<Rightarrow> n | None \<Rightarrow> wrNote r),
       wrPinned := (case pinned of Some p \<Rightarrow> p | None \<Rightarrow> wrPinned r)\<rparr>"

definition UpdateRunFields :: "(string \<Rightarrow> int option) \<Rightarrow> string \<Rightarrow> string option \<Rightarrow> string option \<Rightarrow> bool option \<Rightarrow> captures
    \<Rightarrow> (capture_error + run_row) \<times> captures" where
  "UpdateRunFields date sel label remark pinned db =
     (case ResolveRun date db sel of
        Inl e \<Rightarrow> (Inl e, db)
      | Inr i \<Rightarrow>
          (case (case label of Some l \<Rightarrow> validateRunLabel l | None \<Rightarrow> None) of
             Some e \<Rightarrow> (Inl e, db)
           | None \<Rightarrow>
               if label = None \<and> remark = None \<and> pinned = None then (Inl NothingToChange, db)
               else if (case label of Some l \<Rightarrow> label_taken l (filter (\<lambda>r. wrID r \<noteq> i) (dbRuns db)) | None \<Rightarrow> False) then (Inl Duplicate, db)
               else (let db' = db\<lparr>dbRuns := map (\<lambda>r. if wrID r = i then update_fields label remark pinned r else r) (dbRuns db)\<rparr>
                     in (GetRun i db', db'))))"

section \<open>A capture\<close>

text \<open>
  \<open>Capture\<close> of the collector: \<open>results\<close> are the contexts in the order in which they are saved, each with the times at which it is; a result
  that cannot be saved is reported as failed and not stored. The renewals of the lease are not in it.
\<close>

definition capture_saves :: "(found_resource \<Rightarrow> string) \<Rightarrow> (string \<Rightarrow> string \<times> string) \<Rightarrow> int \<Rightarrow> string
    \<Rightarrow> (context_result \<times> int \<times> int \<times> int) list \<Rightarrow> captures \<Rightarrow> captures" where
  "capture_saves encode ident run token results db =
     fold (\<lambda>(res, now, clock). snd \<circ> saveContext encode ident run res now (Some token) clock) results db"

definition Capture :: "(found_resource \<Rightarrow> string) \<Rightarrow> (string \<Rightarrow> string \<times> string) \<Rightarrow> string \<Rightarrow> string \<Rightarrow> (string \<times> string \<times> string) list
    \<Rightarrow> run_metadata \<Rightarrow> int \<times> int \<times> int \<Rightarrow> (context_result \<times> int \<times> int \<times> int) list \<Rightarrow> int \<times> int \<Rightarrow> captures
    \<Rightarrow> (capture_error + run_row) \<times> captures" where
  "Capture encode ident token source contexts meta start results finish db =
     (let (acquired, started, noted) = start
      in case AcquireCaptureLease token acquired db of
           (Inl e, db1) \<Rightarrow> (Inl e, db1)
         | (Inr le, db1) \<Rightarrow>
             (case StartRunWithMetadata source contexts started meta db1 of
                (Inl e, db2) \<Rightarrow> (Inl e, ReleaseCaptureLease token db2)
              | (Inr r, db2) \<Rightarrow>
                  (case SetCaptureLeaseRun token (wrID r) noted db2 of
                     Inl e \<Rightarrow> (Inl e, ReleaseCaptureLease token db2)
                   | Inr db3 \<Rightarrow>
                       (case finishRun (wrID r) (fst finish) (Some token) (snd finish) (capture_saves encode ident (wrID r) token results db3) of
                          (out, db4) \<Rightarrow> (out, ReleaseCaptureLease token db4)))))"

end
