(* ===== verification/CaptureLaws.thy ===== *)
theory CaptureLaws
  imports Captures
begin

text \<open>
  What holds of the ledger of captures after any sequence of operations: its keys and references, the lease of its writer, and what
  a capture that is complete has collected.
\<close>

section \<open>Sequences of operations\<close>

text \<open>What is outside the repository: the JSON of resources and the dates of the local time zone.\<close>

record outside =
  ouEncode :: "found_resource \<Rightarrow> string"
  ouIdentity :: "string \<Rightarrow> string \<times> string"
  ouDate :: "string \<Rightarrow> int option"

datatype store_op =
    OpAcquire string int string
  | OpNote string int int
  | OpRenew string int
  | OpRelease string
  | OpStart string "(string \<times> string \<times> string) list" int run_metadata
  | OpSave int context_result int "string option" "int \<times> int"
  | OpFinish int int "string option" int
  | OpRecover int
  | OpUpdate string "string option" "string option" "bool option"
  | OpDelete int
  | OpPrune "int list" "int list"
  | OpPerf string string int string

text \<open>The operations of all processes, each one transaction, one after the other: any interleaving of their calls.\<close>

fun apply_op :: "outside \<Rightarrow> store_op \<Rightarrow> captures \<Rightarrow> captures" where
  "apply_op out (OpAcquire token now operation) db = snd (AcquireOperationLease token now operation db)"
| "apply_op out (OpNote token run clock) db = (case SetCaptureLeaseRun token run clock db of Inl e \<Rightarrow> db | Inr db' \<Rightarrow> db')"
| "apply_op out (OpRenew token now) db = snd (RenewCaptureLease token now db)"
| "apply_op out (OpRelease token) db = ReleaseCaptureLease token db"
| "apply_op out (OpStart source contexts now meta) db = snd (StartRunWithMetadata source contexts now meta db)"
| "apply_op out (OpSave run res now token clock) db = snd (saveContext (ouEncode out) (ouIdentity out) run res now token clock db)"
| "apply_op out (OpFinish run now token clock) db = snd (finishRun run now token clock db)"
| "apply_op out (OpRecover now) db = recoverOrphanedRuns now db"
| "apply_op out (OpUpdate sel label remark pinned) db = snd (UpdateRunFields (ouDate out) sel label remark pinned db)"
| "apply_op out (OpDelete i) db = snd (DeleteRun i db)"
| "apply_op out (OpPrune runs windows) db = prune_rows runs windows db"
| "apply_op out (OpPerf context vcenter finished status) db = snd (SavePerfWindow context vcenter finished status db)"

definition apply_ops :: "outside \<Rightarrow> store_op list \<Rightarrow> captures \<Rightarrow> captures" where
  "apply_ops out ops db = fold (apply_op out) ops db"

lemma apply_ops_simps [simp]:
  "apply_ops out [] db = db" "apply_ops out (op # ops) db = apply_ops out ops (apply_op out op db)"
  "apply_ops out (ops @ ops') db = apply_ops out ops' (apply_ops out ops db)"
  by (simp_all add: apply_ops_def)

lemma apply_ops_invariant:
  assumes "I db" and "\<And>op db. op \<in> set ops \<Longrightarrow> I db \<Longrightarrow> I (apply_op out op db)"
  shows "I (apply_ops out ops db)"
  using assms by (induction ops arbitrary: db) simp_all

section \<open>What each operation leaves alone\<close>

text \<open>The tables, without the lease and the lock file.\<close>

definition tables :: "captures \<Rightarrow> captures" where
  "tables db = db\<lparr>dbLease := None, dbLock := None\<rparr>"

lemma tables_eq:
  assumes "tables db = tables db'"
  shows "dbRuns db = dbRuns db'" "dbContexts db = dbContexts db'" "dbCollections db = dbCollections db'" "dbVMs db = dbVMs db'"
    "dbResources db = dbResources db'" "dbPerf db = dbPerf db'" "dbNextRun db = dbNextRun db'" "dbNextContext db = dbNextContext db'"
    "dbNextCollection db = dbNextCollection db'"
proof -
  have "f (tables db) = f (tables db')" for f :: "captures \<Rightarrow> 'z" using assms by simp
  from this [of dbRuns] this [of dbContexts] this [of dbCollections] this [of dbVMs] this [of dbResources] this [of dbPerf]
    this [of dbNextRun] this [of dbNextContext] this [of dbNextCollection]
  show "dbRuns db = dbRuns db'" "dbContexts db = dbContexts db'" "dbCollections db = dbCollections db'" "dbVMs db = dbVMs db'"
    "dbResources db = dbResources db'" "dbPerf db = dbPerf db'" "dbNextRun db = dbNextRun db'" "dbNextContext db = dbNextContext db'"
    "dbNextCollection db = dbNextCollection db'"
    by (simp_all add: tables_def)
qed

lemma tables_simps [simp]:
  "tables (db\<lparr>dbLease := x\<rparr>) = tables db" "tables (db\<lparr>dbLock := y\<rparr>) = tables db"
  "tables (releaseSidecarLease token db) = tables db"
  by (simp_all add: tables_def releaseSidecarLease_def lock_remove_def)

lemma acquireSidecarLease_frame: "acquireSidecarLease token now expires db = Inr db' \<Longrightarrow> tables db' = tables db \<and> dbLease db' = dbLease db"
  by (auto simp: acquireSidecarLease_def lock_create_def lock_remove_def split: option.splits if_splits)

lemma lease_ops_tables:
  "tables (snd (AcquireOperationLease token now operation db)) = tables db"
  "SetCaptureLeaseRun token run clock db = Inr db1 \<Longrightarrow> tables db1 = tables db"
  "tables (snd (RenewCaptureLease token now db)) = tables db"
  "tables (ReleaseCaptureLease token db) = tables db"
proof -
  show "tables (snd (AcquireOperationLease token now operation db)) = tables db"
  proof (cases "acquireSidecarLease token now (now + leaseDuration) db")
    case (Inr locked)
    then show ?thesis using acquireSidecarLease_frame [OF Inr]
      by (auto simp: AcquireOperationLease_def insert_lease_def Let_def split: option.splits)
  qed (simp add: AcquireOperationLease_def)
qed (auto simp: SetCaptureLeaseRun_def RenewCaptureLease_def renewSidecarLease_def ReleaseCaptureLease_def Let_def split: if_splits sum.splits)

text \<open>The lease is changed by the operations on it only.\<close>

lemma releaseSidecarLease_lease [simp]: "dbLease (releaseSidecarLease token db) = dbLease db"
  by (simp add: releaseSidecarLease_def lock_remove_def)

lemma save_collection_lease [simp]: "dbLease (save_collection encode ident c now f db) = dbLease db"
  by (simp add: save_collection_def Let_def split: option.splits)

lemma fold_save_collection_lease [simp]: "dbLease (fold (save_collection encode ident c now) fs db) = dbLease db"
  by (induction fs arbitrary: db) simp_all

lemma save_rows_lease: "save_rows encode ident run res now db = Inr db' \<Longrightarrow> dbLease db' = dbLease db"
  by (auto simp: save_rows_def split: option.splits sum.splits)

lemma table_ops_lease [simp]:
  "dbLease (snd (StartRunWithMetadata source contexts now meta db)) = dbLease db"
  "dbLease (snd (saveContext encode ident run res now token clock db)) = dbLease db"
  "dbLease (snd (finishRun run now token clk db)) = dbLease db"
  "dbLease (recoverOrphanedRuns now db) = dbLease db"
  "dbLease (snd (UpdateRunFields date sel label remark pinned db)) = dbLease db"
  "dbLease (delete_runs P db) = dbLease db"
  "dbLease (snd (DeleteRun i db)) = dbLease db"
  "dbLease (prune_rows rs windows db) = dbLease db"
  "dbLease (snd (SavePerfWindow context vcenter finished status db)) = dbLease db"
proof -
  show "dbLease (snd (saveContext encode ident run res now token clock db)) = dbLease db"
    using save_rows_lease [of encode ident run res now db] by (auto simp: saveContext_def split: sum.splits)
qed (auto simp: StartRunWithMetadata_def finishRun_def recoverOrphanedRuns_def UpdateRunFields_def delete_runs_def DeleteRun_def
  prune_rows_def SavePerfWindow_def Let_def split: option.splits sum.splits)

lemma acquire_lease:
  "dbLease (snd (AcquireOperationLease token now operation db)) = dbLease db
   \<or> (dbLease db = None \<or> lsExpires (the (dbLease db)) \<le> unix_milli now)
     \<and> (\<exists>l. dbLease (snd (AcquireOperationLease token now operation db)) = Some l \<and> lsToken l = token
          \<and> lsExpires l = unix_milli (now + leaseDuration))"
proof (cases "acquireSidecarLease token now (now + leaseDuration) db")
  case (Inr locked)
  then show ?thesis using acquireSidecarLease_frame [OF Inr]
    by (auto simp: AcquireOperationLease_def insert_lease_def Let_def split: option.splits)
qed (simp add: AcquireOperationLease_def)

lemma renew_lease:
  "dbLease (snd (RenewCaptureLease token now db)) = dbLease db
   \<or> lease_live token now db \<and> dbLease (snd (RenewCaptureLease token now db)) =
       map_option (\<lambda>l. l\<lparr>lsExpires := unix_milli (now + leaseDuration)\<rparr>) (dbLease db)"
  by (auto simp: RenewCaptureLease_def renewSidecarLease_def Let_def split: sum.splits if_splits)

section \<open>The lease\<close>

definition holder :: "captures \<Rightarrow> string option" where
  "holder db = map_option lsToken (dbLease db)"

lemma apply_op_holder:
  "holder (apply_op out op db) = holder db \<or> holder (apply_op out op db) = None
   \<or> (\<exists>token now operation. op = OpAcquire token now operation \<and> holder (apply_op out op db) = Some token)"
proof (cases op)
  case (OpAcquire token now operation)
  then show ?thesis using acquire_lease [of token now operation db] by (auto simp: holder_def)
next
  case (OpNote token run clock)
  then show ?thesis by (auto simp: holder_def SetCaptureLeaseRun_def option.map_comp comp_def)
next
  case (OpRenew token now)
  then show ?thesis using renew_lease [of token now db] by (auto simp: holder_def option.map_comp comp_def)
next
  case (OpRelease token)
  then show ?thesis by (auto simp: holder_def ReleaseCaptureLease_def split: option.splits)
qed (simp_all add: holder_def)

lemma not_holder_dead: "holder db \<noteq> Some token \<Longrightarrow> \<not> lease_live token now db"
  by (auto simp: holder_def lease_live_def split: option.splits)

lemma dead_writer:
  assumes "holder db \<noteq> Some token"
  shows "saveContext encode ident run res now (Some token) clock db = (Inl LeaseGone, db)"
    and "finishRun run now (Some token) clk db = (Inl LeaseGone, db)"
    and "RenewCaptureLease token now db = (Inl LeaseGone, db)"
    and "SetCaptureLeaseRun token run clk db = Inl LeaseGone"
  using not_holder_dead [OF assms]
  by (simp_all add: saveContext_def finishRun_def token_live_def RenewCaptureLease_def SetCaptureLeaseRun_def)

text \<open>
  A writer whose lease was taken over is shut out for good: whatever all processes do afterwards, nothing under its token takes
  effect unless it acquires the lease again.
\<close>

theorem stale_writer_fenced:
  assumes "holder db = Some other" and "other \<noteq> token"
    and "\<forall>op \<in> set ops. \<forall>now operation. op \<noteq> OpAcquire token now operation"
  shows "saveContext encode ident run res now (Some token) clock (apply_ops out ops db) = (Inl LeaseGone, apply_ops out ops db)
    \<and> finishRun run now (Some token) clk (apply_ops out ops db) = (Inl LeaseGone, apply_ops out ops db)
    \<and> RenewCaptureLease token now (apply_ops out ops db) = (Inl LeaseGone, apply_ops out ops db)"
proof -
  have "holder (apply_ops out ops db) \<noteq> Some token"
  proof (rule apply_ops_invariant)
    show "holder db \<noteq> Some token" using assms(1,2) by simp
    fix op db assume "op \<in> set ops" "holder db \<noteq> Some token"
    then show "holder (apply_op out op db) \<noteq> Some token" using assms(3) apply_op_holder [of out op db] by auto
  qed
  then show ?thesis by (simp add: dead_writer)
qed

text \<open>While a lease lives, no one else gets one: the acquisitions before its end fail, and nothing that the others do takes it away.\<close>

definition lasts :: "string \<Rightarrow> int \<Rightarrow> captures \<Rightarrow> bool" where
  "lasts token end_ms db \<longleftrightarrow> (\<exists>l. dbLease db = Some l \<and> lsToken l = token \<and> end_ms \<le> lsExpires l)"

definition spares_lease :: "string \<Rightarrow> int \<Rightarrow> store_op \<Rightarrow> bool" where
  "spares_lease token end_ms op \<longleftrightarrow>
     (case op of
        OpAcquire t now operation \<Rightarrow> unix_milli now < end_ms
      | OpRenew t now \<Rightarrow> t = token \<longrightarrow> end_ms \<le> unix_milli (now + leaseDuration)
      | OpRelease t \<Rightarrow> t \<noteq> token
      | _ \<Rightarrow> True)"

lemma apply_op_lasts:
  assumes "lasts token end_ms db" and "spares_lease token end_ms op"
  shows "lasts token end_ms (apply_op out op db)"
proof (cases op)
  case (OpAcquire t now operation)
  then show ?thesis using assms acquire_lease [of t now operation db] by (auto simp: lasts_def spares_lease_def)
next
  case (OpNote t run clock)
  then show ?thesis using assms(1) by (auto simp: lasts_def SetCaptureLeaseRun_def)
next
  case (OpRenew t now)
  then show ?thesis using assms renew_lease [of t now db] by (auto simp: lasts_def spares_lease_def lease_live_def)
next
  case (OpRelease t)
  then show ?thesis using assms by (auto simp: lasts_def spares_lease_def ReleaseCaptureLease_def)
qed (use assms(1) in \<open>simp_all add: lasts_def\<close>)

text \<open>
  C9: There is one writer at a time. From the state in which a lease lives until some instant, through any operations of all
  processes before that instant that do not release it or set it back, every other process that tries to acquire the lease fails, and
  everything that it tries under another token has no effect.
\<close>

theorem one_writer:
  assumes "lasts token end_ms db" and "\<forall>op \<in> set ops. spares_lease token end_ms op" and "other \<noteq> token"
  shows "holder (apply_ops out ops db) = Some token
    \<and> (unix_milli at < end_ms \<longrightarrow> (\<exists>e. fst (AcquireOperationLease other at operation (apply_ops out ops db)) = Inl e))
    \<and> saveContext encode ident run res now (Some other) clock (apply_ops out ops db) = (Inl LeaseGone, apply_ops out ops db)
    \<and> finishRun run now (Some other) clk (apply_ops out ops db) = (Inl LeaseGone, apply_ops out ops db)"
proof -
  let ?db = "apply_ops out ops db"
  have l: "lasts token end_ms ?db"
    using assms(1) by (rule apply_ops_invariant) (use assms(2) apply_op_lasts in blast)
  then have h: "holder ?db = Some token" by (auto simp: lasts_def holder_def)
  have "\<exists>e. fst (AcquireOperationLease other at operation ?db) = Inl e" if "unix_milli at < end_ms"
  proof (cases "acquireSidecarLease other at (at + leaseDuration) ?db")
    case (Inr locked)
    then have "insert_lease other (if operation = [] then ''operation'' else operation) at locked = Inl AnotherCapture"
      using acquireSidecarLease_frame [OF Inr] l that by (auto simp: insert_lease_def lasts_def)
    then show ?thesis using Inr by (simp add: AcquireOperationLease_def Let_def)
  qed (simp add: AcquireOperationLease_def)
  moreover have "holder ?db \<noteq> Some other" using h assms(3) by simp
  ultimately show ?thesis using h by (simp add: dead_writer)
qed

section \<open>Keys and references\<close>

definition keys_below :: "('a \<Rightarrow> int) \<Rightarrow> int \<Rightarrow> 'a list \<Rightarrow> bool" where
  "keys_below f n xs \<longleftrightarrow> distinct (map f xs) \<and> (\<forall>x \<in> set xs. f x < n)"

text \<open>A run has an end once it does not run any more.\<close>

definition ended_ok :: "run_row \<Rightarrow> bool" where
  "ended_ok r \<longleftrightarrow> (wrStatus r = ''running'' \<longleftrightarrow> wrFinished r = None) \<and> wrStatus r \<in> {''running'', ''complete'', ''partial'', ''failed''}"

text \<open>No two labels are equal but for their case.\<close>

definition labels_ok :: "run_row list \<Rightarrow> bool" where
  "labels_ok rs \<longleftrightarrow> (\<forall>r \<in> set rs. \<forall>s \<in> set rs. wrLabel r \<noteq> [] \<and> equal_fold (wrLabel r) (wrLabel s) \<longrightarrow> wrID r = wrID s)"

lemma labels_okD: "labels_ok rs \<Longrightarrow> r \<in> set rs \<Longrightarrow> s \<in> set rs \<Longrightarrow> wrLabel r \<noteq> [] \<Longrightarrow> equal_fold (wrLabel r) (wrLabel s) \<Longrightarrow> wrID r = wrID s"
  unfolding labels_ok_def by blast

lemma labels_okI:
  "(\<And>r s. r \<in> set rs \<Longrightarrow> s \<in> set rs \<Longrightarrow> wrLabel r \<noteq> [] \<Longrightarrow> equal_fold (wrLabel r) (wrLabel s) \<Longrightarrow> wrID r = wrID s) \<Longrightarrow> labels_ok rs"
  unfolding labels_ok_def by blast

lemma labels_ok_filter: "labels_ok rs \<Longrightarrow> labels_ok (filter P rs)"
  by (rule labels_okI) (auto dest: labels_okD)

definition runs_ok :: "captures \<Rightarrow> bool" where
  "runs_ok db \<longleftrightarrow>
     sorted_wrt (\<lambda>r s. wrID s < wrID r) (dbRuns db) \<and> (\<forall>r \<in> set (dbRuns db). wrID r < dbNextRun db)
     \<and> labels_ok (dbRuns db)
     \<and> (\<forall>r \<in> set (dbRuns db). ended_ok r)"

definition contexts_ok :: "captures \<Rightarrow> bool" where
  "contexts_ok db \<longleftrightarrow>
     keys_below cwID (dbNextContext db) (dbContexts db) \<and> distinct (map (\<lambda>c. (cwRun c, cwName c)) (dbContexts db))
     \<and> cwRun ` set (dbContexts db) \<subseteq> wrID ` set (dbRuns db)
     \<and> (\<forall>r \<in> set (dbRuns db). int (length (contexts_of (wrID r) db)) = wrRequested r
          \<and> (wrRequestedCollections r = 9 * wrRequested r \<or> wrRequestedCollections r = 10 * wrRequested r))"

definition collections_ok :: "captures \<Rightarrow> bool" where
  "collections_ok db \<longleftrightarrow>
     keys_below clID (dbNextCollection db) (dbCollections db) \<and> distinct (map (\<lambda>l. (clContext l, clKind l)) (dbCollections db))
     \<and> clContext ` set (dbCollections db) \<subseteq> cwID ` set (dbContexts db)"

definition observations_ok :: "captures \<Rightarrow> bool" where
  "observations_ok db \<longleftrightarrow>
     distinct (map (\<lambda>v. (vwContext v, vwMoref v)) (dbVMs db)) \<and> vwContext ` set (dbVMs db) \<subseteq> cwID ` set (dbContexts db)
     \<and> distinct (map (\<lambda>r. (rwCollection r, rwMoref r)) (dbResources db)) \<and> rwCollection ` set (dbResources db) \<subseteq> clID ` set (dbCollections db)"

definition captures_ok :: "captures \<Rightarrow> bool" where
  "captures_ok db \<longleftrightarrow> runs_ok db \<and> contexts_ok db \<and> collections_ok db \<and> observations_ok db"

lemmas ok_defs = captures_ok_def runs_ok_def contexts_ok_def collections_ok_def observations_ok_def

lemma captures_ok_tables: "tables db = tables db' \<Longrightarrow> captures_ok db = captures_ok db'"
  using tables_eq [of db db'] by (simp add: ok_defs contexts_of_def)

lemma distinct_map_filter: "distinct (map f xs) \<Longrightarrow> distinct (map f (filter P xs))"
  by (induction xs) auto

lemma keys_below_filter: "keys_below f n xs \<Longrightarrow> keys_below f n (filter P xs)"
  by (simp add: keys_below_def distinct_map_filter)

lemma contexts_of_delete:
  assumes "r \<in> set (dbRuns db)" and "\<not> P r"
  shows "contexts_of (wrID r) (delete_runs P db) = contexts_of (wrID r) db"
  using assms unfolding contexts_of_def delete_runs_def Let_def
  by (simp, intro filter_cong) (auto intro!: image_eqI [of _ wrID r])

lemma captures_ok_delete:
  assumes "captures_ok db"
  shows "captures_ok (delete_runs P db)"
proof -
  show ?thesis
    using contexts_of_delete [of _ db P] assms by (auto simp: ok_defs delete_runs_def Let_def keys_below_filter distinct_map_filter sorted_wrt_filter labels_ok_filter)
qed

lemma map_update_key:
  assumes "\<And>x. f (g x) = f x"
  shows "map f (map g xs) = map f xs" and "f ` set (map g xs) = f ` set xs"
  using assms by (simp_all add: image_image)

text \<open>Updating the runs in a way that keeps their IDs and what was requested.\<close>

lemma captures_ok_map_runs:
  assumes "captures_ok db" and g: "\<And>r. wrID (g r) = wrID r \<and> wrRequested (g r) = wrRequested r
      \<and> wrRequestedCollections (g r) = wrRequestedCollections r"
    and "runs_ok (db\<lparr>dbRuns := map g (dbRuns db)\<rparr>)"
  shows "captures_ok (db\<lparr>dbRuns := map g (dbRuns db)\<rparr>)"
  using assms(1,3) g by (auto simp: captures_ok_def contexts_ok_def collections_ok_def observations_ok_def contexts_of_def image_image)

lemma runs_ok_map_labels:
  assumes "runs_ok db" and g: "\<And>r. wrID (g r) = wrID r" and "\<And>r. r \<in> set (dbRuns db) \<Longrightarrow> ended_ok (g r)"
    and "\<And>r s. r \<in> set (dbRuns db) \<Longrightarrow> s \<in> set (dbRuns db) \<Longrightarrow> wrLabel (g r) \<noteq> [] \<Longrightarrow> equal_fold (wrLabel (g r)) (wrLabel (g s))
      \<Longrightarrow> wrID r = wrID s"
  shows "runs_ok (db\<lparr>dbRuns := map g (dbRuns db)\<rparr>)"
proof -
  have "labels_ok (map g (dbRuns db))"
  proof (rule labels_okI)
    fix x y assume xy: "x \<in> set (map g (dbRuns db))" "y \<in> set (map g (dbRuns db))" "wrLabel x \<noteq> []" "equal_fold (wrLabel x) (wrLabel y)"
    then obtain r s where "r \<in> set (dbRuns db)" "s \<in> set (dbRuns db)" "x = g r" "y = g s" by auto
    then show "wrID x = wrID y" using assms(4) [of r s] xy(3,4) g by simp
  qed
  then show ?thesis using assms(1-3) by (simp add: runs_ok_def sorted_wrt_map)
qed

lemma runs_ok_map:
  assumes "runs_ok db" and g: "\<And>r. wrID (g r) = wrID r \<and> wrLabel (g r) = wrLabel r"
    and ended: "\<And>r. r \<in> set (dbRuns db) \<Longrightarrow> ended_ok (g r)"
  shows "runs_ok (db\<lparr>dbRuns := map g (dbRuns db)\<rparr>)"
proof (rule runs_ok_map_labels [OF assms(1) _ ended])
  show "wrID r = wrID s" if "r \<in> set (dbRuns db)" "s \<in> set (dbRuns db)" "wrLabel (g r) \<noteq> []" "equal_fold (wrLabel (g r)) (wrLabel (g s))" for r s
  proof -
    have "labels_ok (dbRuns db)" using assms(1) unfolding runs_ok_def by blast
    then show ?thesis using labels_okD [OF _ that(1,2)] that(3,4) g by simp
  qed
qed (simp_all add: g)

lemma run_status_kind: "run_status r cs ls \<in> {''complete'', ''partial'', ''failed''}"
  by (simp add: run_status_def Let_def)

lemma ended_ok_finish: "ended_ok (finish_row now db r)"
  using run_status_kind [of r "contexts_of (wrID r) db" "collections_of (wrID r) db"]
  by (auto simp: ended_ok_def finish_row_def Let_def)

lemma captures_ok_finish:
  assumes "captures_ok db"
  shows "captures_ok (snd (finishRun i now token clock db))"
proof -
  let ?g = "\<lambda>s. if wrID s = i then finish_row now db s else s"
  have "captures_ok (db\<lparr>dbRuns := map ?g (dbRuns db)\<rparr>)"
  proof (rule captures_ok_map_runs [OF assms])
    show "runs_ok (db\<lparr>dbRuns := map ?g (dbRuns db)\<rparr>)"
    proof (rule runs_ok_map)
      fix r assume "r \<in> set (dbRuns db)"
      then show "ended_ok (?g r)"
        using assms by (simp add: captures_ok_def runs_ok_def ended_ok_finish)
    qed (use assms in \<open>simp_all add: captures_ok_def finish_row_def Let_def\<close>)
  qed (simp add: finish_row_def Let_def)
  then show ?thesis using assms by (auto simp: finishRun_def Let_def split: sum.splits)
qed

lemma captures_ok_map_contexts:
  assumes "captures_ok db" and g: "\<And>c. cwID (g c) = cwID c \<and> cwRun (g c) = cwRun c \<and> cwName (g c) = cwName c"
  shows "captures_ok (db\<lparr>dbContexts := map g (dbContexts db)\<rparr>)"
  using assms(1) g by (simp add: ok_defs keys_below_def contexts_of_def image_image filter_map comp_def)

lemma map_cong_keys:
  assumes "\<And>x. x \<in> set xs \<Longrightarrow> f (g x) = f x"
  shows "map f (map g xs) = map f xs" and "f ` set (map g xs) = f ` set xs"
proof -
  show "map f (map g xs) = map f xs" using assms by simp
  then show "f ` set (map g xs) = f ` set xs" by (metis set_map)
qed

lemma captures_ok_map_collections:
  assumes "captures_ok db"
    and g: "\<And>l. l \<in> set (dbCollections db) \<Longrightarrow> clID (g l) = clID l \<and> clContext (g l) = clContext l \<and> clKind (g l) = clKind l"
  shows "captures_ok (db\<lparr>dbCollections := map g (dbCollections db)\<rparr>)"
proof -
  let ?ls = "dbCollections db"
  have "map clID (map g ?ls) = map clID ?ls" "clID ` set (map g ?ls) = clID ` set ?ls"
    by (rule map_cong_keys; simp add: g)+
  moreover have "clContext ` set (map g ?ls) = clContext ` set ?ls" using g by (intro map_cong_keys(2)) simp
  moreover have "map (\<lambda>l. (clContext l, clKind l)) (map g ?ls) = map (\<lambda>l. (clContext l, clKind l)) ?ls"
    using g by (intro map_cong_keys(1)) simp
  moreover have "keys_below clID (dbNextCollection db) (map g ?ls)"
    using assms g by (auto simp: captures_ok_def collections_ok_def keys_below_def calculation(1) simp del: map_map)
  ultimately show ?thesis
    using assms(1) by (simp add: captures_ok_def runs_ok_def contexts_ok_def collections_ok_def observations_ok_def contexts_of_def
      del: map_map set_map)
qed

lemma captures_ok_resources:
  assumes "captures_ok db" and "distinct (map (\<lambda>r. (rwCollection r, rwMoref r)) rs)" and "rwCollection ` set rs \<subseteq> clID ` set (dbCollections db)"
  shows "captures_ok (db\<lparr>dbResources := rs\<rparr>)"
  using assms by (simp add: captures_ok_def runs_ok_def contexts_ok_def collections_ok_def observations_ok_def contexts_of_def)

lemma captures_ok_recover:
  assumes "captures_ok db"
  shows "captures_ok (recoverOrphanedRuns now db)"
proof -
  let ?r = "db\<lparr>dbRuns := map (interrupt_run now) (dbRuns db)\<rparr>"
  have "captures_ok ?r"
  proof (rule captures_ok_map_runs [OF assms])
    show "runs_ok ?r"
      by (rule runs_ok_map) (use assms in \<open>auto simp: interrupt_run_def captures_ok_def runs_ok_def ended_ok_def\<close>)
  qed (simp add: interrupt_run_def)
  then have "captures_ok (?r\<lparr>dbContexts := map (interrupt_context now) (dbContexts ?r)\<rparr>)"
    by (rule captures_ok_map_contexts) (simp add: interrupt_context_def)
  then have step: "captures_ok (?r\<lparr>dbContexts := map (interrupt_context now) (dbContexts ?r),
      dbCollections := map (interrupt_collection now) (dbCollections (?r\<lparr>dbContexts := map (interrupt_context now) (dbContexts ?r)\<rparr>))\<rparr>)"
    by (rule captures_ok_map_collections) (simp add: interrupt_collection_def)
  have eq: "?r\<lparr>dbContexts := map (interrupt_context now) (dbContexts ?r),
      dbCollections := map (interrupt_collection now) (dbCollections (?r\<lparr>dbContexts := map (interrupt_context now) (dbContexts ?r)\<rparr>))\<rparr>
    = db\<lparr>dbContexts := map (interrupt_context now) (dbContexts db), dbCollections := map (interrupt_collection now) (dbCollections db),
        dbRuns := map (interrupt_run now) (dbRuns db)\<rparr>" by simp
  show ?thesis using assms step unfolding eq recoverOrphanedRuns_def by (split if_split) blast
qed

lemma runs_okD:
  "runs_ok db \<Longrightarrow> labels_ok (dbRuns db)"
  "runs_ok db \<Longrightarrow> r \<in> set (dbRuns db) \<Longrightarrow> wrID r < dbNextRun db"
  "runs_ok db \<Longrightarrow> r \<in> set (dbRuns db) \<Longrightarrow> ended_ok r"
  unfolding runs_ok_def by blast+

lemma update_fields_sel [simp]:
  "wrID (update_fields label remark pinned r) = wrID r" "wrRequested (update_fields label remark pinned r) = wrRequested r"
  "wrRequestedCollections (update_fields label remark pinned r) = wrRequestedCollections r"
  "wrLabel (update_fields label remark pinned r) = (case label of Some l \<Rightarrow> l | None \<Rightarrow> wrLabel r)"
  "ended_ok (update_fields label remark pinned r) = ended_ok r"
  by (simp_all add: update_fields_def ended_ok_def)

lemma captures_ok_update:
  assumes "captures_ok db"
  shows "captures_ok (snd (UpdateRunFields date sel label remark pinned db))"
proof -
  have "captures_ok (db\<lparr>dbRuns := map (\<lambda>r. if wrID r = i then update_fields label remark pinned r else r) (dbRuns db)\<rparr>)"
    if free: "\<not> (case label of Some l \<Rightarrow> label_taken l (filter (\<lambda>r. wrID r \<noteq> i) (dbRuns db)) | None \<Rightarrow> False)" for i
  proof (rule captures_ok_map_runs [OF assms])
    let ?g = "\<lambda>r. if wrID r = i then update_fields label remark pinned r else r"
    note old = labels_okD [OF runs_okD(1) [OF conjunct1 [OF assms [unfolded captures_ok_def]]]]
    have uniq: "wrID r = wrID s"
      if rs: "r \<in> set (dbRuns db)" "s \<in> set (dbRuns db)" and same: "wrLabel (?g r) \<noteq> []" "equal_fold (wrLabel (?g r)) (wrLabel (?g s))" for r s
    proof (rule ccontr)
      assume ne: "wrID r \<noteq> wrID s"
      have "label \<noteq> None \<and> (wrID r = i \<or> wrID s = i)"
        using old [OF rs] same ne by (cases label) (auto split: if_splits)
      then obtain l where l: "label = Some l" and i: "wrID r = i \<or> wrID s = i" by blast
      have no: "\<not> equal_fold (wrLabel q) l" if "q \<in> set (dbRuns db)" "wrID q \<noteq> i" "l \<noteq> []" for q
        using free that unfolding l by (auto simp: label_taken_def list_ex_iff)
      from i show False
      proof
        assume "wrID r = i"
        then have "l \<noteq> []" "equal_fold (wrLabel s) l" "wrID s \<noteq> i" using same ne l by (auto simp: equal_fold_sym)
        then show False using no [OF rs(2)] by blast
      next
        assume s: "wrID s = i"
        then have "equal_fold (wrLabel r) l" "wrLabel r \<noteq> []" "wrID r \<noteq> i" using same ne l by auto
        moreover from this have "l \<noteq> []" by (auto simp: equal_fold_def to_lower_def)
        ultimately show False using no [OF rs(1)] by blast
      qed
    qed
    show "runs_ok (db\<lparr>dbRuns := map ?g (dbRuns db)\<rparr>)"
    proof (rule runs_ok_map_labels [OF _ _ _ uniq])
      show "runs_ok db" using assms by (simp add: captures_ok_def)
      then show "ended_ok (?g r)" if "r \<in> set (dbRuns db)" for r using runs_okD(3) that by simp
    qed simp
  qed simp
  then show ?thesis using assms by (auto simp: UpdateRunFields_def Let_def split: sum.splits option.splits)
qed

lemma new_contexts_keys:
  "map cwID (new_contexts i first now cs) = map (\<lambda>k. first + int k) [0..<length cs]"
  "c \<in> set (new_contexts i first now cs) \<Longrightarrow> cwRun c = i"
  "map cwName (new_contexts i first now cs) = map fst cs"
  "length (new_contexts i first now cs) = length cs"
proof -
  show "map cwID (new_contexts i first now cs) = map (\<lambda>k. first + int k) [0..<length cs]"
  proof (induction i first now cs rule: new_contexts.induct)
    case (2 i first now name endpoint datacenter cs)
    have "[0..<Suc (length cs)] = 0 # map Suc [0..<length cs]" by (subst upt_conv_Cons) (simp_all only: map_Suc_upt zero_less_Suc One_nat_def)
    then show ?case using 2 by (simp del: upt_Suc)
  qed simp
qed (induction i first now cs rule: new_contexts.induct; auto)+

lemma labels_ok_Cons:
  assumes ok: "labels_ok rs" and free: "\<not> label_taken (wrLabel r) rs"
  shows "labels_ok (r # rs)"
proof (rule labels_okI)
  fix s t assume st: "s \<in> set (r # rs)" "t \<in> set (r # rs)" "wrLabel s \<noteq> []" "equal_fold (wrLabel s) (wrLabel t)"
  have other: "\<not> equal_fold (wrLabel q) (wrLabel r)" if "q \<in> set rs" "wrLabel q \<noteq> []" for q
    using free that by (cases "wrLabel r = []") (auto simp: label_taken_def list_ex_iff equal_fold_def to_lower_def)
  have "wrLabel t \<noteq> []" using st(3,4) by (auto simp: equal_fold_def to_lower_def)
  with st other [of s] other [of t] have "s = r \<and> t = r \<or> s \<in> set rs \<and> t \<in> set rs" by (auto simp: equal_fold_sym)
  then show "wrID s = wrID t" using labels_okD [OF ok _ _ st(3,4)] by blast
qed

lemma runs_ok_start:
  assumes "runs_ok db" and "\<not> label_taken (wrLabel r) (dbRuns db)" and "wrID r = dbNextRun db" and "ended_ok r"
  shows "runs_ok (db\<lparr>dbRuns := r # dbRuns db, dbContexts := cs, dbNextRun := dbNextRun db + 1, dbNextContext := n\<rparr>)"
  using assms labels_ok_Cons [OF runs_okD(1) [OF assms(1)] assms(2)] unfolding runs_ok_def by force

lemma contexts_ok_start:
  assumes ok: "contexts_ok db" "runs_ok db" and names: "distinct (map fst contexts)" and r: "wrID r = dbNextRun db"
      "wrRequested r = int (length contexts)" "wrRequestedCollections r = requestedCollectionCount (length contexts) meta"
  shows "contexts_ok (db\<lparr>dbRuns := r # dbRuns db, dbContexts := dbContexts db @ new_contexts (dbNextRun db) (dbNextContext db) now contexts,
    dbNextRun := dbNextRun db + 1, dbNextContext := dbNextContext db + int (length contexts)\<rparr>)"
proof -
  let ?new = "new_contexts (dbNextRun db) (dbNextContext db) now contexts" and ?key = "\<lambda>c. (cwRun c, cwName c)"
  note new = new_contexts_keys [where i = "dbNextRun db" and first = "dbNextContext db" and now = now and cs = contexts]
  have old: "cwRun c < dbNextRun db" if "c \<in> set (dbContexts db)" for c
    using ok that by (force simp: contexts_ok_def runs_ok_def)
  have ids: "cwID ` set ?new = (\<lambda>k. dbNextContext db + int k) ` {0..<length contexts}"
    using arg_cong [OF new(1), of set] by (simp add: image_comp comp_def)
  have fresh: "dbNextContext db \<le> cwID c \<and> cwID c < dbNextContext db + int (length contexts)" if "c \<in> set ?new" for c
  proof -
    have "cwID c \<in> (\<lambda>k. dbNextContext db + int k) ` {0..<length contexts}" using that ids by blast
    then show ?thesis by auto
  qed
  have k: "keys_below cwID (dbNextContext db) (dbContexts db)" and pairs: "distinct (map ?key (dbContexts db))"
    using ok by (simp_all add: contexts_ok_def)
  have "distinct (map cwID ?new)" unfolding new(1) by (simp add: distinct_map inj_on_def)
  moreover have "cwID ` set (dbContexts db) \<inter> cwID ` set ?new = {}" using k fresh by (fastforce simp: keys_below_def)
  ultimately have keys: "keys_below cwID (dbNextContext db + int (length contexts)) (dbContexts db @ ?new)"
    using k fresh unfolding keys_below_def map_append distinct_append set_append by fastforce
  have "distinct (map cwName ?new)" using names unfolding new(3) .
  then have "distinct (map ?key ?new)" by (auto simp: distinct_map inj_on_def)
  moreover have "?key ` set (dbContexts db) \<inter> ?key ` set ?new = {}" using old new(2) by fastforce
  ultimately have named: "distinct (map ?key (dbContexts db @ ?new))" using pairs unfolding map_append distinct_append set_map by blast
  have "filter (\<lambda>c. cwRun c = dbNextRun db) (dbContexts db) = []" using old by (force simp: filter_empty_conv)
  then have mine: "filter (\<lambda>c. cwRun c = dbNextRun db) (dbContexts db @ ?new) = ?new" using new(2) by simp
  have other: "filter (\<lambda>c. cwRun c = wrID s) (dbContexts db @ ?new) = filter (\<lambda>c. cwRun c = wrID s) (dbContexts db)"
    if "s \<in> set (dbRuns db)" for s
    using runs_okD(2) [OF ok(2) that] new(2) by (force simp: filter_empty_conv)
  show ?thesis
    using ok(1) keys named new(2) r
    by (auto simp: contexts_ok_def contexts_of_def mine other new(4) requestedCollectionCount_def persistedKinds_def
      simp del: filter_append map_append)
qed

lemma captures_ok_start:
  assumes "captures_ok db"
  shows "captures_ok (snd (StartRunWithMetadata source contexts now meta db))"
proof (cases "validateRunLabel (meLabel meta) = None \<and> \<not> label_taken (meLabel meta) (dbRuns db) \<and> distinct (map fst contexts)")
  case True
  let ?new = "new_contexts (dbNextRun db) (dbNextContext db) now contexts"
  obtain r where r: "snd (StartRunWithMetadata source contexts now meta db) = db\<lparr>dbRuns := r # dbRuns db, dbContexts := dbContexts db @ ?new,
        dbNextRun := dbNextRun db + 1, dbNextContext := dbNextContext db + int (length contexts)\<rparr>"
      "wrID r = dbNextRun db" "wrLabel r = meLabel meta" "ended_ok r"
      "wrRequested r = int (length contexts)" "wrRequestedCollections r = requestedCollectionCount (length contexts) meta"
    using True by (simp add: StartRunWithMetadata_def Let_def ended_ok_def)
  have ok: "runs_ok db" "contexts_ok db" using assms by (simp_all add: captures_ok_def)
  from True r(3) have "\<not> label_taken (wrLabel r) (dbRuns db)" by simp
  from runs_ok_start [OF ok(1) this r(2,4)] contexts_ok_start [OF ok(2,1) _ r(2,5,6)] True assms show ?thesis
    unfolding r(1) captures_ok_def by (auto simp: collections_ok_def observations_ok_def)
next
  case False
  then show ?thesis using assms by (auto simp: StartRunWithMetadata_def split: option.splits)
qed

text \<open>Saving a context.\<close>

lemma save_vms_rows:
  "save_vms c vs rows = Inr rows' \<Longrightarrow> rows' = rows @ map (vm_row_of c) vs
   \<and> (distinct (map (\<lambda>v. (vwContext v, vwMoref v)) rows) \<longrightarrow> distinct (map (\<lambda>v. (vwContext v, vwMoref v)) rows'))"
proof (induction vs arbitrary: rows)
  case (Cons v vs)
  then have new: "\<not> list_ex (\<lambda>w. vwContext w = c \<and> vwMoref w = fvID v) rows" and rest: "save_vms c vs (rows @ [vm_row_of c v]) = Inr rows'"
    by (simp_all split: if_splits)
  have "(c, fvID v) \<notin> (\<lambda>v. (vwContext v, vwMoref v)) ` set rows" using new by (auto simp: list_ex_iff)
  then have "distinct (map (\<lambda>v. (vwContext v, vwMoref v)) rows)
      \<longrightarrow> distinct (map (\<lambda>v. (vwContext v, vwMoref v)) (rows @ [vm_row_of c v]))"
    by (simp add: vm_row_of_def)
  with Cons.IH [OF rest] have "rows' = (rows @ [vm_row_of c v]) @ map (vm_row_of c) vs"
    "distinct (map (\<lambda>v. (vwContext v, vwMoref v)) rows) \<Longrightarrow> distinct (map (\<lambda>v. (vwContext v, vwMoref v)) rows')"
    by blast+
  then show ?case by (intro conjI impI) simp_all
qed simp

lemma upsert_resource_ok:
  assumes "distinct (map (\<lambda>r. (rwCollection r, rwMoref r)) rows)"
  shows "distinct (map (\<lambda>r. (rwCollection r, rwMoref r)) (upsert_resource r rows))"
    and "rwCollection ` set (upsert_resource r rows) \<subseteq> insert (rwCollection r) (rwCollection ` set rows)"
proof -
  let ?key = "\<lambda>r. (rwCollection r, rwMoref r)"
  let ?g = "\<lambda>s. if rwCollection s = rwCollection r \<and> rwMoref s = rwMoref r then r else s"
  have key: "?key (?g s) = ?key s" for s by simp
  have "map ?key (map ?g rows) = map ?key rows" by (simp only: map_map comp_def key)
  moreover have "?key r \<notin> ?key ` set rows" if "\<not> list_ex (\<lambda>s. rwCollection s = rwCollection r \<and> rwMoref s = rwMoref r) rows"
    using that by (auto simp: list_ex_iff)
  ultimately show "distinct (map ?key (upsert_resource r rows))"
    using assms unfolding upsert_resource_def by (simp del: map_map)
  show "rwCollection ` set (upsert_resource r rows) \<subseteq> insert (rwCollection r) (rwCollection ` set rows)"
    by (auto simp: upsert_resource_def)
qed

lemma resource_row_of_collection: "resource_row_of encode ident c r = Some row \<Longrightarrow> rwCollection row = c"
  by (auto simp: resource_row_of_def Let_def split: if_splits)

lemma save_resources_ok:
  assumes "distinct (map (\<lambda>r. (rwCollection r, rwMoref r)) rows)"
  shows "distinct (map (\<lambda>r. (rwCollection r, rwMoref r)) (save_resources encode ident c rs rows))
    \<and> rwCollection ` set (save_resources encode ident c rs rows) \<subseteq> insert c (rwCollection ` set rows)"
proof -
  have "distinct (map (\<lambda>r. (rwCollection r, rwMoref r)) (fold upsert_resource new rows))
      \<and> rwCollection ` set (fold upsert_resource new rows) \<subseteq> insert c (rwCollection ` set rows)"
    if "\<forall>r \<in> set new. rwCollection r = c" for new
    using assms that
  proof (induction new arbitrary: rows)
    case (Cons r new)
    have "rwCollection r = c" using Cons.prems by simp
    then show ?case
      using Cons.IH [of "upsert_resource r rows"] upsert_resource_ok [OF Cons.prems(1), of r] Cons.prems(2) by (simp add: subset_iff) blast
  qed auto
  moreover have "\<forall>r \<in> set (List.map_filter (resource_row_of encode ident c) rs). rwCollection r = c"
    by (auto simp: List.map_filter_def dest: resource_row_of_collection)
  ultimately show ?thesis unfolding save_resources_def by blast
qed

lemma save_collection_frame [simp]:
  "dbRuns (save_collection encode ident c now f db) = dbRuns db" "dbContexts (save_collection encode ident c now f db) = dbContexts db"
  "dbVMs (save_collection encode ident c now f db) = dbVMs db" "dbNextRun (save_collection encode ident c now f db) = dbNextRun db"
  "dbNextContext (save_collection encode ident c now f db) = dbNextContext db"
  by (simp_all add: save_collection_def Let_def split: option.splits)

lemma collection_row_of_sel [simp]:
  "clID (collection_row_of i c kind now f) = i" "clContext (collection_row_of i c kind now f) = c"
  "clKind (collection_row_of i c kind now f) = kind"
  by (simp_all add: collection_row_of_def)

lemma captures_ok_collection:
  assumes "captures_ok db" and c: "c \<in> cwID ` set (dbContexts db)"
  shows "captures_ok (save_collection encode ident c now f db)"
proof -
  let ?kind = "to_lower (trim_space (fcoKind f))" and ?db = "save_collection encode ident c now f db"
  have runs: "runs_ok ?db" and contexts: "contexts_ok ?db"
    using assms(1) by (simp_all add: captures_ok_def runs_ok_def contexts_ok_def contexts_of_def)
  have obs: "distinct (map (\<lambda>r. (rwCollection r, rwMoref r)) (dbResources db))"
      "rwCollection ` set (dbResources db) \<subseteq> clID ` set (dbCollections db)"
    and keys: "keys_below clID (dbNextCollection db) (dbCollections db)"
    and pairs: "distinct (map (\<lambda>l. (clContext l, clKind l)) (dbCollections db))"
    and refs: "clContext ` set (dbCollections db) \<subseteq> cwID ` set (dbContexts db)"
    using assms(1) by (simp_all add: captures_ok_def observations_ok_def collections_ok_def)
  note res = save_resources_ok [OF obs(1), of encode ident]
  show ?thesis
  proof (cases "List.find (\<lambda>l. clContext l = c \<and> clKind l = ?kind) (dbCollections db)")
    case None
    then have free: "(c, ?kind) \<notin> (\<lambda>l. (clContext l, clKind l)) ` set (dbCollections db)" by (auto simp: find_None_iff)
    show ?thesis
    proof (cases "?kind = []")
      case False
      have db: "?db = db\<lparr>dbCollections := dbCollections db @ [collection_row_of (dbNextCollection db) c ?kind now f],
          dbResources := save_resources encode ident (dbNextCollection db) (fcoResources f) (dbResources db),
          dbNextCollection := dbNextCollection db + 1\<rparr>"
        using None False by (simp add: save_collection_def Let_def)
      have "keys_below clID (dbNextCollection db + 1) (dbCollections db @ [collection_row_of (dbNextCollection db) c ?kind now f])"
        using keys by (force simp: keys_below_def)
      then have "collections_ok ?db" using free pairs refs c unfolding db by (simp add: collections_ok_def)
      moreover have "rwCollection ` set (save_resources encode ident (dbNextCollection db) (fcoResources f) (dbResources db))
          \<subseteq> insert (dbNextCollection db) (clID ` set (dbCollections db))"
        using obs(2) res [of "dbNextCollection db" "fcoResources f"] by blast
      then have "observations_ok ?db"
        using assms(1) res [of "dbNextCollection db" "fcoResources f"] unfolding db
        by (simp add: captures_ok_def observations_ok_def)
      ultimately show ?thesis using runs contexts by (simp add: captures_ok_def)
    qed (use assms(1) in \<open>simp add: save_collection_def\<close>)
  next
    case (Some old)
    have old: "old \<in> set (dbCollections db)" "clContext old = c" "clKind old = ?kind" using find_Some_mem [OF Some] by simp_all
    let ?g = "\<lambda>l. if clID l = clID old then collection_row_of (clID l) c ?kind now f else l"
    let ?mapped = "db\<lparr>dbCollections := map ?g (dbCollections db)\<rparr>"
    have same: "l = old" if "l \<in> set (dbCollections db)" "clID l = clID old" for l
      using keys that old(1) by (auto simp: keys_below_def distinct_map inj_on_def)
    have "clID (?g l) = clID l \<and> clContext (?g l) = clContext l \<and> clKind (?g l) = clKind l" if "l \<in> set (dbCollections db)" for l
    proof (cases "clID l = clID old")
      case True
      then have "l = old" by (rule same [OF that])
      then show ?thesis using old(2,3) by simp
    qed simp
    then have mapped: "captures_ok ?mapped" by (rule captures_ok_map_collections [OF assms(1)])
    have "clID ` set (map ?g (dbCollections db)) = clID ` set (dbCollections db)" by (rule map_cong_keys(2)) simp
    then have "clID ` set (dbCollections ?mapped) = clID ` set (dbCollections db)" by (simp del: set_map)
    moreover have "rwCollection ` set (save_resources encode ident (clID old) (fcoResources f) (dbResources db)) \<subseteq> clID ` set (dbCollections db)"
      using obs(2) old(1) res [of "clID old" "fcoResources f"] by blast
    ultimately have "captures_ok (?mapped\<lparr>dbResources := save_resources encode ident (clID old) (fcoResources f) (dbResources db)\<rparr>)"
      using res [of "clID old" "fcoResources f"] by (intro captures_ok_resources [OF mapped]) simp_all
    moreover have "?db = (if ?kind = [] then db
        else ?mapped\<lparr>dbResources := save_resources encode ident (clID old) (fcoResources f) (dbResources db)\<rparr>)"
      using Some by (simp add: save_collection_def Let_def)
    ultimately show ?thesis using assms(1) by (simp only: split: if_split) blast
  qed
qed

lemma captures_ok_fold_collections:
  assumes "captures_ok db" and "c \<in> cwID ` set (dbContexts db)"
  shows "captures_ok (fold (save_collection encode ident c now) fs db)"
  using assms by (induction fs arbitrary: db) (simp_all add: captures_ok_collection)

lemma update_context_sel [simp]:
  "cwID (update_context res now c) = cwID c" "cwRun (update_context res now c) = cwRun c" "cwName (update_context res now c) = cwName c"
  by (simp_all add: update_context_def)

lemma captures_ok_vms:
  assumes "captures_ok db" and "distinct (map (\<lambda>v. (vwContext v, vwMoref v)) vs)" and "vwContext ` set vs \<subseteq> cwID ` set (dbContexts db)"
  shows "captures_ok (db\<lparr>dbVMs := vs\<rparr>)"
  using assms by (simp add: captures_ok_def runs_ok_def contexts_ok_def collections_ok_def observations_ok_def contexts_of_def)

lemma captures_ok_save_vms:
  assumes ok: "captures_ok db" and c: "c \<in> set (dbContexts db)" "save_vms (cwID c) found (dbVMs db) = Inr vms"
  shows "captures_ok (db\<lparr>dbContexts := map (\<lambda>d. if P d then update_context res now d else d) (dbContexts db), dbVMs := vms\<rparr>)"
proof -
  let ?mapped = "db\<lparr>dbContexts := map (\<lambda>d. if P d then update_context res now d else d) (dbContexts db)\<rparr>"
  have mapped: "captures_ok ?mapped" by (rule captures_ok_map_contexts [OF ok]) simp
  have ids: "cwID ` set (dbContexts ?mapped) = cwID ` set (dbContexts db)"
    using map_cong_keys(2) [of "dbContexts db" cwID "\<lambda>d. if P d then update_context res now d else d"] by (simp del: set_map)
  have "captures_ok (?mapped\<lparr>dbVMs := vms\<rparr>)"
  proof (rule captures_ok_vms [OF mapped])
    have "distinct (map (\<lambda>v. (vwContext v, vwMoref v)) (dbVMs db))" using ok by (simp add: captures_ok_def observations_ok_def)
    then show "distinct (map (\<lambda>v. (vwContext v, vwMoref v)) vms)" using save_vms_rows [OF c(2)] by blast
    have "vwContext ` set (dbVMs db) \<subseteq> cwID ` set (dbContexts db)" using ok by (simp add: captures_ok_def observations_ok_def)
    moreover have "vwContext ` set vms \<subseteq> insert (cwID c) (vwContext ` set (dbVMs db))"
      using save_vms_rows [OF c(2)] by (auto simp: vm_row_of_def)
    ultimately show "vwContext ` set vms \<subseteq> cwID ` set (dbContexts ?mapped)" unfolding ids using c(1) by blast
  qed
  then show ?thesis by simp
qed

lemma captures_ok_save_rows:
  assumes "captures_ok db" and "save_rows encode ident run res now db = Inr db'"
  shows "captures_ok db'"
proof -
  let ?u = "\<lambda>d. if cwRun d = run \<and> cwName d = crName res then update_context res now d else d"
  from assms(2) obtain c vms where c: "List.find (\<lambda>c. cwRun c = run \<and> cwName c = crName res) (dbContexts db) = Some c"
      "save_vms (cwID c) (crVMs res) (dbVMs db) = Inr vms"
      "db' = fold (save_collection encode ident (cwID c) now) (crCollections res) (db\<lparr>dbContexts := map ?u (dbContexts db), dbVMs := vms\<rparr>)"
    by (auto simp: save_rows_def split: option.splits sum.splits)
  have mem: "c \<in> set (dbContexts db)" using find_Some_mem [OF c(1)] by blast
  then have "cwID c \<in> cwID ` set (map ?u (dbContexts db))"
    using map_cong_keys(2) [of "dbContexts db" cwID ?u] by (simp del: set_map)
  then show ?thesis
    unfolding c(3) by (intro captures_ok_fold_collections captures_ok_save_vms [OF assms(1) mem c(2)]) simp
qed

lemma captures_ok_perf: "captures_ok (db\<lparr>dbPerf := ps\<rparr>) = captures_ok db" "captures_ok (db\<lparr>dbNextPerf := n\<rparr>) = captures_ok db"
  by (simp_all add: ok_defs contexts_of_def)

lemma apply_op_ok:
  assumes "captures_ok db"
  shows "captures_ok (apply_op out op db)"
proof (cases op)
  case (OpAcquire token now operation)
  then show ?thesis using assms captures_ok_tables [OF lease_ops_tables(1) [of token now operation db]] by simp
next
  case (OpNote token run clock)
  then show ?thesis
    using assms captures_ok_tables [OF lease_ops_tables(2)] by (auto split: sum.splits)
next
  case (OpRenew token now)
  then show ?thesis using assms captures_ok_tables [OF lease_ops_tables(3) [of token now db]] by simp
next
  case (OpRelease token)
  then show ?thesis using assms captures_ok_tables [OF lease_ops_tables(4) [of token db]] by simp
next
  case (OpSave run res now token clock)
  then show ?thesis using assms captures_ok_save_rows [OF assms] by (auto simp: saveContext_def split: sum.splits)
next
  case (OpDelete i)
  then show ?thesis using assms by (auto simp: DeleteRun_def captures_ok_delete split: sum.splits)
next
  case (OpPrune runs windows)
  then show ?thesis using captures_ok_delete [OF assms] by (simp add: prune_rows_def Let_def captures_ok_perf)
next
  case (OpPerf name vcenter finished status)
  then show ?thesis using assms by (simp add: SavePerfWindow_def captures_ok_perf)
qed (use assms in \<open>simp_all add: captures_ok_start captures_ok_finish captures_ok_recover captures_ok_update\<close>)

lemma captures_ok_new: "captures_ok new_captures"
  by (simp add: ok_defs new_captures_def keys_below_def contexts_of_def labels_ok_def)

lemma apply_ops_ok: "captures_ok (apply_ops out ops new_captures)"
  by (rule apply_ops_invariant) (simp_all add: captures_ok_new apply_op_ok)

section \<open>Invariants of the ledger\<close>

lemma distinct_run_ids:
  assumes "captures_ok db"
  shows "distinct (map wrID (dbRuns db))"
proof -
  have "sorted_wrt (\<lambda>r s. wrID s < wrID r) rs \<Longrightarrow> distinct (map wrID rs)" for rs :: "run_row list"
    by (induction rs) auto
  then show ?thesis using assms by (simp add: captures_ok_def runs_ok_def)
qed

lemma ledger_of_ok:
  assumes "captures_ok db"
  shows "ledger_ok (ledger_of decode db)"
  using distinct_run_ids [OF assms]
  by (auto simp: ledger_ok_def ledger_of_def stored_runs_def stored_history_def timed_of_def comp_def)

text \<open>
  C6: Whatever the operations of all processes and their order, the ledger stays well formed: the IDs of runs fall along the table, no two rows
  have one key, every row refers to one that is there, no two labels differ only in case, a run has an end unless it is running, and it has
  the contexts that were asked of it. So the histories of the theory Timeline read a ledger that they can rely on.
\<close>

theorem ledger_well_formed:
  "captures_ok (apply_ops out ops new_captures) \<and> ledger_ok (ledger_of decode (apply_ops out ops new_captures))"
  using apply_ops_ok ledger_of_ok by blast

section \<open>Complete captures\<close>

lemma counting_all: "counting P xs = int (length xs) \<Longrightarrow> x \<in> set xs \<Longrightarrow> P x"
proof -
  assume "counting P xs = int (length xs)"
  then have "length (filter P xs) = length xs" by (simp add: counting_def)
  then have "\<forall>x \<in> set xs. P x" by (metis filter_True filter_id_conv length_filter_less less_irrefl)
  then show "x \<in> set xs \<Longrightarrow> P x" by blast
qed

lemma complete_counts:
  assumes "run_status r cs ls = ''complete''" and "ls \<noteq> []"
  shows "\<forall>l \<in> set ls. ok_status (clStatus l)" and "wrRequestedCollections r = 0 \<or> int (length ls) = wrRequestedCollections r"
proof -
  let ?n = "if wrRequestedCollections r = 0 then int (length ls) else wrRequestedCollections r"
  have n: "counting (\<lambda>l. ok_status (clStatus l)) ls = ?n" "int (length ls) = ?n"
    using assms by (auto simp: run_status_def Let_def split: if_splits)
  then show "\<forall>l \<in> set ls. ok_status (clStatus l)" using counting_all [of "\<lambda>l. ok_status (clStatus l)" ls] by simp
  show "wrRequestedCollections r = 0 \<or> int (length ls) = wrRequestedCollections r" using n(2) by (simp split: if_splits)
qed

text \<open>The rows of a run have distinct pairs of context and kind, so that as many as contexts times kinds are all of them.\<close>

lemma pairs_cover:
  assumes "distinct (map f ls)" and "f ` set ls \<subseteq> A \<times> B" and "finite A" and "finite B" and "length ls = card A * card B"
  shows "f ` set ls = A \<times> B"
proof (rule card_subset_eq)
  show "card (f ` set ls) = card (A \<times> B)"
    using assms(1,5) by (metis card_cartesian_product distinct_card length_map set_map)
qed (use assms(2-4) in auto)


end
