(* ===== verification/CaptureUse.thy ===== *)
theory CaptureUse
  imports CaptureLaws
begin

text \<open>
  What the users of the ledger of captures rely on: what pruning deletes, that a stored capture does not change, and that a label
  selects the capture that bears it; with examples of the theorems on ledgers and of where the code does less than it says.
\<close>

section \<open>Pruning\<close>

definition perf_ok :: "captures \<Rightarrow> bool" where
  "perf_ok db \<longleftrightarrow> keys_below pfID (dbNextPerf db) (dbPerf db)"

definition perf_rows :: "captures \<Rightarrow> perf_row list \<times> int" where
  "perf_rows db = (dbPerf db, dbNextPerf db)"

lemma save_collection_perf [simp]: "perf_rows (save_collection encode ident c now f db) = perf_rows db"
  by (simp add: save_collection_def perf_rows_def Let_def split: option.splits)

lemma fold_save_collection_perf [simp]: "perf_rows (fold (save_collection encode ident c now) fs db) = perf_rows db"
  by (induction fs arbitrary: db) simp_all

lemma perf_rows_tables: "perf_rows (tables db) = perf_rows db"
  by (simp add: tables_def perf_rows_def)

lemma perf_rows_save: "save_rows encode ident run res now db = Inr db' \<Longrightarrow> perf_rows db' = perf_rows db"
  by (auto simp: save_rows_def perf_rows_def [of db] perf_rows_def [of "_\<lparr>dbVMs := _\<rparr>"] split: option.splits sum.splits)

lemma apply_op_perf:
  "perf_rows (apply_op out op db) = perf_rows db
   \<or> (\<exists>P. perf_rows (apply_op out op db) = (filter P (dbPerf db), dbNextPerf db))
   \<or> (\<exists>p. pfID p = dbNextPerf db \<and> perf_rows (apply_op out op db) = (dbPerf db @ [p], dbNextPerf db + 1))"
proof (cases op)
  case (OpAcquire token now operation)
  then show ?thesis by (metis apply_op.simps(1) lease_ops_tables(1) perf_rows_tables)
next
  case (OpNote token run clock)
  then show ?thesis by (simp add: SetCaptureLeaseRun_def perf_rows_def)
next
  case (OpRenew token now)
  then show ?thesis by (metis apply_op.simps(3) lease_ops_tables(3) perf_rows_tables)
next
  case (OpRelease token)
  then show ?thesis by (metis apply_op.simps(4) lease_ops_tables(4) perf_rows_tables)
next
  case (OpSave run res now token clock)
  then show ?thesis by (auto simp: saveContext_def dest: perf_rows_save split: sum.splits)
next
  case (OpPrune rs windows)
  then show ?thesis by (auto simp: prune_rows_def delete_runs_def perf_rows_def Let_def)
next
  case (OpPerf name vcenter finished status)
  then show ?thesis by (simp add: SavePerfWindow_def perf_rows_def)
qed (auto simp: perf_rows_def StartRunWithMetadata_def finishRun_def recoverOrphanedRuns_def UpdateRunFields_def DeleteRun_def
  delete_runs_def Let_def split: option.splits sum.splits)

lemma apply_ops_perf_ok: "perf_ok (apply_ops out ops new_captures)"
proof (rule apply_ops_invariant)
  fix op db assume ok: "perf_ok db"
  show "perf_ok (apply_op out op db)"
    using apply_op_perf [of out op db] ok
    by (elim disjE exE conjE) (auto simp: perf_ok_def perf_rows_def keys_below_filter, auto simp: keys_below_def)
qed (simp add: perf_ok_def new_captures_def keys_below_def)

lemma loadVMs_cong:
  assumes "contexts_of i db' = contexts_of i db"
    and "\<And>c. c \<in> set (contexts_of i db) \<Longrightarrow> vms_of db' c = vms_of db c
      \<and> filter (\<lambda>l. clContext l = cwID c) (dbCollections db') = filter (\<lambda>l. clContext l = cwID c) (dbCollections db)"
  shows "loadVMs decode db' i = loadVMs decode db i"
  using assms by (simp add: loadVMs_def context_of_def)

lemma delete_runs_sel:
  "dbRuns (delete_runs P db) = filter (\<lambda>r. \<not> P r) (dbRuns db)" "dbPerf (delete_runs P db) = dbPerf db"
  "dbVMs (delete_runs P db) = filter (\<lambda>v. vwContext v \<in> cwID ` set (dbContexts (delete_runs P db))) (dbVMs db)"
  "dbCollections (delete_runs P db) = filter (\<lambda>l. clContext l \<in> cwID ` set (dbContexts (delete_runs P db))) (dbCollections db)"
  "dbContexts (delete_runs P db) = filter (\<lambda>c. cwRun c \<in> wrID ` set (filter (\<lambda>r. \<not> P r) (dbRuns db))) (dbContexts db)"
  by (simp_all add: delete_runs_def)

lemma filter_sub:
  assumes "\<And>x. Q x \<Longrightarrow> P x"
  shows "filter Q (filter P xs) = filter Q xs"
  using assms by (induction xs) auto

lemma loadVMs_delete:
  assumes "r \<in> set (dbRuns db)" and "\<not> P r"
  shows "loadVMs decode (delete_runs P db) (wrID r) = loadVMs decode db (wrID r)"
proof (rule loadVMs_cong [OF contexts_of_delete [of r db P, OF assms]])
  fix c assume c: "c \<in> set (contexts_of (wrID r) db)"
  have "c \<in> set (contexts_of (wrID r) (delete_runs P db))" using c unfolding contexts_of_delete [of r db P, OF assms] .
  then have "cwID c \<in> cwID ` set (dbContexts (delete_runs P db))" by (simp add: contexts_of_def)
  then show "vms_of (delete_runs P db) c = vms_of db c \<and> filter (\<lambda>l. clContext l = cwID c) (dbCollections (delete_runs P db))
      = filter (\<lambda>l. clContext l = cwID c) (dbCollections db)"
    unfolding vms_of_def delete_runs_sel(3,4) by (intro conjI filter_sub) simp_all
qed

lemma loadVMs_tables: "tables db = tables db' \<Longrightarrow> loadVMs decode db i = loadVMs decode db' i"
  using tables_eq [of db db'] by (simp add: loadVMs_def contexts_of_def context_of_def vms_of_def)

lemma member_ids: "distinct (map f xs) \<Longrightarrow> x \<in> set xs \<Longrightarrow> ys \<subseteq> set xs \<Longrightarrow> f x \<in> f ` ys \<longleftrightarrow> x \<in> ys"
  by (auto simp: distinct_map inj_on_def)

lemma delete_runs_cong: "(\<And>r. r \<in> set (dbRuns db) \<Longrightarrow> P r = Q r) \<Longrightarrow> delete_runs P db = delete_runs Q db"
  by (simp add: delete_runs_def cong: filter_cong)

lemma prunable_iff:
  assumes "captures_ok db" and "r \<in> set (dbRuns db)"
  shows "prunable cutoff (kept_runs n (dbRuns db)) r \<longleftrightarrow>
    \<not> (wrPinned r \<or> wrStatus r = ''running'' \<or> fromMillis (wrFinished r) = fromMillis None \<or> cutoff \<le> fromMillis (wrFinished r)
       \<or> r \<in> set (take (nat n) (filter (\<lambda>r. wrStatus r = ''complete'') (dbRuns db))))"
proof -
  have "set (kept_runs n (dbRuns db)) \<subseteq> set (dbRuns db)" by (auto simp: kept_runs_def dest: in_set_takeD)
  from member_ids [OF distinct_run_ids [OF assms(1)] assms(2) this] show ?thesis
    by (auto simp: prunable_def kept_runs_def)
qed

text \<open>What a prune that was executed leaves: all that the plan did not name.\<close>

lemma Prune_rows:
  assumes "captures_ok db" and "Prune token olderThan keepLast True clock db = (Inr result, db')"
  defines "cutoff \<equiv> fst clock - olderThan"
  shows "tables db' = tables (prune_rows (map wrID (filter (prunable cutoff (kept_runs keepLast (dbRuns db))) (dbRuns db)))
      (prunablePerfWindows cutoff db) db)"
proof -
  let ?plan = "filter (prunable cutoff (kept_runs keepLast (dbRuns db))) (dbRuns db)" and ?windows = "prunablePerfWindows cutoff db"
  have "tables (prune_rows rs ws a) = prune_rows rs ws (tables a)" for a rs ws
    by (simp add: tables_def prune_rows_def delete_runs_def Let_def)
  then have same: "tables a = tables b \<Longrightarrow> tables (prune_rows rs ws a) = tables (prune_rows rs ws b)" for a b rs ws by simp
  show ?thesis
  proof (cases "?plan = [] \<and> ?windows = []")
    case True
    then have "db' = db" using assms(2) by (simp add: Prune_def prune_plan_def Let_def cutoff_def split: if_splits)
    moreover have "tables (prune_rows [] [] db) = tables db"
    proof -
      have "captures_ok db \<Longrightarrow> delete_runs (\<lambda>r. False) db = db"
      proof -
        assume ok: "captures_ok db"
        have f: "filter (\<lambda>c. cwRun c \<in> wrID ` set (dbRuns db)) (dbContexts db) = dbContexts db"
          "filter (\<lambda>l. clContext l \<in> cwID ` set (dbContexts db)) (dbCollections db) = dbCollections db"
          "filter (\<lambda>v. vwContext v \<in> cwID ` set (dbContexts db)) (dbVMs db) = dbVMs db"
          "filter (\<lambda>r. rwCollection r \<in> clID ` set (dbCollections db)) (dbResources db) = dbResources db"
          using ok by (auto simp: filter_id_conv captures_ok_def contexts_ok_def collections_ok_def observations_ok_def simp del: filter_True)
        have "filter (\<lambda>r. \<not> False) (dbRuns db) = dbRuns db" by simp
        then show ?thesis unfolding delete_runs_def Let_def by (simp only: f) simp
      qed
      then show ?thesis using assms(1) by (simp add: prune_rows_def)
    qed
    ultimately show ?thesis using True by simp
  next
    case False
    then obtain le db1 where db1: "AcquireOperationLease token (snd clock) ''prune'' db = (Inr le, db1)"
        "db' = ReleaseCaptureLease (leToken le) (prune_rows (map wrID ?plan) ?windows db1)"
    proof -
      obtain out db1 where acquired: "AcquireOperationLease token (snd clock) ''prune'' db = (out, db1)" by (rule prod.exhaust)
      note run = assms(2) [unfolded Prune_def prune_plan_def Let_def acquired]
      show ?thesis
      proof (cases out)
        case (Inl e)
        then show ?thesis using run False by (simp add: cutoff_def split: if_split_asm)
      next
        case (Inr le)
        then show ?thesis using run False that [of le db1] acquired by (auto simp: cutoff_def comp_def split: if_split_asm)
      qed
    qed
    have "tables db1 = tables db" using lease_ops_tables(1) [of token "snd clock" "''prune''" db] db1(1) by simp
    then show ?thesis unfolding db1(2) lease_ops_tables(4) by (rule same)
  qed
qed


section \<open>A capture does not change\<close>

text \<open>The rows of a run: its contexts, their collections and machines, and the resources of the collections.\<close>

definition content :: "int \<Rightarrow> captures \<Rightarrow> context_row list \<times> collection_row list \<times> vm_row list \<times> resource_row list" where
  "content i db = (contexts_of i db, collections_of i db, filter (\<lambda>v. vwContext v \<in> cwID ` set (contexts_of i db)) (dbVMs db),
     filter (\<lambda>r. rwCollection r \<in> clID ` set (collections_of i db)) (dbResources db))"

text \<open>A stored run, nothing of which is still being collected.\<close>

definition settled :: "int \<Rightarrow> captures \<Rightarrow> bool" where
  "settled i db \<longleftrightarrow> i \<in> wrID ` set (dbRuns db) \<and> (\<forall>c \<in> set (contexts_of i db). cwStatus c \<noteq> ''running'')
     \<and> (\<forall>l \<in> set (collections_of i db). clStatus l \<noteq> ''running'')"

text \<open>The operations that write the contexts of a run, or delete it.\<close>

definition concerns :: "int \<Rightarrow> store_op \<Rightarrow> bool" where
  "concerns i op \<longleftrightarrow>
     (case op of OpSave run res now token clock \<Rightarrow> run = i | OpDelete j \<Rightarrow> j = i | OpPrune rs windows \<Rightarrow> i \<in> set rs | _ \<Rightarrow> False)"

lemma settled_content:
  assumes "content i db' = content i db" and "wrID ` set (dbRuns db) \<subseteq> wrID ` set (dbRuns db')" and "settled i db"
  shows "settled i db'"
  using assms by (auto simp: settled_def content_def)

lemma content_cong:
  assumes "contexts_of i db' = contexts_of i db" and "collections_of i db' = collections_of i db"
    and "dbVMs db' = dbVMs db" and "dbResources db' = dbResources db"
  shows "content i db' = content i db"
  using assms by (simp add: content_def)

lemma content_same:
  "dbContexts db' = dbContexts db \<Longrightarrow> dbCollections db' = dbCollections db \<Longrightarrow> dbVMs db' = dbVMs db \<Longrightarrow> dbResources db' = dbResources db
   \<Longrightarrow> content i db' = content i db"
  by (rule content_cong) (simp_all add: contexts_of_def collections_of_def)

lemma content_updates [simp]:
  "content i (db\<lparr>dbRuns := rs\<rparr>) = content i db" "content i (db\<lparr>dbPerf := ps\<rparr>) = content i db"
  "content i (db\<lparr>dbNextPerf := n\<rparr>) = content i db"
  by (rule content_same; simp)+

lemma content_tables: "tables db' = tables db \<Longrightarrow> content i db' = content i db \<and> dbRuns db' = dbRuns db"
  using content_same [of db' db i] tables_eq [of db' db] by blast

lemma loadVMs_content:
  assumes "content i db' = content i db"
  shows "loadVMs decode db' i = loadVMs decode db i"
proof (rule loadVMs_cong)
  let ?cs = "contexts_of i db"
  show same: "contexts_of i db' = ?cs" using assms by (simp add: content_def)
  fix c assume c: "c \<in> set ?cs"
  have eq: "filter (\<lambda>v. vwContext v \<in> cwID ` set ?cs) (dbVMs db') = filter (\<lambda>v. vwContext v \<in> cwID ` set ?cs) (dbVMs db)"
    "filter (\<lambda>l. clContext l \<in> cwID ` set ?cs) (dbCollections db') = filter (\<lambda>l. clContext l \<in> cwID ` set ?cs) (dbCollections db)"
    using assms same by (simp_all add: content_def collections_of_def)
  have vms: "vms_of d c = filter (\<lambda>v. vwContext v = cwID c) (filter (\<lambda>v. vwContext v \<in> cwID ` set ?cs) (dbVMs d))" for d
    unfolding vms_of_def by (rule filter_sub [symmetric]) (use c in simp)
  have ls: "filter (\<lambda>l. clContext l = cwID c) (dbCollections d)
      = filter (\<lambda>l. clContext l = cwID c) (filter (\<lambda>l. clContext l \<in> cwID ` set ?cs) (dbCollections d))" for d
    by (rule filter_sub [symmetric]) (use c in simp)
  show "vms_of db' c = vms_of db c \<and> filter (\<lambda>l. clContext l = cwID c) (dbCollections db') = filter (\<lambda>l. clContext l = cwID c) (dbCollections db)"
    unfolding vms ls [of db'] ls [of db] eq by (rule conjI; rule refl)
qed

lemma content_delete:
  assumes "r \<in> set (dbRuns db)" and "\<not> P r"
  shows "content (wrID r) (delete_runs P db) = content (wrID r) db"
proof -
  let ?db = "delete_runs P db"
  have cs: "contexts_of (wrID r) ?db = contexts_of (wrID r) db" by (rule contexts_of_delete [of r db P, OF assms])
  have sub: "cwID ` set (contexts_of (wrID r) db) \<subseteq> cwID ` set (dbContexts ?db)"
    unfolding cs [symmetric] by (auto simp: contexts_of_def)
  have ls: "collections_of (wrID r) ?db = collections_of (wrID r) db"
    unfolding collections_of_def cs delete_runs_sel(4) by (rule filter_sub) (use sub in blast)
  have "dbResources ?db = filter (\<lambda>r. rwCollection r \<in> clID ` set (dbCollections ?db)) (dbResources db)" by (simp add: delete_runs_def)
  moreover have "clID ` set (collections_of (wrID r) db) \<subseteq> clID ` set (dbCollections ?db)"
    unfolding ls [symmetric] by (auto simp: collections_of_def)
  ultimately have "filter (\<lambda>s. rwCollection s \<in> clID ` set (collections_of (wrID r) db)) (dbResources ?db)
      = filter (\<lambda>s. rwCollection s \<in> clID ` set (collections_of (wrID r) db)) (dbResources db)"
    by (simp only:) (rule filter_sub, blast)
  moreover have "filter (\<lambda>v. vwContext v \<in> cwID ` set (contexts_of (wrID r) db)) (dbVMs ?db)
      = filter (\<lambda>v. vwContext v \<in> cwID ` set (contexts_of (wrID r) db)) (dbVMs db)"
    unfolding delete_runs_sel(3) by (rule filter_sub) (use sub in blast)
  ultimately show ?thesis unfolding content_def cs ls by simp
qed

lemma content_start:
  assumes "captures_ok db" and "i \<in> wrID ` set (dbRuns db)"
  shows "content i (snd (StartRunWithMetadata source contexts now meta db)) = content i db"
proof -
  let ?db = "snd (StartRunWithMetadata source contexts now meta db)"
  have "i < dbNextRun db" using assms by (auto simp: captures_ok_def runs_ok_def)
  then have "contexts_of i ?db = contexts_of i db"
    using new_contexts_keys(2) [of _ "dbNextRun db" "dbNextContext db" now contexts]
    by (fastforce simp: StartRunWithMetadata_def contexts_of_def Let_def filter_empty_conv split: option.splits)
  moreover have "dbCollections ?db = dbCollections db" "dbVMs ?db = dbVMs db" "dbResources ?db = dbResources db"
    by (simp_all add: StartRunWithMetadata_def Let_def split: option.splits)
  ultimately show ?thesis by (intro content_cong) (simp_all add: collections_of_def)
qed

lemma content_recover:
  assumes "settled i db"
  shows "content i (recoverOrphanedRuns now db) = content i db"
proof (cases "recoverOrphanedRuns now db = db")
  case False
  then have db: "recoverOrphanedRuns now db = db\<lparr>dbContexts := map (interrupt_context now) (dbContexts db),
      dbCollections := map (interrupt_collection now) (dbCollections db), dbRuns := map (interrupt_run now) (dbRuns db)\<rparr>"
    by (auto simp: recoverOrphanedRuns_def split: if_splits)
  have sel: "cwRun (interrupt_context now c) = cwRun c" "clContext (interrupt_collection now l) = clContext l" for c l
    by (simp_all add: interrupt_context_def interrupt_collection_def)
  have "contexts_of i (recoverOrphanedRuns now db) = map (interrupt_context now) (contexts_of i db)"
    by (simp add: db contexts_of_def filter_map comp_def sel)
  also have "\<dots> = contexts_of i db" using assms by (intro map_idI) (auto simp: settled_def interrupt_context_def)
  finally have cs: "contexts_of i (recoverOrphanedRuns now db) = contexts_of i db" .
  have "collections_of i (recoverOrphanedRuns now db) = map (interrupt_collection now) (collections_of i db)"
    unfolding collections_of_def cs by (simp add: db filter_map comp_def sel)
  also have "\<dots> = collections_of i db" using assms by (intro map_idI) (auto simp: settled_def interrupt_collection_def)
  finally show ?thesis using cs by (intro content_cong) (simp_all add: db)
qed simp

text \<open>A save writes the rows of its own run only.\<close>

lemma save_resources_other:
  assumes "k \<notin> K"
  shows "filter (\<lambda>r. rwCollection r \<in> K) (save_resources encode ident k rs rows) = filter (\<lambda>r. rwCollection r \<in> K) rows"
proof -
  have one: "filter (\<lambda>r. rwCollection r \<in> K) (upsert_resource r rows) = filter (\<lambda>r. rwCollection r \<in> K) rows" if "rwCollection r = k" for r rows
  proof -
    have "filter (\<lambda>s. rwCollection s \<in> K) (map (\<lambda>s. if rwCollection s = rwCollection r \<and> rwMoref s = rwMoref r then r else s) rows)
        = filter (\<lambda>s. rwCollection s \<in> K) rows"
      using that assms by (induction rows) auto
    then show ?thesis using that assms by (simp add: upsert_resource_def)
  qed
  have "filter (\<lambda>r. rwCollection r \<in> K) (fold upsert_resource new rows) = filter (\<lambda>r. rwCollection r \<in> K) rows"
    if "\<forall>r \<in> set new. rwCollection r = k" for new
    using that by (induction new arbitrary: rows) (simp_all add: one)
  moreover have "\<forall>r \<in> set (List.map_filter (resource_row_of encode ident k) rs). rwCollection r = k"
    by (auto simp: List.map_filter_def dest: resource_row_of_collection)
  ultimately show ?thesis unfolding save_resources_def by blast
qed

lemma content_save_collection:
  assumes ok: "captures_ok db" and other: "k \<notin> cwID ` set (contexts_of i db)"
  shows "content i (save_collection encode ident k now f db) = content i db"
proof -
  let ?db = "save_collection encode ident k now f db" and ?kind = "to_lower (trim_space (fcoKind f))"
  let ?ls = "collections_of i db"
  have keys: "keys_below clID (dbNextCollection db) (dbCollections db)" using ok by (simp add: captures_ok_def collections_ok_def)
  have cs: "contexts_of i ?db = contexts_of i db" by (simp add: contexts_of_def)
  consider "?db = db"
    | "dbCollections ?db = dbCollections db @ [collection_row_of (dbNextCollection db) k ?kind now f]"
      "dbResources ?db = save_resources encode ident (dbNextCollection db) (fcoResources f) (dbResources db)"
    | old where "old \<in> set (dbCollections db)" "clContext old = k"
      "dbCollections ?db = map (\<lambda>l. if clID l = clID old then collection_row_of (clID l) k ?kind now f else l) (dbCollections db)"
      "dbResources ?db = save_resources encode ident (clID old) (fcoResources f) (dbResources db)"
    by (cases "List.find (\<lambda>l. clContext l = k \<and> clKind l = ?kind) (dbCollections db)"; cases "?kind = []")
      (auto simp: save_collection_def Let_def dest!: find_Some_mem)
  then show ?thesis
  proof cases
    case 2
    have "collections_of i ?db = ?ls" unfolding collections_of_def cs 2(1) using other by simp
    moreover have "dbNextCollection db \<notin> clID ` set ?ls" using keys by (auto simp: keys_below_def collections_of_def)
    ultimately show ?thesis by (simp add: content_def cs 2(2) save_resources_other)
  next
    case 3
    have same: "l = old" if "l \<in> set (dbCollections db)" "clID l = clID old" for l
      using keys that 3(1) by (auto simp: keys_below_def distinct_map inj_on_def)
    have "filter (\<lambda>l. clContext l \<in> cwID ` set (contexts_of i db))
        (map (\<lambda>l. if clID l = clID old then collection_row_of (clID l) k ?kind now f else l) ls)
      = filter (\<lambda>l. clContext l \<in> cwID ` set (contexts_of i db)) ls" if "set ls \<subseteq> set (dbCollections db)" for ls
      using that other 3(2) by (induction ls) (auto dest: same)
    then have "collections_of i ?db = ?ls" unfolding collections_of_def cs 3(3) by simp
    moreover have "clID old \<notin> clID ` set ?ls" using same other 3(2) by (auto simp: collections_of_def)
    ultimately show ?thesis by (simp add: content_def cs 3(4) save_resources_other)
  qed simp
qed

lemma content_fold_collections:
  assumes "captures_ok db" and "k \<in> cwID ` set (dbContexts db)" and "k \<notin> cwID ` set (contexts_of i db)"
  shows "content i (fold (save_collection encode ident k now) fs db) = content i db"
  using assms
proof (induction fs arbitrary: db)
  case (Cons f fs)
  have "contexts_of i (save_collection encode ident k now f db) = contexts_of i db" by (simp add: contexts_of_def)
  then show ?case
    using Cons.IH [of "save_collection encode ident k now f db"] Cons.prems
    by (simp add: captures_ok_collection content_save_collection)
qed simp

lemma fold_save_collection_runs: "dbRuns (fold (save_collection encode ident c now) fs db) = dbRuns db"
  by (induction fs arbitrary: db) simp_all

lemma saveContext_runs: "dbRuns (snd (saveContext encode ident run res now token clk db)) = dbRuns db"
  by (auto simp: saveContext_def save_rows_def fold_save_collection_runs split: sum.splits option.splits)

lemma content_save:
  assumes ok: "captures_ok db" and "run \<noteq> i"
  shows "content i (snd (saveContext encode ident run res now token clk db)) = content i db"
proof (cases "save_rows encode ident run res now db")
  case (Inr db')
  let ?u = "\<lambda>d. if cwRun d = run \<and> cwName d = crName res then update_context res now d else d"
  let ?mapped = "db\<lparr>dbContexts := map ?u (dbContexts db)\<rparr>"
  from Inr obtain c vms where c: "List.find (\<lambda>c. cwRun c = run \<and> cwName c = crName res) (dbContexts db) = Some c"
      "save_vms (cwID c) (crVMs res) (dbVMs db) = Inr vms"
      "db' = fold (save_collection encode ident (cwID c) now) (crCollections res) (?mapped\<lparr>dbVMs := vms\<rparr>)"
    by (auto simp: save_rows_def split: option.splits sum.splits)
  have mem: "c \<in> set (dbContexts db)" "cwRun c = run" using find_Some_mem [OF c(1)] by simp_all
  have "distinct (map cwID (dbContexts db))" using ok by (simp add: captures_ok_def contexts_ok_def keys_below_def)
  then have other: "cwID c \<notin> cwID ` set (contexts_of i db)"
    using mem assms(2) by (auto simp: contexts_of_def distinct_map inj_on_def)
  have cs: "contexts_of i (?mapped\<lparr>dbVMs := vms\<rparr>) = contexts_of i db"
  proof -
    have "filter (\<lambda>d. cwRun d = i) (map ?u xs) = filter (\<lambda>d. cwRun d = i) xs" for xs using assms(2) by (induction xs) auto
    then show ?thesis by (simp add: contexts_of_def)
  qed
  have "filter (\<lambda>v. vwContext v \<in> cwID ` set (contexts_of i db)) vms = filter (\<lambda>v. vwContext v \<in> cwID ` set (contexts_of i db)) (dbVMs db)"
    using other conjunct1 [OF save_vms_rows [OF c(2)]] by (simp add: vm_row_of_def filter_empty_conv)
  then have "content i (?mapped\<lparr>dbVMs := vms\<rparr>) = content i db" unfolding content_def cs collections_of_def by simp
  moreover have "captures_ok (?mapped\<lparr>dbVMs := vms\<rparr>)" by (rule captures_ok_save_vms [OF ok mem(1) c(2)])
  moreover have "cwID c \<in> cwID ` set (dbContexts (?mapped\<lparr>dbVMs := vms\<rparr>))"
    using map_cong_keys(2) [of "dbContexts db" cwID ?u] mem(1) by (simp del: set_map)
  ultimately have "content i db' = content i db"
    using content_fold_collections [of "?mapped\<lparr>dbVMs := vms\<rparr>" "cwID c" i] other unfolding c(3) cs by simp
  then show ?thesis using Inr by (simp add: saveContext_def)
qed (simp add: saveContext_def)

lemma ids_of_update:
  assumes "\<And>r. wrID (g r) = wrID r"
  shows "wrID ` set (map (\<lambda>r. if P r then g r else r) rs) = wrID ` set rs"
  by (rule map_cong_keys(2)) (simp add: assms)

lemma finishRun_frame:
  "content i (snd (finishRun run now token clk db)) = content i db"
  "wrID ` set (dbRuns (snd (finishRun run now token clk db))) = wrID ` set (dbRuns db)"
proof -
  let ?db = "snd (finishRun run now token clk db)"
  have "?db = db \<or> ?db = db\<lparr>dbRuns := map (\<lambda>s. if wrID s = run then finish_row now db s else s) (dbRuns db)\<rparr>"
    by (simp add: finishRun_def Let_def split: sum.splits)
  then consider "?db = db" | "?db = db\<lparr>dbRuns := map (\<lambda>s. if wrID s = run then finish_row now db s else s) (dbRuns db)\<rparr>" by blast
  then show "content i ?db = content i db" "wrID ` set (dbRuns ?db) = wrID ` set (dbRuns db)"
    using ids_of_update [of "finish_row now db" "\<lambda>s. wrID s = run" "dbRuns db"]
    by (cases; simp add: finish_row_def Let_def del: set_map)+
qed

lemma UpdateRunFields_frame:
  "content i (snd (UpdateRunFields date sel label remark pinned db)) = content i db"
  "wrID ` set (dbRuns (snd (UpdateRunFields date sel label remark pinned db))) = wrID ` set (dbRuns db)"
proof -
  let ?db = "snd (UpdateRunFields date sel label remark pinned db)"
  have "?db = db \<or> (\<exists>j. ?db = db\<lparr>dbRuns := map (\<lambda>r. if wrID r = j then update_fields label remark pinned r else r) (dbRuns db)\<rparr>)"
    unfolding UpdateRunFields_def Let_def by (simp split: sum.splits option.splits) blast
  then consider "?db = db" | j where "?db = db\<lparr>dbRuns := map (\<lambda>r. if wrID r = j then update_fields label remark pinned r else r) (dbRuns db)\<rparr>"
    by blast
  then show "content i ?db = content i db" "wrID ` set (dbRuns ?db) = wrID ` set (dbRuns db)"
    using ids_of_update [of "update_fields label remark pinned" _ "dbRuns db"]
    by (cases; simp del: set_map)+
qed

text \<open>One operation that does not concern a settled run.\<close>

lemma apply_op_content:
  assumes ok: "captures_ok db" and set: "settled i db" and other: "\<not> concerns i op"
  shows "content i (apply_op out op db) = content i db \<and> i \<in> wrID ` set (dbRuns (apply_op out op db))"
proof (cases op)
  case (OpAcquire token now operation)
  then show ?thesis using set content_tables [OF lease_ops_tables(1) [of token now operation db]] by (simp add: settled_def)
next
  case (OpNote token run clk)
  show ?thesis
  proof (cases "SetCaptureLeaseRun token run clk db")
    case (Inr db')
    then show ?thesis using OpNote set content_tables [OF lease_ops_tables(2) [OF Inr]] by (simp add: settled_def)
  qed (use OpNote set in \<open>simp add: settled_def\<close>)
next
  case (OpRenew token now)
  then show ?thesis using set content_tables [OF lease_ops_tables(3) [of token now db]] by (simp add: settled_def)
next
  case (OpRelease token)
  then show ?thesis using set content_tables [OF lease_ops_tables(4) [of token db]] by (simp add: settled_def)
next
  case (OpStart source contexts now meta)
  have "wrID ` set (dbRuns db) \<subseteq> wrID ` set (dbRuns (apply_op out op db))"
    by (auto simp: OpStart StartRunWithMetadata_def Let_def split: option.splits)
  then show ?thesis using OpStart content_start [OF ok] set by (auto simp: settled_def)
next
  case (OpSave run res now token clk)
  then have "content i (apply_op out op db) = content i db" using content_save [OF ok] other by (simp add: concerns_def)
  moreover have "dbRuns (apply_op out op db) = dbRuns db" by (simp add: OpSave saveContext_runs)
  ultimately show ?thesis using set by (simp add: settled_def)
next
  case (OpFinish run now token clk)
  then show ?thesis using set by (simp add: settled_def finishRun_frame del: set_map)
next
  case (OpRecover now)
  have "wrID ` set (map (interrupt_run now) (dbRuns db)) = wrID ` set (dbRuns db)" by (rule map_cong_keys(2)) (simp add: interrupt_run_def)
  then have "wrID ` set (dbRuns (apply_op out op db)) = wrID ` set (dbRuns db)" by (simp add: OpRecover recoverOrphanedRuns_def del: set_map)
  then show ?thesis using OpRecover content_recover [OF set] set by (simp add: settled_def)
next
  case (OpUpdate sel label remark pinned)
  then show ?thesis using set by (simp add: settled_def UpdateRunFields_frame)
next
  case (OpDelete j)
  obtain r where r: "r \<in> set (dbRuns db)" "wrID r = i" using set by (auto simp: settled_def)
  then show ?thesis using content_delete [of r db "\<lambda>s. wrID s = j"] OpDelete other set
    by (auto simp: DeleteRun_def concerns_def settled_def delete_runs_sel split: sum.splits)
next
  case (OpPrune rs windows)
  obtain r where r: "r \<in> set (dbRuns db)" "wrID r = i" using set by (auto simp: settled_def)
  let ?db = "delete_runs (\<lambda>r. wrID r \<in> set rs \<and> \<not> wrPinned r \<and> wrStatus r \<noteq> ''running'') db"
  have "content i ?db = content i db" using content_delete [of r db "\<lambda>r. wrID r \<in> set rs \<and> \<not> wrPinned r \<and> wrStatus r \<noteq> ''running''"] r other
    by (simp add: OpPrune concerns_def)
  moreover have "content i (apply_op out op db) = content i ?db" by (simp add: OpPrune prune_rows_def Let_def)
  moreover have "i \<in> wrID ` set (dbRuns (apply_op out op db))"
    using r other by (auto simp: OpPrune prune_rows_def Let_def delete_runs_sel concerns_def)
  ultimately show ?thesis by simp
next
  case (OpPerf name vcenter finished status)
  then show ?thesis using set by (simp add: SavePerfWindow_def settled_def)
qed

text \<open>
  C7: A capture does not change. Once it is stored and settled, no operation of any process but a save into it or its deletion changes
  one row of its contexts, collections, machines and resources; so every later read returns the same machines.
\<close>

theorem captures_immutable:
  assumes "settled i (apply_ops out ops new_captures)" and "\<forall>op \<in> set later. \<not> concerns i op"
  shows "content i (apply_ops out (ops @ later) new_captures) = content i (apply_ops out ops new_captures)
    \<and> loadVMs decode (apply_ops out (ops @ later) new_captures) i = loadVMs decode (apply_ops out ops new_captures) i"
proof -
  let ?db = "apply_ops out ops new_captures"
  let ?I = "\<lambda>db. captures_ok db \<and> settled i db \<and> content i db = content i ?db"
  have "?I (apply_ops out later ?db)"
  proof (rule apply_ops_invariant [where I = ?I])
    show "?I ?db" using assms(1) apply_ops_ok by simp
    fix op db assume op: "op \<in> set later" and db: "?I db"
    then have step: "content i (apply_op out op db) = content i db \<and> i \<in> wrID ` set (dbRuns (apply_op out op db))"
      using assms(2) by (intro apply_op_content) simp_all
    then have "settled i (apply_op out op db)" using db by (auto simp: settled_def content_def)
    then show "?I (apply_op out op db)" using db step apply_op_ok by simp
  qed
  then show ?thesis using loadVMs_content [of i "apply_ops out later ?db" ?db decode] by simp
qed

section \<open>Selecting by label\<close>

lemma label_char_no_space: "label_char c \<Longrightarrow> \<not> is_space c"
  by (auto simp: label_char_def is_space_def is_digit_def)

lemma trim_label:
  assumes "label_pattern l"
  shows "trim_space l = l"
proof -
  have "list_all (\<lambda>c. \<not> is_space c) l"
    using assms label_char_no_space by (cases l) (auto simp: label_pattern_def list_all_iff is_space_def)
  then show ?thesis by (simp add: trim_space_no_space list_all_iff)
qed

lemma resolve_label:
  assumes "labels_ok (dbRuns db)" and "r \<in> set (dbRuns db)" and "wrLabel r = l" and "l \<noteq> []"
    and "validateRunLabel l = None" and "atoi l = None"
  shows "ResolveRun date db l = Inr (wrID r)"
proof -
  have l: "label_pattern l" "l \<noteq> ''latest''" "l \<noteq> ''previous''"
    using assms(4,5) by (auto simp: validateRunLabel_def equal_fold_def split: if_splits)
  have "List.find (\<lambda>s. equal_fold (wrLabel s) l) (dbRuns db) \<noteq> None"
    using assms(2,3) by (auto simp: find_None_iff equal_fold_def)
  then obtain s where s: "List.find (\<lambda>s. equal_fold (wrLabel s) l) (dbRuns db) = Some s" by blast
  then have "s \<in> set (dbRuns db)" "equal_fold (wrLabel s) l" using find_Some_mem by fastforce+
  then have "wrID r = wrID s"
    using labels_okD [OF assms(1,2), of s] assms(3,4) by (simp add: equal_fold_sym)
  then show ?thesis
    using s l assms(4,6) by (simp add: ResolveRun_def ResolveRunForContexts_def Let_def trim_label)
qed


section \<open>Examples\<close>

definition sample_outside :: outside where
  "sample_outside = \<lparr>ouEncode = \<lambda>r. ''{}'', ouIdentity = \<lambda>s. ([], []),
     ouDate = \<lambda>s. if s = ''2026-01-02'' then Some 200000000 else None\<rparr>"

definition sample_meta :: "string \<Rightarrow> run_metadata" where
  "sample_meta label = \<lparr>meLabel = label, meNote = [], mePinned = False, meTool = [], meSchema = [], meLicenses = False\<rparr>"

definition sample_vm :: found_vm where
  "sample_vm = \<lparr>fvID = ''vm-1'', fvInstance = [], fvBIOS = [], fvName = ''web'', fvPayload = ''{}'', fvSnapshots = []\<rparr>"

text \<open>A capture of one context with one machine and a successful collection of each kind.\<close>

definition sample_result :: context_result where
  "sample_result = \<lparr>crName = ''lab'', crVCenter = ''vc'', crStatus = [], crError = [], crSource = None, crOffset = None, crVMs = [sample_vm],
     crCollections = map (\<lambda>k. \<lparr>fcoKind = k, fcoStatus = [], fcoError = [], fcoItems = 0, fcoResources = []\<rparr>) persistedKinds\<rparr>"

definition sample_start :: "store_op list" where
  "sample_start = [OpAcquire ''a'' 0 ''capture'', OpStart ''cli'' [(''lab'', ''https://vc'', [])] 1000000 (sample_meta [])]"

definition sample_capture :: "store_op list" where
  "sample_capture = sample_start @ [OpSave 1 sample_result 2000000 (Some ''a'') (2000000, 3000000)]"

definition sample_done :: "store_op list" where
  "sample_done = sample_capture @ [OpFinish 1 4000000 (Some ''a'') 4000000, OpRelease ''a'']"

lemmas sample_defs = sample_outside_def sample_meta_def sample_vm_def sample_result_def sample_start_def sample_capture_def sample_done_def

theorem stale_writer_fenced_witness:
  "holder (apply_ops sample_outside sample_start new_captures) = Some ''a''
   \<and> RenewCaptureLease ''b'' 0 (apply_ops sample_outside [OpRecover 5] (apply_ops sample_outside sample_start new_captures))
     = (Inl LeaseGone, apply_ops sample_outside [OpRecover 5] (apply_ops sample_outside sample_start new_captures))"
proof -
  have h: "holder (apply_ops sample_outside sample_start new_captures) = Some ''a''" by code_simp
  then show ?thesis
    using stale_writer_fenced [OF h, where token = "''b''" and ops = "[OpRecover 5]" and out = sample_outside and now = 0] by simp
qed

theorem one_writer_witness:
  "lasts ''a'' 120000 (apply_ops sample_outside sample_start new_captures)
   \<and> holder (apply_ops sample_outside [OpRecover 5, OpAcquire ''b'' 7 ''prune''] (apply_ops sample_outside sample_start new_captures)) = Some ''a''"
proof -
  have l: "lasts ''a'' 120000 (apply_ops sample_outside sample_start new_captures)"
  proof -
    have "case dbLease (apply_ops sample_outside sample_start new_captures) of None \<Rightarrow> False
        | Some l \<Rightarrow> lsToken l = ''a'' \<and> 120000 \<le> lsExpires l" by code_simp
    then show ?thesis by (simp add: lasts_def split: option.splits)
  qed
  moreover have "\<forall>op \<in> set [OpRecover 5, OpAcquire ''b'' 7 ''prune'']. spares_lease ''a'' 120000 op" by code_simp
  ultimately show ?thesis
    using one_writer [OF l, of "[OpRecover 5, OpAcquire ''b'' 7 ''prune'']" "''b''" sample_outside] by simp
qed

theorem captures_immutable_witness:
  "settled 1 (apply_ops sample_outside sample_done new_captures)
   \<and> content 1 (apply_ops sample_outside (sample_done @ [OpRecover 5, OpDelete 2]) new_captures)
     = content 1 (apply_ops sample_outside sample_done new_captures)"
proof -
  have s: "settled 1 (apply_ops sample_outside sample_done new_captures)" by code_simp
  moreover have "\<forall>op \<in> set [OpRecover 5, OpDelete 2]. \<not> concerns 1 op" by code_simp
  ultimately show ?thesis using captures_immutable [OF s] by blast
qed




text \<open>A label that is a number, or a date without dashes, is accepted and can never select the capture, since a number is an ID.\<close>

theorem numeric_label_unreachable:
  "validateRunLabel ''2026'' = None
   \<and> list_ex (\<lambda>r. wrLabel r = ''2026'') (dbRuns (apply_ops sample_outside [OpStart ''cli'' [] 0 (sample_meta ''2026'')] new_captures))
   \<and> ResolveRun (ouDate sample_outside) (apply_ops sample_outside [OpStart ''cli'' [] 0 (sample_meta ''2026'')] new_captures) ''2026''
     = Inl (CaptureNotFound 2026)"
  by code_simp

text \<open>
  The capture of a date is the one with the greatest ID among those started by then, which is an older one when that was imported
  later: the first of these two captures started at 150 ms, the second at 50 ms, and the date ends at 200 ms.
\<close>

theorem date_takes_older_import:
  "map (\<lambda>r. (wrID r, wrStarted r)) (dbRuns (apply_ops sample_outside
       [OpStart ''cli'' [] 150000000 (sample_meta []), OpStart ''import'' [] 50000000 (sample_meta [])] new_captures)) = [(2, 50), (1, 150)]
   \<and> ResolveRun (ouDate sample_outside) (apply_ops sample_outside
       [OpStart ''cli'' [] 150000000 (sample_meta []), OpStart ''import'' [] 50000000 (sample_meta [])] new_captures) ''2026-01-02'' = Inr 2"
  by code_simp

text \<open>
  A deletion takes no lease: while a capture holds it, another process can delete the run that is being captured, and the capture fails
  at its end.
\<close>

theorem deleted_while_captured:
  "lease_live ''a'' 3000000 (apply_ops sample_outside sample_capture new_captures)
   \<and> dbRuns (apply_ops sample_outside (sample_capture @ [OpDelete 1]) new_captures) = []
   \<and> fst (finishRun 1 4000000 (Some ''a'') 4000000 (apply_ops sample_outside (sample_capture @ [OpDelete 1]) new_captures)) = Inl NoRow"
  by code_simp

end
