(* ===== verification/Spec2Isabelle.thy ===== *)
theory Spec2Isabelle
  imports Vlan ContextOps Session Watchdog Compare Selector Limiter Vulngate Decommission EventMatch Drift CaptureUse
begin

text \<open>
  vsfleet is a command line and terminal program that reads many VMware vCenters, stores what they
  answer as assessments in a local ledger, and answers questions about the stored estate. This library
  models the part of it that decides something: the configuration and its secrets, the sessions, the
  networks, the topology graph of a stored estate, the ledger of captures, the comparison of two captures and the history of a machine, and the
  reviews, queries, policies and gates built on them. All paths are under src/internal.

  How the parts interact. A user's configuration (config) lists contexts, one per vCenter; each names its
  secret by a reference (credentials); contextops saves and removes both together. The session manager
  (session) holds one connection per context and shares it between concurrent callers; limiter bounds the
  fetches that run at once, and the watchdog ends a silent one. A capture writes an assessment, whose
  coverage (assessment) says which parts of the estate were read. The topology graph (topology) is built from an
  assessment: it joins the observations of one object from several vCenters and turns their references
  into edges. The network comparison (network) and the decommissioning review (decommission) answer from
  that graph and from the coverage; the query language (query) selects objects, and must not decide over
  metadata that was not read. The comparison of two captures and the timeline of a machine (assessment) tell what
  changed, say nothing of what was not read, join the changes to the events of vCenter that explain them, and feed the
  drift policy. vulngate gates the releases of the program itself.

  The theories, in the order of their imports:

  \<^item> Prelude: Go strings, their case and space functions, Itoa and Atoi, integers of 64 bits with
    their wrap-around, stable sorting, and generic lemmas on lists and maps.
  \<^item> Net: the functions of the packages net and net/url that the configuration uses.
  \<^item> Vlan (network/vlan.go): VLAN settings; parsing, normal form and printing of trunks.
  \<^item> Credentials (credentials): references, the resolver, and the providers for the keyring, the
    prompt, environment variables, files and commands, with the locale of a secret store.
  \<^item> Config (config): validation and normalisation of contexts, the operations on the list of contexts,
    with the locale of a registry of contexts.
  \<^item> ContextOps (contextops): saving and removing a context together with its secret.
  \<^item> Session (session/manager.go): the manager as a heap of sessions and a map of names; each section
    under a lock is one operation, the methods are their sequences, and the interleavings of many callers
    a step relation.
  \<^item> Watchdog (session/manager.go): the idle watchdog of a streaming operation.
  \<^item> Limiter (limiter/limiter.go): the semaphore and every interleaving of its calls.
  \<^item> Estate (assessment/types.go, export.go, vsphere/types.go): the stored rows and objects, with the
    fields the modelled code reads.
  \<^item> Coverage (assessment/coverage.go, context_scope.go, export.go): what a capture can answer, and the
    selection of contexts.
  \<^item> Identity (vsphere/identity.go, topology/identity.go): the keys under which observations are one object.
  \<^item> UnionFind (topology/graph.go): the disjoint sets, with the locale of a partition.
  \<^item> Graph, Subjects, Relations (topology/graph.go): the three phases of the construction of the graph:
    records and containment, the joining of observations into subjects, and the references and edges.
  \<^item> TopoQuery (topology/query.go): resolving a name, traversal, ancestors, attachments and confidence.
  \<^item> Containment: every climb from an object to its container ends.
  \<^item> NetCompare, Compare (network/compare.go): the evidence, matching, differences and verdict of a
    comparison of two clusters, and the whole comparison over the graph.
  \<^item> Decommission (decommission): the checks and the verdict of the review of a machine.
  \<^item> Query, Selector (query): the predicate language with its three-valued evaluation, label and field
    selectors.
  \<^item> Runs (assessment/types.go): the runs of the ledger and the records whose events are matched.
  \<^item> EventMatch (assessment/event_match.go): the joining of the changes of a machine to the events of vCenter.
  \<^item> FieldDiff (assessment/diff.go and the files diff_vm): the fields of two records of a machine that differ.
  \<^item> RunDiff (assessment/diff.go, diff_vcenter.go, diff_import.go): the comparison of the machines and snapshots of two
    captures, what of them is not comparable, and the filter for imports.
  \<^item> Timeline (assessment/timeline.go, the history queries of store.go): the lineage of a machine and its events, with
    the locale of a field that is remembered across observations.
  \<^item> ResourceDiff (assessment/resource_diff.go, diff_network.go, the details of hosts and datastores): the
    comparison of the infrastructure.
  \<^item> Drift (assessment/policy.go, run_pair.go): the pair that is compared, the ages of snapshots, the whole
    difference and the policy on it.
  \<^item> Captures (assessment/store.go, maintenance.go, perf.go, collector.go): the ledger as a database. Its tables are lists of rows, an
    operation is one transaction on them: the lease of the writer with its lock file, the start, the saves and the end of
    a run, recovery, deletion, pruning, labels and the selection of a run.
  \<^item> CaptureLaws, CaptureUse: the sequences of operations of all processes, the invariants of the ledger under them, the
    exclusion of other writers, and what captures, pruning and labels promise to their users.
  \<^item> Vulngate (vulngate): the exceptions and their dates, the gate, the reduction of two scanners' output.

  What the lemmas show. Round trips: VLAN settings, secret references and predicates print to what parses
  back to them. Invariants: the heap of sessions never loses or shares a client, a saved configuration is
  valid, the subjects partition the observations. Safety: no client is used after its logout, saving one
  context leaves the secrets of the others, a verdict of ready, of no blockers or of passed is given only
  where every check was answered by evidence that was collected in full, and a query never excludes an
  object for metadata that was not read. Refinement: the array of parents implements the generated equivalence.
  Liveness and termination: every call of the limiter returns, and every climb in the graph ends. The
  traversal of the graph returns exactly the nodes within its depth; a comparison accounts for every
  network of both sides exactly once. The comparison of two captures is that of a one-to-one matching of the machines; nothing is
  called vanished that was not looked for; a move between two sightings is reported whatever lies between them; and the drift
  policy passes exactly when nothing that it forbids happened. Whatever the operations of all processes and their order,
  the ledger keeps its keys, references and labels, there is one writer at a time, a capture that has settled never changes,
  one that is complete has read all it was asked for, and pruning deletes exactly what it announces.

  Conventions. A Go string is its list of bytes; case and space functions are exact on ASCII. An int is an
  \<open>int\<close> with its range as a hypothesis and \<open>wrap64\<close> where the code may leave it. An error is a value of a sum;
  texts of messages are kept where code reads them again. A sort that is stable is \<open>sort_key\<close>. A Go map is a list
  of entries in the order the keys were first seen, or a function; where the code walks a map in Go's
  unspecified order, the order is an argument or the statement holds for the entries as a set. A decoded
  document (JSON, TOML) is the value it decodes to, and a payload that does not decode is a value of its own; the typed
  parts of a stored payload are read from that value, in the form in which the program stores them. A query of the store is a filter
  over the rows of its tables, in their order. A message that no code reads again is a constructor with its arguments.

  Parameters. What lies outside the repository is an argument of the definitions: the system keyring, the
  file system, the terminal, the dial, ping and logout of a vCenter, the connection test, the clock, the
  parse of RFC 3339 dates and the texts of instants and ages (\<open>rfc3339\<close>, \<open>utc\<close>, \<open>age_text\<close>), the text of a number of bytes
  in GiB (\<open>gib\<close>), the arithmetic of float64, and the table of fields that the query language derives from the Go
  types. What is assumed of them is a named predicate beside the definitions that use them, and the witness of
  a theorem that has such a hypothesis instantiates it.

  Bounds. The recursion of the disjoint sets has fuel one more than the highest rank or the number of
  nodes, which the invariant shows to be enough. Every other loop is structural or has a measure, but for the climb to
  a container, which is a partial function; Containment shows that it returns on every graph built.

  Not modelled, with the reason in the manifest: the terminal interface, the command line, reading vCenter through govmomi,
  the transports, the migrations, backup and repair of the database, its failures, the workbooks and their import, float64 forecasts and sizing, the
  health rules, the demo and the test bed. They are I/O, tables and layout around the modelled
  decisions, or arithmetic of a third party. The next parts of the plan are the JSONPath output, the
  health rules over the modelled records and the remembered state of the interface.
\<close>

end
